(* ===== verification/Prelude.thy ===== *)
theory Prelude
  imports Main "HOL-Library.Word" "HOL-Library.AList"
begin

unbundle bit_operations_syntax

text \<open>
  Shared vocabulary of the development: machine integers of the Go code, slices that
  panic out of range, contexts, little-endian words, and the lemma collections the
  component theories simplify with.
\<close>

named_theorems codec_simps \<open>encoders and decoders of wire values, and their lengths\<close>
named_theorems guard_defs \<open>definitions of the guards and validators of the code\<close>

section \<open>Machine integers\<close>

type_synonym byte = "8 word"
type_synonym u32 = "32 word"
type_synonym u64 = "64 word"

text \<open>
  Go's \<^verbatim>\<open>int\<close> (64 bits on every supported platform) is modelled as \<open>int\<close> with the
  wrap-around of each arithmetic operation written out by \<open>wrap64\<close>.
\<close>

definition max_int :: int where "max_int = 2 ^ 63 - 1"
definition min_int :: int where "min_int = - (2 ^ 63)"

definition wrap64 :: "int \<Rightarrow> int" where
  "wrap64 x = (x + 2 ^ 63) mod 2 ^ 64 - 2 ^ 63"

definition in_int :: "int \<Rightarrow> bool" where
  "in_int x \<longleftrightarrow> min_int \<le> x \<and> x \<le> max_int"

lemma wrap64_id [simp]: "in_int x \<Longrightarrow> wrap64 x = x"
  by (simp add: wrap64_def in_int_def min_int_def max_int_def)

lemma in_int_wrap64 [simp]: "in_int (wrap64 x)"
proof -
  have "0 \<le> (x + 2 ^ 63) mod 2 ^ 64" "(x + 2 ^ 63) mod 2 ^ 64 < 2 ^ 64" by simp_all
  then show ?thesis by (simp add: in_int_def wrap64_def min_int_def max_int_def)
qed

lemma wrap64_wrap64 [simp]: "wrap64 (wrap64 x) = wrap64 x"
  by simp

lemma in_intI: "min_int \<le> x \<Longrightarrow> x \<le> max_int \<Longrightarrow> in_int x"
  by (simp add: in_int_def)

text \<open>Go's \<^verbatim>\<open>/\<close> truncates towards zero.\<close>

definition go_div :: "int \<Rightarrow> int \<Rightarrow> int" where
  "go_div a b = sgn a * sgn b * (\<bar>a\<bar> div \<bar>b\<bar>)"

lemma go_div_pos: "0 \<le> a \<Longrightarrow> 0 < b \<Longrightarrow> go_div a b = a div b"
  by (cases "a = 0") (simp_all add: go_div_def)

section \<open>Slices\<close>

text \<open>\<^verbatim>\<open>xs[a:b]\<close>; \<open>None\<close> is the run-time panic.\<close>

definition go_slice :: "'a list \<Rightarrow> nat \<Rightarrow> nat \<Rightarrow> 'a list option" where
  "go_slice xs a b = (if a \<le> b \<and> b \<le> length xs then Some (take (b - a) (drop a xs)) else None)"

lemma go_slice_Some: "go_slice xs a b = Some ys \<Longrightarrow> length ys = b - a \<and> a \<le> b \<and> b \<le> length xs"
  by (auto simp: go_slice_def split: if_splits)

lemma go_slice_ok [simp]: "a \<le> b \<Longrightarrow> b \<le> length xs \<Longrightarrow> go_slice xs a b = Some (take (b - a) (drop a xs))"
  by (simp add: go_slice_def)

section \<open>Contexts\<close>

text \<open>
  A \<^verbatim>\<open>context.Context\<close> is what its \<^verbatim>\<open>Err()\<close> returns at each instant of an operation. The
  documented behaviour of a context is that the first error stays.
\<close>

datatype ctx_err = Canceled | DeadlineExceeded

type_synonym ctx = "nat \<Rightarrow> ctx_err option"

definition ctx_sticky :: "ctx \<Rightarrow> bool" where
  "ctx_sticky c \<longleftrightarrow> (\<forall>t u. t \<le> u \<longrightarrow> c t \<noteq> None \<longrightarrow> c u = c t)"

definition background :: ctx where "background = (\<lambda>_. None)"

definition cancel_at :: "nat \<Rightarrow> ctx_err \<Rightarrow> ctx" where
  "cancel_at n e = (\<lambda>t. if n \<le> t then Some e else None)"

lemma background_sticky [simp]: "ctx_sticky background"
  by (simp add: ctx_sticky_def background_def)

lemma cancel_at_sticky [simp]: "ctx_sticky (cancel_at n e)"
  by (simp add: ctx_sticky_def cancel_at_def)

lemma ctx_stickyD: "ctx_sticky c \<Longrightarrow> c t = Some e \<Longrightarrow> t \<le> u \<Longrightarrow> c u = Some e"
  by (metis ctx_sticky_def option.distinct(1))

section \<open>Little-endian words\<close>

definition put_u32 :: "u32 \<Rightarrow> byte list" where
  "put_u32 w = [ucast w, ucast (drop_bit 8 w), ucast (drop_bit 16 w), ucast (drop_bit 24 w)]"

fun get_u32 :: "byte list \<Rightarrow> u32 option" where
  "get_u32 (a # b # c # d # _) =
     Some (ucast a OR push_bit 8 (ucast b) OR push_bit 16 (ucast c) OR push_bit 24 (ucast d))"
| "get_u32 _ = None"

definition put_u64 :: "u64 \<Rightarrow> byte list" where
  "put_u64 w = put_u32 (ucast w) @ put_u32 (ucast (drop_bit 32 w))"

definition get_u64 :: "byte list \<Rightarrow> u64 option" where
  "get_u64 bs = (case (get_u32 bs, get_u32 (drop 4 bs)) of
     (Some lo, Some hi) \<Rightarrow> Some (ucast lo OR push_bit 32 (ucast hi)) | _ \<Rightarrow> None)"

lemma length_put_u32 [simp, codec_simps]: "length (put_u32 w) = 4"
  by (simp add: put_u32_def)

lemma length_put_u64 [simp, codec_simps]: "length (put_u64 w) = 8"
  by (simp add: put_u64_def)

lemma get_put_u32 [simp, codec_simps]: "get_u32 (put_u32 w @ bs) = Some w"
proof -
  have "ucast (ucast w :: byte) OR push_bit 8 (ucast (ucast (drop_bit 8 w) :: byte)) OR
     push_bit 16 (ucast (ucast (drop_bit 16 w) :: byte)) OR
     push_bit 24 (ucast (ucast (drop_bit 24 w) :: byte)) = w"
    (is "?r = w")
  proof (rule bit_word_eqI)
    fix n assume "n < LENGTH(32)"
    then consider "n < 8" | "8 \<le> n" "n < 16" | "16 \<le> n" "n < 24" | "24 \<le> n" "n < 32"
      by fastforce
    then show "bit ?r n = bit w n" by cases (auto simp: bit_simps)
  qed
  then show ?thesis by (simp add: put_u32_def)
qed

lemma get_put_u32_nil [simp, codec_simps]: "get_u32 (put_u32 w) = Some w"
  using get_put_u32 [of w "[]"] by simp

lemma get_put_u64 [simp, codec_simps]: "get_u64 (put_u64 w @ bs) = Some w"
proof -
  have "(ucast (ucast w :: u32) :: u64) OR push_bit 32 (ucast (ucast (drop_bit 32 w) :: u32)) = w"
    by (rule bit_word_eqI) (auto simp: bit_simps)
  then show ?thesis by (simp add: get_u64_def put_u64_def)
qed

lemma get_put_u64_nil [simp, codec_simps]: "get_u64 (put_u64 w) = Some w"
  using get_put_u64 [of w "[]"] by simp

lemma get_u32_Some_iff: "(\<exists>w. get_u32 bs = Some w) \<longleftrightarrow> 4 \<le> length bs"
  by (cases bs rule: get_u32.cases) auto

lemma get_u32_long: "4 \<le> length bs \<Longrightarrow> \<exists>w. get_u32 bs = Some w"
  by (simp add: get_u32_Some_iff)

lemma put_u32_bytes:
  "put_u32 (ucast a OR push_bit 8 (ucast b) OR push_bit 16 (ucast c) OR push_bit 24 (ucast d)) =
     [a, b, c, d]" for a b c d :: byte
  unfolding put_u32_def list.inject
  by (intro conjI refl; rule bit_word_eqI) (auto simp: bit_simps dest: bit_imp_le_length)

lemma put_get_u32: "get_u32 bs = Some w \<Longrightarrow> put_u32 w = take 4 bs"
  by (cases bs rule: get_u32.cases) (simp_all flip: put_u32_bytes)

lemma get_u32_append: "get_u32 bs = Some w \<Longrightarrow> get_u32 (bs @ x) = Some w"
  by (cases bs rule: get_u32.cases) auto

lemma get_u64_Some_iff: "(\<exists>w. get_u64 bs = Some w) \<longleftrightarrow> 8 \<le> length bs"
proof -
  have "(\<exists>w. get_u64 bs = Some w) \<longleftrightarrow> (\<exists>w. get_u32 bs = Some w) \<and> (\<exists>w. get_u32 (drop 4 bs) = Some w)"
    by (auto simp: get_u64_def split: option.splits)
  then show ?thesis by (auto simp: get_u32_Some_iff)
qed

lemma get_u64_append: "get_u64 bs = Some w \<Longrightarrow> get_u64 (bs @ x) = Some w"
proof -
  assume w: "get_u64 bs = Some w"
  then have "8 \<le> length bs" using get_u64_Some_iff by blast
  with w show ?thesis
    by (auto simp: get_u64_def get_u32_append split: option.splits)
qed

section \<open>Padding to four bytes\<close>

lemma mod4_cases: "(n :: nat) mod 4 = 0 \<or> n mod 4 = 1 \<or> n mod 4 = 2 \<or> n mod 4 = 3"
  using mod_less_divisor [of 4 n] by linarith

lemma pad4_mod [codec_simps]: "(n + (4 - n mod 4) mod 4) mod 4 = (0 :: nat)"
  by (subst mod_add_left_eq [symmetric]) (use mod4_cases [of n] in auto)

lemma add4_mod [codec_simps]: "(4 + n) mod 4 = n mod (4 :: nat)" "(5 + n) mod 4 = Suc n mod (4 :: nat)"
  "(8 + n) mod 4 = n mod (4 :: nat)" "(16 + n) mod 4 = n mod (4 :: nat)"
  by presburger+

section \<open>Association lists\<close>

text \<open>A Go map that is also ranged over: an update replaces in place or appends.\<close>

lemma alist_update_split:
  "map_of al k = Some v \<Longrightarrow>
     \<exists>xs ys. al = xs @ (k, v) # ys \<and> k \<notin> fst ` set xs \<and> (\<forall>v'. AList.update k v' al = xs @ (k, v') # ys)"
proof (induction al)
  case (Cons p al)
  show ?case
  proof (cases "fst p = k")
    case True
    with Cons.prems show ?thesis by (cases p) (intro exI [of _ "[]"] exI [of _ al], simp)
  next
    case False
    with Cons obtain xs ys where "al = xs @ (k, v) # ys" "k \<notin> fst ` set xs"
      "\<forall>v'. AList.update k v' al = xs @ (k, v') # ys"
      by (cases p) auto
    with False show ?thesis by (cases p) (intro exI [of _ "p # xs"] exI [of _ ys], auto)
  qed
qed simp

lemma alist_update_new: "k \<notin> fst ` set al \<Longrightarrow> AList.update k v al = al @ [(k, v)]"
  by (induction al) auto

section \<open>Early returns\<close>

text \<open>\<^verbatim>\<open>x, err := f(); if err != nil { return err }\<close>\<close>

fun ebind :: "'e + 'a \<Rightarrow> ('a \<Rightarrow> 'e + 'b) \<Rightarrow> 'e + 'b" where
  "ebind (Inl e) f = Inl e"
| "ebind (Inr a) f = f a"

lemma ebind_Inr_iff [simp]: "ebind m f = Inr b \<longleftrightarrow> (\<exists>a. m = Inr a \<and> f a = Inr b)"
  by (cases m) auto

lemma ebind_Inl_iff: "ebind m f = Inl e \<longleftrightarrow> m = Inl e \<or> (\<exists>a. m = Inr a \<and> f a = Inl e)"
  by (cases m) auto

lemma ebind_cong [fundef_cong]:
  "m = m' \<Longrightarrow> (\<And>a. m' = Inr a \<Longrightarrow> f a = g a) \<Longrightarrow> ebind m f = ebind m' g"
  by (cases m') auto

end
