(* ===== verification/Poll.thy ===== *)
theory Poll
  imports Prelude
begin

text \<open>
  The polling helpers of \<^verbatim>\<open>poll/poll.go\<close>: the exponential back-off \<open>adaptive_poll\<close>, the
  interval default \<open>clamp_poll\<close> and the retry loop \<open>wait_func\<close>.

  Durations are Go's \<^verbatim>\<open>time.Duration\<close>, signed 64-bit nanoseconds. The retry loop has no
  bound of its own, so it is a \<^theory_text>\<open>partial_function\<close> whose \<open>None\<close> is a call that
  never returns; the lemmas say when it does return. A loop is observed at three instants per
  round \<open>k\<close>: \<open>3 * k\<close> at the top, \<open>3 * k + 1\<close> after the callback and \<open>3 * k + 2\<close>
  when the \<^verbatim>\<open>select\<close> wakes up.
\<close>

section \<open>Intervals\<close>

definition millisecond :: int where "millisecond = 1000000"

fun adaptive_loop :: "nat \<Rightarrow> int \<Rightarrow> int \<Rightarrow> int" where
  "adaptive_loop 0 d mx = d"
| "adaptive_loop (Suc n) d mx =
     (if wrap64 (mx - d) < d then mx else adaptive_loop n (wrap64 (d * 2)) mx)"

definition adaptive_poll :: "int \<Rightarrow> int \<Rightarrow> int \<Rightarrow> int" where
  "adaptive_poll attempt base mx =
     (let attempt = (if attempt < 0 then 0 else attempt) in
      if base \<le> 0 \<or> mx \<le> 0 then 0
      else if base \<ge> mx then mx
      else adaptive_loop (nat attempt) base mx)"

definition clamp_poll :: "int \<Rightarrow> int" where
  "clamp_poll d = (if d \<le> 0 then 10 * millisecond else d)"

lemma clamp_poll_pos: "0 < clamp_poll d"
  by (simp add: clamp_poll_def millisecond_def)

lemma adaptive_loop_spec:
  "0 < d \<Longrightarrow> d \<le> mx \<Longrightarrow> mx \<le> max_int \<Longrightarrow> adaptive_loop n d mx = min mx (d * 2 ^ n)"
proof (induction n arbitrary: d)
  case 0
  then show ?case by simp
next
  case (Suc n)
  have w: "wrap64 (mx - d) = mx - d"
    using Suc.prems by (intro wrap64_id in_intI) (simp_all add: min_int_def max_int_def)
  show ?case
  proof (cases "mx - d < d")
    case True
    have "d * 2 \<le> d * 2 ^ Suc n"
      using Suc.prems(1) by (intro mult_left_mono self_le_power) simp_all
    with True have "min mx (d * 2 ^ Suc n) = mx" by linarith
    with True w show ?thesis by simp
  next
    case False
    have "wrap64 (d * 2) = d * 2"
      using False Suc.prems by (intro wrap64_id in_intI) (simp_all add: min_int_def max_int_def)
    with False w Suc.IH [of "d * 2"] Suc.prems show ?thesis by (simp add: mult.assoc)
  qed
qed

text \<open>
  The back-off is exactly the doubling of the base interval capped at the maximum: for a
  positive base below a maximum that a Go duration can hold, attempt \<open>n\<close> waits
  \<open>min mx (base * 2 ^ n)\<close>, and no addition or doubling in the loop wraps around however large
  the attempt number is.
\<close>

theorem adaptive_poll_spec:
  assumes "0 < base" "0 < mx" "mx \<le> max_int"
  shows "adaptive_poll attempt base mx = min mx (base * 2 ^ nat attempt)"
proof (cases "mx \<le> base")
  case True
  have "base * 1 \<le> base * 2 ^ nat attempt"
    using assms(1) by (intro mult_left_mono) simp_all
  with True have "min mx (base * 2 ^ nat attempt) = mx" by linarith
  with True assms show ?thesis by (simp add: adaptive_poll_def Let_def)
next
  case False
  with assms show ?thesis
    by (simp add: adaptive_poll_def Let_def adaptive_loop_spec nat_eq_iff2)
qed

theorem adaptive_poll_spec_witness:
  "adaptive_poll 5 (10 * millisecond) (200 * millisecond) =
     min (200 * millisecond) ((10 * millisecond) * 2 ^ nat 5)"
  by (rule adaptive_poll_spec) (simp_all add: millisecond_def max_int_def)

section \<open>The retry loop\<close>

datatype 'e wait_error = NilFunction | WaitContext ctx_err

partial_function (option) wait_loop ::
    "ctx \<Rightarrow> (nat \<Rightarrow> 'e + 'a) \<Rightarrow> nat \<Rightarrow> (ctx_err + 'a) option" where
  "wait_loop c fn k =
     (case c (3 * k) of
        Some e \<Rightarrow> Some (Inl e)
      | None \<Rightarrow>
         (case c (3 * k + 1) of
            Some e \<Rightarrow> Some (Inl e)
          | None \<Rightarrow>
             (case fn k of
                Inr v \<Rightarrow> Some (Inr v)
              | Inl _ \<Rightarrow>
                 (case c (3 * k + 2) of
                    Some e \<Rightarrow> Some (Inl e)
                  | None \<Rightarrow> wait_loop c fn (Suc k)))))"

text \<open>\<open>fn\<close> is \<open>None\<close> for a nil callback; \<open>fn k\<close> is what the call number \<open>k\<close> returns.\<close>

definition wait_func ::
    "ctx \<Rightarrow> (nat \<Rightarrow> 'e + 'a) option \<Rightarrow> ('e wait_error + 'a) option" where
  "wait_func c fn =
     (case fn of
        None \<Rightarrow> Some (Inl NilFunction)
      | Some f \<Rightarrow> map_option (map_sum WaitContext id) (wait_loop c f 0))"

lemmas wait_loop_unfold = wait_loop.simps

text \<open>The first round that can end the loop: the callback succeeds or the context is done.\<close>

definition quiet_round :: "ctx \<Rightarrow> (nat \<Rightarrow> 'e + 'a) \<Rightarrow> nat \<Rightarrow> bool" where
  "quiet_round c fn k \<longleftrightarrow>
     c (3 * k) = None \<and> c (3 * k + 1) = None \<and> c (3 * k + 2) = None \<and> (\<exists>e. fn k = Inl e)"

lemma wait_loop_quiet: "quiet_round c fn k \<Longrightarrow> wait_loop c fn k = wait_loop c fn (Suc k)"
  by (subst wait_loop_unfold) (auto simp: quiet_round_def)

lemma wait_loop_skip:
  "(\<forall>j. k \<le> j \<and> j < k + n \<longrightarrow> quiet_round c fn j) \<Longrightarrow>
     wait_loop c fn k = wait_loop c fn (k + n)"
proof (induction n arbitrary: k)
  case 0
  then show ?case by simp
next
  case (Suc n)
  have "wait_loop c fn k = wait_loop c fn (Suc k)"
    using Suc.prems by (intro wait_loop_quiet) simp
  also have "\<dots> = wait_loop c fn (Suc k + n)"
    using Suc.prems by (intro Suc.IH) simp
  finally show ?case by simp
qed

lemma wait_loop_loud: "\<not> quiet_round c fn k \<Longrightarrow> \<exists>r. wait_loop c fn k = Some r"
  by (subst wait_loop_unfold)
    (auto simp: quiet_round_def split: option.splits sum.splits)

lemma wait_loop_returns:
  assumes "\<not> quiet_round c fn n"
  shows "\<exists>m r. m \<le> n \<and> (\<forall>j < m. quiet_round c fn j) \<and> \<not> quiet_round c fn m \<and>
           wait_loop c fn 0 = wait_loop c fn m \<and> wait_loop c fn m = Some r"
proof -
  obtain m where m: "\<not> quiet_round c fn m" and q: "\<forall>j < m. quiet_round c fn j"
    using assms exists_least_iff [of "\<lambda>m. \<not> quiet_round c fn m"] by auto
  have "m \<le> n" using assms q by (meson not_le)
  moreover have "wait_loop c fn 0 = wait_loop c fn m"
    using wait_loop_skip [of 0 m c fn] q by simp
  moreover obtain r where "wait_loop c fn m = Some r" using wait_loop_loud [OF m] by blast
  ultimately show ?thesis using m q by blast
qed

text \<open>
  The retry loop returns the first success: when the callback fails on every call before
  call \<open>n\<close>, succeeds there with \<open>v\<close>, and the context is live up to the check after that call,
  the result is \<open>v\<close>.
\<close>

theorem wait_func_first_success:
  assumes "\<forall>j < n. \<exists>e. fn j = Inl e" "fn n = Inr v" "\<forall>t \<le> 3 * n + 1. c t = None"
  shows "wait_func c (Some fn) = Some (Inr v)"
proof -
  have "wait_loop c fn 0 = wait_loop c fn (0 + n)"
    by (rule wait_loop_skip) (use assms in \<open>auto simp: quiet_round_def\<close>)
  moreover have "wait_loop c fn n = Some (Inr v)"
    by (subst wait_loop_unfold) (simp add: assms)
  ultimately show ?thesis by (simp add: wait_func_def)
qed

theorem wait_func_first_success_witness:
  "wait_func (cancel_at 20 Canceled) (Some (\<lambda>k. if k < 3 then Inl ''no'' else Inr k)) = Some (Inr 3)"
  by (rule wait_func_first_success [where n = 3]) (auto simp: cancel_at_def)

text \<open>
  C37. The loop never outlives its context: once the context is done at some instant the call
  returns, and then either with the context's own error or with the value of a callback
  that was reached while the context was still live.
\<close>

theorem wait_func_cancel_returns:
  assumes "ctx_sticky c" "c t = Some e"
  shows "wait_func c (Some fn) = Some (Inl (WaitContext e)) \<or>
    (\<exists>n v. n \<le> t \<and> fn n = Inr v \<and> c (3 * n + 1) = None \<and> wait_func c (Some fn) = Some (Inr v))"
proof -
  have "c (3 * t) = Some e" using assms by (rule ctx_stickyD) simp
  then have "\<not> quiet_round c fn t" by (simp add: quiet_round_def)
  then obtain m r where m: "m \<le> t" "wait_loop c fn 0 = wait_loop c fn m" "\<not> quiet_round c fn m"
    and r: "wait_loop c fn m = Some r"
    using wait_loop_returns by blast
  have same: "c u = Some e' \<Longrightarrow> e' = e" for u e'
    using assms by (metis ctx_stickyD linear option.inject)
  show ?thesis
    using m r same
    by (subst (asm) wait_loop_unfold)
       (auto simp: wait_func_def quiet_round_def split: option.splits sum.splits)
qed

theorem wait_func_cancel_returns_witness:
  "wait_func (cancel_at 7 DeadlineExceeded) (Some (\<lambda>k. Inl k :: nat + nat)) =
     Some (Inl (WaitContext DeadlineExceeded))"
  using wait_func_cancel_returns [OF cancel_at_sticky, of 7 DeadlineExceeded 7 _ "\<lambda>k. Inl k :: nat + nat"]
  by (simp add: cancel_at_def)

end
