(* ===== verification/Tracker.thy ===== *)
theory Tracker
  imports Prelude
begin

text \<open>
  The operation tracker of \<^verbatim>\<open>internal/operation/tracker.go\<close>: admission of operations, the
  idempotent release handed to each, and a shutdown that cancels and drains the admitted work
  before it runs the release callback. Every critical section of the Go mutex is one step;
  goroutines are numbered, and a goroutine inside \<^verbatim>\<open>Close\<close> is at one of the points of
  \<open>closer\<close>. Channels are numbered in the order they are made. The Go counter \<^verbatim>\<open>next\<close> is a
  \<^verbatim>\<open>uint64\<close>, which is never advanced \<open>2 ^ 64\<close> times; it is a \<open>nat\<close> here.
\<close>

section \<open>State\<close>

text \<open>The result of \<^verbatim>\<open>release\<close> and of \<^verbatim>\<open>Close\<close> is an error or nil (\<open>None\<close>).\<close>

datatype 'e closer =
    Outside
  | Cancelling "nat option" "nat set"
  | Draining "nat option"
  | Releasing
  | Publishing "'e option"
  | Waiting
  | Returned "'e option"

record 'e tracker =
  closed :: bool
  close_done :: "bool option"
  close_err :: "'e option"
  active :: "nat set"
  active_done :: "nat option"
  next_op :: nat
  cancelled :: "nat set"
  finished :: "nat set"
  next_chan :: nat
  closed_chans :: "nat set"
  closers :: "nat \<Rightarrow> 'e closer"
  releases :: nat

text \<open>The zero value of the Go struct: a tracker is ready without a constructor.\<close>

definition zero_tracker :: "'e tracker" where
  "zero_tracker = \<lparr>closed = False, close_done = None, close_err = None, active = {},
     active_done = None, next_op = 0, cancelled = {}, finished = {}, next_chan = 0,
     closed_chans = {}, closers = (\<lambda>_. Outside), releases = 0\<rparr>"

section \<open>Operations\<close>

datatype begin_error = BeginContext ctx_err | BeginClosed

definition begin_op :: "ctx_err option \<Rightarrow> 'e tracker \<Rightarrow> (begin_error + nat) \<times> 'e tracker" where
  "begin_op cerr t =
     (case cerr of
        Some e \<Rightarrow> (Inl (BeginContext e), t)
      | None \<Rightarrow>
          if closed t then (Inl BeginClosed, t)
          else
            let t = (if active t = {}
                     then t\<lparr>active_done := Some (next_chan t), next_chan := Suc (next_chan t)\<rparr>
                     else t);
                t = t\<lparr>next_op := Suc (next_op t)\<rparr>
            in (Inr (next_op t), t\<lparr>active := insert (next_op t) (active t)\<rparr>))"

text \<open>
  The release of operation \<open>i\<close>: a \<^verbatim>\<open>sync.Once\<close> around cancel, delete and, for the last
  operation, the close of \<^verbatim>\<open>activeDone\<close>. Closing a nil or closed channel panics (\<open>None\<close>).
\<close>

definition close_chan :: "nat option \<Rightarrow> nat set \<Rightarrow> nat set option" where
  "close_chan ch cs = (case ch of None \<Rightarrow> None | Some c \<Rightarrow> if c \<in> cs then None else Some (insert c cs))"

definition finish_op :: "nat \<Rightarrow> 'e tracker \<Rightarrow> 'e tracker option" where
  "finish_op i t =
     (if i \<in> finished t then Some t
      else
        let t = t\<lparr>finished := insert i (finished t), cancelled := insert i (cancelled t),
                  active := active t - {i}\<rparr>
        in if active t = {}
           then map_option (\<lambda>cs. t\<lparr>closed_chans := cs, active_done := None\<rparr>)
                  (close_chan (active_done t) (closed_chans t))
           else Some t)"

definition is_closed :: "'e tracker \<Rightarrow> bool" where
  "is_closed t = closed t"

definition set_closer :: "nat \<Rightarrow> 'e closer \<Rightarrow> 'e tracker \<Rightarrow> 'e tracker" where
  "set_closer g pc t = t\<lparr>closers := (closers t)(g := pc)\<rparr>"

text \<open>\<^verbatim>\<open>Close\<close>, one definition per critical section or blocking point, in program order.\<close>

definition close_enter :: "nat \<Rightarrow> 'e tracker \<Rightarrow> 'e tracker" where
  "close_enter g t =
     (if closed t then set_closer g Waiting t
      else set_closer g (Cancelling (active_done t) (active t))
             (t\<lparr>closed := True, close_done := Some False\<rparr>))"

definition close_cancel :: "nat \<Rightarrow> nat option \<Rightarrow> nat set \<Rightarrow> 'e tracker \<Rightarrow> 'e tracker" where
  "close_cancel g ch ids t = set_closer g (Draining ch) (t\<lparr>cancelled := cancelled t \<union> ids\<rparr>)"

definition drained :: "nat option \<Rightarrow> 'e tracker \<Rightarrow> bool" where
  "drained ch t \<longleftrightarrow> (case ch of None \<Rightarrow> True | Some c \<Rightarrow> c \<in> closed_chans t)"

definition close_release :: "nat \<Rightarrow> 'e option \<Rightarrow> 'e tracker \<Rightarrow> 'e tracker" where
  "close_release g r t = set_closer g (Publishing r) (t\<lparr>releases := Suc (releases t)\<rparr>)"

definition close_publish :: "nat \<Rightarrow> 'e option \<Rightarrow> 'e tracker \<Rightarrow> 'e tracker" where
  "close_publish g r t = set_closer g (Returned r) (t\<lparr>close_err := r, close_done := Some True\<rparr>)"

section \<open>Interleavings\<close>

inductive tracker_step :: "'e tracker \<Rightarrow> 'e tracker \<Rightarrow> bool" where
  admit: "tracker_step t (snd (begin_op cerr t))"
| finish: "i \<in> {1..next_op t} \<Longrightarrow> finish_op i t = Some t' \<Longrightarrow> tracker_step t t'"
| enter: "closers t g = Outside \<Longrightarrow> tracker_step t (close_enter g t)"
| cancel: "closers t g = Cancelling ch ids \<Longrightarrow> tracker_step t (close_cancel g ch ids t)"
| drain: "closers t g = Draining ch \<Longrightarrow> drained ch t \<Longrightarrow> tracker_step t (set_closer g Releasing t)"
| release: "closers t g = Releasing \<Longrightarrow> tracker_step t (close_release g r t)"
| publish: "closers t g = Publishing r \<Longrightarrow> tracker_step t (close_publish g r t)"
| wait: "closers t g = Waiting \<Longrightarrow> close_done t = Some True \<Longrightarrow>
    tracker_step t (set_closer g (Returned (close_err t)) t)"

inductive tracker_reach :: "'e tracker \<Rightarrow> bool" where
  zero: "tracker_reach zero_tracker"
| step: "tracker_reach t \<Longrightarrow> tracker_step t t' \<Longrightarrow> tracker_reach t'"

section \<open>Invariant\<close>

fun working :: "'e closer \<Rightarrow> bool" where
  "working (Cancelling _ _) = True"
| "working (Draining _) = True"
| "working Releasing = True"
| "working (Publishing _) = True"
| "working _ = False"

text \<open>What a goroutine's position inside \<^verbatim>\<open>Close\<close> says about the tracker.\<close>

fun closer_ok :: "'e tracker \<Rightarrow> 'e closer \<Rightarrow> bool" where
  "closer_ok t Outside = True"
| "closer_ok t (Cancelling ch ids) =
     (close_done t = Some False \<and> releases t = 0 \<and>
      (case ch of None \<Rightarrow> active t = {}
       | Some c \<Rightarrow> (if c \<in> closed_chans t then active t = {} else active_done t = Some c)))"
| "closer_ok t (Draining ch) =
     (close_done t = Some False \<and> releases t = 0 \<and>
      (case ch of None \<Rightarrow> active t = {}
       | Some c \<Rightarrow> (if c \<in> closed_chans t then active t = {} else active_done t = Some c)))"
| "closer_ok t Releasing = (close_done t = Some False \<and> releases t = 0 \<and> active t = {})"
| "closer_ok t (Publishing r) = (close_done t = Some False \<and> releases t = 1 \<and> active t = {})"
| "closer_ok t Waiting = closed t"
| "closer_ok t (Returned r) = (close_done t = Some True \<and> close_err t = r)"

definition ops_ok :: "'e tracker \<Rightarrow> bool" where
  "ops_ok t \<longleftrightarrow>
     (active t = {} \<longleftrightarrow> active_done t = None) \<and>
     (\<forall>c. active_done t = Some c \<longrightarrow> c \<notin> closed_chans t \<and> c < next_chan t) \<and>
     (\<forall>c \<in> closed_chans t. c < next_chan t) \<and>
     active t \<inter> finished t = {} \<and> active t \<union> finished t = {1..next_op t}"

definition shutdown_ok :: "'e tracker \<Rightarrow> bool" where
  "shutdown_ok t \<longleftrightarrow>
     (closed t \<longleftrightarrow> close_done t \<noteq> None) \<and>
     (close_done t \<noteq> Some True \<longrightarrow> releases t \<le> 1) \<and>
     (\<not> closed t \<longrightarrow> releases t = 0) \<and>
     (close_done t = Some True \<longrightarrow> releases t = 1 \<and> active t = {}) \<and>
     (close_done t = Some False \<longrightarrow> (\<exists>g. working (closers t g))) \<and>
     (\<forall>g h. working (closers t g) \<longrightarrow> working (closers t h) \<longrightarrow> g = h) \<and>
     (\<forall>g. closer_ok t (closers t g))"

definition tracker_inv :: "'e tracker \<Rightarrow> bool" where
  "tracker_inv t \<longleftrightarrow> ops_ok t \<and> shutdown_ok t"

lemma zero_tracker_inv: "tracker_inv zero_tracker"
  by (simp add: tracker_inv_def ops_ok_def shutdown_ok_def zero_tracker_def)

lemmas closer_defs = close_enter_def close_cancel_def close_release_def close_publish_def
  set_closer_def drained_def


subsection \<open>Every critical section keeps the invariant\<close>

lemma unclosed_outside:
  assumes "shutdown_ok t" "\<not> closed t"
  shows "closers t g = Outside"
proof -
  have "closer_ok t (closers t g)" "close_done t = None"
    using assms by (simp_all add: shutdown_ok_def)
  with assms(2) show ?thesis by (cases "closers t g") simp_all
qed

lemma unclosed_shutdown_ok: "\<not> closed t \<Longrightarrow> shutdown_ok t \<longleftrightarrow>
    close_done t = None \<and> releases t = 0 \<and> (\<forall>g. closers t g = Outside)"
  by (rule iffI, intro conjI allI unclosed_outside) (simp_all add: shutdown_ok_def)

lemma begin_op_inv:
  assumes "tracker_inv t"
  shows "tracker_inv (snd (begin_op cerr t))"
proof (cases "cerr = None \<and> \<not> closed t")
  case False
  with assms show ?thesis by (auto simp: begin_op_def split: option.split)
next
  case True
  let ?t = "snd (begin_op cerr t)"
  have o: "ops_ok t" and s: "shutdown_ok t" using assms by (simp_all add: tracker_inv_def)
  have uni: "active t \<union> finished t = {1..next_op t}" and dis: "active t \<inter> finished t = {}"
    using o by (simp_all add: ops_ok_def)
  have fresh: "Suc (next_op t) \<notin> finished t"
  proof
    assume "Suc (next_op t) \<in> finished t"
    then have "Suc (next_op t) \<in> {1..next_op t}" using uni by blast
    then show False by simp
  qed
  have uni': "insert (Suc (next_op t)) (active t \<union> finished t) = {1..Suc (next_op t)}"
    by (simp add: uni atLeastAtMostSuc_conv)
  have "ops_ok ?t"
  proof (cases "active t = {}")
    case empty: True
    have "next_chan t \<notin> closed_chans t" using o by (auto simp: ops_ok_def)
    with o empty fresh uni' True show ?thesis
      by (simp add: ops_ok_def begin_op_def Let_def less_Suc_eq)
  next
    case False
    with o fresh uni' True dis show ?thesis
      by (simp add: ops_ok_def begin_op_def Let_def)
  qed
  moreover have "shutdown_ok ?t"
    using s True by (simp add: unclosed_shutdown_ok begin_op_def Let_def)
  ultimately show ?thesis by (simp add: tracker_inv_def)
qed

lemma finish_op_total:
  assumes "tracker_inv t" "i \<in> {1..next_op t}"
  shows "\<exists>t'. finish_op i t = Some t'"
proof (cases "i \<in> finished t")
  case True
  then show ?thesis by (simp add: finish_op_def)
next
  case False
  with assms have "i \<in> active t" by (auto simp: tracker_inv_def ops_ok_def)
  with assms obtain c where "active_done t = Some c" "c \<notin> closed_chans t"
    unfolding tracker_inv_def ops_ok_def by blast
  with False show ?thesis by (simp add: finish_op_def close_chan_def Let_def)
qed

lemma finish_op_cases:
  assumes "tracker_inv t" "i \<in> {1..next_op t}" "finish_op i t = Some t'"
  obtains (noop) "i \<in> finished t" "t' = t"
  | (more) "i \<in> active t" "active t \<noteq> {i}"
      "t' = t\<lparr>finished := insert i (finished t), cancelled := insert i (cancelled t),
              active := active t - {i}\<rparr>"
  | (last) c where "active t = {i}" "active_done t = Some c"
      "t' = t\<lparr>finished := insert i (finished t), cancelled := insert i (cancelled t),
              active := {}, closed_chans := insert c (closed_chans t), active_done := None\<rparr>"
proof (cases "i \<in> finished t")
  case True
  with assms(3) show ?thesis by (intro that(1)) (simp_all add: finish_op_def)
next
  case False
  with assms have i: "i \<in> active t" by (auto simp: tracker_inv_def ops_ok_def)
  show ?thesis
  proof (cases "active t = {i}")
    case True
    with assms(1) obtain c where c: "active_done t = Some c" "c \<notin> closed_chans t"
      unfolding tracker_inv_def ops_ok_def by blast
    with False True assms(3) show ?thesis
      by (intro that(3)) (auto simp: finish_op_def close_chan_def Let_def)
  next
    case more: False
    with i have "active t - {i} \<noteq> {}" by auto
    with False i more assms(3) show ?thesis
      by (intro that(2)) (auto simp: finish_op_def Let_def)
  qed
qed

lemma finish_op_inv:
  assumes inv: "tracker_inv t" and "i \<in> {1..next_op t}" "finish_op i t = Some t'"
  shows "tracker_inv t'"
  using assms
proof (cases rule: finish_op_cases)
  case noop
  with inv show ?thesis by simp
next
  case more
  have "closer_ok t (closers t g) \<Longrightarrow> closer_ok t' (closers t g)" for g
    using more by (cases "closers t g") (auto split: option.splits)
  with inv more show ?thesis
    unfolding tracker_inv_def ops_ok_def shutdown_ok_def by auto
next
  case (last c)
  have "closer_ok t (closers t g) \<Longrightarrow> closer_ok t' (closers t g)" for g
    using last by (cases "closers t g") (auto split: option.splits if_splits)
  with inv last show ?thesis
    unfolding tracker_inv_def ops_ok_def shutdown_ok_def by auto
qed

lemma shutdown_okD:
  "shutdown_ok t \<Longrightarrow> closer_ok t (closers t g)"
  "shutdown_ok t \<Longrightarrow> working (closers t g) \<Longrightarrow> working (closers t h) \<Longrightarrow> g = h"
  by (simp_all add: shutdown_ok_def)

text \<open>
  A step of the one working goroutine: the others are outside, waiting or back, and their
  position stays right as long as the step does not take back a published result.
\<close>

lemma worker_step:
  assumes "shutdown_ok t" "working (closers t g)" "h \<noteq> g"
  shows "closers t h = Outside \<or> closers t h = Waiting"
  using shutdown_okD(1) [OF assms(1), of h] shutdown_okD(1) [OF assms(1), of g]
    shutdown_okD(2) [OF assms(1), of g h] assms(2,3)
  by (cases "closers t h"; cases "closers t g") auto

lemma working_open: "shutdown_ok t \<Longrightarrow> working (closers t g) \<Longrightarrow>
    close_done t = Some False \<and> closed t"
  using shutdown_okD(1) [of t g] by (cases "closers t g") (auto simp: shutdown_ok_def)

lemma worker_moves:
  assumes s: "shutdown_ok t" "working (closers t g)"
    and t': "closers t' = (closers t)(g := pc)" "closed t' = closed t"
    and pc: "working pc" "closer_ok t' pc" "close_done t' = Some False" "releases t' \<le> 1"
  shows "shutdown_ok t'"
proof -
  have open_t: "closed t" using working_open [OF s] by simp
  have others: "h \<noteq> g \<Longrightarrow> closers t h = Outside \<or> closers t h = Waiting" for h
    using worker_step [OF s] .
  have "closer_ok t' (closers t' h)" for h
    using others [of h] pc t' open_t by (cases "h = g") auto
  moreover have "working (closers t' h) \<Longrightarrow> h = g" for h
    using others [of h] t' by (cases "h = g") auto
  moreover have "working (closers t' g)" using t' pc by simp
  moreover have "close_done t' \<noteq> None" "close_done t' \<noteq> Some True" "closed t'"
    using t' pc open_t by simp_all
  ultimately show ?thesis
    using pc(4) unfolding shutdown_ok_def by blast
qed

lemma worker_returns:
  assumes s: "shutdown_ok t" "working (closers t g)"
    and t': "closers t' = (closers t)(g := Returned r)" "closed t' = closed t"
    and pc: "close_err t' = r" "close_done t' = Some True" "releases t' = 1" "active t' = {}"
  shows "shutdown_ok t'"
proof -
  have open_t: "closed t" using working_open [OF s] by simp
  have others: "h \<noteq> g \<Longrightarrow> closers t h = Outside \<or> closers t h = Waiting" for h
    using worker_step [OF s] .
  have "closer_ok t' (closers t' h)" for h
    using others [of h] pc t' open_t by (cases "h = g") auto
  moreover have "\<not> working (closers t' h)" for h
    using others [of h] t' by (cases "h = g") auto
  ultimately show ?thesis
    using t' pc open_t unfolding shutdown_ok_def by simp
qed

lemma bystander_moves:
  assumes s: "shutdown_ok t" "\<not> working (closers t g)" "\<not> working pc" "closer_ok t pc"
  shows "shutdown_ok (set_closer g pc t)"
proof -
  have ok: "closer_ok (set_closer g pc t) x = closer_ok t x" for x
    by (cases x) (auto simp: set_closer_def split: option.splits)
  have w: "working (closers (set_closer g pc t) h) = working (closers t h)" for h
    using s by (simp add: set_closer_def)
  have "closer_ok t (closers (set_closer g pc t) h)" for h
    using s by (simp add: set_closer_def shutdown_ok_def)
  with s(1) show ?thesis
    unfolding shutdown_ok_def ok w by (simp add: set_closer_def)
qed

lemma ops_ok_set_closer [simp]: "ops_ok (set_closer g pc t) = ops_ok t"
  by (simp add: ops_ok_def set_closer_def)

lemma ops_ok_frame [simp]:
  "ops_ok (t\<lparr>closed := b, close_done := d\<rparr>) = ops_ok t"
  "ops_ok (t\<lparr>close_err := r, close_done := d\<rparr>) = ops_ok t"
  "ops_ok (t\<lparr>releases := n\<rparr>) = ops_ok t"
  "ops_ok (t\<lparr>cancelled := cs\<rparr>) = ops_ok t"
  by (simp_all add: ops_ok_def)

lemma close_enter_inv:
  assumes inv: "tracker_inv t" and g: "closers t g = Outside"
  shows "tracker_inv (close_enter g t)"
proof (cases "closed t")
  case True
  with inv g show ?thesis
    by (simp add: tracker_inv_def close_enter_def bystander_moves)
next
  case False
  have s: "close_done t = None" "releases t = 0" "\<And>h. closers t h = Outside"
    using inv False by (simp_all add: tracker_inv_def unclosed_shutdown_ok)
  have o: "active t = {} \<longleftrightarrow> active_done t = None" "\<And>c. active_done t = Some c \<Longrightarrow> c \<notin> closed_chans t"
    using inv by (simp_all add: tracker_inv_def ops_ok_def)
  have "shutdown_ok (close_enter g t)"
    unfolding shutdown_ok_def
    using False s o by (auto simp: close_enter_def set_closer_def split: option.split)
  with inv False show ?thesis by (simp add: tracker_inv_def close_enter_def)
qed

lemma closer_steps_inv:
  assumes inv: "tracker_inv t"
  shows "closers t g = Cancelling ch ids \<Longrightarrow> tracker_inv (close_cancel g ch ids t)"
    and "closers t g = Draining ch \<Longrightarrow> drained ch t \<Longrightarrow> tracker_inv (set_closer g Releasing t)"
    and "closers t g = Releasing \<Longrightarrow> tracker_inv (close_release g r t)"
    and "closers t g = Publishing r \<Longrightarrow> tracker_inv (close_publish g r t)"
    and "closers t g = Waiting \<Longrightarrow> close_done t = Some True \<Longrightarrow>
           tracker_inv (set_closer g (Returned (close_err t)) t)"
proof -
  have s: "shutdown_ok t" and ok: "closer_ok t (closers t g)"
    using inv by (simp_all add: tracker_inv_def shutdown_ok_def)
  show "tracker_inv (close_cancel g ch ids t)" if "closers t g = Cancelling ch ids"
  proof -
    have "shutdown_ok (close_cancel g ch ids t)"
      using ok that
      by (intro worker_moves [OF s, where pc = "Draining ch" and g = g])
         (simp_all add: closer_defs split: option.splits)
    with inv show ?thesis by (simp add: tracker_inv_def close_cancel_def)
  qed
  show "tracker_inv (set_closer g Releasing t)" if "closers t g = Draining ch" "drained ch t"
  proof -
    have "shutdown_ok (set_closer g Releasing t)"
      using ok that
      by (intro worker_moves [OF s, where pc = Releasing and g = g])
         (simp_all add: closer_defs split: option.splits)
    with inv show ?thesis by (simp add: tracker_inv_def)
  qed
  show "tracker_inv (close_release g r t)" if "closers t g = Releasing"
  proof -
    have "shutdown_ok (close_release g r t)"
      using ok that
      by (intro worker_moves [OF s, where pc = "Publishing r" and g = g])
         (simp_all add: closer_defs)
    with inv show ?thesis by (simp add: tracker_inv_def close_release_def)
  qed
  show "tracker_inv (close_publish g r t)" if "closers t g = Publishing r"
  proof -
    have "shutdown_ok (close_publish g r t)"
      using ok that
      by (intro worker_returns [OF s, where r = r and g = g]) (simp_all add: closer_defs)
    with inv show ?thesis by (simp add: tracker_inv_def close_publish_def)
  qed
  show "tracker_inv (set_closer g (Returned (close_err t)) t)"
    if "closers t g = Waiting" "close_done t = Some True"
    using inv that by (simp add: tracker_inv_def bystander_moves)
qed

lemma tracker_step_inv: "tracker_step t t' \<Longrightarrow> tracker_inv t \<Longrightarrow> tracker_inv t'"
  by (induction rule: tracker_step.induct)
     (auto intro: begin_op_inv finish_op_inv close_enter_inv closer_steps_inv)

lemma tracker_reach_inv: "tracker_reach t \<Longrightarrow> tracker_inv t"
  by (induction rule: tracker_reach.induct) (auto intro: zero_tracker_inv tracker_step_inv)

section \<open>What the tracker promises\<close>

text \<open>A run used by the witnesses: one operation is admitted, goroutine 0 closes the tracker
  while goroutine 1 waits, the operation is released, and both calls return.\<close>

definition demo_run :: "nat \<Rightarrow> string tracker" where
  "demo_run n =
     (let t1 = snd (begin_op None zero_tracker);
          t2 = close_enter 0 t1;
          t3 = close_enter 1 t2;
          t4 = close_cancel 0 (Some 0) {1} t3;
          t5 = the (finish_op 1 t4);
          t6 = set_closer 0 Releasing t5;
          t7 = close_release 0 (Some ''busy'') t6;
          t8 = close_publish 0 (Some ''busy'') t7;
          t9 = set_closer 1 (Returned (close_err t8)) t8
      in [zero_tracker, t1, t2, t3, t4, t5, t6, t7, t8, t9] ! n)"

lemmas demo_defs = demo_run_def begin_op_def zero_tracker_def finish_op_def close_chan_def Let_def

lemma demo_steps:
  "tracker_step (demo_run 0) (demo_run 1)" "tracker_step (demo_run 1) (demo_run 2)"
  "tracker_step (demo_run 2) (demo_run 3)" "tracker_step (demo_run 3) (demo_run 4)"
  "tracker_step (demo_run 4) (demo_run 5)" "tracker_step (demo_run 5) (demo_run 6)"
  "tracker_step (demo_run 6) (demo_run 7)" "tracker_step (demo_run 7) (demo_run 8)"
  "tracker_step (demo_run 8) (demo_run 9)"
proof -
  show "tracker_step (demo_run 0) (demo_run 1)"
    using admit [of zero_tracker None] by (simp add: demo_run_def Let_def)
  show "tracker_step (demo_run 1) (demo_run 2)"
    using enter [of "demo_run 1" 0] by (simp add: demo_defs)
  show "tracker_step (demo_run 2) (demo_run 3)"
    using enter [of "demo_run 2" 1] by (simp add: demo_defs closer_defs)
  show "tracker_step (demo_run 3) (demo_run 4)"
    using cancel [of "demo_run 3" 0 "Some 0" "{1}"] by (simp add: demo_defs closer_defs)
  show "tracker_step (demo_run 4) (demo_run 5)"
    using finish [of 1 "demo_run 4" "demo_run 5"] by (simp add: demo_defs closer_defs)
  show "tracker_step (demo_run 5) (demo_run 6)"
    using drain [of "demo_run 5" 0 "Some 0"] by (simp add: demo_defs closer_defs)
  show "tracker_step (demo_run 6) (demo_run 7)"
    using release [of "demo_run 6" 0 "Some ''busy''"] by (simp add: demo_defs closer_defs)
  show "tracker_step (demo_run 7) (demo_run 8)"
    using publish [of "demo_run 7" 0 "Some ''busy''"] by (simp add: demo_defs closer_defs)
  show "tracker_step (demo_run 8) (demo_run 9)"
    using wait [of "demo_run 8" 1] by (simp add: demo_defs closer_defs)
qed

lemma demo_reach: "n < 10 \<Longrightarrow> tracker_reach (demo_run n)"
proof (induction n)
  case 0
  show ?case by (simp add: demo_run_def Let_def zero)
next
  case (Suc n)
  have "n \<in> {0, 1, 2, 3, 4, 5, 6, 7, 8}" using Suc.prems by auto
  then have "tracker_step (demo_run n) (demo_run (Suc n))"
    using demo_steps by (auto simp: eval_nat_numeral)
  with Suc show ?case by (simp add: tracker_reach.step)
qed

text \<open>
  C1. However admissions, releases and any number of concurrent \<^verbatim>\<open>Close\<close> calls interleave, the
  resource callback runs at most once, and from the moment it has run no admitted operation
  is still outstanding and the tracker stays closed to new ones.
\<close>

theorem tracker_drains_before_release:
  assumes "tracker_reach t"
  shows "releases t \<le> 1 \<and> (releases t = 1 \<longrightarrow> active t = {} \<and> closed t)"
proof -
  have inv: "shutdown_ok t" using tracker_reach_inv [OF assms] by (simp add: tracker_inv_def)
  show ?thesis
  proof (cases "close_done t = Some False")
    case False
    with inv show ?thesis by (auto simp: shutdown_ok_def)
  next
    case True
    with inv obtain g where "working (closers t g)" by (auto simp: shutdown_ok_def)
    with inv True show ?thesis
      using shutdown_okD(1) [OF inv, of g] by (cases "closers t g") (auto simp: shutdown_ok_def)
  qed
qed

theorem tracker_drains_before_release_witness:
  "releases (demo_run 9) = 1 \<and> active (demo_run 9) = {} \<and> closed (demo_run 9)"
  using tracker_drains_before_release [OF demo_reach, of 9] by (simp add: demo_defs closer_defs)

text \<open>
  All \<^verbatim>\<open>Close\<close> calls agree: two calls that have returned, the one that shut the tracker down
  or one that only waited for it, returned the same error, the one stored by the single run
  of the resource callback.
\<close>

theorem tracker_close_agree:
  assumes "tracker_reach t" "closers t g = Returned r" "closers t h = Returned r'"
  shows "r = r' \<and> close_err t = r \<and> releases t = 1"
  using tracker_reach_inv [OF assms(1)] assms(2,3)
    shutdown_okD(1) [of t g] shutdown_okD(1) [of t h]
  by (auto simp: tracker_inv_def shutdown_ok_def)

theorem tracker_close_agree_witness:
  "Some ''busy'' = Some ''busy'' \<and> close_err (demo_run 9) = Some ''busy'' \<and> releases (demo_run 9) = 1"
  by (rule tracker_close_agree [OF demo_reach, of 9 0 _ 1])
     (simp_all add: demo_defs closer_defs)

text \<open>
  The release handed out by \<^verbatim>\<open>Begin\<close> can be called any number of times in any order, before,
  during and after shutdown: it never closes a nil or already closed channel (the Go panic),
  takes its operation out of the active set, and a second call changes nothing.
\<close>

theorem tracker_release_idempotent:
  assumes "tracker_reach t" "1 \<le> i" "i \<le> next_op t"
  shows "\<exists>t'. finish_op i t = Some t' \<and> i \<notin> active t' \<and> i \<in> finished t' \<and> finish_op i t' = Some t'"
proof -
  have inv: "tracker_inv t" using assms(1) by (rule tracker_reach_inv)
  then obtain t' where t': "finish_op i t = Some t'" using assms finish_op_total [of t i] by auto
  have "i \<notin> active t' \<and> i \<in> finished t'"
    by (rule finish_op_cases [OF inv _ t'])
       (use assms inv in \<open>auto simp: tracker_inv_def ops_ok_def\<close>)
  with t' show ?thesis by (auto simp: finish_op_def)
qed

theorem tracker_release_idempotent_witness:
  "\<exists>t'. finish_op 1 (demo_run 4) = Some t' \<and> 1 \<notin> active t' \<and> 1 \<in> finished t' \<and> finish_op 1 t' = Some t'"
  by (rule tracker_release_idempotent [OF demo_reach]) (simp_all add: demo_defs closer_defs)

text \<open>
  C29. Shutdown is never stuck once the admitted operations are released: in a reachable state
  with no active operation, if some goroutine is inside \<^verbatim>\<open>Close\<close> and has not returned, some
  goroutine inside \<^verbatim>\<open>Close\<close> can take its next step.
\<close>

theorem tracker_close_progress:
  assumes "tracker_reach t" "active t = {}" "closers t g \<noteq> Outside" "\<forall>r. closers t g \<noteq> Returned r"
  shows "\<exists>h t'. tracker_step t t' \<and> closers t h \<noteq> Outside \<and> closers t' h \<noteq> closers t h"
proof -
  have inv: "ops_ok t" "shutdown_ok t"
    using tracker_reach_inv [OF assms(1)] by (simp_all add: tracker_inv_def)
  have work: ?thesis if "working (closers t h)" for h
  proof -
    have ok: "closer_ok t (closers t h)" using shutdown_okD(1) [OF inv(2)] .
    have none: "active_done t = None" using inv(1) assms(2) by (simp add: ops_ok_def)
    show ?thesis
    proof (cases "closers t h")
      case (Cancelling ch ids)
      then show ?thesis
        using cancel [OF Cancelling]
        by (intro exI [of _ h] exI [of _ "close_cancel h ch ids t"] conjI) (simp_all add: closer_defs)
    next
      case (Draining ch)
      have "drained ch t" using ok none Draining by (auto simp: drained_def split: option.splits if_splits)
      then show ?thesis
        using drain [OF Draining] Draining
        by (intro exI [of _ h] exI [of _ "set_closer h Releasing t"] conjI) (simp_all add: closer_defs)
    next
      case Releasing
      then show ?thesis
        using release [OF Releasing, of None]
        by (intro exI [of _ h] exI [of _ "close_release h None t"] conjI) (simp_all add: closer_defs)
    next
      case (Publishing r)
      then show ?thesis
        using publish [OF Publishing]
        by (intro exI [of _ h] exI [of _ "close_publish h r t"] conjI) (simp_all add: closer_defs)
    qed (use that in auto)
  qed
  show ?thesis
  proof (cases "close_done t = Some False")
    case True
    then show ?thesis using inv(2) work by (auto simp: shutdown_ok_def)
  next
    case False
    have "closer_ok t (closers t g)" using shutdown_okD(1) [OF inv(2)] .
    with False assms(3,4) inv(2) have w: "closers t g = Waiting" "close_done t = Some True"
      by (cases "closers t g"; auto simp: shutdown_ok_def)+
    show ?thesis
      using wait [OF w] w
      by (intro exI [of _ g] exI [of _ "set_closer g (Returned (close_err t)) t"] conjI)
         (simp_all add: closer_defs)
  qed
qed

theorem tracker_close_progress_witness:
  "\<exists>h t'. tracker_step (demo_run 5) t' \<and> closers (demo_run 5) h \<noteq> Outside \<and> closers t' h \<noteq> closers (demo_run 5) h"
  by (rule tracker_close_progress [OF demo_reach, of 5 1]) (simp_all add: demo_defs closer_defs)

end
