(* ===== verification/Framing.thy ===== *)
theory Framing
  imports Prelude
begin

text \<open>
  Length-prefixed messages on a byte stream. Three components read such a stream: the Wayland
  connection, the EIS connection and the Sway IPC socket. What they share is stated once, as
  the locale \<open>framing\<close>: one message is encoded by \<open>enc\<close>, and \<open>dec\<close> looks at the bytes
  received so far and reports a message with the bytes after it, a protocol error, or that
  more bytes are needed.
\<close>

datatype ('m, 'e) frame = Incomplete | Bad 'e | Frame 'm "byte list"

text \<open>All the messages that the received bytes hold, and the bytes (or the error) left over.\<close>

function parse_frames ::
    "(byte list \<Rightarrow> ('m, 'e) frame) \<Rightarrow> byte list \<Rightarrow> 'm list \<times> ('e + byte list)" where
  "parse_frames dec bs =
     (case dec bs of
        Incomplete \<Rightarrow> ([], Inr bs)
      | Bad e \<Rightarrow> ([], Inl e)
      | Frame m r \<Rightarrow>
          if length r < length bs
          then let (ms, out) = parse_frames dec r in (m # ms, out)
          else ([], Inr bs))"
  by pat_completeness auto
termination by (relation "measure (\<lambda>(dec, bs). length bs)") auto

declare parse_frames.simps [simp del]

text \<open>Bytes arrive in chunks; the unparsed rest is kept, and an error ends the stream.\<close>

fun feed_chunks ::
    "(byte list \<Rightarrow> ('m, 'e) frame) \<Rightarrow> byte list \<Rightarrow> byte list list \<Rightarrow> 'm list \<times> ('e + byte list)" where
  "feed_chunks dec buf [] = ([], Inr buf)"
| "feed_chunks dec buf (c # cs) =
     (case parse_frames dec (buf @ c) of
        (ms, Inl e) \<Rightarrow> (ms, Inl e)
      | (ms, Inr rest) \<Rightarrow> (let (ms', out) = feed_chunks dec rest cs in (ms @ ms', out)))"

locale framing =
  fixes enc :: "'m \<Rightarrow> byte list"
    and dec :: "byte list \<Rightarrow> ('m, 'e) frame"
    and ok :: "'m \<Rightarrow> bool"
  assumes dec_enc: "ok m \<Longrightarrow> dec (enc m @ r) = Frame m r"
    and dec_nil: "dec [] = Incomplete"
    and frame_shrinks: "dec bs = Frame m r \<Longrightarrow> length r < length bs"
    and frame_more: "dec bs = Frame m r \<Longrightarrow> dec (bs @ x) = Frame m (r @ x)"
    and bad_more: "dec bs = Bad e \<Longrightarrow> dec (bs @ x) = Bad e"
begin

lemma parse_frame: "dec bs = Frame m r \<Longrightarrow>
    parse_frames dec bs = (m # fst (parse_frames dec r), snd (parse_frames dec r))"
  using frame_shrinks [of bs m r]
  by (subst parse_frames.simps) (simp add: case_prod_beta Let_def)

lemma parse_bad: "dec bs = Bad e \<Longrightarrow> parse_frames dec bs = ([], Inl e)"
  by (simp add: parse_frames.simps)

lemma parse_incomplete: "dec bs = Incomplete \<Longrightarrow> parse_frames dec bs = ([], Inr bs)"
  by (simp add: parse_frames.simps)

lemma parse_rest_incomplete: "snd (parse_frames dec bs) = Inr r \<Longrightarrow> dec r = Incomplete"
proof (induction "length bs" arbitrary: bs rule: less_induct)
  case less
  show ?case
  proof (cases "dec bs")
    case (Frame m r')
    with less.prems less.hyps [OF frame_shrinks [OF Frame]] show ?thesis
      by (simp add: parse_frame)
  qed (use less.prems in \<open>simp_all add: parse_bad parse_incomplete\<close>)
qed

text \<open>What was written is what is read.\<close>

lemma parse_encoded:
  "list_all ok ms \<Longrightarrow> parse_frames dec (concat (map enc ms) @ r) =
     (ms @ fst (parse_frames dec r), snd (parse_frames dec r))"
proof (induction ms)
  case Nil
  then show ?case by simp
next
  case (Cons m ms)
  then have "dec (concat (map enc (m # ms)) @ r) = Frame m (concat (map enc ms) @ r)"
    using dec_enc [of m "concat (map enc ms) @ r"] by simp
  with Cons show ?case by (simp add: parse_frame)
qed

lemma parse_encoded_all: "list_all ok ms \<Longrightarrow> parse_frames dec (concat (map enc ms)) = (ms, Inr [])"
  using parse_encoded [of ms "[]"] parse_incomplete [OF dec_nil] by simp

text \<open>Parsing a longer buffer continues where parsing the shorter one stopped.\<close>

lemma parse_append:
  "parse_frames dec (bs @ x) =
     (case parse_frames dec bs of
        (ms, Inl e) \<Rightarrow> (ms, Inl e)
      | (ms, Inr rest) \<Rightarrow>
          (ms @ fst (parse_frames dec (rest @ x)), snd (parse_frames dec (rest @ x))))"
proof (induction "length bs" arbitrary: bs rule: less_induct)
  case less
  show ?case
  proof (cases "dec bs")
    case Incomplete
    then show ?thesis by (simp add: parse_incomplete)
  next
    case (Bad e)
    then show ?thesis by (simp add: parse_bad bad_more)
  next
    case (Frame m r)
    then show ?thesis
      using less [OF frame_shrinks [OF Frame]] frame_more [OF Frame, of x]
      by (simp add: parse_frame case_prod_beta split: sum.splits)
  qed
qed

text \<open>How the bytes are cut into chunks does not matter.\<close>

lemma feed_concat:
  "dec buf = Incomplete \<Longrightarrow> feed_chunks dec buf cs = parse_frames dec (buf @ concat cs)"
proof (induction cs arbitrary: buf)
  case Nil
  then show ?case by (simp add: parse_incomplete)
next
  case (Cons c cs)
  obtain ms out where p: "parse_frames dec (buf @ c) = (ms, out)" by (cases "parse_frames dec (buf @ c)")
  show ?case
  proof (cases out)
    case (Inl e)
    with p show ?thesis using parse_append [of "buf @ c" "concat cs"] by simp
  next
    case (Inr rest)
    with p have "dec rest = Incomplete" using parse_rest_incomplete [of "buf @ c" rest] by simp
    with Cons.IH p Inr show ?thesis
      using parse_append [of "buf @ c" "concat cs"] by (simp add: case_prod_beta)
  qed
qed

lemma feed_chunks_eq: "feed_chunks dec [] cs = parse_frames dec (concat cs)"
  using feed_concat [OF dec_nil] by simp

lemma feed_encoded:
  "list_all ok ms \<Longrightarrow> concat cs = concat (map enc ms) \<Longrightarrow> feed_chunks dec [] cs = (ms, Inr [])"
  by (simp add: feed_chunks_eq parse_encoded_all)

end

end
