(* ===== verification/Wire.thy ===== *)
theory Wire
  imports Framing
begin

unbundle bit_operations_syntax

text \<open>
  The Wayland client of \<^verbatim>\<open>internal/wl/wl.go\<close>: the object registry of a connection, the
  encoders of the requests it sends, the decoder of \<^verbatim>\<open>wl_registry\<close> events, the message
  reader, and how a write or a read reports its outcome under cancellation. Socket I/O is an
  argument: what the kernel returned for the one system call a definition makes.
\<close>

section \<open>The object registry\<close>

text \<open>A proxy is a Go pointer; it is a number here. \<open>proxy_id\<close> is what \<^verbatim>\<open>SetID\<close> stored in it.\<close>

type_synonym proxy = nat

record wl_context =
  objects :: "u32 \<rightharpoonup> proxy"
  next_id :: u32
  proxy_id :: "proxy \<Rightarrow> u32"

definition new_wl_context :: wl_context where
  "new_wl_context = \<lparr>objects = Map.empty, next_id = 1, proxy_id = (\<lambda>_. 0)\<rparr>"

partial_function (option) find_free :: "(u32 \<rightharpoonup> proxy) \<Rightarrow> u32 \<Rightarrow> u32 option" where
  "find_free objs n =
     (let n = n + 1 in
      if n = 0 then find_free objs n
      else if objs n \<noteq> None then find_free objs n
      else Some n)"

definition register :: "proxy \<Rightarrow> wl_context \<Rightarrow> wl_context option" where
  "register p c =
     map_option (\<lambda>n. c\<lparr>next_id := n, proxy_id := (proxy_id c)(p := n), objects := (objects c)(n \<mapsto> p)\<rparr>)
       (find_free (objects c) (next_id c))"

definition set_proxy :: "u32 \<Rightarrow> proxy \<Rightarrow> wl_context \<Rightarrow> wl_context" where
  "set_proxy i p c =
     (if i = 0 then c
      else if objects c i \<noteq> None then c
      else c\<lparr>proxy_id := (proxy_id c)(p := i), objects := (objects c)(i \<mapsto> p)\<rparr>)"

definition unregister :: "u32 \<Rightarrow> proxy \<Rightarrow> wl_context \<Rightarrow> wl_context" where
  "unregister i p c =
     (if objects c i = Some p then c\<lparr>objects := (objects c)(i := None)\<rparr> else c)"

definition unregister_proxy :: "proxy \<Rightarrow> wl_context \<Rightarrow> wl_context" where
  "unregister_proxy p c = unregister (proxy_id c p) p c"

text \<open>The registry holds every proxy under the number stored in it, and never under 0.\<close>

definition registry_ok :: "wl_context \<Rightarrow> bool" where
  "registry_ok c \<longleftrightarrow> objects c 0 = None \<and> (\<forall>i p. objects c i = Some p \<longrightarrow> proxy_id c p = i)"

lemma find_free_Some:
  assumes ret: "find_free objs n = Some m"
  shows "m \<noteq> 0 \<and> objs m = None"
proof (rule find_free.raw_induct [where P = "\<lambda>objs n m. m \<noteq> 0 \<and> objs m = None", OF _ ret])
  fix f and objs :: "u32 \<rightharpoonup> proxy" and n m
  assume "\<And>objs n m. f objs n = Some m \<Longrightarrow> m \<noteq> 0 \<and> objs m = None"
    and "(let n = n + 1 in if n = 0 then f objs n else if objs n \<noteq> None then f objs n else Some n)
           = Some m"
  then show "m \<noteq> 0 \<and> objs m = None" by (auto simp: Let_def split: if_splits)
qed

text \<open>The search ends: every round that goes on comes one step closer to the free number \<open>f\<close>.\<close>

lemma find_free_total:
  assumes "f \<noteq> 0" "objs f = None"
  shows "\<exists>m. find_free objs n = Some m"
proof (induction "unat (f - (n + 1))" arbitrary: n rule: less_induct)
  case less
  show ?case
  proof (cases "n + 1 = 0 \<or> objs (n + 1) \<noteq> None")
    case True
    with assms have "f \<noteq> n + 1" by auto
    then have ne: "f - (n + 1) \<noteq> 0" by simp
    have eq: "f - (n + 1 + 1) = (f - (n + 1)) - 1" by (simp add: algebra_simps)
    have "0 < unat (f - (n + 1))" by (rule unat_gt_0 [THEN iffD2, OF ne])
    then have "unat (f - (n + 1 + 1)) < unat (f - (n + 1))"
      unfolding eq unat_minus_one [OF ne] by simp
    then have "\<exists>m. find_free objs (n + 1) = Some m" by (rule less)
    with True show ?thesis by (subst find_free.simps) (auto simp: Let_def)
  next
    case False
    then show ?thesis by (subst find_free.simps) (simp add: Let_def)
  qed
qed

text \<open>
  \<^verbatim>\<open>Register\<close> always returns while some nonzero object number is unused, and then it files the
  proxy under a nonzero number that was unused, tells the proxy that number, and leaves every
  other entry of the registry as it was.
\<close>

theorem register_fresh:
  assumes "f \<noteq> 0" "objects c f = None"
  shows "\<exists>c' i. register p c = Some c' \<and> i \<noteq> 0 \<and> objects c i = None \<and>
    proxy_id c' p = i \<and> objects c' = (objects c)(i \<mapsto> p)"
proof -
  obtain n where n: "find_free (objects c) (next_id c) = Some n"
    using find_free_total [of f "objects c"] assms by blast
  from find_free_Some [OF n] n show ?thesis by (simp add: register_def)
qed

theorem register_fresh_witness:
  "\<exists>c' i. register 7 (set_proxy 2 5 new_wl_context) = Some c' \<and> i \<noteq> 0 \<and>
    objects (set_proxy 2 5 new_wl_context) i = None \<and> proxy_id c' 7 = i \<and>
    objects c' = (objects (set_proxy 2 5 new_wl_context))(i \<mapsto> 7)"
  by (rule register_fresh [of 3]) (simp_all add: set_proxy_def new_wl_context_def)

text \<open>
  No operation can take over a live object: after \<^verbatim>\<open>Register\<close>, \<^verbatim>\<open>SetProxy\<close> with any
  server-chosen number (also 0 or one in use), or \<^verbatim>\<open>unregister\<close> of another proxy, an object
  that was registered is still registered under the same number.
\<close>

theorem registry_entries_stable:
  assumes "objects c i = Some p" "q \<noteq> p"
  shows "objects (set_proxy j q c) i = Some p \<and> objects (unregister j q c) i = Some p \<and>
    (\<forall>c'. register q c = Some c' \<longrightarrow> objects c' i = Some p)"
proof (intro conjI allI impI)
  show "objects (set_proxy j q c) i = Some p" using assms by (auto simp: set_proxy_def)
  show "objects (unregister j q c) i = Some p" using assms by (auto simp: unregister_def)
  fix c' assume "register q c = Some c'"
  then obtain n where n: "find_free (objects c) (next_id c) = Some n"
    and c': "objects c' = (objects c)(n \<mapsto> q)"
    by (auto simp: register_def)
  with assms find_free_Some [OF n] show "objects c' i = Some p" by auto
qed

theorem registry_entries_stable_witness:
  "objects (set_proxy 2 9 (set_proxy 2 5 new_wl_context)) 2 = Some 5"
  using registry_entries_stable [of "set_proxy 2 5 new_wl_context" 2 5 9 2]
  by (simp add: set_proxy_def new_wl_context_def)

lemma new_wl_context_ok: "registry_ok new_wl_context"
  by (simp add: registry_ok_def new_wl_context_def)

lemma set_proxy_ok: "registry_ok c \<Longrightarrow> p \<notin> ran (objects c) \<Longrightarrow> registry_ok (set_proxy i p c)"
  by (auto simp: registry_ok_def set_proxy_def ran_def)

lemma unregister_ok: "registry_ok c \<Longrightarrow> registry_ok (unregister i p c)"
  by (auto simp: registry_ok_def unregister_def)

lemma register_ok: "registry_ok c \<Longrightarrow> p \<notin> ran (objects c) \<Longrightarrow> register p c = Some c' \<Longrightarrow> registry_ok c'"
  by (auto simp: registry_ok_def register_def ran_def dest!: find_free_Some split: if_splits)

lemma unregister_register:
  "register p c = Some c' \<Longrightarrow> objects (unregister_proxy p c') = objects c"
  by (auto simp: register_def unregister_proxy_def unregister_def dest!: find_free_Some)

section \<open>Encoding\<close>

definition put32 :: "byte list \<Rightarrow> u32 \<Rightarrow> byte list" where
  "put32 buf v = buf @ put_u32 v"

definition padded_len :: "u32 \<Rightarrow> u32" where
  "padded_len n = (n + 3) AND NOT 3"

definition put_str :: "byte list \<Rightarrow> byte list \<Rightarrow> byte list" where
  "put_str buf s =
     (let n = word_of_nat (length s + 1) :: u32;
          buf = put32 buf n;
          buf = buf @ s;
          zeros = nat (uint (padded_len n) - int (length s))
      in buf @ replicate zeros 0)"

text \<open>\<^verbatim>\<open>PutUint32(buf[4:], size<<16|opcode)\<close> after the object number: the header of a request.\<close>

definition msg_header :: "u32 \<Rightarrow> u32 \<Rightarrow> u32 \<Rightarrow> byte list" where
  "msg_header obj sz opcode = put_u32 obj @ put_u32 (push_bit 16 sz OR opcode)"

definition get_registry_msg :: "u32 \<Rightarrow> byte list" where
  "get_registry_msg reg = msg_header 1 12 1 @ put_u32 reg"

definition sync_msg :: "u32 \<Rightarrow> byte list" where
  "sync_msg cb = msg_header 1 12 0 @ put_u32 cb"

definition create_pool_msg :: "u32 \<Rightarrow> u32 \<Rightarrow> u32 \<Rightarrow> byte list" where
  "create_pool_msg shm pool len = msg_header shm 16 0 @ put_u32 pool @ put_u32 len"

definition create_buffer_msg ::
    "u32 \<Rightarrow> u32 \<Rightarrow> u32 \<Rightarrow> u32 \<Rightarrow> u32 \<Rightarrow> u32 \<Rightarrow> u32 \<Rightarrow> byte list" where
  "create_buffer_msg pool buf offset width height stride fmt =
     msg_header pool 32 0 @ put_u32 buf @ put_u32 offset @ put_u32 width @ put_u32 height @
     put_u32 stride @ put_u32 fmt"

definition pool_destroy_msg :: "u32 \<Rightarrow> byte list" where
  "pool_destroy_msg pool = msg_header pool 8 1"

definition buffer_destroy_msg :: "u32 \<Rightarrow> byte list" where
  "buffer_destroy_msg buf = msg_header buf 8 0"

text \<open>\<^verbatim>\<open>BindContext\<close> appends the arguments after a placeholder and patches the size in afterwards.\<close>

definition bind_msg :: "u32 \<Rightarrow> u32 \<Rightarrow> byte list \<Rightarrow> u32 \<Rightarrow> u32 \<Rightarrow> byte list" where
  "bind_msg reg name iface ver new_id =
     (let buf = put32 [] reg;
          buf = put32 buf 0;
          buf = put32 buf name;
          buf = put_str buf iface;
          buf = put32 buf ver;
          buf = put32 buf new_id
      in take 4 buf @ put_u32 (push_bit 16 (word_of_nat (length buf))) @ drop 8 buf)"

section \<open>The message reader\<close>

text \<open>The error of a message header, with the size the peer announced.\<close>

datatype wire_error = InvalidSize u32

text \<open>
  One message: sender, opcode, body. \<^verbatim>\<open>dispatch\<close> reads the 8 header bytes, validates the size
  and reads the body; \<open>Incomplete\<close> is \<^verbatim>\<open>io.ReadFull\<close> still waiting for bytes.
\<close>

type_synonym wl_message = "u32 \<times> u32 \<times> byte list"

definition read_message :: "byte list \<Rightarrow> (wl_message, wire_error) frame" where
  "read_message bs =
     (case (get_u32 bs, get_u32 (drop 4 bs)) of
        (Some sender, Some size_opcode) \<Rightarrow>
          (let wire_size = drop_bit 16 size_opcode;
               opcode = size_opcode AND 0xffff
           in if wire_size < 8 \<or> wire_size mod 4 \<noteq> 0 then Bad (InvalidSize wire_size)
              else
                let n = unat wire_size - 8 in
                if length (drop 8 bs) < n then Incomplete
                else Frame (sender, opcode, take n (drop 8 bs)) (drop n (drop 8 bs)))
      | _ \<Rightarrow> Incomplete)"

text \<open>What a compositor writes for a message, in the same layout as the requests above.\<close>

fun write_message :: "wl_message \<Rightarrow> byte list" where
  "write_message (sender, opcode, body) =
     msg_header sender (word_of_nat (8 + length body)) opcode @ body"

fun message_ok :: "wl_message \<Rightarrow> bool" where
  "message_ok (sender, opcode, body) \<longleftrightarrow>
     opcode < 0x10000 \<and> 8 + length body < 0x10000 \<and> length body mod 4 = 0"

lemma small_bit: "s < 0x10000 \<Longrightarrow> bit s n \<Longrightarrow> n < 16" for s :: u32
proof -
  assume s: "s < 0x10000" and b: "bit s n"
  have "s AND mask 16 = s" using s by (intro less_mask_eq) simp
  then have "take_bit 16 s = s" by (simp add: take_bit_eq_mask)
  with b show "n < 16" by (metis bit_take_bit_iff)
qed

lemma mask_ffff: "(0xffff :: u32) = mask 16"
  by (simp add: mask_eq_exp_minus_1)

lemma header_size: "s < 0x10000 \<Longrightarrow> opc < 0x10000 \<Longrightarrow> drop_bit 16 (push_bit 16 s OR opc) = s"
  for s opc :: u32
  by (rule bit_word_eqI) (auto simp: bit_simps dest: small_bit)

lemma header_opcode: "opc < 0x10000 \<Longrightarrow> (push_bit 16 s OR opc) AND 0xffff = opc"
  for s opc :: u32
  unfolding mask_ffff by (rule bit_word_eqI) (auto simp: bit_simps dest: small_bit)

lemma length_msg_header [simp, codec_simps]: "length (msg_header obj sz opc) = 8"
  by (simp add: msg_header_def)

lemma read_header:
  assumes "sz < 0x10000" "opc < 0x10000" "\<not> sz < 8" "sz mod 4 = 0"
  shows "read_message (msg_header obj sz opc @ bs) =
    (if length bs < unat sz - 8 then Incomplete
     else Frame (obj, opc, take (unat sz - 8) bs) (drop (unat sz - 8) bs))"
proof -
  have "get_u32 (msg_header obj sz opc @ bs) = Some obj"
    "get_u32 (drop 4 (msg_header obj sz opc @ bs)) = Some (push_bit 16 sz OR opc)"
    "drop 8 (msg_header obj sz opc @ bs) = bs"
    by (simp_all add: msg_header_def)
  then show ?thesis
    using assms by (simp add: read_message_def header_size header_opcode Let_def del: drop_bit_or)
qed

lemma size_word:
  assumes "8 + n < 0x10000" "n mod 4 = 0"
  shows "(word_of_nat (8 + n) :: u32) < 0x10000" "\<not> (word_of_nat (8 + n) :: u32) < 8"
    "(word_of_nat (8 + n) :: u32) mod 4 = 0" "unat (word_of_nat (8 + n) :: u32) = 8 + n"
proof -
  show u: "unat (word_of_nat (8 + n) :: u32) = 8 + n"
    by (rule of_nat_inverse) (use assms in \<open>simp_all add: word_less_nat_alt\<close>)
  show "(word_of_nat (8 + n) :: u32) < 0x10000" "\<not> (word_of_nat (8 + n) :: u32) < 8"
    using assms by (simp_all add: word_less_nat_alt u del: of_nat_add)
  have "unat ((word_of_nat (8 + n) :: u32) mod 4) = 0"
    using assms by (simp only: unat_mod_distrib u) (simp, presburger)
  then show "(word_of_nat (8 + n) :: u32) mod 4 = 0" by (simp only: unat_eq_0)
qed

lemma read_write_message: "message_ok m \<Longrightarrow> read_message (write_message m @ r) = Frame m r"
proof (cases m)
  case (fields sender opc body)
  assume "message_ok m"
  with fields have opc: "opc < 0x10000" and len: "8 + length body < 0x10000" "length body mod 4 = 0"
    by simp_all
  show ?thesis
    using size_word(4) [OF len]
    by (simp only: fields write_message.simps append_assoc
          read_header [OF size_word(1) [OF len] opc size_word(2,3) [OF len]]) simp
qed

lemma read_message_Frame:
  assumes "read_message bs = Frame m r"
  shows "\<exists>n. 8 \<le> length bs \<and> n \<le> length bs - 8 \<and> r = drop n (drop 8 bs)"
proof -
  from assms obtain so where "get_u32 (drop 4 bs) = Some so"
    by (auto simp: read_message_def split: option.splits)
  then have "4 \<le> length (drop 4 bs)" using get_u32_Some_iff by blast
  with assms show ?thesis
    by (auto simp: read_message_def Let_def not_less split: option.splits if_splits)
qed

lemma read_message_more:
  "read_message bs \<noteq> Incomplete \<Longrightarrow>
     read_message (bs @ x) =
       (case read_message bs of Frame m r \<Rightarrow> Frame m (r @ x) | Bad e \<Rightarrow> Bad e | Incomplete \<Rightarrow> Incomplete)"
proof -
  assume "read_message bs \<noteq> Incomplete"
  then obtain a b where ab: "get_u32 bs = Some a" "get_u32 (drop 4 bs) = Some b"
    by (auto simp: read_message_def split: option.splits)
  then have len: "8 \<le> length bs" using get_u32_Some_iff [of "drop 4 bs"] by auto
  have "get_u32 (bs @ x) = Some a" "get_u32 (drop 4 (bs @ x)) = Some b"
    using ab get_u32_append [of "drop 4 bs" b x] len by (simp_all add: get_u32_append)
  with ab len \<open>read_message bs \<noteq> Incomplete\<close> show ?thesis
    by (simp add: read_message_def Let_def split: if_splits)
qed

interpretation wl: framing write_message read_message message_ok
proof
  show "read_message [] = Incomplete" by (simp add: read_message_def)
  show "length r < length bs" if "read_message bs = Frame m r" for bs m r
    using read_message_Frame [OF that] by auto
qed (simp_all add: read_write_message read_message_more)

text \<open>
  C8. The message reader recovers what was written: a sequence of messages whose sizes fit the
  16-bit size field is read back message by message, however the socket cuts the bytes
  into reads, with nothing left over.
\<close>

theorem wl_stream_roundtrip:
  assumes "list_all message_ok ms" "concat chunks = concat (map write_message ms)"
  shows "feed_chunks read_message [] chunks = (ms, Inr [])"
  using assms by (rule wl.feed_encoded)

theorem wl_stream_roundtrip_witness:
  "feed_chunks read_message [] [[1, 0, 0], [0, 1, 0, 12], [0, 7, 0, 0, 0]] = ([(1, 1, [7, 0, 0, 0])], Inr [])"
  by (rule wl_stream_roundtrip) (simp_all add: msg_header_def put_u32_def)

section \<open>Registry events\<close>

record global_event =
  ev_name :: u32
  ev_interface :: "byte list"
  ev_version :: u32

datatype registry_event = GlobalAdded global_event | GlobalRemoved u32

text \<open>\<^verbatim>\<open>strings.TrimRight(s, "\x00")\<close>.\<close>

definition trim_nul :: "byte list \<Rightarrow> byte list" where
  "trim_nul s = rev (dropWhile (\<lambda>b. b = 0) (rev s))"

text \<open>
  The outer \<open>None\<close> is a slice or index out of range, which would end the process; the inner one
  an event the decoder drops. The flags say whether the two handlers are set.
\<close>

definition decode_global :: "byte list \<Rightarrow> global_event option option" where
  "decode_global data =
     (if length data < 8 then Some None
      else
        case (Option.bind (go_slice data 0 4) get_u32, Option.bind (go_slice data 4 8) get_u32) of
          (Some name, Some slen_word) \<Rightarrow>
            (let slen = unat slen_word; remaining = length data - 8 in
             if slen = 0 \<or> slen > remaining then Some None
             else
               if 8 + slen - 1 \<ge> length data then None
               else if data ! (8 + slen - 1) \<noteq> 0 then Some None
               else
                 let extra = (4 - slen mod 4) mod 4 in
                 if extra > remaining - slen then Some None
                 else
                   case go_slice data 8 (8 + slen) of
                     None \<Rightarrow> None
                   | Some raw \<Rightarrow>
                       let padded = slen + extra; off = 8 + padded in
                       if off + 4 > length data then Some None
                       else
                         case Option.bind (go_slice data off (off + 4)) get_u32 of
                           None \<Rightarrow> None
                         | Some ver \<Rightarrow>
                             if ver = 0 then Some None
                             else Some (Some \<lparr>ev_name = name, ev_interface = trim_nul raw,
                                              ev_version = ver\<rparr>))
        | _ \<Rightarrow> None)"

definition registry_dispatch ::
    "bool \<Rightarrow> bool \<Rightarrow> u32 \<Rightarrow> byte list \<Rightarrow> registry_event option option" where
  "registry_dispatch has_global has_remove opcode data =
     (if opcode = 0 then
        (if \<not> has_global then Some None
         else map_option (map_option GlobalAdded) (decode_global data))
      else if opcode = 1 then
        (if has_remove \<and> length data \<ge> 4
         then map_option (\<lambda>n. Some (GlobalRemoved n)) (Option.bind (go_slice data 0 4) get_u32)
         else Some None)
      else Some None)"

record output_mode =
  mode_flags :: u32
  mode_width :: u32
  mode_height :: u32
  mode_refresh :: u32

definition decode_output_mode :: "byte list \<Rightarrow> output_mode option option" where
  "decode_output_mode data =
     (if length data < 16 then Some None
      else
        case (Option.bind (go_slice data 0 4) get_u32, Option.bind (go_slice data 4 8) get_u32,
              Option.bind (go_slice data 8 12) get_u32, Option.bind (go_slice data 12 16) get_u32) of
          (Some f, Some w, Some h, Some r) \<Rightarrow>
            Some (Some \<lparr>mode_flags = f, mode_width = w, mode_height = h, mode_refresh = r\<rparr>)
        | _ \<Rightarrow> None)"

lemma slice_u32: "a + 4 \<le> length data \<Longrightarrow> \<exists>w. Option.bind (go_slice data a (a + 4)) get_u32 = Some w"
  using get_u32_long [of "take 4 (drop a data)"] by (simp add: go_slice_def)

lemma slice_u32s:
  "4 \<le> length data \<Longrightarrow> \<exists>w. Option.bind (go_slice data 0 4) get_u32 = Some w"
  "8 \<le> length data \<Longrightarrow> \<exists>w. Option.bind (go_slice data 4 8) get_u32 = Some w"
  "12 \<le> length data \<Longrightarrow> \<exists>w. Option.bind (go_slice data 8 12) get_u32 = Some w"
  "16 \<le> length data \<Longrightarrow> \<exists>w. Option.bind (go_slice data 12 16) get_u32 = Some w"
  using slice_u32 [of 0 data] slice_u32 [of 4 data] slice_u32 [of 8 data] slice_u32 [of 12 data]
  by simp_all

lemma decode_global_safe: "\<exists>r. decode_global data = Some r"
proof (cases "length data < 8")
  case True
  then show ?thesis by (simp add: decode_global_def)
next
  case False
  then obtain name slen where w: "Option.bind (go_slice data 0 4) get_u32 = Some name"
      "Option.bind (go_slice data 4 8) get_u32 = Some slen"
    using slice_u32s(1,2) [of data] by auto
  let ?n = "unat slen" and ?x = "(4 - unat slen mod 4) mod 4"
  have "\<exists>v. Option.bind (go_slice data (8 + (?n + ?x)) (8 + (?n + ?x) + 4)) get_u32 = Some v"
    if "8 + (?n + ?x) + 4 \<le> length data"
    using slice_u32 [OF that] .
  then show ?thesis
    using False w unfolding decode_global_def
    by (auto simp: Let_def not_less not_le)
qed

text \<open>
  C35. Decoding what a compositor sends is safe: for every opcode and every payload, however short
  or malformed, the \<^verbatim>\<open>wl_registry\<close> dispatcher and the output mode decoder stay inside the
  received bytes, so no event can crash the process.
\<close>

theorem wl_decoders_never_panic:
  "(\<exists>r. registry_dispatch g rm opcode data = Some r) \<and> (\<exists>m. decode_output_mode data = Some m)"
proof
  show "\<exists>r. registry_dispatch g rm opcode data = Some r"
    using decode_global_safe [of data] slice_u32s(1) [of data]
    by (auto simp: registry_dispatch_def)
  show "\<exists>m. decode_output_mode data = Some m"
  proof (cases "length data < 16")
    case False
    then show ?thesis
      using slice_u32s [of data] by (auto simp: decode_output_mode_def)
  qed (simp add: decode_output_mode_def)
qed

subsection \<open>Strings on the wire\<close>

text \<open>Rounding up to a multiple of four with a mask is adding the missing bytes.\<close>

lemma round_up_nat: "(m + 3) - (m + 3) mod 4 = m + (4 - m mod 4) mod (4::nat)"
proof -
  obtain q r where m: "m = 4 * q + r" "r < 4"
    by (metis div_mult_mod_eq mod_less_divisor mult.commute zero_less_numeral)
  then have "r = 0 \<or> r = 1 \<or> r = 2 \<or> r = 3" by auto
  then show ?thesis unfolding m(1)
    by (elim disjE) (simp_all add: mod_mult_self4 mod_Suc)
qed

lemma padded_len_nat:
  assumes "unat n + 3 < 2 ^ 32"
  shows "unat (padded_len n) = unat n + (4 - unat n mod 4) mod 4"
proof -
  have u3: "unat (n + 3) = unat n + 3"
    using assms by (subst unat_add_lem [THEN iffD1]) simp_all
  have m: "(3 :: u32) = mask 2" by (simp add: mask_eq_exp_minus_1)
  have "push_bit 2 (drop_bit 2 (n + 3)) = padded_len n"
    unfolding padded_len_def m
  proof (rule bit_word_eqI)
    fix k assume "k < LENGTH(32)"
    have "2 \<le> k \<Longrightarrow> Suc (Suc (k - 2)) = k" by simp
    with \<open>k < LENGTH(32)\<close> show "bit (push_bit 2 (drop_bit 2 (n + mask 2))) k = bit ((n + mask 2) AND NOT (mask 2)) k"
      by (cases "2 \<le> k") (simp_all add: bit_simps)
  qed
  then have p: "padded_len n = (n + 3) - take_bit 2 (n + 3)"
    using bits_ident [of 2 "n + 3"] by (metis add_diff_cancel_right')
  have t: "unat (take_bit 2 (n + 3)) = (unat n + 3) mod 4"
    unfolding unsigned_take_bit_eq u3 by (simp add: take_bit_eq_mod)
  have le: "take_bit 2 (n + 3) \<le> n + 3"
    unfolding take_bit_eq_mask by (rule word_and_le2)
  have "unat (padded_len n) = (unat n + 3) - (unat n + 3) mod 4"
    unfolding p unat_sub [OF le] u3 t ..
  also have "\<dots> = unat n + (4 - unat n mod 4) mod 4" by (rule round_up_nat)
  finally show ?thesis .
qed

definition str_pad :: "nat \<Rightarrow> nat" where
  "str_pad n = (4 - (n + 1) mod 4) mod 4"

lemma str_pad_mod: "(n + 1 + str_pad n) mod 4 = 0"
proof -
  obtain q r where m: "n + 1 = 4 * q + r" "r < 4"
    by (metis div_mult_mod_eq mod_less_divisor mult.commute zero_less_numeral)
  then have "r = 0 \<or> r = 1 \<or> r = 2 \<or> r = 3" by auto
  then show ?thesis unfolding str_pad_def m(1)
    by (elim disjE) (simp_all add: mod_Suc)
qed

lemma put_str_layout:
  assumes "length s + 4 < 2 ^ 32"
  shows "put_str buf s = buf @ put_u32 (word_of_nat (length s + 1)) @ s @ [0] @ replicate (str_pad (length s)) 0"
proof -
  have u: "unat (word_of_nat (length s + 1) :: u32) = length s + 1"
    by (rule of_nat_inverse) (use assms in simp_all)
  have p: "unat (padded_len (word_of_nat (length s + 1))) =
     length s + 1 + (4 - (length s + 1) mod 4) mod 4"
    using padded_len_nat [of "word_of_nat (length s + 1)"] assms unfolding u by simp
  have z: "nat (uint (padded_len (word_of_nat (length s + 1))) - int (length s)) = Suc (str_pad (length s))"
    unfolding uint_nat p str_pad_def by simp
  show ?thesis
    unfolding put_str_def Let_def z by (simp add: put32_def)
qed

text \<open>The payload of a \<^verbatim>\<open>wl_registry.global\<close> event, as a compositor lays it out.\<close>

definition encode_global :: "global_event \<Rightarrow> byte list" where
  "encode_global ev = put32 (put_str (put32 [] (ev_name ev)) (ev_interface ev)) (ev_version ev)"

lemma trim_nul_idem: "s = [] \<or> last s \<noteq> 0 \<Longrightarrow> trim_nul (s @ [0]) = s"
proof (cases s rule: rev_cases)
  case (snoc t b)
  assume "s = [] \<or> last s \<noteq> 0"
  with snoc show ?thesis by (simp add: trim_nul_def)
qed (simp add: trim_nul_def)

text \<open>
  The registry decoder reads back what the string encoder writes: an event whose interface
  name does not end in a NUL byte and whose version is not zero is decoded to exactly its name,
  interface and version, and the encoding is four-byte aligned.
\<close>

theorem global_event_roundtrip:
  assumes "length (ev_interface ev) + 4 < 2 ^ 32"
    and "ev_interface ev = [] \<or> last (ev_interface ev) \<noteq> 0" "ev_version ev \<noteq> 0"
  shows "registry_dispatch True rm 0 (encode_global ev) = Some (Some (GlobalAdded ev)) \<and>
    length (encode_global ev) mod 4 = 0"
proof -
  let ?s = "ev_interface ev"
  let ?n = "length ?s"
  obtain w :: u32 where w: "word_of_nat (?n + 1) = w" by blast
  have u: "unat w = ?n + 1"
    by (rule of_nat_inverse [OF w]) (use assms in simp_all)
  have enc: "encode_global ev = put_u32 (ev_name ev) @ put_u32 w @
      (?s @ [0]) @ replicate (str_pad ?n) 0 @ put_u32 (ev_version ev)"
    using put_str_layout [OF assms(1)] unfolding w by (simp add: encode_global_def put32_def)
  have extra: "(4 - Suc ?n mod 4) mod 4 = str_pad ?n" by (simp add: str_pad_def)
  have lens: "length (encode_global ev) = 13 + ?n + str_pad ?n" by (simp add: enc)
  have name: "Option.bind (go_slice (encode_global ev) 0 4) get_u32 = Some (ev_name ev)"
    and slen: "Option.bind (go_slice (encode_global ev) 4 8) get_u32 = Some w"
    by (simp_all add: enc go_slice_def)
  have raw: "go_slice (encode_global ev) 8 (8 + (?n + 1)) = Some (?s @ [0])"
    by (simp add: enc go_slice_def)
  have nul: "encode_global ev ! (8 + ?n) = 0"
    by (simp add: enc nth_append)
  let ?off = "8 + (?n + 1 + str_pad ?n)"
  have ver: "Option.bind (go_slice (encode_global ev) ?off (?off + 4)) get_u32 = Some (ev_version ev)"
    by (simp add: enc go_slice_def)
  have "decode_global (encode_global ev) = Some (Some ev)"
    using assms(3) lens nul raw ver trim_nul_idem [OF assms(2)]
    unfolding decode_global_def name slen
    by (simp add: Let_def u extra del: of_nat_add of_nat_Suc go_slice_ok)
  moreover have "(13 + ?n + str_pad ?n) mod 4 = 0"
  proof -
    have "13 + ?n + str_pad ?n = (?n + 1 + str_pad ?n) + 3 * 4" by simp
    then show ?thesis by (simp only: mod_mult_self1 str_pad_mod)
  qed
  ultimately show ?thesis by (simp add: registry_dispatch_def lens)
qed

theorem global_event_roundtrip_witness:
  "registry_dispatch True False 0 (encode_global \<lparr>ev_name = 4, ev_interface = [119, 108], ev_version = 1\<rparr>) =
     Some (Some (GlobalAdded \<lparr>ev_name = 4, ev_interface = [119, 108], ev_version = 1\<rparr>)) \<and>
   length (encode_global \<lparr>ev_name = 4, ev_interface = [119, 108], ev_version = 1\<rparr>) mod 4 = 0"
  by (rule global_event_roundtrip) simp_all

text \<open>
  A bind request is a well-formed Wayland message for every interface name that fits one:
  read back by the message reader it is one message to the registry with opcode 0, whose body
  is the numeric name, the padded interface string, the version and the new object number.
\<close>

theorem bind_msg_wellformed:
  assumes "length iface < 0xff00"
  shows "read_message (bind_msg reg name iface ver new_id) =
    Frame (reg, 0, put_str (put_u32 name) iface @ put_u32 ver @ put_u32 new_id) []"
proof -
  let ?body = "put_str (put_u32 name) iface @ put_u32 ver @ put_u32 new_id"
  have len: "length iface + 4 < 2 ^ 32" using assms by simp
  have pad: "str_pad (length iface) < 4" by (simp add: str_pad_def)
  have lb: "length ?body = 17 + length iface + str_pad (length iface)"
    by (simp add: put_str_layout [OF len])
  have bind: "bind_msg reg name iface ver new_id =
      put_u32 reg @ put_u32 (push_bit 16 (word_of_nat (8 + length ?body))) @ ?body"
    using lb by (simp add: bind_msg_def Let_def put32_def put_str_layout [OF len])
  have "(17 + length iface + str_pad (length iface)) mod 4 = 0"
  proof -
    have "17 + length iface + str_pad (length iface) =
      (length iface + 1 + str_pad (length iface)) + 4 * 4" by simp
    then show ?thesis by (simp only: mod_mult_self1 str_pad_mod)
  qed
  then have "length ?body mod 4 = 0" unfolding lb .
  then have ok: "message_ok (reg, 0, ?body)" using assms pad lb by (simp del: length_append)
  have "bind_msg reg name iface ver new_id = write_message (reg, 0, ?body)"
    by (simp add: bind msg_header_def)
  then show ?thesis using read_write_message [OF ok, of "[]"] by simp
qed

theorem bind_msg_wellformed_witness:
  "read_message (bind_msg 2 9 [119, 108, 95] 1 5) =
    Frame (2, 0, put_str (put_u32 9) [119, 108, 95] @ put_u32 1 @ put_u32 5) []"
  by (rule bind_msg_wellformed) simp

section \<open>Outcomes of one write and one read\<close>

text \<open>
  An error value of these functions is a list of causes: \<^verbatim>\<open>errors.Join\<close> puts them together in
  order. \<open>'e\<close> is the error of a system call.
\<close>

datatype 'e io_cause =
    CausedByCancel ctx_err
  | CausedByIO 'e
  | CausedByReset 'e
  | ShortWrite nat nat nat nat
  | ConnClosed

definition finish_write_result ::
    "ctx_err option \<Rightarrow> nat \<Rightarrow> nat \<Rightarrow> 'e option \<Rightarrow> 'e option \<Rightarrow> nat \<Rightarrow> nat \<Rightarrow> 'e io_cause list option" where
  "finish_write_result cancel_err n oobn write_err reset_err data_len oob_len =
     (case write_err of
        Some w \<Rightarrow>
          (case cancel_err of
             Some c \<Rightarrow>
               (case reset_err of
                  Some r \<Rightarrow> Some [CausedByCancel c, CausedByIO w, CausedByReset r]
                | None \<Rightarrow> Some [CausedByCancel c, CausedByIO w])
           | None \<Rightarrow>
               (case reset_err of
                  Some r \<Rightarrow> Some [CausedByIO w, CausedByReset r]
                | None \<Rightarrow> Some [CausedByIO w]))
      | None \<Rightarrow>
          (case reset_err of
             Some r \<Rightarrow>
               (case cancel_err of
                  Some c \<Rightarrow> Some [CausedByCancel c, CausedByReset r]
                | None \<Rightarrow> Some [CausedByReset r])
           | None \<Rightarrow>
               if n \<noteq> data_len \<or> oobn \<noteq> oob_len then
                 (case cancel_err of
                    Some c \<Rightarrow> Some [CausedByCancel c, ShortWrite n data_len oobn oob_len]
                  | None \<Rightarrow> Some [ShortWrite n data_len oobn oob_len])
               else None))"

text \<open>The end of \<^verbatim>\<open>dispatchWithCancellation\<close>, after the read and the deadline reset.\<close>

definition finish_read_result ::
    "ctx_err option \<Rightarrow> 'e option \<Rightarrow> 'e option \<Rightarrow> 'e io_cause list option" where
  "finish_read_result cancel_err err reset_err =
     (case cancel_err of
        Some c \<Rightarrow>
          (case reset_err of
             Some r \<Rightarrow> Some [CausedByCancel c, CausedByReset r]
           | None \<Rightarrow> Some [CausedByCancel c])
      | None \<Rightarrow>
          (case (err, reset_err) of
             (Some e, Some r) \<Rightarrow> Some [CausedByIO e, CausedByReset r]
           | (_, Some r) \<Rightarrow> Some [CausedByReset r]
           | (Some e, None) \<Rightarrow> Some [CausedByIO e]
           | (None, None) \<Rightarrow> None))"

text \<open>
  The admission every I/O method starts with: the context, a connection, \<^verbatim>\<open>ensureOpen\<close>, the
  \<^verbatim>\<open>select\<close> on the gate (\<open>sel\<close> says that the runtime picks a done context over a free gate),
  and \<^verbatim>\<open>checkOpen\<close> once the gate is held. \<open>closed t\<close> is the closed flag at instant \<open>t\<close>.
\<close>

datatype 'e admission = Refused "'e io_cause" | NoConnection | Admitted

definition ensure_open :: "bool \<Rightarrow> bool \<Rightarrow> 'e io_cause option" where
  "ensure_open has_conn is_closed = (if \<not> has_conn \<or> \<not> is_closed then None else Some ConnClosed)"

definition check_open :: "bool \<Rightarrow> bool \<Rightarrow> ctx_err option \<Rightarrow> 'e io_cause option" where
  "check_open has_conn is_closed cerr =
     (case ensure_open has_conn is_closed of
        Some e \<Rightarrow> Some e
      | None \<Rightarrow> map_option CausedByCancel cerr)"

definition gate_admit :: "ctx \<Rightarrow> bool \<Rightarrow> (nat \<Rightarrow> bool) \<Rightarrow> bool \<Rightarrow> 'e admission" where
  "gate_admit c has_conn is_closed sel =
     (case c 0 of
        Some e \<Rightarrow> Refused (CausedByCancel e)
      | None \<Rightarrow>
          if \<not> has_conn then NoConnection
          else
            (case ensure_open has_conn (is_closed 0) of
               Some e \<Rightarrow> Refused e
             | None \<Rightarrow>
                 (case (if sel then c 1 else None) of
                    Some e \<Rightarrow> Refused (CausedByCancel e)
                  | None \<Rightarrow>
                      (case check_open has_conn (is_closed 2) (c 2) of
                         Some e \<Rightarrow> Refused e
                       | None \<Rightarrow> Admitted))))"

text \<open>What the system call returned: bytes, out-of-band bytes, its error, the reset's error.\<close>

type_synonym 'e write_io = "nat \<times> nat \<times> 'e option \<times> 'e option"

definition write_msg_context ::
    "ctx \<Rightarrow> bool \<Rightarrow> (nat \<Rightarrow> bool) \<Rightarrow> bool \<Rightarrow> 'e write_io \<Rightarrow> byte list \<Rightarrow> byte list \<Rightarrow>
       'e io_cause list option" where
  "write_msg_context c has_conn is_closed sel io data oob =
     (case gate_admit c has_conn is_closed sel of
        Refused e \<Rightarrow> Some [e]
      | NoConnection \<Rightarrow> None
      | Admitted \<Rightarrow>
          (case io of (n, oobn, err, reset_err) \<Rightarrow>
             finish_write_result (c 3) n oobn err reset_err (length data) (length oob)))"

definition dispatch_context ::
    "ctx \<Rightarrow> bool \<Rightarrow> (nat \<Rightarrow> bool) \<Rightarrow> bool \<Rightarrow> 'e option \<Rightarrow> 'e option \<Rightarrow> 'e io_cause list option" where
  "dispatch_context c has_conn is_closed sel err reset_err =
     (case gate_admit c has_conn is_closed sel of
        Refused e \<Rightarrow> Some [e]
      | NoConnection \<Rightarrow> None
      | Admitted \<Rightarrow> finish_read_result (c 3) err reset_err)"

text \<open>
  C36. A write reports success exactly when it happened: an admitted \<^verbatim>\<open>WriteMsgContext\<close> returns nil
  iff the system call wrote every data and out-of-band byte without error and the deadline was
  restored, even if the context is cancelled meanwhile; when it fails under a cancelled
  context the cancellation is the first cause.
\<close>

theorem write_success_exact:
  assumes "gate_admit c has_conn is_closed sel = (Admitted :: 'e admission)"
  shows "(write_msg_context c has_conn is_closed sel (n, oobn, err, reset_err) data oob = None \<longleftrightarrow>
      err = None \<and> reset_err = None \<and> n = length data \<and> oobn = length oob) \<and>
    (\<forall>e causes. c 3 = Some e \<longrightarrow>
      write_msg_context c has_conn is_closed sel (n, oobn, err :: 'e option, reset_err) data oob = Some causes \<longrightarrow>
      hd causes = CausedByCancel e)"
  using assms
  by (auto simp: write_msg_context_def finish_write_result_def split: option.splits)

theorem write_success_exact_witness:
  "write_msg_context (cancel_at 3 Canceled) True (\<lambda>_. False) True (8, 0, None :: nat option, None) (sync_msg 3) [] =
     Some [CausedByCancel Canceled, ShortWrite 8 12 0 0]"
proof -
  have "gate_admit (cancel_at 3 Canceled) True (\<lambda>_. False) True = (Admitted :: nat admission)"
    by (simp add: gate_admit_def check_open_def ensure_open_def cancel_at_def)
  from write_success_exact [OF this, of 8 0 None None "sync_msg 3" "[]"] show ?thesis
    by (simp add: write_msg_context_def finish_write_result_def gate_admit_def check_open_def
        ensure_open_def cancel_at_def sync_msg_def)
qed

section \<open>Requests that create and destroy objects\<close>

text \<open>
  \<open>w\<close> is the outcome of writing the message (\<open>None\<close> is success). The outer \<open>None\<close> is a
  \<^verbatim>\<open>Register\<close> that never finds a number. Each request registers its proxy, sends the message
  with the new number, and takes the proxy out again when the write failed.
\<close>

type_synonym 'e request = "wl_context \<Rightarrow> (('e + proxy) \<times> wl_context) option"

definition create_request :: "proxy \<Rightarrow> (u32 \<Rightarrow> byte list) \<Rightarrow> (byte list \<Rightarrow> 'e option) \<Rightarrow> 'e request" where
  "create_request p msg w c =
     map_option (\<lambda>c'. case w (msg (proxy_id c' p)) of
         Some e \<Rightarrow> (Inl e, unregister_proxy p c')
       | None \<Rightarrow> (Inr p, c')) (register p c)"

definition get_registry :: "proxy \<Rightarrow> (byte list \<Rightarrow> 'e option) \<Rightarrow> 'e request" where
  "get_registry reg w c = create_request reg get_registry_msg w c"

definition wl_sync :: "proxy \<Rightarrow> (byte list \<Rightarrow> 'e option) \<Rightarrow> 'e request" where
  "wl_sync cb w c = create_request cb sync_msg w c"

definition create_pool :: "proxy \<Rightarrow> proxy \<Rightarrow> u32 \<Rightarrow> (byte list \<Rightarrow> 'e option) \<Rightarrow> 'e request" where
  "create_pool shm pool len w c =
     create_request pool (\<lambda>i. create_pool_msg (proxy_id c shm) i len) w c"

definition create_buffer ::
    "proxy \<Rightarrow> proxy \<Rightarrow> u32 \<Rightarrow> u32 \<Rightarrow> u32 \<Rightarrow> u32 \<Rightarrow> u32 \<Rightarrow> (byte list \<Rightarrow> 'e option) \<Rightarrow> 'e request" where
  "create_buffer pool buf offset width height stride fmt w c =
     create_request buf
       (\<lambda>i. create_buffer_msg (proxy_id c pool) i offset width height stride fmt) w c"

definition destroy_pool ::
    "proxy \<Rightarrow> (byte list \<Rightarrow> 'e option) \<Rightarrow> wl_context \<Rightarrow> 'e option \<times> wl_context" where
  "destroy_pool p w c =
     (case w (pool_destroy_msg (proxy_id c p)) of
        Some e \<Rightarrow> (Some e, c)
      | None \<Rightarrow> (None, unregister_proxy p c))"

definition destroy_buffer ::
    "proxy \<Rightarrow> (byte list \<Rightarrow> 'e option) \<Rightarrow> wl_context \<Rightarrow> 'e option \<times> wl_context" where
  "destroy_buffer p w c =
     (case w (buffer_destroy_msg (proxy_id c p)) of
        Some e \<Rightarrow> (Some e, c)
      | None \<Rightarrow> (None, unregister_proxy p c))"

definition bind_global ::
    "proxy \<Rightarrow> u32 \<Rightarrow> byte list \<Rightarrow> u32 \<Rightarrow> u32 \<Rightarrow> (byte list \<Rightarrow> 'e option) \<Rightarrow> wl_context \<Rightarrow> 'e option" where
  "bind_global reg name iface ver new_id w c = w (bind_msg (proxy_id c reg) name iface ver new_id)"

lemma create_request_cases:
  "create_request p msg w c = Some (r, c') \<Longrightarrow>
     (\<exists>e. r = Inl e \<and> objects c' = objects c) \<or>
     (r = Inr p \<and> w (msg (proxy_id c' p)) = None \<and> objects c (proxy_id c' p) = None \<and>
        proxy_id c' p \<noteq> 0 \<and> objects c' = (objects c)(proxy_id c' p \<mapsto> p))"
  by (auto simp: create_request_def unregister_register split: option.splits)
     (auto simp: register_def dest!: find_free_Some)

lemmas request_defs = get_registry_def wl_sync_def create_pool_def create_buffer_def

text \<open>
  Creating an object is all or nothing: when the request could not be written the object
  registry is exactly what it was, and when it was written the new proxy is registered under
  the fresh nonzero number the message carried and nothing else changed.
\<close>

theorem create_request_atomic:
  assumes "create_buffer pool buf offset width height stride fmt w c = Some (r, c') \<or>
    create_pool shm buf len w c = Some (r, c') \<or> get_registry buf w c = Some (r, c') \<or>
    wl_sync buf w c = Some (r, c')"
  shows "(\<exists>e. r = Inl e \<and> objects c' = objects c) \<or>
    (r = Inr buf \<and> proxy_id c' buf \<noteq> 0 \<and> objects c (proxy_id c' buf) = None \<and>
     objects c' = (objects c)(proxy_id c' buf \<mapsto> buf))"
  using assms unfolding request_defs by (elim disjE; auto dest!: create_request_cases)

lemma find_free_next: "n + 1 \<noteq> 0 \<Longrightarrow> objs (n + 1) = None \<Longrightarrow> find_free objs n = Some (n + 1)"
  by (subst find_free.simps) (simp add: Let_def)

lemma wl_sync_fails:
  "wl_sync 3 (\<lambda>_. Some ''EPIPE'') new_wl_context =
     Some (Inl ''EPIPE'', new_wl_context\<lparr>next_id := 2, proxy_id := (proxy_id new_wl_context)(3 := 2)\<rparr>)"
  by (simp add: wl_sync_def create_request_def register_def new_wl_context_def find_free_next
      unregister_proxy_def unregister_def fun_upd_idem)

theorem create_request_atomic_witness:
  "objects (new_wl_context\<lparr>next_id := 2, proxy_id := (proxy_id new_wl_context)(3 := 2)\<rparr>) = objects new_wl_context"
  using create_request_atomic [of 0 3 0 0 0 0 0 "\<lambda>_. Some ''EPIPE''" new_wl_context, OF disjI2 [OF disjI2 [OF disjI2 [OF wl_sync_fails]]]]
  by simp

section \<open>Round trips\<close>

text \<open>
  \<^verbatim>\<open>RoundTripContext\<close> pumps messages until its own callback is done. \<open>h\<close> is the effect of the
  handlers of all other proxies; an inbound item is a delivered message or the error of
  \<^verbatim>\<open>DispatchContext\<close>. \<open>None\<close> is a call still blocked when the inbound items are used up.
\<close>

fun pump ::
    "(proxy \<Rightarrow> u32 \<Rightarrow> byte list \<Rightarrow> wl_context \<Rightarrow> wl_context) \<Rightarrow> proxy \<Rightarrow>
     ('e + wl_message) list \<Rightarrow> wl_context \<Rightarrow> ('e option \<times> wl_context) option" where
  "pump h cb [] c = None"
| "pump h cb (Inl e # ms) c = Some (Some e, c)"
| "pump h cb (Inr (sender, opcode, body) # ms) c =
     (case objects c sender of
        None \<Rightarrow> pump h cb ms c
      | Some p \<Rightarrow>
          if p = cb then (if opcode = 0 then Some (None, c) else pump h cb ms c)
          else pump h cb ms (h p opcode body c))"

definition round_trip ::
    "(proxy \<Rightarrow> u32 \<Rightarrow> byte list \<Rightarrow> wl_context \<Rightarrow> wl_context) \<Rightarrow> proxy \<Rightarrow> 'e admission \<Rightarrow>
     (byte list \<Rightarrow> 'e io_cause option) \<Rightarrow> ('e io_cause + wl_message) list \<Rightarrow> wl_context \<Rightarrow>
     ('e io_cause option \<times> wl_context) option" where
  "round_trip h cb adm w inbound c =
     (case adm of
        Refused e \<Rightarrow> Some (Some e, c)
      | NoConnection \<Rightarrow> Some (None, c)
      | Admitted \<Rightarrow>
          (case register cb c of
             None \<Rightarrow> None
           | Some c1 \<Rightarrow>
               (let i = proxy_id c1 cb; cleanup = (\<lambda>(r, c2). (r, unregister i cb c2)) in
                case w (sync_msg i) of
                  Some e \<Rightarrow> Some (cleanup (Some e, c1))
                | None \<Rightarrow> map_option cleanup (pump h cb inbound c1))))"

text \<open>Handlers that leave the callback's own registration and every other entry alone.\<close>

definition handlers_frame ::
    "(proxy \<Rightarrow> u32 \<Rightarrow> byte list \<Rightarrow> wl_context \<Rightarrow> wl_context) \<Rightarrow> bool" where
  "handlers_frame h \<longleftrightarrow> (\<forall>p opc body c. objects (h p opc body c) = objects c)"

lemma pump_frame: "handlers_frame h \<Longrightarrow> pump h cb ms c = Some (r, c') \<Longrightarrow> objects c' = objects c"
proof (induction h cb ms c rule: pump.induct)
  case (3 h cb sender opcode body ms c)
  then show ?case
    by (auto simp: handlers_frame_def split: option.splits if_splits)
qed simp_all

text \<open>
  A round trip cleans up after itself on every path: refused, failed write, read error or
  completion, with any traffic in between, the registry afterwards holds exactly the objects
  it held before; the temporary callback is gone.
\<close>

theorem round_trip_leaves_no_callback:
  assumes "handlers_frame h" "round_trip h cb adm w inbound c = Some (r, c')"
  shows "objects c' = objects c"
proof (cases adm)
  case Admitted
  with assms(2) obtain c1 where reg: "register cb c = Some c1"
    by (auto simp: round_trip_def split: option.splits)
  have undo: "objects c2 = objects c1 \<Longrightarrow> objects (unregister (proxy_id c1 cb) cb c2) = objects c" for c2
    using reg by (auto simp: register_def unregister_def dest!: find_free_Some)
  show ?thesis
  proof (cases "w (sync_msg (proxy_id c1 cb))")
    case None
    with assms Admitted reg obtain c2 where "pump h cb inbound c1 = Some (r, c2)"
      "c' = unregister (proxy_id c1 cb) cb c2"
      by (auto simp: round_trip_def Let_def)
    with pump_frame [OF assms(1)] undo show ?thesis by blast
  next
    case (Some e)
    with assms(2) Admitted reg undo [OF refl] show ?thesis
      by (auto simp: round_trip_def Let_def)
  qed
qed (use assms(2) in \<open>simp_all add: round_trip_def\<close>)

lemma round_trip_completes:
  "round_trip (\<lambda>_ _ _ c. c) 3 Admitted (\<lambda>_. None) [Inr (9, 4, []), Inr (2, 0, [])] new_wl_context =
     Some (None, new_wl_context\<lparr>next_id := 2, proxy_id := (proxy_id new_wl_context)(3 := 2)\<rparr>)"
  by (simp add: round_trip_def register_def new_wl_context_def find_free_next unregister_def
      Let_def fun_upd_idem)

theorem round_trip_leaves_no_callback_witness:
  "objects (new_wl_context\<lparr>next_id := 2, proxy_id := (proxy_id new_wl_context)(3 := 2)\<rparr>) = objects new_wl_context"
  by (rule round_trip_leaves_no_callback [OF _ round_trip_completes]) (simp add: handlers_frame_def)

end
