(* ===== verification/WlSession.thy ===== *)
theory WlSession
  imports Wire "HOL-Library.List_Lexorder" "HOL-Library.Product_Lexorder"
begin

text \<open>
  Wayland sessions of \<^verbatim>\<open>internal/wl/session.go\<close>: the snapshot of advertised globals, refined to
  a map from registry names, and the process-wide cache of connections with its reference
  counts. The critical sections under \<^verbatim>\<open>sessionCacheMu\<close> are single steps, so that a second
  goroutine may dial the same socket between the lookup and the publication of the first.
\<close>

section \<open>Advertised globals\<close>

definition sort_globals :: "global_event list \<Rightarrow> global_event list" where
  "sort_globals gs = sort_key (\<lambda>g. (ev_name g, ev_interface g, ev_version g)) gs"

fun replace_global :: "global_event \<Rightarrow> global_event list \<Rightarrow> global_event list option" where
  "replace_global ev [] = None"
| "replace_global ev (g # gs) =
     (if ev_name g = ev_name ev then Some (ev # gs)
      else map_option (\<lambda>gs'. g # gs') (replace_global ev gs))"

definition add_global :: "global_event \<Rightarrow> global_event list \<Rightarrow> global_event list" where
  "add_global ev gs =
     (case replace_global ev gs of
        Some gs' \<Rightarrow> sort_globals gs'
      | None \<Rightarrow> sort_globals (gs @ [ev]))"

definition remove_global :: "u32 \<Rightarrow> global_event list \<Rightarrow> global_event list" where
  "remove_global n gs = filter (\<lambda>g. ev_name g \<noteq> n) gs"

fun apply_event :: "registry_event \<Rightarrow> global_event list \<Rightarrow> global_event list" where
  "apply_event (GlobalAdded ev) gs = add_global ev gs"
| "apply_event (GlobalRemoved n) gs = remove_global n gs"

definition globals_after :: "registry_event list \<Rightarrow> global_event list" where
  "globals_after evs = fold apply_event evs []"

subsection \<open>The specification: a map from names\<close>

fun spec_event :: "registry_event \<Rightarrow> (u32 \<rightharpoonup> global_event) \<Rightarrow> (u32 \<rightharpoonup> global_event)" where
  "spec_event (GlobalAdded ev) m = m(ev_name ev \<mapsto> ev)"
| "spec_event (GlobalRemoved n) m = m(n := None)"

definition globals_map :: "global_event list \<Rightarrow> (u32 \<rightharpoonup> global_event)" where
  "globals_map gs = map_of (map (\<lambda>g. (ev_name g, g)) gs)"

definition globals_ok :: "global_event list \<Rightarrow> bool" where
  "globals_ok gs \<longleftrightarrow> sorted_wrt (\<lambda>a b. ev_name a < ev_name b) gs"

lemma globals_ok_distinct: "globals_ok gs \<Longrightarrow> distinct (map ev_name gs)"
  unfolding globals_ok_def by (induction gs) auto

lemma sort_globals_ok:
  assumes "distinct (map ev_name gs)"
  shows "globals_ok (sort_globals gs)" "set (sort_globals gs) = set gs"
    "distinct (map ev_name (sort_globals gs))"
proof -
  let ?k = "\<lambda>g. (ev_name g, ev_interface g, ev_version g)"
  show d: "distinct (map ev_name (sort_globals gs))"
    using assms by (simp add: sort_globals_def distinct_map)
  have "sorted_wrt (\<lambda>a b. ?k a \<le> ?k b) (sort_globals gs)"
    using sorted_sort_key [of ?k gs] by (simp add: sort_globals_def sorted_wrt_map)
  then have le: "sorted_wrt (\<lambda>a b. ev_name a \<le> ev_name b) (sort_globals gs)"
    by (rule sorted_wrt_mono_rel [rotated]) (auto simp: less_eq_prod_def)
  have "sorted_wrt (\<lambda>a b. ev_name a < ev_name b) xs"
    if "sorted_wrt (\<lambda>a b. ev_name a \<le> ev_name b) xs" "distinct (map ev_name xs)" for xs
    using that by (induction xs) (auto simp: less_le)
  with le d show "globals_ok (sort_globals gs)" by (simp add: globals_ok_def)
  show "set (sort_globals gs) = set gs" by (simp add: sort_globals_def)
qed

lemma globals_map_set: "distinct (map ev_name gs) \<Longrightarrow> globals_map gs n = Some g \<longleftrightarrow> g \<in> set gs \<and> ev_name g = n"
  unfolding globals_map_def by (subst map_of_eq_Some_iff) (auto simp: comp_def)

lemma globals_map_cong:
  assumes "distinct (map ev_name gs)" "distinct (map ev_name hs)" "set gs = set hs"
  shows "globals_map gs = globals_map hs"
proof
  fix n
  show "globals_map gs n = globals_map hs n"
    using assms globals_map_set [of gs n] globals_map_set [of hs n]
    by (cases "globals_map gs n"; cases "globals_map hs n") auto
qed

lemma replace_global_None: "replace_global ev gs = None \<longleftrightarrow> ev_name ev \<notin> ev_name ` set gs"
  by (induction gs) auto

lemma replace_global_Some:
  "replace_global ev gs = Some gs' \<Longrightarrow>
     map ev_name gs' = map ev_name gs \<and> globals_map gs' = (globals_map gs)(ev_name ev \<mapsto> ev)"
  by (induction gs arbitrary: gs') (auto simp: globals_map_def split: if_splits)

lemma globals_map_snoc:
  "ev_name ev \<notin> ev_name ` set gs \<Longrightarrow> globals_map (gs @ [ev]) = (globals_map gs)(ev_name ev \<mapsto> ev)"
  by (induction gs) (auto simp: globals_map_def fun_upd_twist)

lemma add_global_refines:
  assumes "globals_ok gs"
  shows "globals_ok (add_global ev gs) \<and> globals_map (add_global ev gs) = (globals_map gs)(ev_name ev \<mapsto> ev)"
proof -
  have d: "distinct (map ev_name gs)" using assms by (rule globals_ok_distinct)
  show ?thesis
  proof (cases "replace_global ev gs")
    case None
    then have new: "ev_name ev \<notin> ev_name ` set gs" by (simp add: replace_global_None)
    then have d': "distinct (map ev_name (gs @ [ev]))" using d by simp
    have "globals_map (sort_globals (gs @ [ev])) = globals_map (gs @ [ev])"
      by (rule globals_map_cong) (use sort_globals_ok [OF d'] d' in simp_all)
    with None new sort_globals_ok [OF d'] show ?thesis
      by (simp add: add_global_def globals_map_snoc)
  next
    case (Some gs')
    then have d': "distinct (map ev_name gs')" using replace_global_Some [OF Some] d by simp
    have "globals_map (sort_globals gs') = globals_map gs'"
      by (rule globals_map_cong) (use sort_globals_ok [OF d'] d' in simp_all)
    with Some replace_global_Some [OF Some] sort_globals_ok [OF d'] show ?thesis
      by (simp add: add_global_def)
  qed
qed

lemma remove_global_refines:
  "globals_ok gs \<Longrightarrow>
     globals_ok (remove_global n gs) \<and> globals_map (remove_global n gs) = (globals_map gs)(n := None)"
  unfolding globals_ok_def remove_global_def
  by (rule conjI, simp add: sorted_wrt_filter) (induction gs, auto simp: globals_map_def)

lemma apply_event_refines:
  "globals_ok gs \<Longrightarrow>
     globals_ok (apply_event e gs) \<and> globals_map (apply_event e gs) = spec_event e (globals_map gs)"
  by (cases e) (simp_all add: add_global_refines remove_global_refines)

lemma fold_events_refine:
  "globals_ok gs \<Longrightarrow>
     globals_ok (fold apply_event evs gs) \<and>
     globals_map (fold apply_event evs gs) = fold spec_event evs (globals_map gs)"
  using apply_event_refines by (induction evs arbitrary: gs) auto

text \<open>
  The snapshot of globals refines a map: after any sequence of announcements and removals it is
  sorted by strictly increasing registry name, and looking a name up gives the last
  announcement of that name that was not followed by its removal.
\<close>

theorem globals_refine_map:
  "globals_ok (globals_after evs) \<and> globals_map (globals_after evs) = fold spec_event evs Map.empty"
  using fold_events_refine [of "[]" evs]
  by (simp add: globals_after_def globals_ok_def globals_map_def)

section \<open>The connection cache\<close>

text \<open>
  A cached \<^verbatim>\<open>sessionRef\<close> and the connection of its canonical session are one number: the
  number of the connection that was published under the socket. \<open>closed_conns\<close> lists the
  connections in the order their \<^verbatim>\<open>Ctx.Close\<close> ran; \<open>dialing\<close> are the connections set up
  but not yet published.
\<close>

record handle =
  h_sock :: string
  h_ref :: nat
  h_closed :: bool

record sessions =
  cache :: "string \<rightharpoonup> nat"
  refs :: "nat \<Rightarrow> int"
  handles :: "handle list"
  dialing :: "nat set"
  next_conn :: nat
  closed_conns :: "nat list"

definition no_sessions :: sessions where
  "no_sessions = \<lparr>cache = Map.empty, refs = (\<lambda>_. 0), handles = [], dialing = {}, next_conn = 0,
     closed_conns = []\<rparr>"

definition new_handle :: "string \<Rightarrow> nat \<Rightarrow> sessions \<Rightarrow> sessions" where
  "new_handle sock r s =
     s\<lparr>handles := handles s @ [\<lparr>h_sock = sock, h_ref = r, h_closed = False\<rparr>]\<rparr>"

definition close_conn :: "nat \<Rightarrow> sessions \<Rightarrow> sessions" where
  "close_conn k s = s\<lparr>closed_conns := closed_conns s @ [k]\<rparr>"

datatype open_result = Failed ctx_err | Opened nat | Miss

text \<open>The first critical section of \<^verbatim>\<open>NewSessionContext\<close>; \<open>Opened\<close> names the new handle.\<close>

definition lookup_session :: "string \<Rightarrow> ctx_err option \<Rightarrow> sessions \<Rightarrow> open_result \<times> sessions" where
  "lookup_session sock cerr s =
     (case cache s sock of
        Some r \<Rightarrow>
          (case cerr of
             Some e \<Rightarrow> (Failed e, s)
           | None \<Rightarrow>
               (Opened (length (handles s)),
                new_handle sock r (s\<lparr>refs := (refs s)(r := refs s r + 1)\<rparr>)))
      | None \<Rightarrow> (Miss, s))"

text \<open>
  Outside the lock: connect and run the registry round trip. A failure after the connection was
  made, or a context already done, closes it.
\<close>

definition dial_session :: "sessions \<Rightarrow> nat \<times> sessions" where
  "dial_session s =
     (next_conn s, s\<lparr>next_conn := Suc (next_conn s), dialing := insert (next_conn s) (dialing s)\<rparr>)"

definition abandon_dial :: "nat \<Rightarrow> sessions \<Rightarrow> sessions" where
  "abandon_dial k s = close_conn k (s\<lparr>dialing := dialing s - {k}\<rparr>)"

text \<open>The second critical section, for the connection \<open>k\<close> this call dialled.\<close>

definition publish_session ::
    "string \<Rightarrow> nat \<Rightarrow> ctx_err option \<Rightarrow> sessions \<Rightarrow> open_result \<times> sessions" where
  "publish_session sock k cerr s =
     (case cache s sock of
        Some r \<Rightarrow>
          (case cerr of
             Some e \<Rightarrow> (Failed e, abandon_dial k s)
           | None \<Rightarrow>
               (Opened (length (handles s)),
                new_handle sock r (abandon_dial k (s\<lparr>refs := (refs s)(r := refs s r + 1)\<rparr>))))
      | None \<Rightarrow>
          (case cerr of
             Some e \<Rightarrow> (Failed e, abandon_dial k s)
           | None \<Rightarrow>
               (Opened (length (handles s)),
                new_handle sock k
                  (s\<lparr>cache := (cache s)(sock \<mapsto> k), refs := (refs s)(k := 1),
                    dialing := dialing s - {k}\<rparr>))))"

text \<open>\<^verbatim>\<open>Session.Close\<close> on the handle number \<open>i\<close>.\<close>

definition close_handle :: "nat \<Rightarrow> sessions \<Rightarrow> sessions" where
  "close_handle i s =
     (let h = handles s ! i in
      if h_closed h then s
      else
        let s = s\<lparr>handles := (handles s)[i := h\<lparr>h_closed := True\<rparr>]\<rparr>; r = h_ref h in
        if cache s (h_sock h) \<noteq> Some r then s
        else
          let s = s\<lparr>refs := (refs s)(r := refs s r - 1)\<rparr> in
          if refs s r \<le> 0 then close_conn r (s\<lparr>cache := (cache s)(h_sock h := None)\<rparr>)
          else s)"

inductive session_step :: "sessions \<Rightarrow> sessions \<Rightarrow> bool" where
  lookup: "session_step s (snd (lookup_session sock cerr s))"
| dial: "session_step s (snd (dial_session s))"
| abandon: "k \<in> dialing s \<Longrightarrow> session_step s (abandon_dial k s)"
| publish: "k \<in> dialing s \<Longrightarrow> session_step s (snd (publish_session sock k cerr s))"
| close: "i < length (handles s) \<Longrightarrow> session_step s (close_handle i s)"

inductive session_reach :: "sessions \<Rightarrow> bool" where
  start: "session_reach no_sessions"
| step: "session_reach s \<Longrightarrow> session_step s t \<Longrightarrow> session_reach t"

subsection \<open>Reference counts\<close>

definition holds :: "nat \<Rightarrow> handle \<Rightarrow> bool" where
  "holds r h \<longleftrightarrow> h_ref h = r \<and> \<not> h_closed h"

fun open_count :: "nat \<Rightarrow> handle list \<Rightarrow> nat" where
  "open_count r [] = 0"
| "open_count r (h # hs) = (if holds r h then 1 else 0) + open_count r hs"

definition cache_ok :: "sessions \<Rightarrow> bool" where
  "cache_ok s \<longleftrightarrow>
     (\<forall>k r. cache s k = Some r \<longrightarrow>
        refs s r = int (open_count r (handles s)) \<and> 0 < open_count r (handles s) \<and>
        r \<notin> set (closed_conns s) \<and> r \<notin> dialing s \<and> r < next_conn s) \<and>
     (\<forall>k k' r. cache s k = Some r \<longrightarrow> cache s k' = Some r \<longrightarrow> k = k')"

definition conns_ok :: "sessions \<Rightarrow> bool" where
  "conns_ok s \<longleftrightarrow>
     (\<forall>h \<in> set (handles s). h_ref h < next_conn s \<and> h_ref h \<notin> dialing s \<and>
        (\<not> h_closed h \<longrightarrow> cache s (h_sock h) = Some (h_ref h))) \<and>
     distinct (closed_conns s) \<and>
     (\<forall>k \<in> set (closed_conns s). k < next_conn s \<and> k \<notin> dialing s) \<and>
     (\<forall>k \<in> dialing s. k < next_conn s)"

definition sessions_ok :: "sessions \<Rightarrow> bool" where
  "sessions_ok s \<longleftrightarrow> cache_ok s \<and> conns_ok s"

lemma open_count_snoc [simp]:
  "open_count r (hs @ [h]) = open_count r hs + (if holds r h then 1 else 0)"
  by (induction hs) simp_all

lemma open_count_close:
  "i < length hs \<Longrightarrow> \<not> h_closed (hs ! i) \<Longrightarrow>
     open_count r (hs[i := (hs ! i)\<lparr>h_closed := True\<rparr>]) + (if h_ref (hs ! i) = r then 1 else 0) =
     open_count r hs"
proof (induction hs arbitrary: i)
  case (Cons h hs)
  then show ?case by (cases i) (auto simp: holds_def)
qed simp

lemma open_count_0: "open_count r hs = 0 \<longleftrightarrow> (\<forall>h \<in> set hs. \<not> holds r h)"
  by (induction hs) auto

lemma no_holder: "\<forall>h \<in> set hs. h_ref h \<noteq> r \<Longrightarrow> open_count r hs = 0"
  by (induction hs) (auto simp: holds_def)

lemma no_sessions_ok: "sessions_ok no_sessions"
  by (simp add: sessions_ok_def cache_ok_def conns_ok_def no_sessions_def)

lemma dial_ok: "sessions_ok s \<Longrightarrow> sessions_ok (snd (dial_session s))"
  by (fastforce simp: sessions_ok_def cache_ok_def conns_ok_def dial_session_def)

lemma abandon_ok: "sessions_ok s \<Longrightarrow> k \<in> dialing s \<Longrightarrow> sessions_ok (abandon_dial k s)"
  unfolding sessions_ok_def cache_ok_def conns_ok_def abandon_dial_def close_conn_def
  by (auto simp: )

lemma join_ok:
  assumes s: "sessions_ok s" and r: "cache s sock = Some r"
  shows "sessions_ok (new_handle sock r (s\<lparr>refs := (refs s)(r := refs s r + 1)\<rparr>))"
proof -
  have "r < next_conn s" "r \<notin> dialing s" using s r by (auto simp: sessions_ok_def cache_ok_def)
  with s r show ?thesis
    unfolding sessions_ok_def cache_ok_def conns_ok_def new_handle_def
    by (auto simp: holds_def)
qed

lemma lookup_ok: "sessions_ok s \<Longrightarrow> sessions_ok (snd (lookup_session sock cerr s))"
  by (auto simp: lookup_session_def join_ok split: option.split)

lemma abandon_refs: "abandon_dial k (s\<lparr>refs := f\<rparr>) = (abandon_dial k s)\<lparr>refs := f\<rparr>"
  by (simp add: abandon_dial_def close_conn_def)

lemma abandon_fields [simp]:
  "cache (abandon_dial k s) = cache s" "refs (abandon_dial k s) = refs s"
  "handles (abandon_dial k s) = handles s"
  by (simp_all add: abandon_dial_def close_conn_def)

lemma publish_new_ok:
  assumes s: "sessions_ok s" and k: "k \<in> dialing s" and miss: "cache s sock = None"
  shows "sessions_ok (new_handle sock k
    (s\<lparr>cache := (cache s)(sock \<mapsto> k), refs := (refs s)(k := 1), dialing := dialing s - {k}\<rparr>))"
proof -
  have none: "open_count k (handles s) = 0"
    using s k by (intro no_holder) (auto simp: sessions_ok_def conns_ok_def)
  have uncached: "cache s j \<noteq> Some k" for j
    using s k by (auto simp: sessions_ok_def cache_ok_def)
  have others: "h \<in> set (handles s) \<Longrightarrow> \<not> h_closed h \<Longrightarrow> h_sock h \<noteq> sock" for h
    using s miss by (auto simp: sessions_ok_def conns_ok_def)
  have fresh: "h \<in> set (handles s) \<Longrightarrow> h_ref h \<noteq> k" for h
    using s k by (auto simp: sessions_ok_def conns_ok_def)
  have "cache_ok s" "conns_ok s" using s by (simp_all add: sessions_ok_def)
  with k none uncached show ?thesis
    unfolding sessions_ok_def
    by (intro conjI; unfold cache_ok_def conns_ok_def new_handle_def)
       (auto simp: holds_def dest: others)
qed

lemma publish_ok:
  assumes "sessions_ok s" "k \<in> dialing s"
  shows "sessions_ok (snd (publish_session sock k cerr s))"
proof (cases "cache s sock")
  case None
  with assms show ?thesis
    by (auto simp: publish_session_def publish_new_ok abandon_ok split: option.split)
next
  case (Some r)
  have "sessions_ok (new_handle sock r ((abandon_dial k s)\<lparr>refs := (refs s)(r := refs s r + 1)\<rparr>))"
    using join_ok [OF abandon_ok [OF assms], of sock r] Some by simp
  with Some assms show ?thesis
    by (auto simp: publish_session_def abandon_ok abandon_refs split: option.split)
qed

lemma close_ok:
  assumes s: "sessions_ok s" and i: "i < length (handles s)"
  shows "sessions_ok (close_handle i s)"
proof (cases "h_closed (handles s ! i)")
  case True
  with s show ?thesis by (simp add: close_handle_def Let_def)
next
  case False
  let ?h = "handles s ! i"
  let ?r = "h_ref ?h"
  let ?hs = "(handles s)[i := ?h\<lparr>h_closed := True\<rparr>]"
  have h: "?h \<in> set (handles s)" using i by simp
  then have c: "cache s (h_sock ?h) = Some ?r" and lt: "?r < next_conn s" "?r \<notin> dialing s"
    using s False by (auto simp: sessions_ok_def conns_ok_def)
  have cnt: "open_count q ?hs + (if ?r = q then 1 else 0) = open_count q (handles s)" for q
    using i False by (rule open_count_close)
  have sub: "g \<in> set ?hs \<Longrightarrow> (g \<in> set (handles s) \<or> h_closed g) \<and> h_ref g < next_conn s \<and> h_ref g \<notin> dialing s" for g
    using set_update_subset_insert [of "handles s" i "?h\<lparr>h_closed := True\<rparr>"] s lt
    by (auto simp: sessions_ok_def conns_ok_def)
  have r: "refs s ?r = int (open_count ?r (handles s))" "?r \<notin> set (closed_conns s)"
    and inj: "cache s j = Some ?r \<Longrightarrow> j = h_sock ?h" for j
    using s c unfolding sessions_ok_def cache_ok_def by blast+
  have co: "cache_ok s" "conns_ok s" using s by (simp_all add: sessions_ok_def)
  have same: "q \<noteq> ?r \<Longrightarrow> open_count q ?hs = open_count q (handles s)" for q
    using cnt [of q] by simp
  show ?thesis
  proof (cases "open_count ?r ?hs = 0")
    case True
    have gone: "g \<in> set ?hs \<Longrightarrow> \<not> h_closed g \<Longrightarrow> h_ref g \<noteq> ?r" for g
      using True unfolding open_count_0 holds_def by blast
    have live: "g \<in> set ?hs \<Longrightarrow> \<not> h_closed g \<Longrightarrow>
        cache s (h_sock g) = Some (h_ref g) \<and> h_sock g \<noteq> h_sock ?h" for g
      using sub [of g] gone [of g] c co(2) by (auto simp: conns_ok_def)
    let ?t = "close_conn ?r (s\<lparr>handles := ?hs, refs := (refs s)(?r := refs s ?r - 1), cache := (cache s)(h_sock ?h := None)\<rparr>)"
    have t: "close_handle i s = ?t"
      using False c cnt [of ?r] True r by (simp add: close_handle_def Let_def close_conn_def)
    have "cache_ok ?t" unfolding cache_ok_def
    proof (intro conjI allI impI)
      fix j q assume "cache ?t j = Some q"
      then have q: "cache s j = Some q" "j \<noteq> h_sock ?h" by (auto simp: close_conn_def split: if_splits)
      then have ne: "q \<noteq> ?r" using inj by auto
      have old: "refs s q = int (open_count q (handles s))" "0 < open_count q (handles s)"
        "q \<notin> set (closed_conns s)" "q \<notin> dialing s" "q < next_conn s"
        using co(1) q(1) unfolding cache_ok_def by blast+
      show "refs ?t q = int (open_count q (handles ?t))" "0 < open_count q (handles ?t)"
        "q \<notin> set (closed_conns ?t)" "q \<notin> dialing ?t" "q < next_conn ?t"
        using old ne same [of q] by (simp_all add: close_conn_def)
    next
      fix j j' q assume "cache ?t j = Some q" "cache ?t j' = Some q"
      then have "cache s j = Some q" "cache s j' = Some q" by (auto simp: close_conn_def split: if_splits)
      with co(1) show "j = j'" unfolding cache_ok_def by blast
    qed
    moreover have "conns_ok ?t" unfolding conns_ok_def
    proof (intro conjI ballI impI)
      fix g assume "g \<in> set (handles ?t)"
      then have g: "g \<in> set ?hs" by (simp add: close_conn_def)
      then show "h_ref g < next_conn ?t" "h_ref g \<notin> dialing ?t"
        using sub [OF g] by (simp_all add: close_conn_def)
      show "cache ?t (h_sock g) = Some (h_ref g)" if "\<not> h_closed g"
        using live [OF g that] by (simp add: close_conn_def)
    qed (use co(2) lt r(2) in \<open>auto simp: conns_ok_def close_conn_def\<close>)
    ultimately show ?thesis by (simp add: sessions_ok_def t)
  next
    case more: False
    have live: "g \<in> set ?hs \<Longrightarrow> \<not> h_closed g \<Longrightarrow> cache s (h_sock g) = Some (h_ref g)" for g
      using sub [of g] co(2) by (auto simp: conns_ok_def)
    let ?t = "s\<lparr>handles := ?hs, refs := (refs s)(?r := refs s ?r - 1)\<rparr>"
    have t: "close_handle i s = ?t"
      using False c cnt [of ?r] more r by (simp add: close_handle_def Let_def)
    have "cache_ok ?t" unfolding cache_ok_def
    proof (intro conjI allI impI)
      fix j q assume "cache ?t j = Some q"
      then have q: "cache s j = Some q" by simp
      have old: "refs s q = int (open_count q (handles s))" "0 < open_count q (handles s)"
        "q \<notin> set (closed_conns s)" "q \<notin> dialing s" "q < next_conn s"
        using co(1) q unfolding cache_ok_def by blast+
      show "refs ?t q = int (open_count q (handles ?t))" "0 < open_count q (handles ?t)"
        "q \<notin> set (closed_conns ?t)" "q \<notin> dialing ?t" "q < next_conn ?t"
        using old same [of q] cnt [of ?r] more r(1) by (cases "q = ?r"; simp)+
    next
      fix j j' q assume "cache ?t j = Some q" "cache ?t j' = Some q"
      with co(1) show "j = j'" unfolding cache_ok_def by simp
    qed
    moreover have "conns_ok ?t" unfolding conns_ok_def
    proof (intro conjI ballI impI)
      fix g assume g: "g \<in> set (handles ?t)"
      then show "h_ref g < next_conn ?t" "h_ref g \<notin> dialing ?t"
        using sub [of g] by simp_all
      show "cache ?t (h_sock g) = Some (h_ref g)" if "\<not> h_closed g"
        using live [of g] g that by simp
    qed (use co(2) in \<open>auto simp: conns_ok_def\<close>)
    ultimately show ?thesis by (simp add: sessions_ok_def t)
  qed
qed

lemma session_step_ok: "session_step s t \<Longrightarrow> sessions_ok s \<Longrightarrow> sessions_ok t"
  by (induction rule: session_step.induct)
     (auto intro: lookup_ok dial_ok abandon_ok publish_ok close_ok)

lemma session_reach_ok: "session_reach s \<Longrightarrow> sessions_ok s"
  by (induction rule: session_reach.induct) (auto intro: no_sessions_ok session_step_ok)

text \<open>
  C2. A handle that has not been closed always has a live connection: in every reachable state of
  the cache, whatever dials, publications, failures and closes interleave, the connection of an
  open handle has not been closed, it is the one cached under the handle's socket, and its
  reference count is the number of open handles on it.
\<close>

theorem open_handle_connected:
  assumes "session_reach s" "h \<in> set (handles s)" "\<not> h_closed h"
  shows "h_ref h \<notin> set (closed_conns s) \<and> cache s (h_sock h) = Some (h_ref h) \<and>
    refs s (h_ref h) = int (open_count (h_ref h) (handles s))"
  using session_reach_ok [OF assms(1)] assms(2,3)
  by (auto simp: sessions_ok_def cache_ok_def conns_ok_def)

definition accounted :: "sessions \<Rightarrow> nat \<Rightarrow> bool" where
  "accounted s k \<longleftrightarrow> k \<in> dialing s \<or> k \<in> set (closed_conns s) \<or>
     (\<exists>h \<in> set (handles s). holds k h)"

lemma accounted_step:
  assumes ok: "sessions_ok s" and acc: "\<forall>k < next_conn s. accounted s k" and st: "session_step s t"
  shows "\<forall>k < next_conn t. accounted t k"
  using st ok acc
proof (cases rule: session_step.cases)
  case (lookup sock cerr)
  with acc show ?thesis
    by (auto simp: lookup_session_def new_handle_def accounted_def split: option.splits)
next
  case dial
  with acc show ?thesis by (auto simp: dial_session_def accounted_def less_Suc_eq)
next
  case (abandon k)
  with acc show ?thesis by (auto simp: abandon_dial_def close_conn_def accounted_def)
next
  case (publish k sock cerr)
  with acc show ?thesis
    by (auto simp: publish_session_def new_handle_def abandon_dial_def close_conn_def accounted_def
        holds_def split: option.splits)
next
  case (close i)
  let ?h = "handles s ! i"
  let ?hs = "(handles s)[i := ?h\<lparr>h_closed := True\<rparr>]"
  show ?thesis
  proof (cases "h_closed ?h")
    case True
    with close acc show ?thesis by (simp add: close_handle_def Let_def)
  next
    case False
    have c: "cache s (h_sock ?h) = Some (h_ref ?h)" and r: "refs s (h_ref ?h) = int (open_count (h_ref ?h) (handles s))"
      using ok close(2) False unfolding sessions_ok_def cache_ok_def conns_ok_def
      by (meson nth_mem)+
    have cnt: "open_count q ?hs + (if h_ref ?h = q then 1 else 0) = open_count q (handles s)" for q
      using close(2) False by (rule open_count_close)
    have pos: "(\<exists>h \<in> set ?hs. holds q h) \<longleftrightarrow> open_count q ?hs \<noteq> 0" for q
      using open_count_0 [of q ?hs] by auto
    have pos': "(\<exists>h \<in> set (handles s). holds q h) \<longleftrightarrow> open_count q (handles s) \<noteq> 0" for q
      using open_count_0 [of q "handles s"] by auto
    have last: "refs s (h_ref ?h) - 1 \<le> 0 \<longleftrightarrow> open_count (h_ref ?h) ?hs = 0"
      using cnt [of "h_ref ?h"] unfolding r by (simp, linarith)
    have t: "handles t = ?hs" "dialing t = dialing s" "next_conn t = next_conn s"
      "set (closed_conns t) = set (closed_conns s) \<union>
         (if open_count (h_ref ?h) ?hs = 0 then {h_ref ?h} else {})"
      using close(1) False c last by (simp_all add: close_handle_def Let_def close_conn_def)
    show ?thesis
    proof (intro allI impI)
      fix k assume "k < next_conn t"
      with acc have k: "accounted s k" by (simp add: t)
      show "accounted t k"
      proof (cases "k = h_ref ?h")
        case True
        then show ?thesis unfolding accounted_def t pos by simp
      next
        case False
        with cnt [of k] have "open_count k ?hs = open_count k (handles s)" by simp
        with k show ?thesis unfolding accounted_def t pos pos' by auto
      qed
    qed
  qed
qed

lemma reach_accounted: "session_reach s \<Longrightarrow> \<forall>k < next_conn s. accounted s k"
proof (induction rule: session_reach.induct)
  case start
  show ?case by (simp add: no_sessions_def)
next
  case (step s t)
  then show ?case using accounted_step [OF session_reach_ok] by blast
qed

text \<open>
  C30. No connection leaks and none is closed twice: in every reachable state each connection ever
  made is either still being set up, or in the cache with at least one open handle, or closed,
  and the list of closes has no repetition.
\<close>

theorem connections_accounted:
  assumes "session_reach s" "k < next_conn s"
  shows "(k \<in> dialing s \<or> k \<in> set (closed_conns s) \<or>
      (\<exists>h \<in> set (handles s). holds k h \<and> cache s (h_sock h) = Some k)) \<and> distinct (closed_conns s)"
proof -
  have ok: "sessions_ok s" using assms(1) by (rule session_reach_ok)
  have "accounted s k" using reach_accounted [OF assms(1)] assms(2) by blast
  with ok show ?thesis unfolding accounted_def holds_def sessions_ok_def conns_ok_def by blast
qed

subsection \<open>A run: two opens of one socket share a connection\<close>

definition shared_run :: sessions where
  "shared_run = snd (lookup_session ''w'' None (snd (publish_session ''w'' 0 None
     (snd (dial_session no_sessions)))))"

definition closed_run :: sessions where
  "closed_run = close_handle 1 (close_handle 0 shared_run)"

lemmas session_defs = lookup_session_def publish_session_def dial_session_def new_handle_def
  abandon_dial_def close_conn_def close_handle_def no_sessions_def

lemma shared_run_eq:
  "handles shared_run = [\<lparr>h_sock = ''w'', h_ref = 0, h_closed = False\<rparr>,
     \<lparr>h_sock = ''w'', h_ref = 0, h_closed = False\<rparr>]"
  "refs shared_run 0 = 2" "cache shared_run ''w'' = Some 0" "closed_conns shared_run = []"
  "next_conn shared_run = 1" "dialing shared_run = {}"
  by (simp_all add: shared_run_def session_defs)

lemma shared_run_reach: "session_reach shared_run"
proof -
  have "session_reach (snd (dial_session no_sessions))"
    by (rule session_reach.step [OF session_reach.start session_step.dial])
  moreover have "0 \<in> dialing (snd (dial_session no_sessions))" by (simp add: session_defs)
  ultimately have "session_reach (snd (publish_session ''w'' 0 None (snd (dial_session no_sessions))))"
    by (blast intro: session_reach.step session_step.publish)
  then show ?thesis unfolding shared_run_def by (rule session_reach.step) (rule session_step.lookup)
qed

lemma closed_run_reach: "session_reach closed_run"
proof -
  have "session_reach (close_handle 0 shared_run)"
    by (rule session_reach.step [OF shared_run_reach session_step.close]) (simp add: shared_run_eq)
  then show ?thesis unfolding closed_run_def
    by (rule session_reach.step [OF _ session_step.close])
       (simp add: close_handle_def Let_def close_conn_def shared_run_eq)
qed

theorem open_handle_connected_witness:
  "h_ref (handles shared_run ! 1) \<notin> set (closed_conns shared_run) \<and> refs shared_run 0 = 2"
  using open_handle_connected [OF shared_run_reach, of "handles shared_run ! 1"]
  by (simp add: shared_run_eq holds_def)

theorem connections_accounted_witness:
  "0 \<in> set (closed_conns closed_run) \<and> distinct (closed_conns closed_run)"
proof -
  have n: "next_conn closed_run = 1" "dialing closed_run = {}"
    "\<forall>h \<in> set (handles closed_run). h_closed h"
    by (simp_all add: closed_run_def close_handle_def Let_def close_conn_def shared_run_eq)
  then show ?thesis
    using connections_accounted [OF closed_run_reach, of 0] by (auto simp: holds_def)
qed

end
