(* ===== verification/Utf8.thy ===== *)
theory Utf8
  imports Prelude
begin

text \<open>
  Valid UTF-8 as Go's \<^verbatim>\<open>unicode/utf8\<close> defines it: rune starts, the length of the encoding at
  the front of a byte string, validity, and where a valid string may be cut. Shared by the EIS
  text splitter and the virtual keyboard.
\<close>

section \<open>UTF-8\<close>

text \<open>\<^verbatim>\<open>utf8.RuneStart\<close> and \<^verbatim>\<open>utf8.Valid\<close>: no overlong forms, no surrogates, nothing above U+10FFFF.\<close>

definition rune_start :: "byte \<Rightarrow> bool" where
  "rune_start b \<longleftrightarrow> \<not> (0x80 \<le> b \<and> b < 0xC0)"

definition cont :: "byte \<Rightarrow> bool" where
  "cont b \<longleftrightarrow> 0x80 \<le> b \<and> b < 0xC0"

text \<open>The length of the valid encoding at the front, if there is one.\<close>

fun rune_len :: "byte list \<Rightarrow> nat option" where
  "rune_len [] = None"
| "rune_len (a # bs) =
     (if a < 0x80 then Some 1
      else if 0xC2 \<le> a \<and> a < 0xE0 then
        (case bs of b # _ \<Rightarrow> if cont b then Some 2 else None | _ \<Rightarrow> None)
      else if 0xE0 \<le> a \<and> a < 0xF0 then
        (case bs of
           b # c # _ \<Rightarrow>
             if cont b \<and> cont c \<and> (a = 0xE0 \<longrightarrow> 0xA0 \<le> b) \<and> (a = 0xED \<longrightarrow> b < 0xA0) then Some 3 else None
         | _ \<Rightarrow> None)
      else if 0xF0 \<le> a \<and> a < 0xF5 then
        (case bs of
           b # c # d # _ \<Rightarrow>
             if cont b \<and> cont c \<and> cont d \<and> (a = 0xF0 \<longrightarrow> 0x90 \<le> b) \<and> (a = 0xF4 \<longrightarrow> b < 0x90)
             then Some 4 else None
         | _ \<Rightarrow> None)
      else None)"

lemma rune_len_bounds: "rune_len bs = Some n \<Longrightarrow> 1 \<le> n \<and> n \<le> 4 \<and> n \<le> length bs"
  by (cases bs) (auto split: if_splits list.splits)

function utf8_valid :: "byte list \<Rightarrow> bool" where
  "utf8_valid bs =
     (if bs = [] then True
      else case rune_len bs of None \<Rightarrow> False | Some n \<Rightarrow> utf8_valid (drop n bs))"
  by pat_completeness auto
termination
  by (relation "measure length") (auto dest: rune_len_bounds)

declare utf8_valid.simps [simp del]

text \<open>Where a valid string may be cut: at its ends and in front of a rune start.\<close>

lemma rune_len_start: "rune_len bs = Some n \<Longrightarrow> rune_start (bs ! 0)"
  by (cases bs) (auto simp: rune_start_def word_le_nat_alt word_less_nat_alt split: if_splits)

lemma rune_len_cont: "rune_len bs = Some n \<Longrightarrow> 0 < i \<Longrightarrow> i < n \<Longrightarrow> \<not> rune_start (bs ! i)"
  by (cases bs)
     (auto simp: rune_start_def cont_def less_Suc_eq numeral_eq_Suc split: if_splits list.splits)

lemma rune_len_take: "rune_len bs = Some n \<Longrightarrow> n \<le> e \<Longrightarrow> rune_len (take e bs) = Some n"
  by (cases bs; cases e; cases "e - 1"; cases "e - 2"; cases "e - 3")
     (auto split: if_splits list.splits simp: take_Cons split: nat.splits)

lemma utf8_valid_Nil [simp]: "utf8_valid []"
  by (simp add: utf8_valid.simps)

lemma utf8_valid_step: "rune_len bs = Some n \<Longrightarrow> utf8_valid bs = utf8_valid (drop n bs)"
  by (subst utf8_valid.simps) (cases bs, auto)

lemma utf8_valid_head: "utf8_valid bs \<Longrightarrow> bs \<noteq> [] \<Longrightarrow> \<exists>n. rune_len bs = Some n"
  by (subst (asm) utf8_valid.simps) (auto split: option.splits)

lemma utf8_cut:
  assumes "utf8_valid bs" "e \<le> length bs" "e < length bs \<Longrightarrow> rune_start (bs ! e)"
  shows "utf8_valid (take e bs) \<and> utf8_valid (drop e bs)"
  using assms
proof (induction "length bs" arbitrary: bs e rule: less_induct)
  case less
  show ?case
  proof (cases "e = 0 \<or> bs = []")
    case True
    with less.prems show ?thesis by auto
  next
    case False
    then obtain n where n: "rune_len bs = Some n" using utf8_valid_head less.prems(1) by blast
    have b: "1 \<le> n" "n \<le> length bs" using rune_len_bounds [OF n] by simp_all
    have "n \<le> e"
    proof (rule ccontr)
      assume "\<not> n \<le> e"
      then have "e < n" "e < length bs" using b by simp_all
      with rune_len_cont [OF n, of e] less.prems(3) False show False by simp
    qed
    have "utf8_valid (take (e - n) (drop n bs)) \<and> utf8_valid (drop (e - n) (drop n bs))"
      using less.hyps [of "drop n bs" "e - n"] less.prems b \<open>n \<le> e\<close> utf8_valid_step [OF n] by simp
    with \<open>n \<le> e\<close> show ?thesis
      using utf8_valid_step [OF rune_len_take [OF n \<open>n \<le> e\<close>]] by (simp add: drop_take)
  qed
qed

text \<open>A rune start is never more than three bytes back.\<close>

lemma rune_start_near:
  assumes "utf8_valid bs" "e < length bs"
  shows "\<exists>k \<le> 3. k \<le> e \<and> rune_start (bs ! (e - k))"
  using assms
proof (induction "length bs" arbitrary: bs e rule: less_induct)
  case less
  then obtain n where n: "rune_len bs = Some n" using utf8_valid_head by fastforce
  have b: "1 \<le> n" "n \<le> 4" "n \<le> length bs" using rune_len_bounds [OF n] by simp_all
  show ?case
  proof (cases "e < n")
    case True
    with b rune_len_start [OF n] show ?thesis by (intro exI [of _ e]) simp
  next
    case False
    have "\<exists>k \<le> 3. k \<le> e - n \<and> rune_start (drop n bs ! (e - n - k))"
      by (rule less.hyps) (use less.prems b False utf8_valid_step [OF n] in auto)
    then obtain k where k: "k \<le> 3" "k \<le> e - n" "rune_start (drop n bs ! (e - n - k))" by blast
    moreover have "n + (e - n - k) = e - k" using False k by simp
    ultimately show ?thesis using b False by (intro exI [of _ k]) simp
  qed
qed

end
