(* ===== verification/EisCodec.thy ===== *)
theory EisCodec
  imports Framing Utf8
begin

text \<open>
  The wire format of the EIS client, \<^verbatim>\<open>input/eis.go\<close>: requests, argument encoders and readers,
  the framing of the read loop, and the UTF-8 text splitter. The code uses the native byte
  order, which is little-endian on the supported platforms (amd64, arm64). A float32 is its 32
  IEEE 754 bits.
\<close>

section \<open>Arguments and requests\<close>

definition ei_u32 :: "u32 \<Rightarrow> byte list" where "ei_u32 v = put_u32 v"
definition ei_u64 :: "u64 \<Rightarrow> byte list" where "ei_u64 v = put_u64 v"

text \<open>\<^verbatim>\<open>eiI32\<close>: the two's complement bits of a signed value.\<close>

definition ei_i32 :: "int \<Rightarrow> byte list" where "ei_i32 v = ei_u32 (word_of_int v)"

definition ei_string :: "byte list \<Rightarrow> byte list" where
  "ei_string value =
     (let raw = value @ [0];
          body = ei_u32 (word_of_nat (length raw)) @ raw
      in body @ replicate ((4 - length body mod 4) mod 4) 0)"

definition ei_request :: "u64 \<Rightarrow> u32 \<Rightarrow> byte list \<Rightarrow> byte list" where
  "ei_request object opcode body =
     (let len = 16 + length body;
          body = (if len mod 4 \<noteq> 0 then body @ replicate (4 - len mod 4) 0 else body)
      in put_u64 object @ put_u32 (word_of_nat (16 + length body)) @ put_u32 opcode @ body)"

datatype 'e ei_error =
    TruncatedU32
  | TruncatedU64
  | InvalidString
  | EmbeddedNul
  | InvalidUtf8
  | InvalidFrameSize u32
  | BadConnectionEvent
  | DuplicateConnection
  | BadPing
  | SocketError 'e
  | ZeroWrite
  | EventSource 'e
  | Waiting
  | MissingVersion
  | VersionZero
  | BadSeat
  | Revoked
  | CapabilityMissing string
  | BadCallback
  | BadDevice u64 u32
  | DuplicateDevice u64
  | DeviceCollision u64
  | Sealed u64
  | BadRegion
  | BadInterface
  | DuplicateInterface
  | DuplicateObject u64
  | Cancelled ctx_err
  | Unsupported
  | OutsideRegions
  | Inexact
  | ClockFailure

definition ei_read_u32 :: "byte list \<Rightarrow> nat \<Rightarrow> 'e ei_error + u32" where
  "ei_read_u32 body offset = (case get_u32 (drop offset body) of None \<Rightarrow> Inl TruncatedU32 | Some v \<Rightarrow> Inr v)"

definition ei_read_u64 :: "byte list \<Rightarrow> nat \<Rightarrow> 'e ei_error + u64" where
  "ei_read_u64 body offset = (case get_u64 (drop offset body) of None \<Rightarrow> Inl TruncatedU64 | Some v \<Rightarrow> Inr v)"

section \<open>Strings\<close>

definition ei_read_string :: "byte list \<Rightarrow> nat \<Rightarrow> 'e ei_error + byte list" where
  "ei_read_string body offset =
     (case ei_read_u32 body offset of
        Inl e \<Rightarrow> Inl e
      | Inr n \<Rightarrow>
          if n = 0 then Inr []
          else
            let start = offset + 4; stop = start + unat n in
            if stop > length body \<or> body ! (stop - 1) \<noteq> 0 then Inl InvalidString
            else
              let value = take (stop - 1 - start) (drop start body) in
              if 0 \<in> set value then Inl EmbeddedNul
              else if \<not> utf8_valid value then Inl InvalidUtf8
              else Inr value)"

subsection \<open>Splitting text\<close>

text \<open>\<^verbatim>\<open>splitUTF8\<close>: the inner loop moves back to a rune start, the outer one may not end.\<close>

fun split_end :: "byte list \<Rightarrow> nat \<Rightarrow> nat" where
  "split_end s 0 = 0"
| "split_end s (Suc e) = (if rune_start (s ! Suc e) then Suc e else split_end s e)"

partial_function (option) split_loop :: "nat \<Rightarrow> byte list \<Rightarrow> byte list list option" where
  "split_loop maximum value =
     (if value = [] then Some []
      else
        let stop = (if maximum \<ge> length value then length value else split_end value maximum) in
        Option.bind (split_loop maximum (drop stop value)) (\<lambda>chunks. Some (take stop value # chunks)))"

definition split_utf8 :: "byte list \<Rightarrow> nat \<Rightarrow> byte list list option" where
  "split_utf8 value maximum =
     (if length value \<le> maximum then Some [value] else split_loop maximum value)"

lemma split_end_le: "split_end s e \<le> e"
  by (induction e) auto

lemma split_end_ge: "k \<le> e \<Longrightarrow> rune_start (s ! k) \<Longrightarrow> k \<le> split_end s e"
  by (induction e) (auto simp: le_Suc_eq)

lemma split_end_start: "0 < split_end s e \<Longrightarrow> rune_start (s ! split_end s e)"
  by (induction e) auto

lemma split_loop_ok:
  assumes "utf8_valid v" "4 \<le> maximum"
  shows "\<exists>chunks. split_loop maximum v = Some chunks \<and> concat chunks = v \<and>
    (\<forall>c \<in> set chunks. c \<noteq> [] \<and> length c \<le> maximum \<and> utf8_valid c)"
  using assms(1)
proof (induction "length v" arbitrary: v rule: less_induct)
  case less
  show ?case
  proof (cases "v = []")
    case True
    then show ?thesis by (simp add: split_loop.simps)
  next
    case False
    obtain stop where stop: "stop = (if maximum \<ge> length v then length v else split_end v maximum)"
      by blast
    have s: "0 < stop" "stop \<le> maximum" "stop \<le> length v"
      "stop < length v \<Longrightarrow> rune_start (v ! stop)"
    proof -
      obtain k where k: "maximum < length v \<Longrightarrow> k \<le> 3 \<and> k \<le> maximum \<and> rune_start (v ! (maximum - k))"
        using rune_start_near [OF less.prems] by blast
      have pos: "maximum < length v \<Longrightarrow> 0 < split_end v maximum"
        using k split_end_ge [of "maximum - k" maximum v] assms(2) by fastforce
      show "0 < stop" using stop pos False by auto
      show "stop \<le> maximum" "stop \<le> length v"
        using stop split_end_le [of v maximum] by auto
      show "stop < length v \<Longrightarrow> rune_start (v ! stop)"
        using stop pos split_end_start [of v maximum] by (auto split: if_splits)
    qed
    have cut: "utf8_valid (take stop v)" "utf8_valid (drop stop v)"
      using utf8_cut [OF less.prems s(3,4)] by simp_all
    then obtain chunks where c: "split_loop maximum (drop stop v) = Some chunks"
      "concat chunks = drop stop v"
      "\<forall>c \<in> set chunks. c \<noteq> [] \<and> length c \<le> maximum \<and> utf8_valid c"
      using less.hyps [of "drop stop v"] s False by auto
    have "split_loop maximum v = Some (take stop v # chunks)"
      using False c(1) by (subst split_loop.simps) (simp add: stop [symmetric] Let_def)
    with c cut s False show ?thesis by auto
  qed
qed

lemma split_utf8_ok:
  assumes "utf8_valid text" "4 \<le> maximum"
  shows "\<exists>chunks. split_utf8 text maximum = Some chunks \<and> concat chunks = text \<and>
    (\<forall>c \<in> set chunks. length c \<le> maximum \<and> utf8_valid c)"
  using split_loop_ok [OF assms] assms(1) by (auto simp: split_utf8_def)

text \<open>
  Text of any length is split without damage: for valid UTF-8 and a maximum of at least 4 bytes
  the splitter returns, the chunks concatenate to the text, none is longer than the maximum
  and each is valid UTF-8 by itself.
\<close>

theorem split_utf8_correct:
  assumes "utf8_valid text" "4 \<le> maximum"
  shows "\<exists>chunks. split_utf8 text maximum = Some chunks \<and> concat chunks = text \<and>
    (\<forall>c \<in> set chunks. length c \<le> maximum \<and> utf8_valid c)"
  using split_loop_ok [OF assms] assms(1) by (auto simp: split_utf8_def)

theorem split_utf8_correct_witness:
  "\<exists>chunks. split_utf8 [0x61, 0xC3, 0xA9, 0xE2, 0x82, 0xAC] 4 = Some chunks \<and>
     concat chunks = [0x61, 0xC3, 0xA9, 0xE2, 0x82, 0xAC]"
  using split_utf8_correct [of "[0x61, 0xC3, 0xA9, 0xE2, 0x82, 0xAC]" 4]
  by (auto simp: utf8_valid.simps cont_def)

section \<open>Round trips\<close>

lemma ei_read_u32_put [simp, codec_simps]: "ei_read_u32 (ei_u32 v @ bs) 0 = Inr v"
  by (simp add: ei_read_u32_def ei_u32_def)

lemma ei_read_u64_put [simp, codec_simps]: "ei_read_u64 (ei_u64 v @ bs) 0 = Inr v"
  by (simp add: ei_read_u64_def ei_u64_def)

lemma length_ei_u32 [simp, codec_simps]: "length (ei_u32 v) = 4" by (simp add: ei_u32_def)
lemma length_ei_u64 [simp, codec_simps]: "length (ei_u64 v) = 8" by (simp add: ei_u64_def)

lemma ei_read_skip:
  "ei_read_u32 (a @ bs) (length a + k) = ei_read_u32 bs k"
  "ei_read_u64 (a @ bs) (length a + k) = ei_read_u64 bs k"
  by (simp_all add: ei_read_u32_def ei_read_u64_def)

lemma length_ei_string [codec_simps]: "length (ei_string v) mod 4 = 0"
  using pad4_mod [of "4 + (length v + 1)"] by (simp add: ei_string_def Let_def add4_mod add.assoc)

lemma ei_read_stringI:
  assumes "ei_read_u32 body offset = (Inr n :: 'e ei_error + u32)" "n \<noteq> 0" "unat n = k + 1" "offset + 4 + k < length body"
    "body ! (offset + 4 + k) = 0" "take k (drop (offset + 4) body) = v" "0 \<notin> set v" "utf8_valid v"
  shows "ei_read_string body offset = (Inr v :: 'e ei_error + byte list)"
  using assms by (simp add: ei_read_string_def Let_def)

lemma ei_read_encoded:
  assumes "utf8_valid v" "0 \<notin> set v" "length v + 1 < 2 ^ 32"
  shows "ei_read_string (pre @ ei_string v @ rest) (length pre) = (Inr v :: 'e ei_error + byte list)"
proof -
  have u: "unat (word_of_nat (length v + 1) :: u32) = length v + 1"
    by (rule of_nat_inverse) (use assms(3) in simp_all)
  have nz: "(word_of_nat (length v + 1) :: u32) \<noteq> 0" using u by (metis Suc_eq_plus1 nat.distinct(1) unat_0)
  let ?pad = "replicate ((4 - (4 + (length v + 1)) mod 4) mod 4) (0 :: byte)"
  have b: "ei_string v = ei_u32 (word_of_nat (length v + 1)) @ v @ [0] @ ?pad"
    by (simp add: ei_string_def Let_def add4_mod)
  have r: "ei_read_u32 (pre @ ei_string v @ rest) (length pre) =
      (Inr (word_of_nat (length v + 1)) :: 'e ei_error + u32)"
    using ei_read_skip(1) [of pre "ei_string v @ rest" 0] by (simp add: b)
  have nul: "(pre @ ei_string v @ rest) ! (length pre + 4 + length v) = 0"
    by (simp add: b nth_append)
  have val: "take (length v) (drop (length pre + 4) (pre @ ei_string v @ rest)) = v"
    by (simp add: b)
  have len: "length pre + 4 + length v < length (pre @ ei_string v @ rest)" by (simp add: b)
  show ?thesis
    by (rule ei_read_stringI [OF r nz u len nul val assms(2,1)])
qed

text \<open>
  A string argument is read back as written, wherever it stands in a request body: any valid
  UTF-8 without NUL bytes that fits the 32-bit length.
\<close>

theorem ei_string_roundtrip:
  assumes "utf8_valid v" "0 \<notin> set v" "length v + 1 < 2 ^ 32"
  shows "ei_read_string (pre @ ei_string v @ rest) (length pre) = (Inr v :: 'e ei_error + byte list)"
  using assms by (rule ei_read_encoded)

theorem ei_string_roundtrip_witness:
  "ei_read_string ([1, 2] @ ei_string [0x65, 0x69] @ [9]) (length [1, 2 :: byte]) =
     (Inr [0x65, 0x69] :: nat ei_error + byte list)"
  by (rule ei_string_roundtrip) (simp_all add: utf8_valid.simps)

section \<open>Framing\<close>

record ei_message =
  m_object :: u64
  m_opcode :: u32
  m_body :: "byte list"

text \<open>One turn of the inner loop of \<^verbatim>\<open>readLoop\<close> on the buffered bytes.\<close>

definition ei_decode :: "byte list \<Rightarrow> (ei_message, 'e ei_error) frame" where
  "ei_decode buffer =
     (case (get_u64 buffer, get_u32 (drop 8 buffer), get_u32 (drop 12 buffer)) of
        (Some object, Some len, Some opcode) \<Rightarrow>
          (let n = unat len in
           if n < 16 \<or> n > 2 ^ 20 \<or> n mod 4 \<noteq> 0 then Bad (InvalidFrameSize len)
           else if length buffer < n then Incomplete
           else Frame \<lparr>m_object = object, m_opcode = opcode, m_body = take (n - 16) (drop 16 buffer)\<rparr>
                  (drop n buffer))
      | _ \<Rightarrow> Incomplete)"

definition ei_encode :: "ei_message \<Rightarrow> byte list" where
  "ei_encode m = ei_request (m_object m) (m_opcode m) (m_body m)"

definition ei_message_ok :: "ei_message \<Rightarrow> bool" where
  "ei_message_ok m \<longleftrightarrow> length (m_body m) mod 4 = 0 \<and> 16 + length (m_body m) \<le> 2 ^ 20"

lemma ei_request_aligned:
  "length body mod 4 = 0 \<Longrightarrow>
     ei_request obj opc body = put_u64 obj @ put_u32 (word_of_nat (16 + length body)) @ put_u32 opc @ body"
  by (simp add: ei_request_def Let_def mod_add_eq [symmetric, of 16])

lemma ei_decode_request:
  assumes "length body mod 4 = 0" "16 + length body \<le> 2 ^ 20"
  shows "ei_decode (ei_request obj opc body @ r) = Frame \<lparr>m_object = obj, m_opcode = opc, m_body = body\<rparr> r"
proof -
  have u: "unat (word_of_nat (16 + length body) :: u32) = 16 + length body"
    by (rule of_nat_inverse) (use assms(2) in simp_all)
  have m: "(16 + length body) mod 4 = 0" using assms(1) by (simp add: add4_mod)
  show ?thesis
    using assms(2) m u
    by (simp add: ei_decode_def ei_request_aligned [OF assms(1)] Let_def del: of_nat_add of_nat_numeral)
qed

lemma ei_decode_header:
  assumes "ei_decode bs \<noteq> (Incomplete :: (ei_message, 'e ei_error) frame)"
  shows "\<exists>a b c. get_u64 bs = Some a \<and> get_u32 (drop 8 bs) = Some b \<and> get_u32 (drop 12 bs) = Some c \<and> 16 \<le> length bs"
proof -
  obtain a b c where abc: "get_u64 bs = Some a" "get_u32 (drop 8 bs) = Some b" "get_u32 (drop 12 bs) = Some c"
    using assms by (auto simp: ei_decode_def split: option.splits)
  then have "4 \<le> length (drop 12 bs)" using get_u32_Some_iff [of "drop 12 bs"] by auto
  then have "16 \<le> length bs" by simp
  with abc show ?thesis by blast
qed

lemma ei_decode_shrinks: "ei_decode bs = Frame m r \<Longrightarrow> length r < length bs"
proof -
  assume f: "ei_decode bs = Frame m r"
  then obtain a b c where "get_u64 bs = Some a" "get_u32 (drop 8 bs) = Some b" "get_u32 (drop 12 bs) = Some c"
    "16 \<le> length bs"
    using ei_decode_header [of bs] by (metis frame.distinct(3))
  with f show ?thesis by (auto simp: ei_decode_def Let_def split: if_splits)
qed

lemma ei_decode_more:
  assumes "ei_decode bs \<noteq> (Incomplete :: (ei_message, 'e ei_error) frame)"
  shows "(ei_decode (bs @ x) :: (ei_message, 'e ei_error) frame) =
    (case ei_decode bs of Frame m r \<Rightarrow> Frame m (r @ x) | Bad e \<Rightarrow> Bad e | Incomplete \<Rightarrow> Incomplete)"
proof -
  obtain a b c where h: "get_u64 bs = Some a" "get_u32 (drop 8 bs) = Some b" "get_u32 (drop 12 bs) = Some c"
    "16 \<le> length bs"
    using ei_decode_header [OF assms] by blast
  have "get_u64 (bs @ x) = Some a" "get_u32 (drop 8 (bs @ x)) = Some b" "get_u32 (drop 12 (bs @ x)) = Some c"
    using h get_u32_append [of "drop 8 bs" b x] get_u32_append [of "drop 12 bs" c x]
    by (simp_all add: get_u64_append)
  with h assms show ?thesis by (auto simp: ei_decode_def Let_def split: if_splits)
qed

interpretation ei: framing ei_encode "ei_decode :: byte list \<Rightarrow> (ei_message, 'e ei_error) frame" ei_message_ok
proof
  show "ei_decode (ei_encode m @ r) = Frame m r" if "ei_message_ok m" for m r
    using that ei_decode_request [of "m_body m" "m_object m" "m_opcode m" r]
    by (cases m) (simp add: ei_encode_def ei_message_ok_def)
  show "ei_decode [] = Incomplete" by (simp add: ei_decode_def get_u64_def)
qed (simp_all add: ei_decode_shrinks ei_decode_more)

lemma ei_request_padded:
  "ei_request obj opc body = ei_request obj opc (body @ replicate ((4 - length body mod 4) mod 4) 0)"
  unfolding ei_request_aligned [of "body @ replicate ((4 - length body mod 4) mod 4) 0", simplified length_append length_replicate, OF pad4_mod]
  using mod4_cases [of "length body"] by (auto simp: ei_request_def Let_def add4_mod)

text \<open>
  Every request is one well-formed frame for the reader of the peer: whatever its arguments,
  it is decoded to the same object and opcode, the body followed by at most three zero bytes,
  and the size in its header is the number of bytes sent.
\<close>

theorem ei_request_wellformed:
  assumes "length body \<le> 2 ^ 20 - 20"
  shows "\<exists>pad. ei_decode (ei_request object opcode body @ r) =
      (Frame \<lparr>m_object = object, m_opcode = opcode, m_body = body @ replicate pad 0\<rparr> r
        :: (ei_message, 'e ei_error) frame) \<and> pad < 4 \<and>
    get_u32 (drop 8 (ei_request object opcode body)) = Some (word_of_nat (length (ei_request object opcode body)))"
proof (intro exI conjI)
  let ?p = "(4 - length body mod 4) mod 4"
  let ?b = "body @ replicate ?p 0"
  have m: "length ?b mod 4 = 0" using pad4_mod [of "length body"] by simp
  show p: "?p < 4" by simp
  have l: "16 + length ?b \<le> 2 ^ 20" using assms p by (simp add: numeral_eq_Suc [symmetric])
  show "ei_decode (ei_request object opcode body @ r) =
      Frame \<lparr>m_object = object, m_opcode = opcode, m_body = ?b\<rparr> r"
    using ei_decode_request [OF m l] by (simp add: ei_request_padded [of object opcode body])
  show "get_u32 (drop 8 (ei_request object opcode body)) = Some (word_of_nat (length (ei_request object opcode body)))"
    unfolding ei_request_padded [of object opcode body] ei_request_aligned [OF m] by simp
qed

theorem ei_request_wellformed_witness:
  "\<exists>pad. ei_decode (ei_request 5 1 [7, 8] @ []) =
     (Frame \<lparr>m_object = 5, m_opcode = 1, m_body = [7, 8] @ replicate pad 0\<rparr> []
        :: (ei_message, nat ei_error) frame) \<and> pad < 4"
  using ei_request_wellformed [of "[7, 8]" 5 1 "[]"] by auto

end
