(* ===== verification/EisClient.thy ===== *)
theory EisClient
  imports EisCodec
begin

text \<open>
  The EIS connection of \<^verbatim>\<open>input/eis.go\<close>: the read loop with its replies, the socket writer, and
  the state of the sender that device enumeration builds. The socket is an oracle for the
  result of each \<^verbatim>\<open>conn.Write\<close> call.
\<close>

section \<open>The client\<close>

text \<open>\<open>ec_calls\<close> counts the \<^verbatim>\<open>conn.Write\<close> calls, \<open>ec_sent\<close> are the bytes the socket accepted.\<close>

record ei_client =
  ec_serial :: u32
  ec_next_id :: u64
  ec_conn :: u64
  ec_calls :: nat
  ec_sent :: "byte list"

definition new_ei_client :: ei_client where
  "new_ei_client = \<lparr>ec_serial = 0, ec_next_id = 1, ec_conn = 0, ec_calls = 0, ec_sent = []\<rparr>"

type_synonym 'e socket = "nat \<Rightarrow> nat \<times> 'e option"

text \<open>The inner loop of \<^verbatim>\<open>writeMessages\<close>; a write accepts at most the bytes it was given.\<close>

function write_all :: "'e socket \<Rightarrow> byte list \<Rightarrow> ei_client \<Rightarrow> 'e ei_error option \<times> ei_client" where
  "write_all sock message c =
     (if message = [] then (None, c)
      else
        let (n, err) = sock (ec_calls c); n = min n (length message);
            c = c\<lparr>ec_calls := Suc (ec_calls c), ec_sent := ec_sent c @ take n message\<rparr>
        in case err of
             Some e \<Rightarrow> (Some (SocketError e), c)
           | None \<Rightarrow> if n = 0 then (Some ZeroWrite, c) else write_all sock (drop n message) c)"
  by pat_completeness auto
termination by (relation "measure (\<lambda>(_, m, _). length m)") auto

declare write_all.simps [simp del]

fun write_messages ::
    "'e socket \<Rightarrow> byte list list \<Rightarrow> ei_client \<Rightarrow> 'e ei_error option \<times> ei_client" where
  "write_messages sock [] c = (None, c)"
| "write_messages sock (m # ms) c =
     (case write_all sock m c of
        (Some e, c) \<Rightarrow> (Some e, c)
      | (None, c) \<Rightarrow> write_messages sock ms c)"

definition next_client_object_id :: "ei_client \<Rightarrow> u64 \<times> ei_client" where
  "next_client_object_id c = (ec_next_id c, c\<lparr>ec_next_id := ec_next_id c + 1\<rparr>)"

definition ei_server_floor :: u64 where "ei_server_floor = 0xff00000000000000"

definition update_serial :: "ei_message \<Rightarrow> ei_client \<Rightarrow> ei_client" where
  "update_serial m c =
     (case get_u32 (m_body m) of
        None \<Rightarrow> c
      | Some v \<Rightarrow>
          if m_object m = 0 \<and> m_opcode m = 2 \<or>
             m_opcode m = 0 \<and> m_object m \<ge> ei_server_floor \<or>
             m_object m \<ge> ei_server_floor \<and> m_opcode m = 7 \<or>
             m_object m \<ge> ei_server_floor \<and> m_opcode m = 8 \<or>
             m_object m \<ge> ei_server_floor \<and> m_opcode m = 0 \<and> length (m_body m) \<ge> 8
          then c\<lparr>ec_serial := v\<rparr> else c)"

section \<open>The read loop\<close>

definition capture_connection :: "ei_message \<Rightarrow> ei_client \<Rightarrow> 'e ei_error option \<times> ei_client" where
  "capture_connection m c =
     (if length (m_body m) \<noteq> 16 then (Some BadConnectionEvent, c)
      else
        case (ei_read_u64 (m_body m) 4 :: 'e ei_error + u64, ei_read_u32 (m_body m) 12 :: 'e ei_error + u32) of
          (Inr conn, Inr version) \<Rightarrow>
            if conn = 0 \<or> version \<noteq> 1 then (Some BadConnectionEvent, c)
            else if ec_conn c \<noteq> 0 then (Some DuplicateConnection, c)
            else (None, c\<lparr>ec_conn := conn\<rparr>)
        | _ \<Rightarrow> (Some BadConnectionEvent, c))"

definition answer_ping :: "'e socket \<Rightarrow> ei_message \<Rightarrow> ei_client \<Rightarrow> 'e ei_error option \<times> ei_client" where
  "answer_ping sock m c =
     (if length (m_body m) \<noteq> 12 then (Some BadPing, c)
      else
        case (ei_read_u64 (m_body m) 0 :: 'e ei_error + u64, ei_read_u32 (m_body m) 8 :: 'e ei_error + u32) of
          (Inr ping, Inr version) \<Rightarrow>
            if ping = 0 \<or> version \<noteq> 1 then (Some BadPing, c)
            else write_messages sock [ei_request ping 0 (ei_u64 0)] c
        | _ \<Rightarrow> (Some BadPing, c))"

definition handle_protocol ::
    "'e socket \<Rightarrow> ei_message \<Rightarrow> ei_client \<Rightarrow> 'e ei_error option \<times> ei_client" where
  "handle_protocol sock m c =
     (if m_object m = 0 \<and> m_opcode m = 2 then capture_connection m c
      else if m_object m \<noteq> 0 \<and> m_object m = ec_conn c \<and> m_opcode m = 3 then answer_ping sock m c
      else (None, c))"

text \<open>
  \<^verbatim>\<open>for len(buffer) >= eiHeaderSize\<close>: the messages handed to the consumer, then the error that
  ends the reader or the bytes kept for the next read.
\<close>

function drain_buffer ::
    "'e socket \<Rightarrow> byte list \<Rightarrow> ei_client \<Rightarrow> ei_message list \<times> ('e ei_error + byte list) \<times> ei_client" where
  "drain_buffer sock buffer c =
     (case ei_decode buffer :: (ei_message, 'e ei_error) frame of
        Incomplete \<Rightarrow> ([], Inr buffer, c)
      | Bad e \<Rightarrow> ([], Inl e, c)
      | Frame m r \<Rightarrow>
          (case handle_protocol sock m c of
             (Some e, c) \<Rightarrow> ([], Inl e, c)
           | (None, c) \<Rightarrow> (let (ms, out, c) = drain_buffer sock r c in (m # ms, out, c))))"
  by pat_completeness auto
termination
  by (relation "measure (\<lambda>(_, b, _). length b)") (auto dest: ei_decode_shrinks)

declare drain_buffer.simps [simp del]

fun read_loop ::
    "'e socket \<Rightarrow> byte list \<Rightarrow> byte list list \<Rightarrow> ei_client \<Rightarrow>
      ei_message list \<times> ('e ei_error + byte list) \<times> ei_client" where
  "read_loop sock buffer [] c = ([], Inr buffer, c)"
| "read_loop sock buffer (chunk # chunks) c =
     (case drain_buffer sock (buffer @ chunk) c of
        (ms, Inl e, c) \<Rightarrow> (ms, Inl e, c)
      | (ms, Inr rest, c) \<Rightarrow>
          (let (ms', out, c) = read_loop sock rest chunks c in (ms @ ms', out, c)))"

subsection \<open>What the reader does\<close>

text \<open>Handling after parsing: the same loop over the messages the bytes hold.\<close>

fun handle_all ::
    "'e socket \<Rightarrow> ei_message list \<Rightarrow> 'e ei_error + byte list \<Rightarrow> ei_client \<Rightarrow>
      ei_message list \<times> ('e ei_error + byte list) \<times> ei_client" where
  "handle_all sock [] out c = ([], out, c)"
| "handle_all sock (m # ms) out c =
     (case handle_protocol sock m c of
        (Some e, c) \<Rightarrow> ([], Inl e, c)
      | (None, c) \<Rightarrow> (let (ms', out', c) = handle_all sock ms out c in (m # ms', out', c)))"

definition handle_parsed ::
    "'e socket \<Rightarrow> ei_message list \<times> ('e ei_error + byte list) \<Rightarrow> ei_client \<Rightarrow>
      ei_message list \<times> ('e ei_error + byte list) \<times> ei_client" where
  "handle_parsed sock p c = handle_all sock (fst p) (snd p) c"

lemma drain_buffer_eq:
  "drain_buffer (sock :: 'e socket) bs c = handle_parsed sock (parse_frames ei_decode bs) c"
proof (induction "length bs" arbitrary: bs c rule: less_induct)
  case less
  show ?case
  proof (cases "ei_decode bs :: (ei_message, 'e ei_error) frame")
    case Incomplete
    then show ?thesis by (simp add: drain_buffer.simps ei.parse_incomplete handle_parsed_def)
  next
    case (Bad e)
    then show ?thesis by (simp add: drain_buffer.simps ei.parse_bad handle_parsed_def)
  next
    case (Frame m r)
    then show ?thesis
      using less [OF ei_decode_shrinks [OF Frame]]
      by (subst drain_buffer.simps)
        (simp add: ei.parse_frame handle_parsed_def split: prod.split option.split)
  qed
qed

lemma handle_all_append:
  "handle_all sock (ms @ ms') out c =
     (case handle_all sock ms (Inr []) c of
        (a, Inl e, c) \<Rightarrow> (a, Inl e, c)
      | (a, Inr _, c) \<Rightarrow> (let (b, out', c) = handle_all sock ms' out c in (a @ b, out', c)))"
  by (induction ms arbitrary: c) (auto split: prod.split option.split sum.split)

lemma handle_all_out:
  "handle_all sock ms out c =
     (case handle_all sock ms (Inr []) c of
        (a, Inl e, c) \<Rightarrow> (a, Inl e, c)
      | (a, Inr _, c) \<Rightarrow> (a, out, c))"
  using handle_all_append [of sock ms "[]" out c] by (simp split: prod.splits sum.splits)

lemma read_loop_concat:
  "(ei_decode buf :: (ei_message, 'e ei_error) frame) = Incomplete \<Longrightarrow>
     read_loop sock buf chunks c = drain_buffer (sock :: 'e socket) (buf @ concat chunks) c"
proof (induction chunks arbitrary: buf c)
  case Nil
  then show ?case by (simp add: drain_buffer.simps)
next
  case (Cons k ks)
  obtain ms out where p: "parse_frames ei_decode (buf @ k) = (ms, out :: 'e ei_error + byte list)"
    by (cases "parse_frames ei_decode (buf @ k) :: ei_message list \<times> ('e ei_error + byte list)")
  have a: "parse_frames ei_decode (buf @ k @ concat ks) =
    (case out of
       Inl e \<Rightarrow> (ms, Inl e :: 'e ei_error + byte list)
     | Inr rest \<Rightarrow>
         (ms @ fst (parse_frames ei_decode (rest @ concat ks) :: ei_message list \<times> ('e ei_error + byte list)),
          snd (parse_frames ei_decode (rest @ concat ks))))"
    using ei.parse_append [where ?'e = 'e and bs = "buf @ k" and x = "concat ks"] p by (simp split: sum.split)
  obtain ms1 out1 c1 where h: "handle_all sock ms (Inr []) c = (ms1, out1, c1)"
    by (cases "handle_all sock ms (Inr []) c")
  note o = handle_all_out [of sock ms out c, unfolded h]
  show ?case
  proof (cases out)
    case (Inl e)
    with a p h o show ?thesis
      by (cases out1) (simp_all add: drain_buffer_eq handle_parsed_def)
  next
    case (Inr rest)
    then have "(ei_decode rest :: (ei_message, 'e ei_error) frame) = Incomplete"
      using ei.parse_rest_incomplete [where ?'e = 'e and bs = "buf @ k" and r = rest] p by simp
    note IH = Cons.IH [OF this]
    show ?thesis
      using a Inr p h o
      by (cases out1)
        (simp_all add: drain_buffer_eq handle_parsed_def IH handle_all_append split: prod.split)
  qed
qed

lemma read_loop_nil: "read_loop sock [] chunks c = drain_buffer sock (concat chunks) c"
  using read_loop_concat [of "[]" sock chunks c] ei.dec_nil by simp

subsection \<open>Writes\<close>

lemma write_all_result:
  "write_all sock m c = (r, c') \<Longrightarrow>
     \<exists>k. ec_sent c' = ec_sent c @ take k m \<and> (r = None \<longrightarrow> take k m = m) \<and>
       ec_serial c' = ec_serial c \<and> ec_next_id c' = ec_next_id c \<and> ec_conn c' = ec_conn c"
proof (induction sock m c arbitrary: r c' rule: write_all.induct)
  case (1 sock m c)
  show ?case
  proof (cases "m = []")
    case True
    with "1.prems" show ?thesis by (simp add: write_all.simps)
  next
    case False
    obtain n err where w: "sock (ec_calls c) = (n, err)" by (cases "sock (ec_calls c)")
    let ?n = "min n (length m)"
    let ?c = "c\<lparr>ec_calls := Suc (ec_calls c), ec_sent := ec_sent c @ take ?n m\<rparr>"
    show ?thesis
    proof (cases "err = None \<and> ?n \<noteq> 0")
      case True
      then have "write_all sock (drop ?n m) ?c = (r, c')"
        using "1.prems" False w by (subst (asm) write_all.simps) (auto simp: Let_def min_def split: if_splits)
      then obtain k where k: "ec_sent c' = ec_sent ?c @ take k (drop ?n m)"
        "r = None \<longrightarrow> take k (drop ?n m) = drop ?n m"
        "ec_serial c' = ec_serial c" "ec_next_id c' = ec_next_id c" "ec_conn c' = ec_conn c"
        using "1.IH" [OF False w [symmetric] refl refl] True by fastforce
      have "take ?n m @ take k (drop ?n m) = take (?n + k) m" by (simp add: take_add)
      moreover have "take ?n m @ drop ?n m = m" by (rule append_take_drop_id)
      ultimately show ?thesis using k by (intro exI [of _ "?n + k"]) auto
    next
      case stop: False
      then have "r \<noteq> None \<and> c' = ?c"
        using "1.prems" False w by (subst (asm) write_all.simps) (auto simp: Let_def split: option.splits)
      then show ?thesis by (intro exI [of _ ?n]) auto
    qed
  qed
qed

lemma write_messages_batch:
  "write_messages sock ms c = (r, c') \<Longrightarrow>
     (\<exists>k. ec_sent c' = ec_sent c @ take k (concat ms) \<and> (r = None \<longrightarrow> ec_sent c' = ec_sent c @ concat ms)) \<and>
     ec_serial c' = ec_serial c \<and> ec_next_id c' = ec_next_id c \<and> ec_conn c' = ec_conn c"
proof (induction ms arbitrary: c)
  case Nil
  then show ?case by simp
next
  case (Cons m ms)
  obtain r1 c1 where w: "write_all sock m c = (r1, c1)" by (cases "write_all sock m c")
  obtain k where k: "ec_sent c1 = ec_sent c @ take k m" "r1 = None \<longrightarrow> take k m = m"
    "ec_serial c1 = ec_serial c" "ec_next_id c1 = ec_next_id c" "ec_conn c1 = ec_conn c"
    using write_all_result [OF w] by blast
  show ?case
  proof (cases r1)
    case None
    with Cons.prems w have "write_messages sock ms c1 = (r, c')" by simp
    from Cons.IH [OF this] obtain j where j: "ec_sent c' = ec_sent c1 @ take j (concat ms)"
      "r = None \<longrightarrow> ec_sent c' = ec_sent c1 @ concat ms"
      "ec_serial c' = ec_serial c1" "ec_next_id c' = ec_next_id c1" "ec_conn c' = ec_conn c1"
      by blast
    with k None show ?thesis by (intro conjI exI [of _ "length m + j"]) auto
  next
    case (Some e)
    with Cons.prems w have "r = Some e" "c' = c1" by simp_all
    with k show ?thesis by (intro conjI exI [of _ "min k (length m)"]) (auto simp: min_def)
  qed
qed

text \<open>
  A batch of requests is contiguous on the stream: whatever the socket accepts per write, a
  successful batch appended exactly its messages, and a failed one a prefix of them; nothing
  else of the client changed.
\<close>

theorem write_messages_contiguous:
  "write_messages sock ms c = (r, c') \<Longrightarrow>
     (\<exists>k. ec_sent c' = ec_sent c @ take k (concat ms) \<and> (r = None \<longrightarrow> ec_sent c' = ec_sent c @ concat ms)) \<and>
     ec_serial c' = ec_serial c \<and> ec_next_id c' = ec_next_id c \<and> ec_conn c' = ec_conn c"
  by (rule write_messages_batch)

theorem write_messages_contiguous_witness:
  "\<exists>r c'. write_messages (\<lambda>i. if i = 2 then (0, Some (7 :: nat)) else (2, None)) [[1, 2, 3], [4, 5]] new_ei_client = (r, c') \<and>
     ec_conn c' = ec_conn new_ei_client"
proof -
  obtain r :: "nat ei_error option" and c' where
    "write_messages (\<lambda>i. if i = 2 then (0, Some 7) else (2, None)) [[1, 2, 3], [4, 5]] new_ei_client = (r, c')"
    by fastforce
  with write_messages_contiguous [OF this] show ?thesis by blast
qed



end
