(* ===== verification/EisDevices.thy ===== *)
theory EisDevices
  imports EisClient "HOL-Library.Multiset"
begin

text \<open>
  Device enumeration of the EIS sender, \<^verbatim>\<open>input/eis.go\<close>: the events that announce devices,
  regions and interfaces, the choice of the devices that input is sent to, and the pointer
  device that owns a point. Go maps keyed by object or name are association lists with distinct
  keys; where the code ranges over one only to find whether an entry exists, the order is
  irrelevant.
\<close>

section \<open>State\<close>

record ei_region =
  r_x :: u32
  r_y :: u32
  r_width :: u32
  r_height :: u32
  r_scale :: u32

record ei_pointer_device =
  p_device :: u64
  p_pointer :: u64
  p_regions :: "ei_region list"

record ei_device =
  d_id :: u64
  d_version :: u32
  d_interfaces :: "(byte list \<times> u64) list"
  d_regions :: "ei_region list"
  d_done :: bool
  d_resumed :: bool

record ei_sender =
  s_connection :: u64
  s_seat :: u64
  s_keyboard :: u64
  s_text :: u64
  s_pointer :: u64
  s_button :: u64
  s_scroll :: u64
  s_scroll_dev :: u64
  s_pointer_dev :: u64
  s_button_dev :: u64
  s_keyboard_dev :: u64
  s_text_dev :: u64
  s_regions :: "ei_region list"
  s_pointers :: "ei_pointer_device list"
  s_devices :: "(u64 \<times> ei_device) list"

definition new_ei_sender :: "u64 \<Rightarrow> u64 \<Rightarrow> ei_sender" where
  "new_ei_sender conn seat =
     \<lparr>s_connection = conn, s_seat = seat, s_keyboard = 0, s_text = 0, s_pointer = 0, s_button = 0,
      s_scroll = 0, s_scroll_dev = 0, s_pointer_dev = 0, s_button_dev = 0, s_keyboard_dev = 0,
      s_text_dev = 0, s_regions = [], s_pointers = [], s_devices = []\<rparr>"

text \<open>String literals of the code as bytes.\<close>

definition bytes_of :: "string \<Rightarrow> byte list" where "bytes_of s = map of_char s"

text \<open>\<^verbatim>\<open>device.interfaces[name]\<close>: zero for a missing entry.\<close>

definition interface_object :: "ei_device \<Rightarrow> string \<Rightarrow> u64" where
  "interface_object d name = (case map_of (d_interfaces d) (bytes_of name) of None \<Rightarrow> 0 | Some v \<Rightarrow> v)"

section \<open>Enumeration events\<close>

definition is_reserved :: "u64 \<Rightarrow> ei_sender \<Rightarrow> bool" where
  "is_reserved i s \<longleftrightarrow>
     i \<noteq> 0 \<and> (i = s_connection s \<or> i = s_seat s) \<or>
     list_ex (\<lambda>(did, d). i = did \<or> list_ex (\<lambda>(_, obj). i = obj) (d_interfaces d)) (s_devices s)"

text \<open>The float32 test: neither NaN nor infinite (exponent not all ones), and positive.\<close>

definition scale_ok :: "u32 \<Rightarrow> bool" where
  "scale_ok bits \<longleftrightarrow> drop_bit 23 bits AND 0xff \<noteq> 0xff \<and> drop_bit 31 bits = 0 \<and> bits \<noteq> 0"

definition region_ok :: "ei_region \<Rightarrow> bool" where
  "region_ok r \<longleftrightarrow>
     r_width r \<noteq> 0 \<and> r_height r \<noteq> 0 \<and>
     uint (r_x r) + uint (r_width r) \<le> 2 ^ 32 \<and> uint (r_y r) + uint (r_height r) \<le> 2 ^ 32 \<and>
     scale_ok (r_scale r)"

definition announce_device :: "ei_message \<Rightarrow> ei_sender \<Rightarrow> 'e ei_error + ei_sender" where
  "announce_device m s =
     ebind (ei_read_u64 (m_body m) 0) (\<lambda>i.
     ebind (ei_read_u32 (m_body m) 8) (\<lambda>version.
       if i = 0 \<or> version = 0 then Inl (BadDevice i version)
       else if i \<in> fst ` set (s_devices s) then Inl (DuplicateDevice i)
       else if is_reserved i s then Inl (DeviceCollision i)
       else
         Inr (s\<lparr>s_devices := AList.update i
                \<lparr>d_id = i, d_version = version, d_interfaces = [], d_regions = [], d_done = False,
                 d_resumed = False\<rparr> (s_devices s)\<rparr>)))"

definition read_region :: "byte list \<Rightarrow> 'e ei_error + ei_region" where
  "read_region body =
     ebind (ei_read_u32 body 0) (\<lambda>x.
     ebind (ei_read_u32 body 4) (\<lambda>y.
     ebind (ei_read_u32 body 8) (\<lambda>width.
     ebind (ei_read_u32 body 12) (\<lambda>height.
     ebind (ei_read_u32 body 16) (\<lambda>scale.
       let r = \<lparr>r_x = x, r_y = y, r_width = width, r_height = height, r_scale = scale\<rparr> in
       if region_ok r then Inr r else Inl BadRegion)))))"

definition add_interface :: "ei_message \<Rightarrow> ei_device \<Rightarrow> ei_sender \<Rightarrow> 'e ei_error + ei_device" where
  "add_interface m d s =
     ebind (ei_read_u64 (m_body m) 0) (\<lambda>obj.
     ebind (ei_read_string (m_body m) 8) (\<lambda>name.
       if obj = 0 \<or> name = [] then Inl BadInterface
       else if name \<in> fst ` set (d_interfaces d) then Inl DuplicateInterface
       else if list_ex (\<lambda>(_, d'). list_ex (\<lambda>(_, obj'). obj' = obj) (d_interfaces d')) (s_devices s)
         then Inl (DuplicateObject obj)
       else if is_reserved obj s then Inl BadInterface
       else Inr (d\<lparr>d_interfaces := AList.update name obj (d_interfaces d)\<rparr>)))"

definition device_event :: "ei_message \<Rightarrow> ei_device \<Rightarrow> ei_sender \<Rightarrow> 'e ei_error + ei_device" where
  "device_event m d s =
     (if d_done d \<and> (m_opcode m = 4 \<or> m_opcode m = 5) then Inl (Sealed (d_id d))
      else if m_opcode m = 4 then
        ebind (read_region (m_body m)) (\<lambda>r. Inr (d\<lparr>d_regions := d_regions d @ [r]\<rparr>))
      else if m_opcode m = 5 then add_interface m d s
      else if m_opcode m = 6 then Inr (d\<lparr>d_done := True\<rparr>)
      else if m_opcode m = 7 then Inr (d\<lparr>d_resumed := True\<rparr>)
      else if m_opcode m = 8 then Inr (d\<lparr>d_resumed := False\<rparr>)
      else Inr d)"

definition consume_setup_event :: "ei_message \<Rightarrow> ei_sender \<Rightarrow> 'e ei_error + ei_sender" where
  "consume_setup_event m s =
     (if m_object m = s_seat s \<and> m_opcode m = 4 then announce_device m s
      else
        case map_of (s_devices s) (m_object m) of
          None \<Rightarrow> Inr s
        | Some d \<Rightarrow>
            ebind (device_event m d s)
              (\<lambda>d'. Inr (s\<lparr>s_devices := AList.update (m_object m) d' (s_devices s)\<rparr>)))"

section \<open>Choosing devices\<close>

definition set_keyboard :: "ei_device \<Rightarrow> ei_sender \<Rightarrow> ei_sender" where
  "set_keyboard d s =
     (if s_keyboard_dev s = 0 \<and> interface_object d ''ei_keyboard'' \<noteq> 0
      then s\<lparr>s_keyboard_dev := d_id d, s_keyboard := interface_object d ''ei_keyboard''\<rparr> else s)"

definition add_pointer :: "ei_device \<Rightarrow> ei_sender \<Rightarrow> ei_sender" where
  "add_pointer d s =
     (let pointer = interface_object d ''ei_pointer_absolute'' in
      if pointer \<noteq> 0 \<and> d_regions d \<noteq> [] then
        let s = s\<lparr>s_pointers := s_pointers s @ [\<lparr>p_device = d_id d, p_pointer = pointer, p_regions = d_regions d\<rparr>],
                  s_regions := s_regions s @ d_regions d\<rparr>
        in if s_pointer_dev s = 0 then s\<lparr>s_pointer_dev := d_id d, s_pointer := pointer\<rparr> else s
      else s)"

definition set_button :: "ei_device \<Rightarrow> ei_sender \<Rightarrow> ei_sender" where
  "set_button d s =
     (if s_button_dev s = 0 \<and> interface_object d ''ei_button'' \<noteq> 0
      then s\<lparr>s_button_dev := d_id d, s_button := interface_object d ''ei_button''\<rparr> else s)"

definition set_scroll :: "ei_device \<Rightarrow> ei_sender \<Rightarrow> ei_sender" where
  "set_scroll d s =
     (if s_scroll s = 0 \<and> interface_object d ''ei_scroll'' \<noteq> 0
      then s\<lparr>s_scroll := interface_object d ''ei_scroll'', s_scroll_dev := d_id d\<rparr> else s)"

definition set_text :: "ei_device \<Rightarrow> ei_sender \<Rightarrow> ei_sender" where
  "set_text d s =
     (if s_text_dev s = 0 \<and> interface_object d ''ei_text'' \<noteq> 0
      then s\<lparr>s_text_dev := d_id d, s_text := interface_object d ''ei_text''\<rparr> else s)"

definition consider_device :: "ei_device \<Rightarrow> ei_sender \<Rightarrow> ei_sender" where
  "consider_device d s =
     (if \<not> d_resumed d \<or> \<not> d_done d then s
      else set_text d (set_scroll d (set_button d (add_pointer d (set_keyboard d s)))))"

definition reset_selection :: "ei_sender \<Rightarrow> ei_sender" where
  "reset_selection s =
     s\<lparr>s_pointers := [], s_regions := [], s_keyboard_dev := 0, s_keyboard := 0, s_pointer_dev := 0,
       s_pointer := 0, s_button_dev := 0, s_button := 0, s_scroll_dev := 0, s_scroll := 0,
       s_text_dev := 0, s_text := 0\<rparr>"

definition devices_in_order :: "ei_sender \<Rightarrow> ei_device list" where
  "devices_in_order s = map (\<lambda>i. the (map_of (s_devices s) i)) (sort (map fst (s_devices s)))"

definition devices_ready :: "ei_sender \<Rightarrow> bool \<times> ei_sender" where
  "devices_ready s =
     (let s = fold consider_device (devices_in_order s) (reset_selection s);
          s = s\<lparr>s_pointers := sort_key p_device (s_pointers s)\<rparr>
      in (s_keyboard_dev s \<noteq> 0 \<and> s_pointers s \<noteq> [] \<and> s_button_dev s \<noteq> 0 \<and> s_regions s \<noteq> [], s))"

section \<open>The pointer device of a point\<close>

text \<open>\<^verbatim>\<open>uint64(x)\<close> of an \<^verbatim>\<open>int\<close>.\<close>

definition to_u64 :: "int \<Rightarrow> int" where "to_u64 x = x mod 2 ^ 64"

definition region_contains :: "int \<Rightarrow> int \<Rightarrow> ei_region \<Rightarrow> bool" where
  "region_contains x y r \<longleftrightarrow>
     to_u64 x \<ge> uint (r_x r) \<and> to_u64 y \<ge> uint (r_y r) \<and>
     to_u64 x < uint (r_x r) + uint (r_width r) \<and> to_u64 y < uint (r_y r) + uint (r_height r)"

fun pointer_loop ::
    "int \<Rightarrow> int \<Rightarrow> ei_pointer_device list \<Rightarrow> ei_pointer_device option \<Rightarrow> ei_pointer_device option" where
  "pointer_loop x y [] selected = selected"
| "pointer_loop x y (p # ps) selected =
     (if p_device p = 0 \<or> p_pointer p = 0 then pointer_loop x y ps selected
      else if list_ex (region_contains x y) (p_regions p) then
        (case selected of
           Some q \<Rightarrow> if p_device q \<noteq> p_device p then None else pointer_loop x y ps (Some p)
         | None \<Rightarrow> pointer_loop x y ps (Some p))
      else pointer_loop x y ps selected)"

definition pointer_for_point :: "ei_sender \<Rightarrow> int \<Rightarrow> int \<Rightarrow> ei_pointer_device option" where
  "pointer_for_point s x y = pointer_loop x y (s_pointers s) None"

definition validate_point :: "ei_sender \<Rightarrow> int \<Rightarrow> int \<Rightarrow> bool" where
  "validate_point s x y \<longleftrightarrow> pointer_for_point s x y \<noteq> None"

definition has_authorized_pointer :: "ei_sender \<Rightarrow> bool" where
  "has_authorized_pointer s \<longleftrightarrow>
     list_ex (\<lambda>p. p_pointer p \<noteq> 0 \<and> p_device p \<noteq> 0 \<and>
       list_ex (\<lambda>r. r_width r > 0 \<and> r_height r > 0) (p_regions p)) (s_pointers s)"

section \<open>Identities\<close>

definition object_ids :: "ei_sender \<Rightarrow> u64 list" where
  "object_ids s =
     map fst (s_devices s) @ concat (map (\<lambda>(_, d). map snd (d_interfaces d)) (s_devices s))"

definition device_ok :: "u64 \<times> ei_device \<Rightarrow> bool" where
  "device_ok e \<longleftrightarrow> (case e of (i, d) \<Rightarrow>
     d_id d = i \<and> distinct (map fst (d_interfaces d)) \<and> list_all region_ok (d_regions d))"

definition sender_ok :: "ei_sender \<Rightarrow> bool" where
  "sender_ok s \<longleftrightarrow>
     distinct (object_ids s) \<and> 0 \<notin> set (object_ids s) \<and>
     s_connection s \<notin> set (object_ids s) \<and> s_seat s \<notin> set (object_ids s) \<and>
     list_all device_ok (s_devices s)"

lemma new_sender_ok [simp]: "sender_ok (new_ei_sender conn seat)"
  by (simp add: sender_ok_def object_ids_def new_ei_sender_def)

lemma is_reserved_iff:
  "is_reserved i s \<longleftrightarrow> i \<noteq> 0 \<and> (i = s_connection s \<or> i = s_seat s) \<or> i \<in> set (object_ids s)"
proof -
  have "list_ex (\<lambda>(did, d). i = did \<or> list_ex (\<lambda>(_, obj). i = obj) (d_interfaces d)) al \<longleftrightarrow>
      i \<in> set (map fst al @ concat (map (\<lambda>(_, d). map snd (d_interfaces d)) al))" for al
  proof (induction al)
    case (Cons p al)
    have "list_ex (\<lambda>(_, obj). i = obj) xs \<longleftrightarrow> i \<in> snd ` set xs" for xs :: "(byte list \<times> u64) list"
      by (induction xs) auto
    with Cons show ?case by (cases p) auto
  qed simp
  from this [of "s_devices s"] show ?thesis unfolding is_reserved_def object_ids_def by blast
qed

lemma announce_ok:
  assumes s: "sender_ok s" and r: "announce_device m s = (Inr s' :: 'e ei_error + ei_sender)"
  shows "sender_ok s'"
proof -
  obtain i version where i: "i \<noteq> 0" "i \<notin> fst ` set (s_devices s)" "\<not> is_reserved i s"
    and s': "s' = s\<lparr>s_devices := s_devices s @ [(i, \<lparr>d_id = i, d_version = version, d_interfaces = [],
        d_regions = [], d_done = False, d_resumed = False\<rparr>)]\<rparr>"
    using r by (auto simp: announce_device_def alist_update_new split: sum.splits if_splits)
  with s show ?thesis
    by (auto simp: sender_ok_def object_ids_def device_ok_def is_reserved_iff)
qed

lemma read_region_ok: "read_region body = (Inr r :: 'e ei_error + ei_region) \<Longrightarrow> region_ok r"
  by (auto simp: read_region_def Let_def split: sum.splits if_splits)

text \<open>An event on a device keeps its identity and adds at most one new object.\<close>

lemma device_event_result:
  assumes r: "device_event m d s = (Inr d' :: 'e ei_error + ei_device)" and ok: "device_ok (i, d)"
  shows "device_ok (i, d') \<and>
    (d_interfaces d' = d_interfaces d \<or>
     (\<exists>name obj. d_interfaces d' = d_interfaces d @ [(name, obj)] \<and> obj \<noteq> 0 \<and> \<not> is_reserved obj s))"
proof -
  consider "m_opcode m = 4" "\<not> d_done d" | "m_opcode m = 5" "\<not> d_done d" | "m_opcode m \<noteq> 4" "m_opcode m \<noteq> 5"
    using r by (auto simp: device_event_def split: if_splits)
  then show ?thesis
  proof cases
    case 1
    with r obtain reg where reg: "read_region (m_body m) = (Inr reg :: 'e ei_error + ei_region)"
      "d' = d\<lparr>d_regions := d_regions d @ [reg]\<rparr>"
      by (auto simp: device_event_def split: sum.splits)
    with ok read_region_ok [OF reg(1)] show ?thesis by (simp add: device_ok_def)
  next
    case 2
    with r have "add_interface m d s = (Inr d' :: 'e ei_error + ei_device)" by (simp add: device_event_def)
    then obtain name obj where n: "name \<notin> fst ` set (d_interfaces d)" "obj \<noteq> 0" "\<not> is_reserved obj s"
      "d' = d\<lparr>d_interfaces := AList.update name obj (d_interfaces d)\<rparr>"
      by (auto simp: add_interface_def split: sum.splits if_splits)
    with ok show ?thesis by (simp add: device_ok_def alist_update_new)
  next
    case 3
    with r ok show ?thesis by (auto simp: device_event_def device_ok_def split: if_splits)
  qed
qed

lemma device_update_ok:
  assumes s: "sender_ok s" and d: "map_of (s_devices s) i = Some d"
    and r: "device_event m d s = (Inr d' :: 'e ei_error + ei_device)"
  shows "sender_ok (s\<lparr>s_devices := AList.update i d' (s_devices s)\<rparr>)"
proof -
  obtain xs ys where sp: "s_devices s = xs @ (i, d) # ys"
    "AList.update i d' (s_devices s) = xs @ (i, d') # ys"
    using alist_update_split [OF d] by blast
  have ok: "device_ok (i, d)" using s sp by (simp add: sender_ok_def)
  have old: "distinct (object_ids s)" "0 \<notin> set (object_ids s)" "s_connection s \<notin> set (object_ids s)"
    "s_seat s \<notin> set (object_ids s)" "list_all device_ok (s_devices s)"
    using s by (simp_all add: sender_ok_def)
  from device_event_result [OF r ok] have d': "device_ok (i, d')"
    and "d_interfaces d' = d_interfaces d \<or>
      (\<exists>name obj. d_interfaces d' = d_interfaces d @ [(name, obj)] \<and> obj \<noteq> 0 \<and> \<not> is_reserved obj s)"
    by blast+
  from this(2) show ?thesis
  proof
    assume "d_interfaces d' = d_interfaces d"
    with old d' sp show ?thesis by (simp add: sender_ok_def object_ids_def)
  next
    assume "\<exists>name obj. d_interfaces d' = d_interfaces d @ [(name, obj)] \<and> obj \<noteq> 0 \<and> \<not> is_reserved obj s"
    then obtain name obj where n: "d_interfaces d' = d_interfaces d @ [(name, obj)]" "obj \<noteq> 0"
      "obj \<notin> set (object_ids s)" "obj \<noteq> s_connection s" "obj \<noteq> s_seat s"
      by (auto simp: is_reserved_iff)
    let ?t = "s\<lparr>s_devices := xs @ (i, d') # ys\<rparr>"
    have m: "mset (object_ids ?t) = add_mset obj (mset (object_ids s))"
      by (simp add: object_ids_def sp(1) n(1))
    then have "set (object_ids ?t) = insert obj (set (object_ids s))"
      by (metis set_mset_add_mset_insert set_mset_mset)
    moreover have "distinct (object_ids ?t)"
    proof -
      have "distinct (obj # object_ids s)" using old(1) n(3) by simp
      moreover have "mset (object_ids ?t) = mset (obj # object_ids s)" using m by simp
      ultimately show ?thesis by (metis mset_eq_imp_distinct_iff)
    qed
    ultimately show ?thesis
      using old d' n sp by (auto simp: sender_ok_def)
  qed
qed

lemma consume_keeps_roots:
  "consume_setup_event m s = Inr s' \<Longrightarrow> s_connection s' = s_connection s \<and> s_seat s' = s_seat s"
  by (auto simp: consume_setup_event_def announce_device_def split: if_splits sum.splits option.splits)

lemma consume_ok:
  assumes "sender_ok s" "consume_setup_event m s = (Inr s' :: 'e ei_error + ei_sender)"
  shows "sender_ok s'"
proof (cases "m_object m = s_seat s \<and> m_opcode m = 4")
  case True
  with assms(2) show ?thesis by (intro announce_ok [OF assms(1)]) (simp add: consume_setup_event_def)
next
  case False
  with assms show ?thesis
    by (auto simp: consume_setup_event_def split: option.splits sum.splits intro: device_update_ok)
qed

text \<open>
  C16. Object identities stay unambiguous through enumeration: whatever the compositor announces, an
  accepted event keeps all device and interface objects pairwise different, nonzero and
  different from the connection and the seat, and every recorded region non-empty and inside
  the 32-bit coordinate space.
\<close>

theorem consume_keeps_identities:
  assumes "sender_ok s" "consume_setup_event m s = (Inr s' :: 'e ei_error + ei_sender)"
  shows "sender_ok s'"
  using assms by (rule consume_ok)

definition demo_announce :: ei_message where
  "demo_announce = \<lparr>m_object = 9, m_opcode = 4, m_body = ei_u64 20 @ ei_u32 1\<rparr>"

definition demo_device :: ei_device where
  "demo_device = \<lparr>d_id = 20, d_version = 1, d_interfaces = [], d_regions = [], d_done = False, d_resumed = False\<rparr>"

lemma ei_read_at:
  "length a = k \<Longrightarrow> ei_read_u32 (a @ ei_u32 v @ bs) k = Inr v"
  "length a = k \<Longrightarrow> ei_read_u32 (a @ ei_u32 v) k = Inr v"
  by (simp_all add: ei_read_u32_def ei_u32_def)

lemma demo_consume:
  "consume_setup_event demo_announce (new_ei_sender 8 9) = Inr ((new_ei_sender 8 9)\<lparr>s_devices := [(20, demo_device)]\<rparr>)"
  by (simp add: consume_setup_event_def demo_announce_def announce_device_def new_ei_sender_def
      is_reserved_def demo_device_def ei_read_at)

theorem consume_keeps_identities_witness:
  "sender_ok ((new_ei_sender 8 9)\<lparr>s_devices := [(20, demo_device)]\<rparr>)"
  by (rule consume_keeps_identities [OF new_sender_ok demo_consume])

text \<open>
  A device that announced its completion is sealed: no later event changes its interfaces or
  regions, or the ones of another completed device; a region or interface for it is an error.
\<close>

theorem completed_device_sealed:
  assumes "map_of (s_devices s) i = Some d" "d_done d"
    "consume_setup_event m s = (Inr s' :: 'e ei_error + ei_sender)"
  shows "\<exists>d'. map_of (s_devices s') i = Some d' \<and> d_done d' \<and> d_id d' = d_id d \<and>
    d_interfaces d' = d_interfaces d \<and> d_regions d' = d_regions d"
proof (cases "m_object m = s_seat s \<and> m_opcode m = 4")
  case True
  with assms(3) obtain j d0 where "j \<notin> fst ` set (s_devices s)"
    and s': "s' = s\<lparr>s_devices := AList.update j d0 (s_devices s)\<rparr>"
    by (auto simp: consume_setup_event_def announce_device_def split: sum.splits if_splits)
  then have "i \<noteq> j" using map_of_SomeD [OF assms(1)] by force
  with assms s' show ?thesis by (simp add: update_conv')
next
  case False
  show ?thesis
  proof (cases "m_object m = i")
    case True
    with False assms(1,3) obtain d' where d': "device_event m d s = (Inr d' :: 'e ei_error + ei_device)"
      "s' = s\<lparr>s_devices := AList.update i d' (s_devices s)\<rparr>"
      by (auto simp: consume_setup_event_def split: sum.splits)
    then have "d_done d'" "d_id d' = d_id d" "d_interfaces d' = d_interfaces d" "d_regions d' = d_regions d"
      using assms(2) by (auto simp: device_event_def split: if_splits)
    with d'(2) show ?thesis by (simp add: update_conv')
  next
    case other: False
    with False assms show ?thesis
      by (auto simp: consume_setup_event_def update_conv' split: option.splits sum.splits)
  qed
qed

definition sealed_sender :: ei_sender where
  "sealed_sender = (new_ei_sender 8 9)\<lparr>s_devices := [(20, demo_device\<lparr>d_done := True\<rparr>)]\<rparr>"

theorem completed_device_sealed_witness:
  "\<exists>s' d'. consume_setup_event \<lparr>m_object = 20, m_opcode = 7, m_body = []\<rparr> sealed_sender =
      (Inr s' :: nat ei_error + ei_sender) \<and> map_of (s_devices s') 20 = Some d' \<and> d_regions d' = []"
proof -
  obtain s' where s': "consume_setup_event \<lparr>m_object = 20, m_opcode = 7, m_body = []\<rparr> sealed_sender =
      (Inr s' :: nat ei_error + ei_sender)"
    by (simp add: consume_setup_event_def sealed_sender_def new_ei_sender_def device_event_def)
  from completed_device_sealed [OF _ _ s', of 20 "demo_device\<lparr>d_done := True\<rparr>"] s'
  show ?thesis by (auto simp: sealed_sender_def new_ei_sender_def demo_device_def)
qed

section \<open>The chosen devices\<close>

text \<open>The specification: the first usable device, by object id, that offers the interface.\<close>

definition usable :: "ei_sender \<Rightarrow> ei_device list" where
  "usable s = filter (\<lambda>d. d_resumed d \<and> d_done d) (devices_in_order s)"

definition offers :: "string \<Rightarrow> ei_device \<Rightarrow> bool" where
  "offers name d \<longleftrightarrow> interface_object d name \<noteq> 0"

definition chosen :: "string \<Rightarrow> ei_sender \<Rightarrow> u64 \<times> u64" where
  "chosen name s =
     (case find (offers name) (usable s) of None \<Rightarrow> (0, 0) | Some d \<Rightarrow> (d_id d, interface_object d name))"

definition has_pointer :: "ei_device \<Rightarrow> bool" where
  "has_pointer d \<longleftrightarrow> offers ''ei_pointer_absolute'' d \<and> d_regions d \<noteq> []"

definition pointer_entry :: "ei_device \<Rightarrow> ei_pointer_device" where
  "pointer_entry d =
     \<lparr>p_device = d_id d, p_pointer = interface_object d ''ei_pointer_absolute'', p_regions = d_regions d\<rparr>"

lemma fold_first:
  assumes "\<And>d s. d \<in> set ds \<Longrightarrow> sel (f d s) = (if fst (sel s) = 0 \<and> P d then mk d else sel s)"
    and "\<And>d. d \<in> set ds \<Longrightarrow> P d \<Longrightarrow> fst (mk d) \<noteq> (0 :: u64)"
  shows "sel (fold f ds s) =
    (if fst (sel s) = 0 then (case find P ds of None \<Rightarrow> sel s | Some d \<Rightarrow> mk d) else sel s)"
  using assms
proof (induction ds arbitrary: s)
  case (Cons a ds)
  have st: "sel (f a s) = (if fst (sel s) = 0 \<and> P a then mk a else sel s)" by (rule Cons.prems(1)) simp
  have IH: "sel (fold f ds t) =
      (if fst (sel t) = 0 then (case find P ds of None \<Rightarrow> sel t | Some d \<Rightarrow> mk d) else sel t)" for t
    by (rule Cons.IH) (simp_all add: Cons.prems)
  show ?case using Cons.prems(2) [of a] by (auto simp: IH st split: option.split)
qed simp

text \<open>Each step of the loop writes its own fields only.\<close>

lemma set_keyboard_frame [simp]:
  "s_button_dev (set_keyboard d s) = s_button_dev s" "s_button (set_keyboard d s) = s_button s"
  "s_text_dev (set_keyboard d s) = s_text_dev s" "s_text (set_keyboard d s) = s_text s"
  "s_scroll_dev (set_keyboard d s) = s_scroll_dev s" "s_scroll (set_keyboard d s) = s_scroll s"
  "s_pointers (set_keyboard d s) = s_pointers s" "s_regions (set_keyboard d s) = s_regions s"
  "s_devices (set_keyboard d s) = s_devices s"
  by (simp_all add: set_keyboard_def)

lemma set_button_frame [simp]:
  "s_keyboard_dev (set_button d s) = s_keyboard_dev s" "s_keyboard (set_button d s) = s_keyboard s"
  "s_text_dev (set_button d s) = s_text_dev s" "s_text (set_button d s) = s_text s"
  "s_scroll_dev (set_button d s) = s_scroll_dev s" "s_scroll (set_button d s) = s_scroll s"
  "s_pointers (set_button d s) = s_pointers s" "s_regions (set_button d s) = s_regions s"
  "s_devices (set_button d s) = s_devices s"
  by (simp_all add: set_button_def)

lemma set_text_frame [simp]:
  "s_keyboard_dev (set_text d s) = s_keyboard_dev s" "s_keyboard (set_text d s) = s_keyboard s"
  "s_button_dev (set_text d s) = s_button_dev s" "s_button (set_text d s) = s_button s"
  "s_scroll_dev (set_text d s) = s_scroll_dev s" "s_scroll (set_text d s) = s_scroll s"
  "s_pointers (set_text d s) = s_pointers s" "s_regions (set_text d s) = s_regions s"
  "s_devices (set_text d s) = s_devices s"
  by (simp_all add: set_text_def)

lemma set_scroll_frame [simp]:
  "s_keyboard_dev (set_scroll d s) = s_keyboard_dev s" "s_keyboard (set_scroll d s) = s_keyboard s"
  "s_button_dev (set_scroll d s) = s_button_dev s" "s_button (set_scroll d s) = s_button s"
  "s_text_dev (set_scroll d s) = s_text_dev s" "s_text (set_scroll d s) = s_text s"
  "s_pointers (set_scroll d s) = s_pointers s" "s_regions (set_scroll d s) = s_regions s"
  "s_devices (set_scroll d s) = s_devices s"
  by (simp_all add: set_scroll_def)

lemma add_pointer_frame [simp]:
  "s_keyboard_dev (add_pointer d s) = s_keyboard_dev s" "s_keyboard (add_pointer d s) = s_keyboard s"
  "s_button_dev (add_pointer d s) = s_button_dev s" "s_button (add_pointer d s) = s_button s"
  "s_text_dev (add_pointer d s) = s_text_dev s" "s_text (add_pointer d s) = s_text s"
  "s_scroll_dev (add_pointer d s) = s_scroll_dev s" "s_scroll (add_pointer d s) = s_scroll s"
  "s_devices (add_pointer d s) = s_devices s"
  by (simp_all add: add_pointer_def Let_def)

lemma consider_single:
  "(s_keyboard_dev (consider_device d s), s_keyboard (consider_device d s)) =
     (if s_keyboard_dev s = 0 \<and> d_resumed d \<and> d_done d \<and> offers ''ei_keyboard'' d
      then (d_id d, interface_object d ''ei_keyboard'') else (s_keyboard_dev s, s_keyboard s))"
  "(s_button_dev (consider_device d s), s_button (consider_device d s)) =
     (if s_button_dev s = 0 \<and> d_resumed d \<and> d_done d \<and> offers ''ei_button'' d
      then (d_id d, interface_object d ''ei_button'') else (s_button_dev s, s_button s))"
  "(s_text_dev (consider_device d s), s_text (consider_device d s)) =
     (if s_text_dev s = 0 \<and> d_resumed d \<and> d_done d \<and> offers ''ei_text'' d
      then (d_id d, interface_object d ''ei_text'') else (s_text_dev s, s_text s))"
  "(s_scroll (consider_device d s), s_scroll_dev (consider_device d s)) =
     (if s_scroll s = 0 \<and> d_resumed d \<and> d_done d \<and> offers ''ei_scroll'' d
      then (interface_object d ''ei_scroll'', d_id d) else (s_scroll s, s_scroll_dev s))"
  unfolding offers_def consider_device_def
     apply (simp add: set_keyboard_def [of d s])
    apply (simp add: set_button_def [of d "add_pointer d (set_keyboard d s)"])
   apply (simp add: set_text_def [of d "set_scroll d (set_button d (add_pointer d (set_keyboard d s)))"])
  apply (simp add: set_scroll_def [of d "set_button d (add_pointer d (set_keyboard d s))"])
  done

lemma add_pointer_lists:
  "s_pointers (add_pointer d s) = s_pointers s @ (if has_pointer d then [pointer_entry d] else [])"
  "s_regions (add_pointer d s) = s_regions s @ (if has_pointer d then d_regions d else [])"
  by (simp_all add: add_pointer_def has_pointer_def offers_def pointer_entry_def Let_def)

lemma consider_pointers:
  "s_pointers (consider_device d s) =
     s_pointers s @ (if d_resumed d \<and> d_done d \<and> has_pointer d then [pointer_entry d] else [])"
  "s_regions (consider_device d s) =
     s_regions s @ (if d_resumed d \<and> d_done d \<and> has_pointer d then d_regions d else [])"
  "s_devices (consider_device d s) = s_devices s"
  by (simp_all add: consider_device_def add_pointer_lists)

lemma find_filter: "find P (filter Q xs) = find (\<lambda>x. Q x \<and> P x) xs"
  by (induction xs) auto

lemma fold_pointers:
  "s_pointers (fold consider_device ds s) = s_pointers s @
     map pointer_entry (filter has_pointer (filter (\<lambda>d. d_resumed d \<and> d_done d) ds))"
  "s_regions (fold consider_device ds s) = s_regions s @
     concat (map d_regions (filter has_pointer (filter (\<lambda>d. d_resumed d \<and> d_done d) ds)))"
  by (induction ds arbitrary: s) (auto simp: consider_pointers)

lemma device_lookup:
  assumes "list_all device_ok ds" "i \<in> fst ` set ds"
  shows "d_id (the (map_of ds i)) = i"
proof -
  obtain d where "map_of ds i = Some d" using assms(2) by (metis map_of_eq_None_iff not_None_eq)
  then have "device_ok (i, d)" using assms(1) map_of_SomeD [of ds i d] by (auto simp: list_all_iff)
  with \<open>map_of ds i = Some d\<close> show ?thesis by (simp add: device_ok_def)
qed

lemma reset_fields [simp]:
  "s_keyboard_dev (reset_selection s) = 0" "s_keyboard (reset_selection s) = 0"
  "s_button_dev (reset_selection s) = 0" "s_button (reset_selection s) = 0"
  "s_text_dev (reset_selection s) = 0" "s_text (reset_selection s) = 0"
  "s_scroll_dev (reset_selection s) = 0" "s_scroll (reset_selection s) = 0"
  "s_pointers (reset_selection s) = []" "s_regions (reset_selection s) = []"
  "s_devices (reset_selection s) = s_devices s"
  by (simp_all add: reset_selection_def)

lemma devices_in_order_ids:
  assumes "sender_ok s"
  shows "map d_id (devices_in_order s) = sort (map fst (s_devices s))"
proof -
  have "d_id (the (map_of (s_devices s) i)) = i" if "i \<in> set (sort (map fst (s_devices s)))" for i
    using that assms device_lookup [of "s_devices s" i] by (simp add: sender_ok_def)
  then show ?thesis unfolding devices_in_order_def map_map comp_def by (rule map_idI)
qed

lemma devices_in_order_sorted:
  assumes "sender_ok s"
  shows "sorted (map d_id (devices_in_order s))" "distinct (map d_id (devices_in_order s))"
    "d \<in> set (devices_in_order s) \<Longrightarrow> d_id d \<noteq> 0"
proof -
  note ids = devices_in_order_ids [OF assms]
  show "sorted (map d_id (devices_in_order s))" unfolding ids by simp
  show "distinct (map d_id (devices_in_order s))"
    unfolding ids using assms by (simp add: sender_ok_def object_ids_def)
  show "d_id d \<noteq> 0" if "d \<in> set (devices_in_order s)"
  proof
    assume "d_id d = 0"
    with that have "0 \<in> set (map d_id (devices_in_order s))" by force
    then show False unfolding ids using assms by (simp add: sender_ok_def object_ids_def)
  qed
qed

lemma sorted_filter_map: "sorted (map f xs) \<Longrightarrow> sorted (map f (filter P xs))"
  by (rule sorted_filter)

lemma devices_ready_chosen:
  assumes ok: "sender_ok s" and r: "devices_ready s = (b, s')"
  shows "(s_keyboard_dev s', s_keyboard s') = chosen ''ei_keyboard'' s"
    "(s_button_dev s', s_button s') = chosen ''ei_button'' s"
    "(s_text_dev s', s_text s') = chosen ''ei_text'' s"
    "(s_scroll_dev s', s_scroll s') = chosen ''ei_scroll'' s"
    "s_pointers s' = map pointer_entry (filter has_pointer (usable s))"
    "s_regions s' = concat (map d_regions (filter has_pointer (usable s)))"
    "s_devices s' = s_devices s"
proof -
  let ?ds = "devices_in_order s"
  let ?f = "fold consider_device ?ds (reset_selection s)"
  note nz = devices_in_order_sorted(3) [OF ok]
  have s': "s' = ?f\<lparr>s_pointers := sort_key p_device (s_pointers ?f)\<rparr>"
    using r by (simp add: devices_ready_def Let_def)
  show "(s_keyboard_dev s', s_keyboard s') = chosen ''ei_keyboard'' s"
    using fold_first [where sel = "\<lambda>s. (s_keyboard_dev s, s_keyboard s)" and f = consider_device
        and P = "\<lambda>d. (d_resumed d \<and> d_done d) \<and> offers ''ei_keyboard'' d"
        and mk = "\<lambda>d. (d_id d, interface_object d ''ei_keyboard'')" and ds = ?ds and s = "reset_selection s"]
    by (simp add: s' consider_single nz chosen_def usable_def find_filter split: option.split)
  show "(s_button_dev s', s_button s') = chosen ''ei_button'' s"
    using fold_first [where sel = "\<lambda>s. (s_button_dev s, s_button s)" and f = consider_device
        and P = "\<lambda>d. (d_resumed d \<and> d_done d) \<and> offers ''ei_button'' d"
        and mk = "\<lambda>d. (d_id d, interface_object d ''ei_button'')" and ds = ?ds and s = "reset_selection s"]
    by (simp add: s' consider_single nz chosen_def usable_def find_filter split: option.split)
  show "(s_text_dev s', s_text s') = chosen ''ei_text'' s"
    using fold_first [where sel = "\<lambda>s. (s_text_dev s, s_text s)" and f = consider_device
        and P = "\<lambda>d. (d_resumed d \<and> d_done d) \<and> offers ''ei_text'' d"
        and mk = "\<lambda>d. (d_id d, interface_object d ''ei_text'')" and ds = ?ds and s = "reset_selection s"]
    by (simp add: s' consider_single nz chosen_def usable_def find_filter split: option.split)
  have "(s_scroll s', s_scroll_dev s') = prod.swap (chosen ''ei_scroll'' s)"
    using fold_first [where sel = "\<lambda>s. (s_scroll s, s_scroll_dev s)" and f = consider_device
        and P = "\<lambda>d. (d_resumed d \<and> d_done d) \<and> offers ''ei_scroll'' d"
        and mk = "\<lambda>d. (interface_object d ''ei_scroll'', d_id d)" and ds = ?ds and s = "reset_selection s"]
    by (simp add: s' consider_single chosen_def usable_def find_filter offers_def split: option.split)
  then show "(s_scroll_dev s', s_scroll s') = chosen ''ei_scroll'' s"
    by (cases "chosen ''ei_scroll'' s") simp
  have "sorted (map d_id (filter has_pointer (usable s)))"
    unfolding usable_def using devices_in_order_sorted(1) [OF ok] by (intro sorted_filter)
  then have "sorted (map p_device (map pointer_entry (filter has_pointer (usable s))))"
    by (simp add: pointer_entry_def comp_def)
  then show "s_pointers s' = map pointer_entry (filter has_pointer (usable s))"
    by (simp add: s' fold_pointers usable_def [symmetric] sort_key_id_if_sorted)
  show "s_regions s' = concat (map d_regions (filter has_pointer (usable s)))"
    by (simp add: s' fold_pointers usable_def [symmetric])
  have "s_devices (fold consider_device ds t) = s_devices t" for ds t
    by (induction ds arbitrary: t) (simp_all add: consider_pointers)
  then show "s_devices s' = s_devices s" by (simp add: s')
qed

lemma usable_subset: "set (usable s) \<subseteq> set (devices_in_order s)" by (auto simp: usable_def)

lemma find_SomeD: "find P xs = Some x \<Longrightarrow> x \<in> set xs \<and> P x"
  by (auto simp: find_Some_iff)

lemma chosen_nonzero: "sender_ok s \<Longrightarrow> fst (chosen name s) \<noteq> 0 \<longleftrightarrow> list_ex (offers name) (usable s)"
  using devices_in_order_sorted(3) [of s] usable_subset [of s]
  by (auto simp: chosen_def list_ex_iff find_None_iff split: option.split dest!: find_SomeD)

text \<open>
  Device selection is deterministic and only ever picks granted objects: for each capability
  the device with the smallest object id that is resumed, completely enumerated and offers
  the interface is chosen (none if there is none); the pointer devices are all such devices
  with a region, by increasing id; and enumeration counts as ready exactly when keyboard,
  button and pointer were granted.
\<close>

theorem devices_ready_selects:
  assumes "sender_ok s" "devices_ready s = (ready, s')"
  shows "(s_keyboard_dev s', s_keyboard s') = chosen ''ei_keyboard'' s \<and>
    (s_button_dev s', s_button s') = chosen ''ei_button'' s \<and>
    (s_text_dev s', s_text s') = chosen ''ei_text'' s \<and>
    (s_scroll_dev s', s_scroll s') = chosen ''ei_scroll'' s \<and>
    s_pointers s' = map pointer_entry (filter has_pointer (usable s)) \<and>
    (ready \<longleftrightarrow> list_ex (offers ''ei_keyboard'') (usable s) \<and> list_ex (offers ''ei_button'') (usable s) \<and>
       list_ex has_pointer (usable s))"
proof -
  note c = devices_ready_chosen [OF assms]
  have r: "ready \<longleftrightarrow> s_keyboard_dev s' \<noteq> 0 \<and> s_pointers s' \<noteq> [] \<and> s_button_dev s' \<noteq> 0 \<and> s_regions s' \<noteq> []"
    using assms(2) by (auto simp: devices_ready_def Let_def)
  have k: "s_keyboard_dev s' \<noteq> 0 \<longleftrightarrow> list_ex (offers ''ei_keyboard'') (usable s)"
    using c(1) chosen_nonzero [OF assms(1), of "''ei_keyboard''"] by (metis fst_conv)
  have b: "s_button_dev s' \<noteq> 0 \<longleftrightarrow> list_ex (offers ''ei_button'') (usable s)"
    using c(2) chosen_nonzero [OF assms(1), of "''ei_button''"] by (metis fst_conv)
  have p: "s_pointers s' \<noteq> [] \<longleftrightarrow> list_ex has_pointer (usable s)"
    by (auto simp: c(5) list_ex_iff filter_empty_conv)
  have g: "s_regions s' \<noteq> [] \<longleftrightarrow> list_ex has_pointer (usable s)"
    by (auto simp: c(6) list_ex_iff filter_empty_conv has_pointer_def)
  have "ready \<longleftrightarrow> list_ex (offers ''ei_keyboard'') (usable s) \<and> list_ex (offers ''ei_button'') (usable s) \<and>
       list_ex has_pointer (usable s)"
    using r k b p g by blast
  with c show ?thesis by simp
qed

definition full_device :: "u64 \<Rightarrow> ei_device" where
  "full_device i = \<lparr>d_id = i, d_version = 1,
     d_interfaces = [(bytes_of ''ei_keyboard'', i + 1), (bytes_of ''ei_button'', i + 2),
                     (bytes_of ''ei_pointer_absolute'', i + 3)],
     d_regions = [\<lparr>r_x = 0, r_y = 0, r_width = 1920, r_height = 1080, r_scale = 0x3f800000\<rparr>],
     d_done = True, d_resumed = True\<rparr>"

definition full_sender :: ei_sender where
  "full_sender = (new_ei_sender 8 9)\<lparr>s_devices := [(30, full_device 30), (20, full_device 20)]\<rparr>"

lemma full_sender_ok: "sender_ok full_sender"
  by (simp add: full_sender_def full_device_def sender_ok_def object_ids_def new_ei_sender_def device_ok_def
      bytes_of_def region_ok_def scale_ok_def)

theorem devices_ready_selects_witness:
  "\<exists>s'. devices_ready full_sender = (True, s') \<and> s_keyboard_dev s' = 20 \<and> s_keyboard s' = 21 \<and>
     map p_device (s_pointers s') = [20, 30]"
proof -
  obtain r s' where d: "devices_ready full_sender = (r, s')" by fastforce
  have "devices_in_order full_sender = [full_device 20, full_device 30]"
    by (simp add: devices_in_order_def full_sender_def)
  then have u: "usable full_sender = [full_device 20, full_device 30]"
    by (simp add: usable_def full_device_def)
  have o: "offers ''ei_keyboard'' (full_device i) = (i + 1 \<noteq> 0)" "offers ''ei_button'' (full_device i) = (i + 2 \<noteq> 0)"
    "has_pointer (full_device i) = (i + 3 \<noteq> 0)" "interface_object (full_device i) ''ei_keyboard'' = i + 1"
    "d_id (full_device i) = i" for i
    by (simp_all add: offers_def interface_object_def full_device_def bytes_of_def has_pointer_def)
  have "r" "s_keyboard_dev s' = 20" "s_keyboard s' = 21" "map p_device (s_pointers s') = [20, 30]"
    using devices_ready_selects [OF full_sender_ok d]
    by (simp_all add: u o chosen_def pointer_entry_def)
  with d show ?thesis by simp
qed

section \<open>Who owns a point\<close>

definition owners :: "ei_sender \<Rightarrow> int \<Rightarrow> int \<Rightarrow> ei_pointer_device list" where
  "owners s x y = filter (\<lambda>p. p_device p \<noteq> 0 \<and> p_pointer p \<noteq> 0 \<and>
     (\<exists>r \<in> set (p_regions p). uint (r_x r) \<le> x \<and> x < uint (r_x r) + uint (r_width r) \<and>
        uint (r_y r) \<le> y \<and> y < uint (r_y r) + uint (r_height r))) (s_pointers s)"

lemma to_u64_nonneg: "in_int v \<Longrightarrow> 0 \<le> v \<Longrightarrow> to_u64 v = v"
  by (simp add: to_u64_def in_int_def max_int_def)

lemma to_u64_neg: "in_int v \<Longrightarrow> v < 0 \<Longrightarrow> 2 ^ 63 \<le> to_u64 v"
proof -
  assume v: "in_int v" "v < 0"
  then have "(v + 2 ^ 64) mod 2 ^ 64 = v + 2 ^ 64"
    by (intro mod_pos_pos_trivial) (simp_all add: in_int_def min_int_def)
  with v show ?thesis by (simp add: to_u64_def in_int_def min_int_def)
qed

lemma to_u64_range:
  fixes a b :: u32
  assumes v: "in_int v"
  shows "uint a \<le> to_u64 v \<and> to_u64 v < uint a + uint b \<longleftrightarrow> uint a \<le> v \<and> v < uint a + uint b"
proof (cases "0 \<le> v")
  case True
  with v show ?thesis by (simp add: to_u64_nonneg)
next
  case False
  have "uint a < 2 ^ 32" "uint b < 2 ^ 32" using uint_bounded [of a] uint_bounded [of b] by simp_all
  moreover have "2 ^ 63 \<le> to_u64 v" using to_u64_neg [OF v] False by simp
  ultimately have "\<not> to_u64 v < uint a + uint b" by simp
  moreover have "\<not> uint a \<le> v" using False uint_ge_0 [of a] by linarith
  ultimately show ?thesis by blast
qed
lemma region_contains_iff:
  assumes "in_int x" "in_int y"
  shows "region_contains x y r \<longleftrightarrow>
    uint (r_x r) \<le> x \<and> x < uint (r_x r) + uint (r_width r) \<and>
    uint (r_y r) \<le> y \<and> y < uint (r_y r) + uint (r_height r)"
proof -
  have "region_contains x y r \<longleftrightarrow>
    (uint (r_x r) \<le> to_u64 x \<and> to_u64 x < uint (r_x r) + uint (r_width r)) \<and>
    (uint (r_y r) \<le> to_u64 y \<and> to_u64 y < uint (r_y r) + uint (r_height r))"
    unfolding region_contains_def by blast
  then show ?thesis unfolding to_u64_range [OF assms(1)] to_u64_range [OF assms(2)] by simp
qed

lemma pointer_loop_sel:
  "distinct (map p_device ps) \<Longrightarrow> sel = Some q \<Longrightarrow> p_device q \<notin> p_device ` set ps \<Longrightarrow>
   pointer_loop x y ps sel =
     (if filter (\<lambda>p. p_device p \<noteq> 0 \<and> p_pointer p \<noteq> 0 \<and> list_ex (region_contains x y) (p_regions p)) ps = []
      then sel else None)"
  by (induction ps) auto

lemma pointer_loop_none:
  "distinct (map p_device ps) \<Longrightarrow>
   pointer_loop x y ps None =
     (case filter (\<lambda>p. p_device p \<noteq> 0 \<and> p_pointer p \<noteq> 0 \<and> list_ex (region_contains x y) (p_regions p)) ps of
        [p] \<Rightarrow> Some p | _ \<Rightarrow> None)"
proof (induction ps)
  case (Cons p ps)
  then show ?case
    using pointer_loop_sel [of ps "Some p" p x y]
    by (auto split: list.split)
qed simp

lemma pointer_for_point_owners:
  assumes "in_int x" "in_int y" "distinct (map p_device (s_pointers s))"
  shows "pointer_for_point s x y = (case owners s x y of [p] \<Rightarrow> Some p | _ \<Rightarrow> None)"
  using pointer_loop_none [OF assms(3), of x y]
  by (simp add: pointer_for_point_def owners_def list_ex_iff region_contains_iff [OF assms(1,2)])

text \<open>
  A point is routed to a pointer device exactly when that device is the only live one with a
  region containing the point: points outside every region, points that two devices claim,
  and negative coordinates have no device.
\<close>

theorem pointer_for_point_unique:
  assumes "in_int x" "in_int y" "distinct (map p_device (s_pointers s))"
  shows "pointer_for_point s x y = (case owners s x y of [p] \<Rightarrow> Some p | _ \<Rightarrow> None)"
  using assms by (rule pointer_for_point_owners)

definition two_pointers :: ei_sender where
  "two_pointers = (new_ei_sender 8 9)\<lparr>s_pointers :=
     [\<lparr>p_device = 20, p_pointer = 21, p_regions = [\<lparr>r_x = 0, r_y = 0, r_width = 100, r_height = 50, r_scale = 1\<rparr>]\<rparr>,
      \<lparr>p_device = 30, p_pointer = 31, p_regions = [\<lparr>r_x = 90, r_y = 0, r_width = 100, r_height = 50, r_scale = 1\<rparr>]\<rparr>]\<rparr>"

theorem pointer_for_point_unique_witness:
  "map_option p_device (pointer_for_point two_pointers 150 10) = Some 30 \<and>
   pointer_for_point two_pointers 95 10 = None \<and> pointer_for_point two_pointers (- 1) 10 = None"
  using pointer_for_point_unique [of 150 10 two_pointers] pointer_for_point_unique [of 95 10 two_pointers]
    pointer_for_point_unique [of "- 1" 10 two_pointers]
  by (simp add: in_int_def min_int_def max_int_def owners_def two_pointers_def)

end
