(* ===== verification/EisSend.thy ===== *)
theory EisSend
  imports EisDevices
begin

text \<open>
  Setting up an EIS sender and building its requests, \<^verbatim>\<open>input/eis.go\<close>: the handshake as a
  consumer of the events \<^verbatim>\<open>next\<close> delivers, and the frames for keys, buttons, the pointer,
  scrolling and text.
\<close>

section \<open>Setup\<close>

text \<open>
  What successive \<^verbatim>\<open>next\<close> calls return: an event, or an error (context, socket, closed stream).
  The end of the list is a call that is still waiting.
\<close>

datatype 'e incoming = Event ei_message | Failure 'e

fun ei_next ::
    "'e incoming list \<Rightarrow> ei_client \<Rightarrow> 'e ei_error + ei_message \<times> 'e incoming list \<times> ei_client" where
  "ei_next [] c = Inl Waiting"
| "ei_next (Failure e # q) c = Inl (EventSource e)"
| "ei_next (Event m # q) c = Inr (m, q, update_serial m c)"

lemma ei_next_shrinks: "ei_next q c = Inr (m, q', c') \<Longrightarrow> length q' < length q"
  by (cases "(q, c)" rule: ei_next.cases) auto

text \<open>The loops of the setup: take events until a step finishes with a value.\<close>

function ei_until ::
    "(ei_message \<Rightarrow> 's \<Rightarrow> 'e ei_error + 's + 'a) \<Rightarrow> 'e incoming list \<Rightarrow> ei_client \<Rightarrow> 's \<Rightarrow>
      'e ei_error + 'a \<times> 'e incoming list \<times> ei_client" where
  "ei_until f q c s =
     ebind (ei_next q c) (\<lambda>(m, q', c').
     ebind (f m s) (\<lambda>r. case r of
       Inl s' \<Rightarrow> ei_until f q' c' s'
     | Inr a \<Rightarrow> Inr (a, q', c')))"
  by pat_completeness auto
termination by (relation "measure (\<lambda>(_, q, _). length q)") (auto dest: ei_next_shrinks)

declare ei_until.simps [simp del]

definition send ::
    "'e socket \<Rightarrow> byte list list \<Rightarrow> ei_client \<Rightarrow> (ei_client \<Rightarrow> 'e ei_error + 'a) \<Rightarrow> 'e ei_error + 'a" where
  "send sock ms c k = (case write_messages sock ms c of (Some e, _) \<Rightarrow> Inl e | (None, c) \<Rightarrow> k c)"

definition announced_names :: "string list" where
  "announced_names = [''ei_connection'', ''ei_callback'', ''ei_pingpong'', ''ei_seat'', ''ei_device'',
     ''ei_pointer_absolute'', ''ei_button'', ''ei_keyboard'', ''ei_scroll'', ''ei_text'']"

definition capability_names :: "string list" where
  "capability_names = [''ei_pointer_absolute'', ''ei_button'', ''ei_keyboard'', ''ei_scroll'', ''ei_text'']"

fun announce :: "'e socket \<Rightarrow> string list \<Rightarrow> ei_client \<Rightarrow> 'e ei_error + ei_client" where
  "announce sock [] c = Inr c"
| "announce sock (name # names) c =
     send sock [ei_request 0 4 (ei_string (bytes_of name) @ ei_u32 1)] c (announce sock names)"

definition ei_handshake ::
    "'e socket \<Rightarrow> 'e incoming list \<Rightarrow> ei_client \<Rightarrow> 'e ei_error + 'e incoming list \<times> ei_client" where
  "ei_handshake sock q c =
     ebind (ei_next q c) (\<lambda>(first, q, c).
       if m_object first \<noteq> 0 \<or> m_opcode first \<noteq> 0 then Inl MissingVersion
       else
         case get_u32 (m_body first) of
           None \<Rightarrow> Inl MissingVersion
         | Some version \<Rightarrow>
             if version = 0 then Inl VersionZero
             else
               send sock [ei_request 0 0 (ei_u32 (min version 1)), ei_request 0 2 (ei_u32 2),
                          ei_request 0 3 (ei_string (bytes_of ''Perfuncted''))] c (\<lambda>c.
               ebind (announce sock announced_names c) (\<lambda>c.
               send sock [ei_request 0 1 []] c (\<lambda>c. Inr (q, c)))))"

definition is_disconnected :: "ei_message \<Rightarrow> u64 \<Rightarrow> bool" where
  "is_disconnected m conn \<longleftrightarrow> m_object m = conn \<and> m_opcode m = 0"

definition connection_step :: "ei_message \<Rightarrow> unit \<Rightarrow> 'e ei_error + unit + u64 \<times> u32" where
  "connection_step m s =
     (if m_object m = 0 \<and> m_opcode m = 2 then
        ebind (ei_read_u32 (m_body m) 0) (\<lambda>serial.
        ebind (ei_read_u64 (m_body m) 4) (\<lambda>conn. Inr (Inr (conn, serial))))
      else Inr (Inl ()))"

definition seat_step :: "u64 \<Rightarrow> ei_message \<Rightarrow> unit \<Rightarrow> 'e ei_error + unit + u64" where
  "seat_step conn m s =
     (if m_object m = conn \<and> m_opcode m = 1 then
        ebind (ei_read_u64 (m_body m) 0) (\<lambda>seat.
          if seat = 0 \<or> seat = conn then Inl BadSeat else Inr (Inr seat))
      else if is_disconnected m conn then Inl Revoked
      else Inr (Inl ()))"

text \<open>\<^verbatim>\<open>capabilityMasks\<close>: a missing name reads as zero.\<close>

type_synonym masks = "byte list \<Rightarrow> u64"

definition caps_step :: "u64 \<Rightarrow> u64 \<Rightarrow> ei_message \<Rightarrow> masks \<Rightarrow> 'e ei_error + masks + masks" where
  "caps_step conn seat m masks =
     (if m_object m \<noteq> seat then (if is_disconnected m conn then Inl Revoked else Inr (Inl masks))
      else if m_opcode m = 2 then
        ebind (ei_read_u64 (m_body m) 0) (\<lambda>bits.
        ebind (ei_read_string (m_body m) 8) (\<lambda>name. Inr (Inl (masks(name := masks name OR bits)))))
      else if m_opcode m = 3 then Inr (Inr masks)
      else Inr (Inl masks))"

fun bind_mask :: "string list \<Rightarrow> masks \<Rightarrow> u64 \<Rightarrow> 'e ei_error + u64" where
  "bind_mask [] masks acc = Inr acc"
| "bind_mask (name # names) masks acc =
     (if name = ''ei_scroll'' \<or> name = ''ei_text'' then bind_mask names masks (acc OR masks (bytes_of name))
      else if masks (bytes_of name) = 0 then Inl (CapabilityMissing name)
      else bind_mask names masks (acc OR masks (bytes_of name)))"

definition callback_step ::
    "u64 \<Rightarrow> ei_message \<Rightarrow> ei_sender \<Rightarrow> 'e ei_error + ei_sender + ei_sender" where
  "callback_step callback m s =
     (if m_object m = callback \<and> m_opcode m = 0 then
        (case get_u64 (m_body m) of
           None \<Rightarrow> Inl BadCallback
         | Some data \<Rightarrow> if data \<noteq> 0 then Inl BadCallback else Inr (Inr s))
      else
        ebind (consume_setup_event m s) (\<lambda>s'.
          if is_disconnected m (s_connection s) then Inl Revoked else Inr (Inl s')))"

definition resume_step :: "ei_message \<Rightarrow> ei_sender \<Rightarrow> 'e ei_error + ei_sender + ei_sender" where
  "resume_step m s =
     ebind (consume_setup_event m s) (\<lambda>s'.
       if is_disconnected m (s_connection s) then Inl Revoked
       else let (ready, s'') = devices_ready s' in if ready then Inr (Inr s'') else Inr (Inl s''))"

definition await_resumed ::
    "'e incoming list \<Rightarrow> ei_client \<Rightarrow> ei_sender \<Rightarrow> 'e ei_error + ei_sender \<times> 'e incoming list \<times> ei_client" where
  "await_resumed q c s =
     (let (ready, s') = devices_ready s in if ready then Inr (s', q, c) else ei_until resume_step q c s')"

definition start_request :: "u64 \<Rightarrow> u32 \<Rightarrow> byte list" where
  "start_request i serial = ei_request i 1 (ei_u32 serial @ ei_u32 1)"

text \<open>Instants of the context: one \<^verbatim>\<open>ctx.Err()\<close> per started device.\<close>

fun start_loop ::
    "'e socket \<Rightarrow> ctx \<Rightarrow> nat \<Rightarrow> u64 list \<Rightarrow> u64 list \<Rightarrow> ei_client \<Rightarrow> 'e ei_error + nat \<times> ei_client" where
  "start_loop sock cx t [] started c = Inr (t, c)"
| "start_loop sock cx t (i # is) started c =
     (if i = 0 \<or> i \<in> set started then start_loop sock cx t is started c
      else
        case cx t of Some e \<Rightarrow> Inl (Cancelled e) | None \<Rightarrow>
          send sock [start_request i (ec_serial c)] c (start_loop sock cx (Suc t) is (i # started)))"

definition selected_devices :: "ei_sender \<Rightarrow> u64 list" where
  "selected_devices s =
     [s_keyboard_dev s, s_button_dev s, s_scroll_dev s, s_text_dev s] @ map p_device (s_pointers s)"

definition select_devices ::
    "'e socket \<Rightarrow> ctx \<Rightarrow> nat \<Rightarrow> ei_sender \<Rightarrow> ei_client \<Rightarrow> 'e ei_error + nat \<times> ei_client" where
  "select_devices sock cx t s c = start_loop sock cx t (selected_devices s) [] c"

text \<open>The part of \<^verbatim>\<open>setupEISender\<close> from the selection of devices to its return.\<close>

definition finish_setup ::
    "'e socket \<Rightarrow> ctx \<Rightarrow> ei_sender \<Rightarrow> ei_client \<Rightarrow> 'e ei_error + ei_sender \<times> ei_client" where
  "finish_setup sock cx s c =
     (case cx 0 of
        Some e \<Rightarrow> Inl (Cancelled e)
      | None \<Rightarrow>
          ebind (select_devices sock cx 1 s c) (\<lambda>(t, c).
            case cx t of Some e \<Rightarrow> Inl (Cancelled e) | None \<Rightarrow> Inr (s, c)))"

text \<open>Between the seat's capabilities and the resumed devices.\<close>

definition enumerate_devices ::
    "'e socket \<Rightarrow> u64 \<Rightarrow> u64 \<Rightarrow> masks \<Rightarrow> 'e incoming list \<Rightarrow> ei_client \<Rightarrow>
      'e ei_error + ei_sender \<times> 'e incoming list \<times> ei_client" where
  "enumerate_devices sock conn seat masks q c =
     ebind (bind_mask capability_names masks 0) (\<lambda>bits.
     send sock [ei_request seat 1 (ei_u64 bits)] c (\<lambda>c.
     let (callback, c) = next_client_object_id c in
     send sock [ei_request conn 0 (ei_u64 callback @ ei_u32 1)] c (\<lambda>c.
     ebind (ei_until (callback_step callback) q c (new_ei_sender conn seat)) (\<lambda>(s, q, c).
     await_resumed q c s))))"

definition setup_ei_sender ::
    "'e socket \<Rightarrow> ctx \<Rightarrow> 'e incoming list \<Rightarrow> 'e ei_error + ei_sender \<times> ei_client" where
  "setup_ei_sender sock cx q =
     ebind (ei_handshake sock q new_ei_client) (\<lambda>(q, c).
     ebind (ei_until connection_step q c ()) (\<lambda>((conn, serial), q, c).
     ebind (ei_until (seat_step conn) q (c\<lparr>ec_serial := serial\<rparr>) ()) (\<lambda>(seat, q, c).
     ebind (ei_until (caps_step conn seat) q c (\<lambda>_. 0)) (\<lambda>(masks, q, c).
     ebind (enumerate_devices sock conn seat masks q c) (\<lambda>(s, q, c).
     finish_setup sock cx s c)))))"

section \<open>Frames\<close>

text \<open>The monotonic clock is an oracle; \<open>None\<close> is its failure.\<close>

definition ei_frame :: "u64 option \<Rightarrow> u64 \<Rightarrow> u32 \<Rightarrow> 'e ei_error + byte list" where
  "ei_frame now device serial =
     (case now of None \<Rightarrow> Inl ClockFailure
      | Some t \<Rightarrow> Inr (ei_request device 3 (ei_u32 serial @ ei_u64 t)))"

definition ei_key_frame ::
    "ei_sender \<Rightarrow> u32 \<Rightarrow> u64 option \<Rightarrow> u32 \<Rightarrow> bool \<Rightarrow> 'e ei_error + byte list" where
  "ei_key_frame s serial now key pressed =
     (if s_keyboard s = 0 \<or> s_keyboard_dev s = 0 then Inl Unsupported
      else
        let request = ei_request (s_keyboard s) 1 (ei_u32 key @ ei_u32 (if pressed then 1 else 0)) in
        ebind (ei_frame now (s_keyboard_dev s) serial) (\<lambda>frame. Inr (request @ frame)))"

definition ei_button_frame ::
    "ei_sender \<Rightarrow> u32 \<Rightarrow> u64 option \<Rightarrow> u32 \<Rightarrow> bool \<Rightarrow> 'e ei_error + byte list" where
  "ei_button_frame s serial now button pressed =
     (if s_button s = 0 \<or> s_button_dev s = 0 then Inl Unsupported
      else
        let request = ei_request (s_button s) 1 (ei_u32 button @ ei_u32 (if pressed then 1 else 0)) in
        ebind (ei_frame now (s_button_dev s) serial) (\<lambda>frame. Inr (request @ frame)))"

definition ei_scroll_frame ::
    "ei_sender \<Rightarrow> u32 \<Rightarrow> u64 option \<Rightarrow> int \<Rightarrow> int \<Rightarrow> 'e ei_error + byte list" where
  "ei_scroll_frame s serial now x y =
     (if s_scroll s = 0 \<or> s_scroll_dev s = 0 then Inl Unsupported
      else
        let request = ei_request (s_scroll s) 2 (ei_i32 x @ ei_i32 y) in
        ebind (ei_frame now (s_scroll_dev s) serial) (\<lambda>frame. Inr (request @ frame)))"

text \<open>
  \<^verbatim>\<open>float32(x)\<close> of a coordinate, when it is exact: the bits of the normal number
  \<open>2 ^ e * (1 + mantissa / 2 ^ 23)\<close>.
\<close>

fun log2_floor :: "nat \<Rightarrow> nat" where
  "log2_floor n = (if n < 2 then 0 else Suc (log2_floor (n div 2)))"

declare log2_floor.simps [simp del]

definition f32_of_nat :: "nat \<Rightarrow> u32 option" where
  "f32_of_nat n =
     (if n = 0 then Some 0
      else
        let e = log2_floor n in
        if e \<le> 23 then Some (word_of_nat ((e + 127) * 2 ^ 23 + (n - 2 ^ e) * 2 ^ (23 - e)))
        else if 2 ^ (e - 23) dvd n
          then Some (word_of_nat ((e + 127) * 2 ^ 23 + (n - 2 ^ e) div 2 ^ (e - 23)))
        else None)"

definition ei_pointer_frame ::
    "ei_sender \<Rightarrow> u32 \<Rightarrow> u64 option \<Rightarrow> int \<Rightarrow> int \<Rightarrow> 'e ei_error + byte list" where
  "ei_pointer_frame s serial now x y =
     (case pointer_for_point s x y of
        None \<Rightarrow> Inl OutsideRegions
      | Some p \<Rightarrow>
          if p_pointer p = 0 \<or> p_device p = 0 then Inl Unsupported
          else
            (case (f32_of_nat (nat x), f32_of_nat (nat y)) of
               (Some fx, Some fy) \<Rightarrow>
                 (let request = ei_request (p_pointer p) 1 (ei_u32 fx @ ei_u32 fy) in
                  ebind (ei_frame now (p_device p) serial) (\<lambda>frame. Inr (request @ frame)))
             | _ \<Rightarrow> Inl Inexact))"

fun text_frames_loop ::
    "ei_sender \<Rightarrow> u32 \<Rightarrow> (nat \<Rightarrow> u64 option) \<Rightarrow> nat \<Rightarrow> byte list list \<Rightarrow> 'e ei_error + byte list list" where
  "text_frames_loop s serial clock t [] = Inr []"
| "text_frames_loop s serial clock t (chunk # chunks) =
     ebind (ei_frame (clock t) (s_text_dev s) serial) (\<lambda>frame.
     ebind (text_frames_loop s serial clock (Suc t) chunks) (\<lambda>frames.
       Inr ((ei_request (s_text s) 2 (ei_string chunk) @ frame) # frames)))"

definition ei_text_frames ::
    "ei_sender \<Rightarrow> u32 \<Rightarrow> (nat \<Rightarrow> u64 option) \<Rightarrow> byte list \<Rightarrow> ('e ei_error + byte list list) option" where
  "ei_text_frames s serial clock text =
     (if \<not> utf8_valid text then Some (Inl InvalidUtf8)
      else if 0 \<in> set text then Some (Inl EmbeddedNul)
      else if text = [] then Some (Inr [])
      else if s_text s = 0 \<or> s_text_dev s = 0 then Some (Inl Unsupported)
      else map_option (text_frames_loop s serial clock 0) (split_utf8 text 254))"

section \<open>What setup grants\<close>

lemma ei_until_inv:
  assumes "ei_until f q c s = Inr (a, q', c')" "I s"
    and "\<And>m s s'. I s \<Longrightarrow> f m s = Inr (Inl s') \<Longrightarrow> I s'"
    and "\<And>m s a. I s \<Longrightarrow> f m s = Inr (Inr a) \<Longrightarrow> Q a"
  shows "Q a"
  using assms(1,2)
proof (induction "length q" arbitrary: q c s rule: less_induct)
  case less
  from less.prems(1) obtain m q1 c1 r where n: "ei_next q c = Inr (m, q1, c1)" "f m s = Inr r"
    and r: "(case r of Inl s' \<Rightarrow> ei_until f q1 c1 s' | Inr a \<Rightarrow> Inr (a, q1, c1)) = Inr (a, q', c')"
    by (subst (asm) ei_until.simps) auto
  show ?case
  proof (cases r)
    case (Inl s')
    with r have u: "ei_until f q1 c1 s' = Inr (a, q', c')" by simp
    have "I s'" using less.prems(2) n(2) Inl assms(3) [of s m s'] by simp
    then show ?thesis using less.hyps [OF ei_next_shrinks [OF n(1)] u] by simp
  next
    case (Inr b)
    with r n(2) less.prems(2) show ?thesis using assms(4) [of s m b] by simp
  qed
qed

definition setup_inv :: "u64 \<Rightarrow> u64 \<Rightarrow> ei_sender \<Rightarrow> bool" where
  "setup_inv conn seat s \<longleftrightarrow> sender_ok s \<and> s_connection s = conn \<and> s_seat s = seat"

lemma setup_inv_consume:
  "setup_inv conn seat s \<Longrightarrow> consume_setup_event m s = (Inr s' :: 'e ei_error + ei_sender) \<Longrightarrow>
     setup_inv conn seat s'"
  unfolding setup_inv_def using consume_ok consume_keeps_roots by metis

lemma devices_ready_roots:
  assumes "devices_ready s = (b, s')"
  shows "s_connection s' = s_connection s \<and> s_seat s' = s_seat s \<and> s_devices s' = s_devices s"
proof -
  have "s_connection (consider_device d t) = s_connection t \<and> s_seat (consider_device d t) = s_seat t \<and>
      s_devices (consider_device d t) = s_devices t" for d t
    by (simp add: consider_device_def set_text_def set_scroll_def set_button_def set_keyboard_def
        add_pointer_def Let_def)
  then have "s_connection (fold consider_device ds t) = s_connection t \<and>
      s_seat (fold consider_device ds t) = s_seat t \<and> s_devices (fold consider_device ds t) = s_devices t" for ds t
    by (induction ds arbitrary: t) simp_all
  with assms show ?thesis by (auto simp: devices_ready_def Let_def reset_selection_def)
qed

lemma sender_ok_cong:
  assumes "s_connection s = s_connection t" "s_seat s = s_seat t" "s_devices s = s_devices t"
  shows "sender_ok s = sender_ok t"
  unfolding sender_ok_def object_ids_def assms ..

lemma setup_inv_ready: "setup_inv conn seat s \<Longrightarrow> devices_ready s = (b, s') \<Longrightarrow> setup_inv conn seat s'"
  using devices_ready_roots [of s b s'] sender_ok_cong [of s' s] by (simp add: setup_inv_def)

text \<open>What the last loop returns: a sender whose fields are the choice among its own devices.\<close>

definition granted :: "u64 \<Rightarrow> u64 \<Rightarrow> ei_sender \<Rightarrow> bool" where
  "granted conn seat s \<longleftrightarrow> setup_inv conn seat s \<and> (\<exists>s0. sender_ok s0 \<and> devices_ready s0 = (True, s))"

lemma await_resumed_granted:
  assumes "await_resumed q c s = (Inr (s', q', c') :: 'e ei_error + _)" "setup_inv conn seat s"
  shows "granted conn seat s'"
proof (cases "devices_ready s")
  case (Pair ready s1)
  have i1: "setup_inv conn seat s1" using setup_inv_ready [OF assms(2) Pair] .
  show ?thesis
  proof (cases ready)
    case True
    with Pair assms i1 show ?thesis
      by (auto simp: await_resumed_def granted_def setup_inv_def)
  next
    case False
    with Pair assms(1) have u: "ei_until resume_step q c s1 = (Inr (s', q', c') :: 'e ei_error + _)"
      by (simp add: await_resumed_def)
    show ?thesis
      using u i1
    proof (rule ei_until_inv)
      fix m and s s2 :: ei_sender
      assume inv: "setup_inv conn seat s"
      {
        assume r: "resume_step m s = (Inr (Inl s2) :: 'e ei_error + _)"
        then obtain t where t: "consume_setup_event m s = (Inr t :: 'e ei_error + _)" "devices_ready t = (False, s2)"
          by (auto simp: resume_step_def Let_def case_prod_beta prod_eq_iff split: if_splits)
        show "setup_inv conn seat s2"
          by (rule setup_inv_ready [OF setup_inv_consume [OF inv t(1)] t(2)])
      next
        assume r: "resume_step m s = (Inr (Inr s2) :: 'e ei_error + _)"
        then obtain t where t: "consume_setup_event m s = (Inr t :: 'e ei_error + _)" "devices_ready t = (True, s2)"
          by (auto simp: resume_step_def Let_def case_prod_beta prod_eq_iff split: if_splits)
        have "setup_inv conn seat t" by (rule setup_inv_consume [OF inv t(1)])
        with t(2) setup_inv_ready [OF this t(2)] show "granted conn seat s2"
          by (auto simp: granted_def setup_inv_def)
      }
    qed
  qed
qed

lemma send_Inr:
  assumes "send sock ms c k = Inr a"
  shows "\<exists>c'. k c' = Inr a \<and> ec_sent c' = ec_sent c @ concat ms \<and> ec_serial c' = ec_serial c"
proof -
  obtain r c' where w: "write_messages sock ms c = (r, c')" by fastforce
  with assms have "r = None" "k c' = Inr a" by (auto simp: send_def split: option.splits)
  with write_messages_batch [OF w] show ?thesis by blast
qed

lemma enumerate_granted:
  assumes "enumerate_devices sock conn seat masks q c = (Inr (s, q', c') :: 'e ei_error + _)"
  shows "granted conn seat s"
proof -
  obtain callback q1 q2 c1 c2 s1 where
    u: "ei_until (callback_step callback) q1 c1 (new_ei_sender conn seat) = (Inr (s1, q2, c2) :: 'e ei_error + _)"
    and a: "await_resumed q2 c2 s1 = (Inr (s, q', c') :: 'e ei_error + _)"
    using assms
    by (auto simp: enumerate_devices_def Let_def case_prod_beta dest!: send_Inr)
  have "setup_inv conn seat s1"
    using u
  proof (rule ei_until_inv [where I = "setup_inv conn seat"])
    show "setup_inv conn seat (new_ei_sender conn seat)"
      by (simp add: setup_inv_def) (simp add: new_ei_sender_def)
    show "setup_inv conn seat s'"
      if "setup_inv conn seat s" "callback_step callback m s = (Inr (Inl s') :: 'e ei_error + _)" for m s s'
      using that setup_inv_consume [OF that(1)]
      by (auto simp: callback_step_def split: if_splits option.splits)
    show "setup_inv conn seat s'"
      if "setup_inv conn seat s" "callback_step callback m s = (Inr (Inr s') :: 'e ei_error + _)" for m s s'
      using that by (auto simp: callback_step_def split: if_splits option.splits)
  qed
  with a show ?thesis by (rule await_resumed_granted)
qed

lemma start_loop_once:
  "start_loop sock cx t is started c = Inr (t', c') \<Longrightarrow>
     \<exists>new. distinct new \<and> set new = set is - {0} - set started \<and>
       ec_sent c' = ec_sent c @ concat (map (\<lambda>i. start_request i (ec_serial c)) new)"
proof (induction sock cx t "is" started c rule: start_loop.induct)
  case (1 sock cx t started c)
  then show ?case by (intro exI [of _ "[]"]) simp
next
  case (2 sock cx t i "is" started c)
  show ?case
  proof (cases "i = 0 \<or> i \<in> set started")
    case True
    with "2.prems" "2.IH"(1) obtain new where "distinct new" "set new = set is - {0} - set started"
      "ec_sent c' = ec_sent c @ concat (map (\<lambda>i. start_request i (ec_serial c)) new)"
      by auto
    with True show ?thesis by (intro exI [of _ new]) auto
  next
    case False
    with "2.prems" have cx: "cx t = None"
      and s: "send sock [start_request i (ec_serial c)] c (start_loop sock cx (Suc t) is (i # started)) = Inr (t', c')"
      by (auto split: option.splits)
    from send_Inr [OF s] obtain c1 where c1: "start_loop sock cx (Suc t) is (i # started) c1 = Inr (t', c')"
      "ec_sent c1 = ec_sent c @ start_request i (ec_serial c)" "ec_serial c1 = ec_serial c"
      by auto
    from "2.IH"(2) [OF False cx c1(1)] obtain new where new: "distinct new"
      "set new = set is - {0} - set (i # started)"
      "ec_sent c' = ec_sent c1 @ concat (map (\<lambda>i. start_request i (ec_serial c1)) new)"
      by blast
    with c1 False show ?thesis by (intro exI [of _ "i # new"]) auto
  qed
qed

lemma usable_cong: "s_devices s = s_devices t \<Longrightarrow> usable s = usable t"
  by (simp add: usable_def devices_in_order_def)

lemma granted_chosen:
  assumes "granted conn seat s"
  shows "(s_keyboard_dev s, s_keyboard s) = chosen ''ei_keyboard'' s"
    "(s_button_dev s, s_button s) = chosen ''ei_button'' s"
    "s_pointers s = map pointer_entry (filter has_pointer (usable s))"
    "s_keyboard_dev s \<noteq> 0" "s_button_dev s \<noteq> 0" "s_pointers s \<noteq> []"
proof -
  obtain s0 where s0: "sender_ok s0" "devices_ready s0 = (True, s)" using assms by (auto simp: granted_def)
  have u: "usable s = usable s0" using devices_ready_roots [OF s0(2)] by (intro usable_cong) simp
  note c = devices_ready_chosen [OF s0]
  show "(s_keyboard_dev s, s_keyboard s) = chosen ''ei_keyboard'' s"
    "(s_button_dev s, s_button s) = chosen ''ei_button'' s"
    "s_pointers s = map pointer_entry (filter has_pointer (usable s))"
    using c by (simp_all add: chosen_def u)
  show "s_keyboard_dev s \<noteq> 0" "s_button_dev s \<noteq> 0" "s_pointers s \<noteq> []"
    using s0(2) by (auto simp: devices_ready_def Let_def)
qed


section \<open>What frames say\<close>

lemma ei_request_encode: "ei_request obj opc body = ei_encode \<lparr>m_object = obj, m_opcode = opc, m_body = body\<rparr>"
  by (simp add: ei_encode_def)

abbreviation frame_message :: "u64 \<Rightarrow> u32 \<Rightarrow> u64 \<Rightarrow> ei_message" where
  "frame_message device serial t \<equiv> \<lparr>m_object = device, m_opcode = 3, m_body = ei_u32 serial @ ei_u64 t\<rparr>"

lemma ei_frame_Inr: "ei_frame now device serial = Inr bs \<longleftrightarrow>
    (\<exists>t. now = Some t \<and> bs = ei_encode (frame_message device serial t))"
  by (auto simp: ei_frame_def ei_request_encode split: option.split)

lemma parse_encoded_pair:
  "ei_message_ok m \<Longrightarrow> ei_message_ok m' \<Longrightarrow>
     parse_frames ei_decode (ei_encode m @ ei_encode m') = ([m, m'], Inr [] :: 'e ei_error + byte list)"
  using ei.parse_encoded_all [where ?'e = 'e and ms = "[m, m']"] by simp

subsection \<open>Coordinates\<close>

text \<open>The value of a positive normal float32, times \<open>2 ^ 150\<close>.\<close>

definition f32_scaled :: "u32 \<Rightarrow> nat" where
  "f32_scaled b =
     (if b = 0 then 0 else (2 ^ 23 + unat b mod 2 ^ 23) * 2 ^ (unat b div 2 ^ 23 mod 2 ^ 8))"

lemma log2_floor_bounds: "0 < n \<Longrightarrow> 2 ^ log2_floor n \<le> n \<and> n < 2 ^ Suc (log2_floor n)"
proof (induction n rule: log2_floor.induct)
  case (1 n)
  show ?case
  proof (cases "n < 2")
    case True
    with 1 show ?thesis by (simp add: log2_floor.simps)
  next
    case False
    then have "0 < n div 2" by simp
    with 1 False have "2 ^ log2_floor (n div 2) \<le> n div 2 \<and> n div 2 < 2 ^ Suc (log2_floor (n div 2))"
      by blast
    with False show ?thesis by (subst (1 2) log2_floor.simps) auto
  qed
qed

lemma f32_fields:
  assumes "e < 32" "m < 2 ^ 23"
  shows "f32_scaled (word_of_nat ((e + 127) * 2 ^ 23 + m)) = (2 ^ 23 + m) * 2 ^ (e + 127)"
proof -
  have lt: "(e + 127) * 2 ^ 23 + m < 2 ^ 32" using assms by simp
  have u: "unat (word_of_nat ((e + 127) * 2 ^ 23 + m) :: u32) = (e + 127) * 2 ^ 23 + m"
    by (rule of_nat_inverse) (use lt in simp_all)
  have nz: "(word_of_nat ((e + 127) * 2 ^ 23 + m) :: u32) \<noteq> 0"
  proof
    assume "(word_of_nat ((e + 127) * 2 ^ 23 + m) :: u32) = 0"
    then have "(e + 127) * 2 ^ 23 + m = 0" using u by simp
    then show False by simp
  qed
  have "((e + 127) * 2 ^ 23 + m) mod 2 ^ 23 = m" by (simp only: mod_mult_self3 mod_less [OF assms(2)])
  moreover have "((e + 127) * 2 ^ 23 + m) div 2 ^ 23 = e + 127"
    by (subst div_mult_self3) (simp_all add: div_less [OF assms(2), simplified])
  moreover have "(e + 127) mod 2 ^ 8 = e + 127" using assms(1) by simp
  ultimately show ?thesis using nz unfolding f32_scaled_def u by simp
qed

lemma f32_of_nat_exact:
  assumes "f32_of_nat n = Some b" "n < 2 ^ 32"
  shows "f32_scaled b = n * 2 ^ 150"
proof (cases "n = 0")
  case True
  with assms show ?thesis by (simp add: f32_of_nat_def f32_scaled_def)
next
  case False
  obtain e where e: "e = log2_floor n" by blast
  then have b: "2 ^ e \<le> n" "n < 2 ^ Suc e" using log2_floor_bounds [of n] False by simp_all
  have e32: "e < 32"
  proof (rule ccontr)
    assume "\<not> e < 32"
    then have "(2 :: nat) ^ 32 \<le> 2 ^ e" by (intro power_increasing) simp_all
    with b(1) assms(2) show False by simp
  qed
  show ?thesis
  proof (cases "e \<le> 23")
    case True
    let ?m = "(n - 2 ^ e) * 2 ^ (23 - e)"
    have p: "(2 :: nat) ^ e * 2 ^ (23 - e) = 2 ^ 23" using True by (simp flip: power_add)
    have "n - 2 ^ e < 2 ^ e" using b by simp
    then have "?m < 2 ^ e * 2 ^ (23 - e)" by simp
    then have m: "?m < 2 ^ 23" by (simp only: p)
    have "2 ^ 23 \<le> n * 2 ^ (23 - e)" using mult_le_mono1 [OF b(1), of "2 ^ (23 - e)"] by (simp only: p)
    then have "2 ^ 23 + ?m = n * 2 ^ (23 - e)" by (simp only: diff_mult_distrib p le_add_diff_inverse)
    moreover have "b = word_of_nat ((e + 127) * 2 ^ 23 + ?m)"
      using assms(1) False True by (simp add: f32_of_nat_def Let_def e [symmetric])
    moreover have "(2 :: nat) ^ (23 - e) * 2 ^ (e + 127) = 2 ^ 150" using True by (simp flip: power_add)
    ultimately show ?thesis by (simp only: f32_fields [OF e32 m] mult.assoc)
  next
    case big: False
    let ?k = "(2 :: nat) ^ (e - 23)"
    let ?m = "(n - 2 ^ e) div ?k"
    have d: "?k dvd n" "b = word_of_nat ((e + 127) * 2 ^ 23 + ?m)"
      using assms(1) False big by (auto simp: f32_of_nat_def Let_def e [symmetric] split: if_splits)
    have "e = 23 + (e - 23)" using big by simp
    then have p: "(2 :: nat) ^ e = 2 ^ 23 * ?k" by (metis power_add)
    then have dv: "?k dvd n - 2 ^ e" using d(1) by (simp add: dvd_diff_nat)
    have "n - 2 ^ e < 2 ^ 23 * ?k" using b p by simp
    then have m: "?m < 2 ^ 23" by (simp add: less_mult_imp_div_less)
    have "(2 ^ 23 + ?m) * ?k = 2 ^ e + (n - 2 ^ e)" using dv p by (simp add: add_mult_distrib)
    then have nk: "(2 ^ 23 + ?m) * ?k = n" using b(1) by simp
    have "e + 127 = (e - 23) + 150" using big by simp
    then have "(2 :: nat) ^ (e + 127) = ?k * 2 ^ 150" by (metis power_add)
    then show ?thesis
      by (simp only: d(2) f32_fields [OF e32 m] mult.assoc [symmetric] nk)
  qed
qed

lemma owners_live: "p \<in> set (owners s x y) \<Longrightarrow> p_device p \<noteq> 0 \<and> p_pointer p \<noteq> 0"
  by (simp add: owners_def)

lemma nat_bound: "x < n \<Longrightarrow> n \<le> 2 ^ 32 \<Longrightarrow> nat x < 2 ^ 32" for x n :: int
  by (cases "0 \<le> x") auto

text \<open>
  A pointer request reaches the right device with exact coordinates: a frame that is built at
  all decodes to a motion request for the single live device that owns the point, with
  float32 arguments whose values are exactly \<open>x\<close> and \<open>y\<close>, followed by that device's frame.
\<close>

theorem pointer_frame_exact:
  assumes "ei_pointer_frame s serial now x y = (Inr bs :: 'e ei_error + byte list)"
    "in_int x" "in_int y" "distinct (map p_device (s_pointers s))"
    "\<forall>p \<in> set (s_pointers s). list_all region_ok (p_regions p)"
  shows "\<exists>p fx fy t. owners s x y = [p] \<and>
    parse_frames ei_decode bs =
      ([\<lparr>m_object = p_pointer p, m_opcode = 1, m_body = ei_u32 fx @ ei_u32 fy\<rparr>,
        frame_message (p_device p) serial t], Inr [] :: 'e ei_error + byte list) \<and>
    f32_scaled fx = nat x * 2 ^ 150 \<and> f32_scaled fy = nat y * 2 ^ 150"
proof -
  obtain p where p: "pointer_for_point s x y = Some p"
    using assms(1) by (auto simp: ei_pointer_frame_def split: option.splits)
  then have o: "owners s x y = [p]"
    using pointer_for_point_owners [OF assms(2-4)] by (auto split: list.splits)
  then have live: "p_device p \<noteq> 0 \<and> p_pointer p \<noteq> 0" using owners_live [of p s x y] by simp
  have range: "nat x < 2 ^ 32" "nat y < 2 ^ 32"
  proof -
    have "p \<in> set (owners s x y)" using o by simp
    then obtain r where "p \<in> set (s_pointers s)" "r \<in> set (p_regions p)"
      "x < uint (r_x r) + uint (r_width r)" "y < uint (r_y r) + uint (r_height r)"
      by (auto simp: owners_def)
    moreover from this assms(5) have "region_ok r" by (auto simp: list_all_iff)
    ultimately show "nat x < 2 ^ 32" "nat y < 2 ^ 32" unfolding region_ok_def by (blast intro: nat_bound)+
  qed
  obtain fx fy t where f: "f32_of_nat (nat x) = Some fx" "f32_of_nat (nat y) = Some fy" "now = Some t"
    and bs: "bs = ei_encode \<lparr>m_object = p_pointer p, m_opcode = 1, m_body = ei_u32 fx @ ei_u32 fy\<rparr> @
      ei_encode (frame_message (p_device p) serial t)"
    using assms(1) p live
    by (auto simp: ei_pointer_frame_def Let_def ei_frame_Inr ei_request_encode split: option.splits)
  have "parse_frames ei_decode bs =
      ([\<lparr>m_object = p_pointer p, m_opcode = 1, m_body = ei_u32 fx @ ei_u32 fy\<rparr>,
        frame_message (p_device p) serial t], Inr [] :: 'e ei_error + byte list)"
    unfolding bs by (rule parse_encoded_pair) (simp_all add: ei_message_ok_def)
  with o f range show ?thesis using f32_of_nat_exact by blast
qed

text \<open>
  A key request is one press or release of the chosen keyboard object: it decodes to the key
  code and state for the keyboard, then the frame of the keyboard's device.
\<close>

theorem key_frame_decodes:
  assumes "s_keyboard s \<noteq> 0" "s_keyboard_dev s \<noteq> 0"
  shows "\<exists>bs. ei_key_frame s serial (Some t) key pressed = (Inr bs :: 'e ei_error + byte list) \<and>
    parse_frames ei_decode bs =
      ([\<lparr>m_object = s_keyboard s, m_opcode = 1, m_body = ei_u32 key @ ei_u32 (if pressed then 1 else 0)\<rparr>,
        frame_message (s_keyboard_dev s) serial t], Inr [] :: 'e ei_error + byte list)"
  using assms
  by (simp add: ei_key_frame_def Let_def ei_request_encode ei_message_ok_def ei_frame_def parse_encoded_pair)

section \<open>Text\<close>

definition text_messages :: "ei_sender \<Rightarrow> u32 \<Rightarrow> (nat \<Rightarrow> u64) \<Rightarrow> nat \<Rightarrow> byte list list \<Rightarrow> ei_message list" where
  "text_messages s serial now t chunks =
     concat (map (\<lambda>(i, chunk).
       [\<lparr>m_object = s_text s, m_opcode = 2, m_body = ei_string chunk\<rparr>,
        frame_message (s_text_dev s) serial (now i)]) (enumerate t chunks))"

lemma length_ei_string_le: "length c \<le> 254 \<Longrightarrow> length (ei_string c) \<le> 264"
  by (simp add: ei_string_def Let_def)

lemma text_loop_messages:
  assumes "\<And>i. clock i = Some (now i)" "\<forall>c \<in> set chunks. length c \<le> 254"
  shows "\<exists>frames. text_frames_loop s serial clock t chunks = (Inr frames :: 'e ei_error + _) \<and>
    concat frames = concat (map ei_encode (text_messages s serial now t chunks)) \<and>
    list_all ei_message_ok (text_messages s serial now t chunks)"
  using assms(2)
proof (induction chunks arbitrary: t)
  case Nil
  then show ?case by (simp add: text_messages_def)
next
  case (Cons c cs)
  then obtain frames where f: "text_frames_loop s serial clock (Suc t) cs = (Inr frames :: 'e ei_error + _)"
    "concat frames = concat (map ei_encode (text_messages s serial now (Suc t) cs))"
    "list_all ei_message_ok (text_messages s serial now (Suc t) cs)"
    by auto
  have "length (ei_string c) mod 4 = 0" by (rule length_ei_string)
  moreover have "length (ei_string c) \<le> 264" using Cons.prems by (intro length_ei_string_le) simp
  ultimately have "ei_message_ok \<lparr>m_object = s_text s, m_opcode = 2, m_body = ei_string c\<rparr>"
    "ei_message_ok (frame_message (s_text_dev s) serial (now t))"
    by (simp_all add: ei_message_ok_def)
  moreover have "clock t = Some (now t)" by (rule assms(1))
  ultimately show ?case
    using f by (simp add: text_messages_def ei_frame_def ei_request_encode)
qed



theorem key_frame_decodes_witness:
  "\<exists>bs. ei_key_frame (new_ei_sender 8 9\<lparr>s_keyboard := 3, s_keyboard_dev := 4\<rparr>) 7 (Some 5) 30 True =
      (Inr bs :: nat ei_error + byte list) \<and>
    parse_frames ei_decode bs =
      ([\<lparr>m_object = s_keyboard (new_ei_sender 8 9\<lparr>s_keyboard := 3, s_keyboard_dev := 4\<rparr>), m_opcode = 1,
         m_body = ei_u32 30 @ ei_u32 (if True then 1 else 0)\<rparr>,
        frame_message (s_keyboard_dev (new_ei_sender 8 9\<lparr>s_keyboard := 3, s_keyboard_dev := 4\<rparr>)) 7 5],
       Inr [] :: nat ei_error + byte list)"
  by (rule key_frame_decodes) simp_all

lemma demo_point:
  "\<exists>p. pointer_for_point two_pointers 150 10 = Some p \<and> p_pointer p = 31 \<and> p_device p = 30"
  by (simp add: pointer_for_point_def two_pointers_def region_contains_def to_u64_def)

theorem pointer_frame_exact_witness:
  "\<exists>bs p fx fy. ei_pointer_frame two_pointers 7 (Some 5) 150 10 = (Inr bs :: nat ei_error + byte list) \<and>
     owners two_pointers 150 10 = [p] \<and> f32_scaled fx = 150 * 2 ^ 150 \<and> f32_scaled fy = 10 * 2 ^ 150"
proof -
  have "f32_of_nat 150 \<noteq> None" "f32_of_nat 10 \<noteq> None"
    by (simp_all add: f32_of_nat_def log2_floor.simps)
  moreover obtain p where "pointer_for_point two_pointers 150 10 = Some p" "p_pointer p = 31" "p_device p = 30"
    using demo_point by blast
  ultimately obtain bs where bs: "ei_pointer_frame two_pointers 7 (Some 5) 150 10 = (Inr bs :: nat ei_error + byte list)"
    by (auto simp: ei_pointer_frame_def ei_frame_def Let_def)
  have "\<forall>p \<in> set (s_pointers two_pointers). list_all region_ok (p_regions p)"
    "distinct (map p_device (s_pointers two_pointers))" "in_int 150" "in_int 10"
    by (simp_all add: two_pointers_def region_ok_def scale_ok_def in_int_def min_int_def max_int_def)
  from pointer_frame_exact [OF bs this(3,4,2,1)] bs show ?thesis by auto
qed

subsection \<open>A complete setup\<close>

abbreviation ev :: "u64 \<Rightarrow> u32 \<Rightarrow> byte list \<Rightarrow> nat incoming" where
  "ev obj opc body \<equiv> Event \<lparr>m_object = obj, m_opcode = opc, m_body = body\<rparr>"

definition demo_capability :: "string \<Rightarrow> nat incoming" where
  "demo_capability name = ev 60 2 (ei_u64 1 @ ei_string (bytes_of name))"

definition demo_interface :: "u64 \<Rightarrow> string \<Rightarrow> nat incoming" where
  "demo_interface obj name = ev 70 5 (ei_u64 obj @ ei_string (bytes_of name))"

definition all_accepted :: "nat socket" where "all_accepted = (\<lambda>_. (64, None))"

lemma write_all_accepted: "\<exists>c'. write_all all_accepted m c = (None, c')"
proof (induction "length m" arbitrary: m c rule: less_induct)
  case less
  show ?case
  proof (cases "m = []")
    case False
    then show ?thesis
      using less.hyps by (subst write_all.simps) (simp add: all_accepted_def Let_def)
  qed (simp add: write_all.simps)
qed

lemma write_messages_accepted:
  "\<exists>c'. write_messages all_accepted ms c = (None, c') \<and> ec_next_id c' = ec_next_id c"
proof -
  have "\<exists>c'. write_messages all_accepted ms c = (None, c')"
  proof (induction ms arbitrary: c)
    case (Cons m ms)
    obtain c1 where "write_all all_accepted m c = (None, c1)" using write_all_accepted by blast
    with Cons show ?case by simp
  qed simp
  with write_messages_batch [of all_accepted ms c] show ?thesis by blast
qed

lemma send_accepted: "\<exists>c'. send all_accepted ms c k = k c' \<and> ec_next_id c' = ec_next_id c"
  using write_messages_accepted [of ms c] by (auto simp: send_def)

lemma announce_accepted: "\<exists>c'. announce all_accepted names c = Inr c' \<and> ec_next_id c' = ec_next_id c"
proof (induction names arbitrary: c)
  case (Cons n ns)
  obtain c1 where c1: "announce all_accepted (n # ns) c = announce all_accepted ns c1" "ec_next_id c1 = ec_next_id c"
    using send_accepted [of _ c "announce all_accepted ns"] by auto
  from Cons.IH [of c1] c1 show ?case by simp
qed simp

lemma start_accepted: "\<exists>t' c'. start_loop all_accepted background t is st c = Inr (t', c')"
proof (induction "is" arbitrary: t st c)
  case (Cons i "is")
  obtain c1 where "write_messages all_accepted [start_request i (ec_serial c)] c = (None, c1)"
    using write_messages_accepted by blast
  with Cons show ?case by (simp add: background_def send_def)
qed simp

lemma update_serial_next_id [simp]: "ec_next_id (update_serial m c) = ec_next_id c"
  by (simp add: update_serial_def split: option.split)

lemma ei_until_event:
  "ei_until f (Event m # q) c s =
     ebind (f m s) (\<lambda>r. case r of
       Inl s' \<Rightarrow> ei_until f q (update_serial m c) s'
     | Inr a \<Rightarrow> Inr (a, q, update_serial m c))"
  by (subst ei_until.simps) simp

lemma handshake_accepted:
  "\<exists>c'. ei_handshake all_accepted (ev 0 0 (ei_u32 1) # q) c = Inr (q, c') \<and> ec_next_id c' = ec_next_id c"
proof -
  let ?k2 = "\<lambda>c. send all_accepted [ei_request 0 1 []] c (\<lambda>c. Inr (q, c))"
  let ?k1 = "\<lambda>c. ebind (announce all_accepted announced_names c) ?k2"
  have k2: "\<exists>c'. ?k2 c1 = Inr (q, c') \<and> ec_next_id c' = ec_next_id c1" for c1
    using send_accepted [of "[ei_request 0 1 []]" c1 "\<lambda>c. Inr (q, c)"] by auto
  have k1: "\<exists>c'. ?k1 c1 = Inr (q, c') \<and> ec_next_id c' = ec_next_id c1" for c1
  proof -
    obtain c2 where "announce all_accepted announced_names c1 = Inr c2" "ec_next_id c2 = ec_next_id c1"
      using announce_accepted by blast
    with k2 [of c2] show ?thesis by simp
  qed
  obtain c3 where "ei_handshake all_accepted (ev 0 0 (ei_u32 1) # q) c = ?k1 c3" "ec_next_id c3 = ec_next_id c"
    using send_accepted [of "[ei_request 0 0 (ei_u32 (min 1 1)), ei_request 0 2 (ei_u32 2),
        ei_request 0 3 (ei_string (bytes_of ''Perfuncted''))]"
        "update_serial \<lparr>m_object = 0, m_opcode = 0, m_body = ei_u32 1\<rparr> c" ?k1]
    by (auto simp: ei_handshake_def ei_u32_def)
  with k1 [of c3] show ?thesis by simp
qed

lemma ei_read_after [codec_simps]:
  "ei_read_u32 (ei_u64 b @ bs) 8 = ei_read_u32 bs 0"
  "ei_read_u32 (ei_u64 b @ bs) 12 = ei_read_u32 bs 4"
  "ei_read_u32 (ei_u32 a @ bs) 4 = ei_read_u32 bs 0"
  "ei_read_u32 (ei_u32 a @ bs) 8 = ei_read_u32 bs 4"
  "ei_read_u32 (ei_u32 a @ bs) 12 = ei_read_u32 bs 8"
  "ei_read_u32 (ei_u32 a @ bs) 16 = ei_read_u32 bs 12"
  "ei_read_u64 (ei_u32 a @ bs) 4 = ei_read_u64 bs 0"
  "ei_read_u32 (ei_u32 a) 0 = Inr a"
  "ei_read_u64 (ei_u64 b) 0 = Inr b"
  "get_u64 (ei_u64 b) = Some b"
  by (simp_all add: ei_read_u32_def ei_read_u64_def ei_u32_def ei_u64_def)

lemma demo_name:
  "ei_read_string (ei_u64 v @ ei_string (bytes_of ''ei_keyboard'')) 8 = Inr (bytes_of ''ei_keyboard'')"
  "ei_read_string (ei_u64 v @ ei_string (bytes_of ''ei_button'')) 8 = Inr (bytes_of ''ei_button'')"
  "ei_read_string (ei_u64 v @ ei_string (bytes_of ''ei_pointer_absolute'')) 8 =
     Inr (bytes_of ''ei_pointer_absolute'')"
proof -
  have r: "ei_read_string (ei_u64 v @ ei_string n) 8 = Inr n"
    if "utf8_valid n \<and> 0 \<notin> set n \<and> length n < 100" for n
    using ei_read_encoded [of n "ei_u64 v" "[]"] that by simp
  show "ei_read_string (ei_u64 v @ ei_string (bytes_of ''ei_keyboard'')) 8 = Inr (bytes_of ''ei_keyboard'')"
    by (rule r) code_simp
  show "ei_read_string (ei_u64 v @ ei_string (bytes_of ''ei_button'')) 8 = Inr (bytes_of ''ei_button'')"
    by (rule r) code_simp
  show "ei_read_string (ei_u64 v @ ei_string (bytes_of ''ei_pointer_absolute'')) 8 =
      Inr (bytes_of ''ei_pointer_absolute'')"
    by (rule r) code_simp
qed

lemma bytes_of_neq [codec_simps]:
  "bytes_of ''ei_keyboard'' \<noteq> []" "bytes_of ''ei_button'' \<noteq> []" "bytes_of ''ei_pointer_absolute'' \<noteq> []"
  "bytes_of ''ei_keyboard'' \<noteq> bytes_of ''ei_button''" "bytes_of ''ei_button'' \<noteq> bytes_of ''ei_keyboard''"
  "bytes_of ''ei_keyboard'' \<noteq> bytes_of ''ei_pointer_absolute''"
  "bytes_of ''ei_pointer_absolute'' \<noteq> bytes_of ''ei_keyboard''"
  "bytes_of ''ei_button'' \<noteq> bytes_of ''ei_pointer_absolute''"
  "bytes_of ''ei_pointer_absolute'' \<noteq> bytes_of ''ei_button''"
  "bytes_of ''ei_scroll'' \<noteq> bytes_of ''ei_keyboard''" "bytes_of ''ei_scroll'' \<noteq> bytes_of ''ei_button''"
  "bytes_of ''ei_scroll'' \<noteq> bytes_of ''ei_pointer_absolute''"
  "bytes_of ''ei_text'' \<noteq> bytes_of ''ei_keyboard''" "bytes_of ''ei_text'' \<noteq> bytes_of ''ei_button''"
  "bytes_of ''ei_text'' \<noteq> bytes_of ''ei_pointer_absolute''"
  by (simp_all add: bytes_of_def)

lemma demo_caps:
  "\<exists>c' masks. ei_until (caps_step 50 60)
     (demo_capability ''ei_pointer_absolute'' # demo_capability ''ei_button'' # demo_capability ''ei_keyboard'' #
      ev 60 3 [] # q) c (\<lambda>_. 0) = Inr (masks, q, c') \<and> ec_next_id c' = ec_next_id c \<and>
     bind_mask capability_names masks 0 = (Inr 1 :: nat ei_error + u64)"
  by (simp add: demo_capability_def ei_until_event caps_step_def demo_name capability_names_def codec_simps
      cong: if_cong)

definition demo_sender :: ei_sender where
  "demo_sender = (new_ei_sender 50 60)\<lparr>s_devices :=
     [(70, \<lparr>d_id = 70, d_version = 1,
        d_interfaces = [(bytes_of ''ei_keyboard'', 71), (bytes_of ''ei_button'', 72), (bytes_of ''ei_pointer_absolute'', 73)],
        d_regions = [\<lparr>r_x = 0, r_y = 0, r_width = 1920, r_height = 1080, r_scale = 0x3f800000\<rparr>],
        d_done = True, d_resumed = False\<rparr>)]\<rparr>"

definition demo_enumeration :: "nat incoming list" where
  "demo_enumeration =
     [ev 60 4 (ei_u64 70 @ ei_u32 1),
      demo_interface 71 ''ei_keyboard'', demo_interface 72 ''ei_button'', demo_interface 73 ''ei_pointer_absolute'',
      ev 70 4 (ei_u32 0 @ ei_u32 0 @ ei_u32 1920 @ ei_u32 1080 @ ei_u32 0x3f800000),
      ev 70 6 [], ev 1 0 (ei_u64 0), ev 70 7 []]"

lemma demo_devices:
  "\<exists>c'. ei_until (callback_step 1) demo_enumeration c (new_ei_sender 50 60) =
     Inr (demo_sender, [ev 70 7 []], c')"
  by (simp add: demo_enumeration_def demo_interface_def ei_until_event callback_step_def consume_setup_event_def
      announce_device_def device_event_def add_interface_def read_region_def region_ok_def scale_ok_def
      is_reserved_def is_disconnected_def codec_simps demo_name new_ei_sender_def demo_sender_def Let_def)

lemma demo_resumed:
  "\<exists>s c'. await_resumed [ev 70 7 []] c demo_sender = Inr (s, [], c') \<and> s_keyboard s = 71"
  by (simp add: await_resumed_def demo_sender_def devices_ready_def devices_in_order_def consider_device_def
      set_keyboard_def set_button_def set_scroll_def set_text_def add_pointer_def Let_def
      interface_object_def reset_selection_def ei_until_event resume_step_def consume_setup_event_def
      device_event_def is_disconnected_def new_ei_sender_def codec_simps)

lemma demo_enumerated:
  assumes "ec_next_id c = 1" "bind_mask capability_names masks 0 = (Inr 1 :: nat ei_error + u64)"
  shows "\<exists>s c'. enumerate_devices all_accepted 50 60 masks demo_enumeration c = Inr (s, [], c') \<and> s_keyboard s = 71"
proof -
  let ?k2 = "\<lambda>c. ebind (ei_until (callback_step 1) demo_enumeration c (new_ei_sender 50 60)) (\<lambda>(s, q, c). await_resumed q c s)"
  let ?k1 = "\<lambda>c. let (callback, c) = next_client_object_id c in
     send all_accepted [ei_request 50 0 (ei_u64 callback @ ei_u32 1)] c (\<lambda>c.
     ebind (ei_until (callback_step callback) demo_enumeration c (new_ei_sender 50 60)) (\<lambda>(s, q, c). await_resumed q c s))"
  have k2: "\<exists>s c'. ?k2 c1 = Inr (s, [], c') \<and> s_keyboard s = 71" for c1
  proof -
    obtain c2 where "ei_until (callback_step 1) demo_enumeration c1 (new_ei_sender 50 60) =
        Inr (demo_sender, [ev 70 7 []], c2)"
      using demo_devices by blast
    with demo_resumed [of c2] show ?thesis by simp
  qed
  obtain c3 where c3: "enumerate_devices all_accepted 50 60 masks demo_enumeration c = ?k1 c3" "ec_next_id c3 = 1"
    using send_accepted [of "[ei_request 60 1 (ei_u64 1)]" c ?k1] assms by (auto simp: enumerate_devices_def)
  obtain c4 where "?k1 c3 = ?k2 c4"
    using send_accepted [of "[ei_request 50 0 (ei_u64 1 @ ei_u32 1)]" "c3\<lparr>ec_next_id := 2\<rparr>" ?k2] c3(2)
    by (auto simp: next_client_object_id_def)
  with c3 k2 [of c4] show ?thesis by simp
qed

definition demo_setup :: "nat incoming list" where
  "demo_setup =
     [ev 0 0 (ei_u32 1), ev 0 2 (ei_u32 5 @ ei_u64 50 @ ei_u32 1), ev 50 1 (ei_u64 60),
      demo_capability ''ei_pointer_absolute'', demo_capability ''ei_button'', demo_capability ''ei_keyboard'',
      ev 60 3 []] @ demo_enumeration"

lemma demo_setup_ok:
  "\<exists>s c. setup_ei_sender all_accepted background demo_setup = Inr (s, c) \<and> s_keyboard s = 71"
proof -
  obtain c1 where h: "ei_handshake all_accepted demo_setup new_ei_client =
      Inr (tl demo_setup, c1)" "ec_next_id c1 = 1"
    using handshake_accepted [of "tl demo_setup" new_ei_client]
    by (auto simp: demo_setup_def new_ei_client_def)
  obtain c2 where c: "ei_until connection_step (tl demo_setup) c1 () = Inr ((50, 5), tl (tl demo_setup), c2)"
    "ec_next_id c2 = 1"
    using h(2) by (simp add: demo_setup_def ei_until_event connection_step_def codec_simps)
  obtain c3 where s: "ei_until (seat_step 50) (tl (tl demo_setup)) (c2\<lparr>ec_serial := 5\<rparr>) () =
      Inr (60, tl (tl (tl demo_setup)), c3)" "ec_next_id c3 = 1"
    using c(2) by (simp add: demo_setup_def ei_until_event seat_step_def codec_simps)
  obtain masks c4 where m: "ei_until (caps_step 50 60) (tl (tl (tl demo_setup))) c3 (\<lambda>_. 0) =
      Inr (masks, demo_enumeration, c4)" "ec_next_id c4 = 1"
      "bind_mask capability_names masks 0 = (Inr 1 :: nat ei_error + u64)"
    using demo_caps [of demo_enumeration c3] s(2) by (auto simp: demo_setup_def)
  obtain sender c5 where e: "enumerate_devices all_accepted 50 60 masks demo_enumeration c4 = Inr (sender, [], c5)"
    "s_keyboard sender = 71"
    using demo_enumerated [OF m(2,3)] by blast
  obtain t c6 where "select_devices all_accepted background 1 sender c5 = Inr (t, c6)"
    using start_accepted unfolding select_devices_def by blast
  then have "finish_setup all_accepted background sender c5 = Inr (sender, c6)"
    by (simp add: finish_setup_def background_def)
  with h c s m e show ?thesis by (simp add: setup_ei_sender_def)
qed



end
