(* ===== verification/KeyInput.thy ===== *)
theory KeyInput
  imports Prelude
begin

text \<open>
  Key names and the key-send syntax: \<^verbatim>\<open>internal/keymap/keymap.go\<close> and \<^verbatim>\<open>input/keysend.go\<close>.
  Strings are lists of characters (bytes). \<^verbatim>\<open>strings.ToLower\<close> and \<^verbatim>\<open>strings.TrimSpace\<close> are
  written out for ASCII, which all key names are; other bytes are left alone.
\<close>

section \<open>Keys\<close>

datatype (plugins only: code) key
  = KeyUnknown | KeyA | KeyB | KeyC | KeyD | KeyE | KeyF | KeyG | KeyH | KeyI | KeyJ | KeyK
  | KeyL | KeyM | KeyN | KeyO | KeyP | KeyQ | KeyR | KeyS | KeyT | KeyU | KeyV | KeyW | KeyX
  | KeyY | KeyZ | Key0 | Key1 | Key2 | Key3 | Key4 | Key5 | Key6 | Key7 | Key8 | Key9 | KeySpace
  | KeyEnter | KeyTab | KeyBackspace | KeyEscape | KeyCtrl | KeyAlt | KeyShift | KeySuper
  | KeyUp | KeyDown | KeyLeft | KeyRight | KeyHome | KeyEnd | KeyPageUp | KeyPageDown
  | KeyInsert | KeyDelete | KeyF1 | KeyF2 | KeyF3 | KeyF4 | KeyF5 | KeyF6 | KeyF7 | KeyF8
  | KeyF9 | KeyF10 | KeyF11 | KeyF12

definition name_to_key :: "(string \<times> key) list" where
  "name_to_key =
     [(''a'', KeyA), (''b'', KeyB), (''c'', KeyC), (''d'', KeyD), (''e'', KeyE), (''f'', KeyF),
      (''g'', KeyG), (''h'', KeyH), (''i'', KeyI), (''j'', KeyJ), (''k'', KeyK), (''l'', KeyL),
      (''m'', KeyM), (''n'', KeyN), (''o'', KeyO), (''p'', KeyP), (''q'', KeyQ), (''r'', KeyR),
      (''s'', KeyS), (''t'', KeyT), (''u'', KeyU), (''v'', KeyV), (''w'', KeyW), (''x'', KeyX),
      (''y'', KeyY), (''z'', KeyZ), (''0'', Key0), (''1'', Key1), (''2'', Key2), (''3'', Key3),
      (''4'', Key4), (''5'', Key5), (''6'', Key6), (''7'', Key7), (''8'', Key8), (''9'', Key9),
      (''space'', KeySpace), (''enter'', KeyEnter), (''return'', KeyEnter), (''tab'', KeyTab),
      (''backspace'', KeyBackspace), (''escape'', KeyEscape), (''esc'', KeyEscape),
      (''ctrl'', KeyCtrl), (''control'', KeyCtrl), (''control_l'', KeyCtrl), (''alt'', KeyAlt),
      (''alt_l'', KeyAlt), (''shift'', KeyShift), (''shift_l'', KeyShift),
      (''super'', KeySuper), (''meta'', KeySuper), (''logo'', KeySuper),
      (''super_l'', KeySuper), (''win'', KeySuper), (''up'', KeyUp), (''down'', KeyDown),
      (''left'', KeyLeft), (''right'', KeyRight), (''home'', KeyHome), (''end'', KeyEnd),
      (''page_up'', KeyPageUp), (''pageup'', KeyPageUp), (''prior'', KeyPageUp),
      (''page_down'', KeyPageDown), (''pagedown'', KeyPageDown), (''next'', KeyPageDown),
      (''insert'', KeyInsert), (''delete'', KeyDelete), (''f1'', KeyF1), (''f2'', KeyF2),
      (''f3'', KeyF3), (''f4'', KeyF4), (''f5'', KeyF5), (''f6'', KeyF6), (''f7'', KeyF7),
      (''f8'', KeyF8), (''f9'', KeyF9), (''f10'', KeyF10), (''f11'', KeyF11), (''f12'', KeyF12)]"

definition lower_char :: "char \<Rightarrow> char" where
  "lower_char c = (if 65 \<le> (of_char c :: nat) \<and> (of_char c :: nat) \<le> 90 then char_of ((of_char c :: nat) + 32) else c)"

definition to_lower :: "string \<Rightarrow> string" where "to_lower s = map lower_char s"

definition is_space :: "char \<Rightarrow> bool" where
  "is_space c \<longleftrightarrow> (of_char c :: nat) \<in> {9, 10, 11, 12, 13, 32}"

definition trim_space :: "string \<Rightarrow> string" where
  "trim_space s = rev (dropWhile is_space (rev (dropWhile is_space s)))"

definition from_string :: "string \<Rightarrow> key option" where
  "from_string s = map_of name_to_key (to_lower s)"

definition is_modifier :: "key \<Rightarrow> bool" where
  "is_modifier k \<longleftrightarrow> k = KeyCtrl \<or> k = KeyAlt \<or> k = KeyShift \<or> k = KeySuper"

section \<open>Key-send expressions\<close>

record modifiers =
  mod_ctrl :: bool
  mod_alt :: bool
  mod_shift :: bool
  mod_super :: bool

definition no_modifiers :: modifiers where
  "no_modifiers = \<lparr>mod_ctrl = False, mod_alt = False, mod_shift = False, mod_super = False\<rparr>"

record key_send =
  ks_text :: string
  ks_key :: string
  ks_down :: bool
  ks_up :: bool
  ks_modifiers :: modifiers

definition send_text :: "string \<Rightarrow> key_send" where
  "send_text t = \<lparr>ks_text = t, ks_key = [], ks_down = False, ks_up = False, ks_modifiers = no_modifiers\<rparr>"

datatype parse_error =
    UnclosedBrace nat
  | EmptyKey
  | InvalidCombo string
  | EmptyComboKey string
  | ModifierAtEnd string
  | UnknownModifier string string

fun index_byte :: "char \<Rightarrow> string \<Rightarrow> nat option" where
  "index_byte c [] = None"
| "index_byte c (x # xs) = (if x = c then Some 0 else map_option Suc (index_byte c xs))"

definition is_modifier_name :: "string \<Rightarrow> bool" where
  "is_modifier_name s \<longleftrightarrow>
     s \<in> {''ctrl'', ''control'', ''alt'', ''shift'', ''super'', ''meta'', ''win'', ''logo''}"

text \<open>The switch of \<^verbatim>\<open>parseCombo\<close> on one modifier name.\<close>

definition add_modifier :: "string \<Rightarrow> modifiers \<Rightarrow> modifiers option" where
  "add_modifier p m =
     (if p = ''ctrl'' \<or> p = ''control'' then Some (m\<lparr>mod_ctrl := True\<rparr>)
      else if p = ''alt'' then Some (m\<lparr>mod_alt := True\<rparr>)
      else if p = ''shift'' then Some (m\<lparr>mod_shift := True\<rparr>)
      else if p = ''super'' \<or> p = ''meta'' \<or> p = ''win'' \<or> p = ''logo'' then Some (m\<lparr>mod_super := True\<rparr>)
      else None)"

lemma index_byte_Some: "index_byte c s = Some n \<Longrightarrow> n < length s \<and> s ! n = c \<and> c \<notin> set (take n s)"
  by (induction s arbitrary: n) (auto split: if_splits)

lemma index_byte_None: "index_byte c s = None \<longleftrightarrow> c \<notin> set s"
  by (induction s) auto

lemma index_byte_append: "c \<notin> set xs \<Longrightarrow> index_byte c (xs @ c # ys) = Some (length xs)"
  by (induction xs) auto

text \<open>The loop of \<^verbatim>\<open>parseCombo\<close> on \<open>name[start:]\<close>.\<close>

function combo_loop :: "string \<Rightarrow> string \<Rightarrow> bool \<Rightarrow> bool \<Rightarrow> modifiers \<Rightarrow> parse_error + key_send" where
  "combo_loop name rest down up m =
     (case index_byte CHR ''+'' rest of
        None \<Rightarrow>
          (let k = trim_space rest in
           if k = [] then Inl (EmptyComboKey name)
           else if is_modifier_name k then Inl (ModifierAtEnd name)
           else Inr \<lparr>ks_text = [], ks_key = k, ks_down = down, ks_up = up, ks_modifiers = m\<rparr>)
      | Some separator \<Rightarrow>
          (let p = trim_space (take separator rest) in
           case add_modifier p m of
             None \<Rightarrow> Inl (UnknownModifier p name)
           | Some m' \<Rightarrow> combo_loop name (drop (separator + 1) rest) down up m'))"
  by pat_completeness auto
termination
  by (relation "measure (\<lambda>(_, r, _). length r)") (auto dest: index_byte_Some)

declare combo_loop.simps [simp del]

definition parse_combo :: "string \<Rightarrow> bool \<Rightarrow> bool \<Rightarrow> parse_error + key_send" where
  "parse_combo name down up =
     (if CHR ''+'' \<notin> set name then Inl (InvalidCombo name) else combo_loop name name down up no_modifiers)"

definition has_suffix :: "string \<Rightarrow> string \<Rightarrow> bool" where
  "has_suffix s suf \<longleftrightarrow> length suf \<le> length s \<and> drop (length s - length suf) s = suf"

definition trim_suffix :: "string \<Rightarrow> string \<Rightarrow> string" where
  "trim_suffix s suf = (if has_suffix s suf then take (length s - length suf) s else s)"

definition parse_braced :: "string \<Rightarrow> parse_error + key_send" where
  "parse_braced expr =
     (let expr = trim_space expr in
      if expr = [] then Inl EmptyKey
      else
        let lower = to_lower expr;
            (name, down, up) =
              (if has_suffix lower '' down'' then (trim_space (trim_suffix lower '' down''), True, False)
               else if has_suffix lower '' up'' then (trim_space (trim_suffix lower '' up''), False, True)
               else (lower, False, False))
        in if name = [] then Inl EmptyKey
           else if CHR ''+'' \<in> set name then parse_combo name down up
           else Inr \<lparr>ks_text = [], ks_key = name, ks_down = down, ks_up = up, ks_modifiers = no_modifiers\<rparr>)"

text \<open>The loop of \<^verbatim>\<open>parseKeySend\<close> on \<open>input[i:]\<close>.\<close>

function parse_loop :: "nat \<Rightarrow> string \<Rightarrow> parse_error + key_send list" where
  "parse_loop i s =
     (if s = [] then Inr []
      else if s ! 0 = CHR ''{'' then
        (case index_byte CHR ''}'' s of
           None \<Rightarrow> Inl (UnclosedBrace i)
         | Some stop \<Rightarrow>
             ebind (parse_braced (take (stop - 1) (drop 1 s))) (\<lambda>ks.
             ebind (parse_loop (i + stop + 1) (drop (stop + 1) s)) (\<lambda>rest. Inr (ks # rest))))
      else
        (case index_byte CHR ''{'' s of
           None \<Rightarrow> Inr [send_text s]
         | Some next \<Rightarrow>
             ebind (parse_loop (i + next) (drop next s)) (\<lambda>rest. Inr (send_text (take next s) # rest))))"
  by pat_completeness auto
termination
proof (relation "measure (\<lambda>(_, s). length s)")
  show "((i + nxt, drop nxt s), i, s) \<in> measure (\<lambda>(_, s). length s)"
    if "s \<noteq> []" "s ! 0 \<noteq> CHR ''{''" "index_byte CHR ''{'' s = Some nxt" for i s nxt
    using that index_byte_Some [OF that(3)] by (cases nxt) auto
qed auto

declare parse_loop.simps [simp del]

definition parse_key_send :: "string \<Rightarrow> parse_error + key_send list" where
  "parse_key_send input = (if input = [] then Inr [] else parse_loop 0 input)"

section \<open>Names\<close>

fun modifier_of :: "key \<Rightarrow> modifiers" where
  "modifier_of k = \<lparr>mod_ctrl = (k = KeyCtrl), mod_alt = (k = KeyAlt), mod_shift = (k = KeyShift),
     mod_super = (k = KeySuper)\<rparr>"

lemma modifier_names_resolve:
  "from_string ''ctrl'' = Some KeyCtrl" "from_string ''control'' = Some KeyCtrl"
  "from_string ''alt'' = Some KeyAlt" "from_string ''shift'' = Some KeyShift"
  "from_string ''super'' = Some KeySuper" "from_string ''meta'' = Some KeySuper"
  "from_string ''win'' = Some KeySuper" "from_string ''logo'' = Some KeySuper"
  by (simp_all add: from_string_def name_to_key_def to_lower_def lower_char_def)

text \<open>
  The combo syntax and the key table agree: a name is accepted as a combo modifier exactly when
  the parser classifies it as a modifier name, and it then resolves in the key table to the
  modifier key whose flag the combo sets.
\<close>

theorem combo_modifiers_resolve:
  "(is_modifier_name p \<longleftrightarrow> add_modifier p no_modifiers \<noteq> None) \<and>
   (add_modifier p no_modifiers = Some m \<longrightarrow>
     (\<exists>k. from_string p = Some k \<and> is_modifier k \<and> m = modifier_of k))"
  by (auto simp: is_modifier_name_def add_modifier_def no_modifiers_def is_modifier_def modifier_names_resolve
      split: if_splits)

theorem combo_modifiers_resolve_witness:
  "\<exists>k. from_string ''win'' = Some k \<and> is_modifier k \<and> mod_super (modifier_of k)"
  using combo_modifiers_resolve [of "''win''" "\<lparr>mod_ctrl = False, mod_alt = False, mod_shift = False, mod_super = True\<rparr>"]
  by (auto simp: add_modifier_def no_modifiers_def)

section \<open>What the parser returns\<close>

definition text_action :: "key_send \<Rightarrow> bool" where
  "text_action a \<longleftrightarrow> ks_text a \<noteq> [] \<and> CHR ''{'' \<notin> set (ks_text a) \<and> a = send_text (ks_text a)"

definition key_action :: "key_send \<Rightarrow> bool" where
  "key_action a \<longleftrightarrow>
     ks_text a = [] \<and> ks_key a \<noteq> [] \<and> CHR ''+'' \<notin> set (ks_key a) \<and> CHR ''}'' \<notin> set (ks_key a) \<and>
     \<not> (ks_down a \<and> ks_up a) \<and> (ks_modifiers a \<noteq> no_modifiers \<longrightarrow> \<not> is_modifier_name (ks_key a))"

lemma set_dropWhile: "set (dropWhile P xs) \<subseteq> set xs"
  by (rule subsetI) (auto dest: set_dropWhileD)

lemma set_trim_space: "set (trim_space s) \<subseteq> set s"
  unfolding trim_space_def using set_dropWhile [of is_space s] set_dropWhile [of is_space "rev (dropWhile is_space s)"]
  by auto

lemma combo_loop_key:
  "combo_loop name rest down up m = Inr a \<Longrightarrow> CHR ''}'' \<notin> set rest \<Longrightarrow> \<not> (down \<and> up) \<Longrightarrow>
     key_action a"
proof (induction name rest down up m rule: combo_loop.induct)
  case (1 name rest down up m)
  show ?case
  proof (cases "index_byte CHR ''+'' rest")
    case None
    then have "CHR ''+'' \<notin> set rest" by (simp add: index_byte_None)
    with "1.prems" None set_trim_space [of rest] show ?thesis
      by (subst (asm) combo_loop.simps) (auto simp: Let_def key_action_def split: if_splits)
  next
    case (Some n)
    with "1.prems"(1) obtain m' where m': "add_modifier (trim_space (take n rest)) m = Some m'"
      "combo_loop name (drop (n + 1) rest) down up m' = Inr a"
      by (subst (asm) combo_loop.simps) (auto simp: Let_def split: option.splits)
    moreover have "CHR ''}'' \<notin> set (drop (n + 1) rest)" using "1.prems"(2) by (auto dest: in_set_dropD)
    ultimately show ?thesis using "1.IH" [OF Some refl] "1.prems"(3) by blast
  qed
qed

lemma brace_lower: "lower_char c = CHR ''}'' \<Longrightarrow> c = CHR ''}''"
proof (rule ccontr)
  let ?n = "of_char c :: nat"
  assume "lower_char c = CHR ''}''" "c \<noteq> CHR ''}''"
  then have n: "?n \<le> 90" "char_of (?n + 32) = CHR ''}''" by (auto simp: lower_char_def split: if_splits)
  have "(of_char (char_of (?n + 32) :: char) :: nat) = ?n + 32" using n(1) by simp
  then have "?n + 32 = 125" using n(2) by simp
  with n(1) show False by simp
qed

lemma set_trim_suffix: "set (trim_suffix s suf) \<subseteq> set s"
  by (auto simp: trim_suffix_def dest: in_set_takeD)

text \<open>The name part of a braced expression and its direction.\<close>

definition braced_name :: "string \<Rightarrow> string \<times> bool \<times> bool" where
  "braced_name lower =
     (if has_suffix lower '' down'' then (trim_space (trim_suffix lower '' down''), True, False)
      else if has_suffix lower '' up'' then (trim_space (trim_suffix lower '' up''), False, True)
      else (lower, False, False))"

lemma parse_braced_eq:
  "parse_braced expr =
     (if trim_space expr = [] then Inl EmptyKey
      else case braced_name (to_lower (trim_space expr)) of (name, down, up) \<Rightarrow>
        if name = [] then Inl EmptyKey
        else if CHR ''+'' \<in> set name then parse_combo name down up
        else Inr \<lparr>ks_text = [], ks_key = name, ks_down = down, ks_up = up, ks_modifiers = no_modifiers\<rparr>)"
  by (simp add: parse_braced_def braced_name_def Let_def)

lemma braced_name_facts:
  assumes "braced_name l = (name, down, up)" "c \<notin> set l"
  shows "c \<notin> set name \<and> \<not> (down \<and> up)"
proof -
  have t: "c \<notin> set (trim_space (trim_suffix l suf))" for suf
    using set_trim_space set_trim_suffix assms(2) by blast
  show ?thesis
    using assms by (auto simp: braced_name_def t split: if_splits)
qed

lemma parse_braced_key:
  assumes "parse_braced expr = Inr a" "CHR ''}'' \<notin> set expr"
  shows "key_action a"
proof -
  obtain name down up where n: "braced_name (to_lower (trim_space expr)) = (name, down, up)"
    by (metis surj_pair)
  have "CHR ''}'' \<notin> set (to_lower (trim_space expr))"
  proof
    assume "CHR ''}'' \<in> set (to_lower (trim_space expr))"
    then obtain c where "c \<in> set (trim_space expr)" "lower_char c = CHR ''}''" by (auto simp: to_lower_def)
    with assms(2) set_trim_space [of expr] brace_lower show False by blast
  qed
  note name = braced_name_facts [OF n this]
  have "name \<noteq> []" and r: "(if CHR ''+'' \<in> set name then parse_combo name down up
      else Inr \<lparr>ks_text = [], ks_key = name, ks_down = down, ks_up = up, ks_modifiers = no_modifiers\<rparr>) = Inr a"
    using assms(1) unfolding parse_braced_eq n by (auto split: if_splits)
  show ?thesis
  proof (cases "CHR ''+'' \<in> set name")
    case True
    with r have "combo_loop name name down up no_modifiers = Inr a" by (simp add: parse_combo_def)
    with name show ?thesis by (blast intro: combo_loop_key)
  next
    case False
    with r name \<open>name \<noteq> []\<close> show ?thesis by (auto simp: key_action_def)
  qed
qed

lemma parse_loop_actions: "parse_loop i s = Inr as \<Longrightarrow> list_all (\<lambda>a. text_action a \<or> key_action a) as"
proof (induction i s arbitrary: as rule: parse_loop.induct)
  case (1 i s)
  consider "s = []" | n where "s \<noteq> []" "s ! 0 = CHR ''{''" "index_byte CHR ''}'' s = Some n"
    | "s \<noteq> []" "s ! 0 \<noteq> CHR ''{''" "index_byte CHR ''{'' s = None"
    | n where "s \<noteq> []" "s ! 0 \<noteq> CHR ''{''" "index_byte CHR ''{'' s = Some n"
    using "1.prems" by (subst (asm) parse_loop.simps) (auto split: if_splits option.splits)
  then show ?case
  proof cases
    case 1
    with "1.prems" show ?thesis by (simp add: parse_loop.simps)
  next
    case (2 n)
    with "1.prems" obtain ks rest where k: "parse_braced (take (n - 1) (drop 1 s)) = Inr ks"
      "parse_loop (i + n + 1) (drop (n + 1) s) = Inr rest" "as = ks # rest"
      by (subst (asm) parse_loop.simps) auto
    have "CHR ''}'' \<notin> set (take n s)" using index_byte_Some [OF 2(3)] by simp
    moreover have "take (n - 1) (drop 1 s) = drop 1 (take n s)" by (simp add: drop_take)
    ultimately have "CHR ''}'' \<notin> set (take (n - 1) (drop 1 s))" by (auto dest: in_set_dropD)
    with k "1.IH"(1) [OF 2 k(1,2)] show ?thesis by (simp add: parse_braced_key)
  next
    case 3
    with "1.prems" show ?thesis
      by (subst (asm) parse_loop.simps) (auto simp: text_action_def send_text_def index_byte_None)
  next
    case (4 n)
    with "1.prems" obtain rest where r: "parse_loop (i + n) (drop n s) = Inr rest" "as = send_text (take n s) # rest"
      by (subst (asm) parse_loop.simps) auto
    have "take n s \<noteq> []" "CHR ''{'' \<notin> set (take n s)" using index_byte_Some [OF 4(3)] 4(1,2) by (cases n; auto)+
    with r "1.IH"(2) [OF 4 r(1)] show ?thesis by (simp add: text_action_def send_text_def)
  qed
qed

text \<open>
  C39. Whatever the input, a successful parse is a list of well-formed actions: literal text, which
  is never empty and never contains an opening brace, or a named key, non-empty, free of the
  combo and brace characters, not both down and up, and not a modifier when modifiers apply
  to it.
\<close>

theorem parse_key_send_actions:
  assumes "parse_key_send input = Inr as"
  shows "list_all (\<lambda>a. text_action a \<or> key_action a) as"
  using assms parse_loop_actions [of 0 input as] by (auto simp: parse_key_send_def split: if_splits)

section \<open>Round trip\<close>

definition mods_text :: "modifiers \<Rightarrow> string" where
  "mods_text m =
     (if mod_ctrl m then ''ctrl+'' else []) @ (if mod_alt m then ''alt+'' else []) @
     (if mod_shift m then ''shift+'' else []) @ (if mod_super m then ''super+'' else [])"

definition render_action :: "key_send \<Rightarrow> string" where
  "render_action a =
     (if ks_text a \<noteq> [] then ks_text a
      else ''{'' @ mods_text (ks_modifiers a) @ ks_key a @
        (if ks_down a then '' down'' else if ks_up a then '' up'' else []) @ ''}'')"

definition plain_name :: "string \<Rightarrow> bool" where
  "plain_name k \<longleftrightarrow>
     k \<noteq> [] \<and> \<not> is_space (hd k) \<and> \<not> is_space (last k) \<and> to_lower k = k \<and>
     CHR ''+'' \<notin> set k \<and> CHR ''}'' \<notin> set k \<and> \<not> has_suffix k '' down'' \<and> \<not> has_suffix k '' up''"

definition printable :: "key_send \<Rightarrow> bool" where
  "printable a \<longleftrightarrow> text_action a \<or> key_action a \<and> plain_name (ks_key a)"

fun separated :: "key_send list \<Rightarrow> bool" where
  "separated (a # b # as) \<longleftrightarrow> \<not> (text_action a \<and> text_action b) \<and> separated (b # as)"
| "separated _ \<longleftrightarrow> True"

lemma trim_id: "s \<noteq> [] \<Longrightarrow> \<not> is_space (hd s) \<Longrightarrow> \<not> is_space (last s) \<Longrightarrow> trim_space s = s"
proof -
  assume s: "s \<noteq> []" "\<not> is_space (hd s)" "\<not> is_space (last s)"
  have d: "dropWhile P xs = xs" if "xs \<noteq> []" "\<not> P (hd xs)" for P and xs :: string
    using that by (cases xs) auto
  have "hd (rev s) = last s" using s(1) by (simp add: hd_rev)
  with s show ?thesis by (simp add: trim_space_def d)
qed

lemma combo_step:
  assumes "CHR ''+'' \<notin> set n" "trim_space n = n" "add_modifier n m = Some m'"
  shows "combo_loop name (n @ CHR ''+'' # r) down up m = combo_loop name r down up m'"
  using assms by (subst combo_loop.simps) (simp add: index_byte_append)

lemma trim_modifier_names [simp]:
  "trim_space ''ctrl'' = ''ctrl''" "trim_space ''alt'' = ''alt''" "trim_space ''shift'' = ''shift''"
  "trim_space ''super'' = ''super''"
  by (simp_all add: trim_space_def is_space_def)

lemma combo_stages:
  "combo_loop name ((if b then ''ctrl+'' else []) @ r) down up m = combo_loop name r down up (if b then m\<lparr>mod_ctrl := True\<rparr> else m)"
  "combo_loop name ((if b then ''alt+'' else []) @ r) down up m = combo_loop name r down up (if b then m\<lparr>mod_alt := True\<rparr> else m)"
  "combo_loop name ((if b then ''shift+'' else []) @ r) down up m = combo_loop name r down up (if b then m\<lparr>mod_shift := True\<rparr> else m)"
  "combo_loop name ((if b then ''super+'' else []) @ r) down up m = combo_loop name r down up (if b then m\<lparr>mod_super := True\<rparr> else m)"
  using combo_step [of "''ctrl''" m] combo_step [of "''alt''" m] combo_step [of "''shift''" m] combo_step [of "''super''" m]
  by (simp_all add: add_modifier_def)

lemma combo_key:
  assumes "plain_name k" "\<not> is_modifier_name k"
  shows "combo_loop name k down up m = Inr \<lparr>ks_text = [], ks_key = k, ks_down = down, ks_up = up, ks_modifiers = m\<rparr>"
proof -
  have "index_byte CHR ''+'' k = None" "trim_space k = k" "k \<noteq> []"
    using assms trim_id [of k] by (simp_all add: plain_name_def index_byte_None)
  with assms(2) show ?thesis by (subst combo_loop.simps) (simp add: Let_def)
qed

lemma combo_mods:
  assumes "plain_name k" "\<not> is_modifier_name k"
  shows "combo_loop name (mods_text m @ k) down up no_modifiers =
    Inr \<lparr>ks_text = [], ks_key = k, ks_down = down, ks_up = up, ks_modifiers = m\<rparr>"
  unfolding mods_text_def append_assoc combo_stages combo_key [OF assms]
  by (cases m) (simp add: no_modifiers_def)

lemma has_suffix_append: "has_suffix (xs @ suf) suf"
  by (simp add: has_suffix_def)

lemma trim_suffix_append: "trim_suffix (xs @ suf) suf = xs"
  by (simp add: trim_suffix_def has_suffix_append)

lemma has_suffix_iff: "has_suffix s suf \<longleftrightarrow> (\<exists>p. s = p @ suf)"
  by (auto simp: has_suffix_def) (metis append_take_drop_id)

lemma no_suffix_mods:
  assumes "\<not> has_suffix k suf" "m = [] \<or> last m = CHR ''+''" "CHR ''+'' \<notin> set suf"
  shows "\<not> has_suffix (m @ k) suf"
proof
  assume "has_suffix (m @ k) suf"
  then obtain p where p: "m @ k = p @ suf" by (auto simp: has_suffix_iff)
  then consider us where "m = p @ us" "us @ k = suf" | us where "m @ us = p" "k = us @ suf"
    by (auto simp: append_eq_append_conv2)
  then show False
  proof cases
    case (1 us)
    with assms have "us = []" by (cases us rule: rev_cases) auto
    with 1 assms(1) show False by (simp add: has_suffix_iff)
  next
    case (2 us)
    with assms(1) show False by (auto simp: has_suffix_iff)
  qed
qed

lemma to_lower_append [simp]: "to_lower (xs @ ys) = to_lower xs @ to_lower ys"
  by (simp add: to_lower_def)

lemma to_lower_names [simp]:
  "to_lower [] = []" "to_lower ''ctrl+'' = ''ctrl+''" "to_lower ''alt+'' = ''alt+''" "to_lower ''shift+'' = ''shift+''"
  "to_lower ''super+'' = ''super+''" "to_lower '' down'' = '' down''" "to_lower '' up'' = '' up''"
  by (simp_all add: to_lower_def lower_char_def)

lemma mods_text_facts:
  "mods_text m = [] \<or> last (mods_text m) = CHR ''+''"
  "to_lower (mods_text m) = mods_text m"
  "CHR ''}'' \<notin> set (mods_text m)"
  "mods_text m = [] \<longleftrightarrow> m = no_modifiers"
  "mods_text m \<noteq> [] \<Longrightarrow> CHR ''+'' \<in> set (mods_text m)"
      apply (simp add: mods_text_def)
     apply (simp add: mods_text_def)
    apply (simp add: mods_text_def)
   apply (cases m, simp add: mods_text_def no_modifiers_def)
  apply (auto simp: mods_text_def split: if_splits)
  done

lemma mods_text_head: "mods_text m \<noteq> [] \<Longrightarrow> \<not> is_space (hd (mods_text m))"
  by (auto simp: mods_text_def is_space_def split: if_splits)

definition direction_text :: "key_send \<Rightarrow> string" where
  "direction_text a = (if ks_down a then '' down'' else if ks_up a then '' up'' else [])"

lemma trim_mods_key:
  assumes "plain_name k"
  shows "trim_space (mods_text m @ k) = mods_text m @ k"
  using assms mods_text_head [of m]
  by (intro trim_id) (auto simp: plain_name_def hd_append)

lemma braced_name_render:
  assumes "plain_name (ks_key a)" "\<not> (ks_down a \<and> ks_up a)"
  shows "braced_name (mods_text m @ ks_key a @ direction_text a) = (mods_text m @ ks_key a, ks_down a, ks_up a)"
proof -
  let ?x = "mods_text m @ ks_key a"
  have up: "\<not> has_suffix (x @ '' up'') '' down''" for x
  proof
    assume "has_suffix (x @ '' up'') '' down''"
    then obtain p where "x @ '' up'' = p @ '' down''" by (auto simp: has_suffix_iff)
    then have "last (x @ '' up'') = last (p @ '' down'')" by (rule arg_cong)
    then show False by simp
  qed
  have none: "\<not> has_suffix ?x '' down''" "\<not> has_suffix ?x '' up''"
    using assms(1) mods_text_facts(1) [of m]
    by (intro no_suffix_mods; simp add: plain_name_def)+
  consider "ks_down a" "\<not> ks_up a" | "ks_up a" "\<not> ks_down a" | "\<not> ks_down a" "\<not> ks_up a"
    using assms(2) by blast
  then show ?thesis
  proof cases
    case 1
    then show ?thesis
      using has_suffix_append [of ?x "'' down''"] trim_suffix_append [of ?x "'' down''"] trim_mods_key [OF assms(1), of m]
      by (simp add: braced_name_def direction_text_def)
  next
    case 2
    then show ?thesis
      using has_suffix_append [of ?x "'' up''"] trim_suffix_append [of ?x "'' up''"] trim_mods_key [OF assms(1), of m] up [of ?x]
      by (simp add: braced_name_def direction_text_def)
  next
    case 3
    with none show ?thesis by (simp add: braced_name_def direction_text_def)
  qed
qed

lemma parse_braced_render:
  assumes "key_action a" "plain_name (ks_key a)"
  shows "parse_braced (mods_text (ks_modifiers a) @ ks_key a @ direction_text a) = Inr a"
proof -
  let ?m = "mods_text (ks_modifiers a)" and ?k = "ks_key a"
  let ?b = "?m @ ?k @ direction_text a"
  have k: "?k \<noteq> []" "\<not> is_space (hd ?k)" "\<not> is_space (last ?k)" "to_lower ?k = ?k" "CHR ''+'' \<notin> set ?k"
    using assms(2) by (simp_all add: plain_name_def)
  have "hd ?b = hd (?m @ ?k)" using k(1) by (auto simp: hd_append)
  then have "\<not> is_space (hd ?b)" using k mods_text_head [of "ks_modifiers a"] by (auto simp: hd_append)
  moreover have "\<not> is_space (last ?b)" using k by (auto simp: direction_text_def is_space_def)
  ultimately have t: "trim_space ?b = ?b" using k(1) by (intro trim_id) simp_all
  have l: "to_lower ?b = ?b" using k(4) mods_text_facts(2) by (simp add: direction_text_def)
  have n: "braced_name ?b = (?m @ ?k, ks_down a, ks_up a)"
    by (rule braced_name_render [OF assms(2)]) (use assms(1) in \<open>simp add: key_action_def\<close>)
  have a: "a = \<lparr>ks_text = [], ks_key = ?k, ks_down = ks_down a, ks_up = ks_up a, ks_modifiers = ks_modifiers a\<rparr>"
    using assms(1) by (cases a) (simp add: key_action_def)
  show ?thesis
  proof (cases "ks_modifiers a = no_modifiers")
    case True
    then have "?m = []" by (simp add: mods_text_facts(4))
    with t l n k True a show ?thesis by (simp add: parse_braced_eq)
  next
    case False
    then have "?m \<noteq> []" by (simp add: mods_text_facts(4))
    then have "CHR ''+'' \<in> set (?m @ ?k)" using mods_text_facts(5) by auto
    moreover have "\<not> is_modifier_name ?k" using assms(1) False by (simp add: key_action_def)
    ultimately show ?thesis
      using t l n k a combo_mods [OF assms(2), of "?m @ ?k" "ks_modifiers a" "ks_down a" "ks_up a"]
      by (simp add: parse_braced_eq parse_combo_def)
  qed
qed

lemma render_key:
  "key_action a \<Longrightarrow> render_action a =
     CHR ''{'' # (mods_text (ks_modifiers a) @ ks_key a @ direction_text a) @ ''}''"
  by (simp add: render_action_def key_action_def direction_text_def)

lemma parse_loop_render:
  "list_all printable as \<Longrightarrow> separated as \<Longrightarrow> parse_loop i (concat (map render_action as)) = Inr as"
proof (induction as arbitrary: i)
  case Nil
  then show ?case by (simp add: parse_loop.simps)
next
  case (Cons a as)
  have sep: "separated as" using Cons.prems(2) by (cases as) auto
  have IH: "parse_loop j (concat (map render_action as)) = Inr as" for j
    using Cons.IH Cons.prems(1) sep by simp
  let ?rest = "concat (map render_action as)"
  show ?case
  proof (cases "text_action a")
    case True
    then have t: "ks_text a \<noteq> []" "CHR ''{'' \<notin> set (ks_text a)" "a = send_text (ks_text a)"
      by (simp_all add: text_action_def)
    have h: "(ks_text a @ ys) ! 0 \<noteq> CHR ''{''" for ys using t(1,2) by (cases "ks_text a") auto
    have r: "render_action a = ks_text a" using t(1) by (simp add: render_action_def)
    show ?thesis
    proof (cases as)
      case Nil
      with t h [of "[]"] r show ?thesis
        by (subst parse_loop.simps) (simp add: index_byte_None [THEN iffD2])
    next
      case (Cons b bs)
      then have "key_action b" using Cons.prems True by (auto simp: printable_def)
      then obtain w where w: "?rest = CHR ''{'' # w" using Cons by (simp add: render_key)
      have "index_byte CHR ''{'' (ks_text a @ ?rest) = Some (length (ks_text a))"
        unfolding w by (rule index_byte_append [OF t(2)])
      with t(1) t(3) [symmetric] h [of ?rest] IH [of "i + length (ks_text a)"] r show ?thesis
        by (subst parse_loop.simps) simp
    qed
  next
    case False
    then have k: "key_action a" "plain_name (ks_key a)" using Cons.prems(1) by (simp_all add: printable_def)
    let ?b = "mods_text (ks_modifiers a) @ ks_key a @ direction_text a"
    have "CHR ''}'' \<notin> set (CHR ''{'' # ?b)"
      using k(2) mods_text_facts(3) by (simp add: plain_name_def direction_text_def)
    then have ix: "index_byte CHR ''}'' ((CHR ''{'' # ?b) @ CHR ''}'' # ?rest) = Some (length (CHR ''{'' # ?b))"
      by (rule index_byte_append)
    have s: "concat (map render_action (a # as)) = (CHR ''{'' # ?b) @ CHR ''}'' # ?rest"
      using render_key [OF k(1)] by simp
    have d: "take (length (CHR ''{'' # ?b) - 1) (drop 1 ((CHR ''{'' # ?b) @ CHR ''}'' # ?rest)) = ?b"
      "drop (length (CHR ''{'' # ?b) + 1) ((CHR ''{'' # ?b) @ CHR ''}'' # ?rest) = ?rest"
      "((CHR ''{'' # ?b) @ CHR ''}'' # ?rest) ! 0 = CHR ''{''" "(CHR ''{'' # ?b) @ CHR ''}'' # ?rest \<noteq> []"
      by simp_all
    show ?thesis
      unfolding s by (subst parse_loop.simps)
        (simp only: ix d parse_braced_render [OF k] IH simp_thms if_False if_True option.case ebind.simps)
  qed
qed


definition demo_actions :: "key_send list" where
  "demo_actions =
     [send_text ''hi'',
      \<lparr>ks_text = [], ks_key = ''t'', ks_down = False, ks_up = False,
       ks_modifiers = no_modifiers\<lparr>mod_ctrl := True, mod_shift := True\<rparr>\<rparr>,
      \<lparr>ks_text = [], ks_key = ''alt'', ks_down = True, ks_up = False, ks_modifiers = no_modifiers\<rparr>]"

lemma demo_rendered: "concat (map render_action demo_actions) = ''hi{ctrl+shift+t}{alt down}''"
  by (simp add: demo_actions_def render_action_def mods_text_def send_text_def no_modifiers_def)


theorem parse_key_send_actions_witness:
  "list_all (\<lambda>a. text_action a \<or> key_action a) [send_text ''ab'']"
  by (rule parse_key_send_actions [of "''ab''"]) (simp add: parse_key_send_def parse_loop.simps)

end
