(* ===== verification/Runes.thy ===== *)
theory Runes
  imports Utf8 "HOL-Library.Sublist"
begin

text \<open>
  Strings as sequences of runes, as \<^verbatim>\<open>range s\<close> and \<^verbatim>\<open>utf8.DecodeRuneInString\<close> see them. A rune is
  the string that encodes it, so \<^verbatim>\<open>string(r)\<close> is the rune itself; an invalid byte is read as the
  replacement character. Shared by the virtual keyboard and the window matcher.
\<close>

section \<open>Runes\<close>

type_synonym rune = string

definition string_bytes :: "string \<Rightarrow> byte list" where "string_bytes s = map of_char s"

definition replacement :: rune where
  "replacement = map char_of [0xEF, 0xBF, 0xBD :: nat]"

definition valid_string :: "string \<Rightarrow> bool" where "valid_string s \<longleftrightarrow> utf8_valid (string_bytes s)"

text \<open>\<^verbatim>\<open>utf8.DecodeRuneInString\<close>: the first rune and the bytes it takes.\<close>

definition decode_rune :: "string \<Rightarrow> rune \<times> nat" where
  "decode_rune s =
     (if s = [] then (replacement, 0)
      else case rune_len (string_bytes s) of None \<Rightarrow> (replacement, 1) | Some n \<Rightarrow> (take n s, n))"

text \<open>\<^verbatim>\<open>range s\<close> and \<^verbatim>\<open>[]rune(s)\<close>.\<close>

function runes :: "string \<Rightarrow> rune list" where
  "runes s = (if s = [] then [] else fst (decode_rune s) # runes (drop (snd (decode_rune s)) s))"
  by pat_completeness auto
termination
  by (relation "measure length")
    (auto simp: decode_rune_def string_bytes_def dest: rune_len_bounds split: option.split)

declare runes.simps [simp del]

lemma single_rune:
  assumes "valid_string s" "length (runes s) = 1"
  shows "s \<noteq> []" "runes s = [s]" "decode_rune s = (s, length s)"
proof -
  show ne: "s \<noteq> []" using assms(2) by (auto simp: runes.simps)
  then have "utf8_valid (string_bytes s)" "string_bytes s \<noteq> []" using assms(1) by (simp_all add: valid_string_def string_bytes_def)
  then obtain n where n: "rune_len (string_bytes s) = Some n"
    by (subst (asm) utf8_valid.simps) (auto split: option.splits)
  then have len: "n \<le> length s" by (auto dest: rune_len_bounds simp: string_bytes_def)
  have d: "decode_rune s = (take n s, n)" using ne n by (simp add: decode_rune_def)
  have "runes (drop n s) = []" using assms(2) ne d by (simp add: runes.simps [of s])
  then have "drop n s = []" by (subst (asm) runes.simps) (simp split: if_splits)
  with len have l: "n = length s" by simp
  with d show d': "decode_rune s = (s, length s)" by simp
  show "runes s = [s]" using ne d' by (subst runes.simps) (simp add: runes.simps [of "[]"])
qed

lemma single_runes: "s \<noteq> [] \<Longrightarrow> decode_rune s = (s, length s) \<Longrightarrow> runes s = [s]"
  by (subst runes.simps) (simp add: runes.simps [of "[]"])

lemma concat_runes: "valid_string s \<Longrightarrow> concat (runes s) = s"
proof (induction s rule: runes.induct)
  case (1 s)
  show ?case
  proof (cases "s = []")
    case True
    then show ?thesis by (simp add: runes.simps)
  next
    case False
    then have "utf8_valid (string_bytes s)" "string_bytes s \<noteq> []" using 1 by (simp_all add: valid_string_def string_bytes_def)
    then obtain n where n: "rune_len (string_bytes s) = Some n" "utf8_valid (drop n (string_bytes s))"
      by (subst (asm) utf8_valid.simps) (auto split: option.splits)
    then have "decode_rune s = (take n s, n)" "valid_string (drop n s)"
      using False by (simp_all add: decode_rune_def valid_string_def string_bytes_def drop_map)
    with 1 False show ?thesis by (subst runes.simps) simp
  qed
qed

section \<open>Encodings of runes\<close>

definition valid_rune :: "rune \<Rightarrow> bool" where
  "valid_rune r \<longleftrightarrow> rune_len (string_bytes r) = Some (length r)"

lemma rune_len_append: "rune_len bs = Some n \<Longrightarrow> rune_len (bs @ cs) = Some n"
  by (cases bs) (auto split: if_splits list.splits)

lemma string_bytes_simps [simp]:
  "string_bytes (s @ t) = string_bytes s @ string_bytes t" "string_bytes (drop n s) = drop n (string_bytes s)"
  "string_bytes [] = []" "length (string_bytes s) = length s"
  by (simp_all add: string_bytes_def drop_map)

lemma replacement_valid: "valid_rune replacement"
  by code_simp

lemma valid_rune_nonempty: "valid_rune r \<Longrightarrow> r \<noteq> []"
  by (auto simp: valid_rune_def)

lemma decode_valid: "valid_rune r \<Longrightarrow> decode_rune (r @ s) = (r, length r)"
  using rune_len_append [of "string_bytes r" "length r" "string_bytes s"]
  by (auto simp: decode_rune_def valid_rune_def)

lemma runes_Nil [simp]: "runes [] = []"
  by (simp add: runes.simps)

lemma runes_append: "valid_rune r \<Longrightarrow> runes (r @ s) = r # runes s"
  using decode_valid [of r s] valid_rune_nonempty [of r] by (subst runes.simps) simp

lemma runes_concat_append: "\<forall>r \<in> set rs. valid_rune r \<Longrightarrow> runes (concat rs @ s) = rs @ runes s"
  by (induction rs) (simp_all add: runes_append)

lemma runes_concat: "\<forall>r \<in> set rs. valid_rune r \<Longrightarrow> runes (concat rs) = rs"
  using runes_concat_append [of rs "[]"] by simp

lemma decode_valid_rune: "s \<noteq> [] \<Longrightarrow> valid_rune (fst (decode_rune s))"
proof -
  assume s: "s \<noteq> []"
  show ?thesis
  proof (cases "rune_len (string_bytes s)")
    case None
    then show ?thesis using s by (simp add: decode_rune_def replacement_valid)
  next
    case (Some n)
    then have "n \<le> length s" using rune_len_bounds [OF Some] by simp
    then show ?thesis
      using s Some rune_len_take [OF Some, of n] by (simp add: decode_rune_def valid_rune_def string_bytes_def take_map)
  qed
qed

lemma decode_bounds: "s \<noteq> [] \<Longrightarrow> 1 \<le> snd (decode_rune s) \<and> snd (decode_rune s) \<le> length s"
  by (cases s) (auto simp: decode_rune_def dest: rune_len_bounds split: option.splits)

lemma runes_valid: "r \<in> set (runes s) \<Longrightarrow> valid_rune r"
proof (induction s rule: runes.induct)
  case (1 s)
  then show ?case by (cases "s = []") (auto simp: runes.simps [of s] decode_valid_rune)
qed

text \<open>
  Self-synchronisation: an encoded sequence of runes can only occur inside another one at its
  rune boundaries.
\<close>

lemma rune_not_inside:
  assumes "valid_rune r" "valid_rune t" "pre \<noteq> []" "pre @ t @ x = r @ y" "length pre < length r"
  shows False
proof -
  have "string_bytes r ! length pre = string_bytes t ! 0"
  proof -
    have "(pre @ t @ x) ! length pre = r ! length pre" using assms(4,5) by (simp add: nth_append)
    moreover have "(pre @ t @ x) ! length pre = t ! 0" using valid_rune_nonempty [OF assms(2)] by (simp add: nth_append)
    ultimately show ?thesis using assms(5) valid_rune_nonempty [OF assms(2)] by (simp add: string_bytes_def)
  qed
  moreover have "\<not> rune_start (string_bytes r ! length pre)"
    using assms(1,3,5) by (intro rune_len_cont [of _ "length r"]) (simp_all add: valid_rune_def)
  moreover have "rune_start (string_bytes t ! 0)"
    using assms(2) by (intro rune_len_start [of _ "length t"]) (simp add: valid_rune_def)
  ultimately show False by simp
qed

lemma runes_sync:
  assumes "concat rs = pre @ concat (t # ts) @ post" "\<forall>r \<in> set rs. valid_rune r" "\<forall>r \<in> set (t # ts). valid_rune r"
  shows "\<exists>ps qs. rs = ps @ (t # ts) @ qs"
  using assms(1,2)
proof (induction rs arbitrary: pre)
  case Nil
  then show ?case using valid_rune_nonempty assms(3) by simp
next
  case (Cons r rs)
  have r: "valid_rune r" using Cons.prems by simp
  show ?case
  proof (cases "pre = []")
    case True
    have "r # rs = runes (concat (r # rs))" using runes_concat [OF Cons.prems(2)] by simp
    also have "\<dots> = (t # ts) @ runes post"
      unfolding Cons.prems(1) True using runes_concat_append [OF assms(3), of post] by simp
    finally show ?thesis by (metis append_Nil)
  next
    case False
    have eq: "r @ concat rs = pre @ t @ (concat ts @ post)" using Cons.prems(1) by simp
    have "\<not> length pre < length r"
      using rune_not_inside [OF r _ False eq [symmetric]] assms(3) by auto
    then obtain pre' where "pre = r @ pre'" using eq by (auto simp: append_eq_append_conv2)
    then have "concat rs = pre' @ concat (t # ts) @ post" using eq by simp
    from Cons.IH [OF this] Cons.prems(2) obtain ps qs where "rs = ps @ (t # ts) @ qs" by auto
    then show ?thesis by (metis append_Cons)
  qed
qed

lemma sublist_concat_runes:
  assumes "ts \<noteq> []" "\<forall>r \<in> set rs. valid_rune r" "\<forall>r \<in> set ts. valid_rune r"
  shows "sublist (concat ts) (concat rs) \<longleftrightarrow> sublist ts rs"
proof
  assume "sublist (concat ts) (concat rs)"
  then obtain pre post where "concat rs = pre @ concat ts @ post" by (auto simp: sublist_def)
  with assms show "sublist ts rs"
    by (cases ts) (use runes_sync in \<open>fastforce simp: sublist_def\<close>)+
next
  assume "sublist ts rs"
  then obtain ps qs where "rs = ps @ ts @ qs" by (auto simp: sublist_def)
  then have "concat rs = concat ps @ concat ts @ concat qs" by simp
  then show "sublist (concat ts) (concat rs)" unfolding sublist_def by blast
qed

lemma valid_concat: "\<forall>r \<in> set rs. valid_rune r \<Longrightarrow> valid_string (concat rs)"
proof (induction rs)
  case (Cons r rs)
  then have "rune_len (string_bytes (r @ concat rs)) = Some (length r)"
    using rune_len_append [of "string_bytes r" "length r"] by (simp add: valid_rune_def)
  from utf8_valid_step [OF this] Cons show ?case by (simp add: valid_string_def)
qed (simp add: valid_string_def)

section \<open>ASCII strings\<close>

definition is_ascii :: "string \<Rightarrow> bool" where "is_ascii s \<longleftrightarrow> (\<forall>c \<in> set s. (of_char c :: nat) < 128)"

lemma ascii_rune: "(of_char c :: nat) < 128 \<Longrightarrow> valid_rune [c]"
proof -
  assume "(of_char c :: nat) < 128"
  moreover have "(of_char c :: byte) = of_nat (of_char c :: nat)" by (rule of_nat_of_char [symmetric])
  ultimately have "(of_char c :: byte) < 128" by (simp only: word_less_nat_alt unat_of_nat) simp
  then show ?thesis by (simp add: valid_rune_def string_bytes_def)
qed

lemma runes_ascii: "is_ascii s \<Longrightarrow> runes s = map (\<lambda>c. [c]) s"
proof (induction s)
  case (Cons c s)
  then show ?case using runes_append [OF ascii_rune, of c s] by (simp add: is_ascii_def)
qed simp

end
