(* ===== verification/WlKeyboard.thy ===== *)
theory WlKeyboard
  imports KeyInput Runes "HOL-Library.Char_ord" "HOL-Library.List_Lexorder"
begin

text \<open>
  The virtual keyboard of \<^verbatim>\<open>input/wl_keyboard.go\<close>: keymaps that give every character of an
  operation its own keycode, the keys and modifiers held across operations, and the messages
  sent to the compositor. A keymap is the list of its entries; the text the code uploads is
  determined by it and compared through it. Keycodes are checked to lie between 8 and 255 and
  are natural numbers; the modifier mask is a 32-bit word.
\<close>

section \<open>Keycodes\<close>

definition kc_shift :: nat where "kc_shift = 8"
definition kc_super :: nat where "kc_super = 11"
definition kc_dyn_base :: nat where "kc_dyn_base = 37"
definition kc_dyn_max :: nat where "kc_dyn_max = 255"
definition max_dynamic_slots :: nat where "max_dynamic_slots = kc_dyn_max - kc_dyn_base + 1"

lemmas kc_defs = kc_shift_def kc_super_def kc_dyn_base_def kc_dyn_max_def max_dynamic_slots_def

definition named_keys :: "(key \<times> nat \<times> string) list" where
  "named_keys =
     [(KeyShift, 8, ''Shift_L''), (KeyCtrl, 9, ''Control_L''), (KeyAlt, 10, ''Alt_L''),
      (KeySuper, 11, ''Super_L''), (KeyEnter, 12, ''Return''), (KeyEscape, 13, ''Escape''),
      (KeyTab, 14, ''Tab''), (KeyBackspace, 15, ''BackSpace''), (KeyDelete, 16, ''Delete''),
      (KeyHome, 17, ''Home''), (KeyEnd, 18, ''End''), (KeyPageUp, 19, ''Prior''),
      (KeyPageDown, 20, ''Next''), (KeyLeft, 21, ''Left''), (KeyRight, 22, ''Right''),
      (KeyUp, 23, ''Up''), (KeyDown, 24, ''Down''), (KeyF1, 25, ''F1''), (KeyF2, 26, ''F2''),
      (KeyF3, 27, ''F3''), (KeyF4, 28, ''F4''), (KeyF5, 29, ''F5''), (KeyF6, 30, ''F6''),
      (KeyF7, 31, ''F7''), (KeyF8, 32, ''F8''), (KeyF9, 33, ''F9''), (KeyF10, 34, ''F10''),
      (KeyF11, 35, ''F11''), (KeyF12, 36, ''F12'')]"

definition named_key :: "string \<Rightarrow> (nat \<times> string) option" where
  "named_key name = Option.bind (from_string name) (map_of named_keys)"

definition mod_bit :: "string \<Rightarrow> u32" where
  "mod_bit name =
     (case from_string name of
        None \<Rightarrow> 0
      | Some k \<Rightarrow>
          if k = KeyShift then 1 else if k = KeyCtrl then 4 else if k = KeyAlt then 8
          else if k = KeySuper then 64 else 0)"

definition modifier_mask :: "modifiers \<Rightarrow> u32" where
  "modifier_mask m =
     (if mod_ctrl m then 4 else 0) OR (if mod_alt m then 8 else 0) OR
     (if mod_shift m then 1 else 0) OR (if mod_super m then 64 else 0)"

section \<open>Keymaps\<close>

datatype keysym = RuneSym rune | NameSym string

text \<open>\<open>SlotDef\<close> is an entry \<^verbatim>\<open><K%03d>\<close>, \<open>NamedDef\<close> the entry \<^verbatim>\<open><KNAM>\<close>.\<close>

datatype keymap_def = SlotDef (def_slot: nat) (def_sym: keysym) | NamedDef (def_slot: nat) (def_sym: keysym)

record xkb_keymap =
  km_maximum :: nat
  km_defs :: "keymap_def list"

definition xkb_mods_only :: xkb_keymap where
  "xkb_mods_only = \<lparr>km_maximum = kc_super, km_defs = []\<rparr>"

definition xkb_with_runes :: "rune list \<Rightarrow> xkb_keymap" where
  "xkb_with_runes rs =
     (if rs = [] then xkb_mods_only
      else \<lparr>km_maximum = kc_dyn_base + length rs - 1,
            km_defs = map (\<lambda>(i, r). SlotDef (kc_dyn_base + i) (RuneSym r)) (enumerate 0 rs)\<rparr>)"

definition xkb_with_named :: "nat \<Rightarrow> string \<Rightarrow> xkb_keymap" where
  "xkb_with_named kc symb =
     (if kc \<le> kc_super then xkb_mods_only else \<lparr>km_maximum = kc, km_defs = [NamedDef kc (NameSym symb)]\<rparr>)"

section \<open>The keyboard and its messages\<close>

datatype wl_msg = KeymapMsg xkb_keymap | KeyMsg nat bool | ModsMsg u32

text \<open>
  \<open>kb_held\<close> is the Go map of held keys (distinct names); \<open>kb_time\<close> counts the instants at
  which the context is looked at and messages are written.
\<close>

record wl_keyboard =
  kb_mods :: u32
  kb_held :: "(string \<times> nat) list"
  kb_last :: "xkb_keymap option"
  kb_log :: "wl_msg list"
  kb_time :: nat

datatype 'e kb_error =
    KbContext ctx_err
  | KbWrite 'e
  | BelowBase nat
  | NotHeld string
  | AlreadyHeld string
  | MultiChar string
  | InvalidText
  | InvalidKey
  | InvalidHeldChar string
  | TooManyRunes nat
  | InvalidHeldSlot nat string
  | SharedSlot string string nat
  | SlotsExhausted

text \<open>
  An operation returns its error, the list of the joined errors (\<^verbatim>\<open>errors.Join\<close>), empty for
  \<^verbatim>\<open>nil\<close>. The transport decides for each instant whether a write fails, and whether the
  message reached the compositor all the same.
\<close>

type_synonym 'e kb_op = "wl_keyboard \<Rightarrow> 'e kb_error list \<times> wl_keyboard"
type_synonym 'e transport = "nat \<Rightarrow> ('e \<times> bool) option"

definition tick :: "wl_keyboard \<Rightarrow> wl_keyboard" where "tick k = k\<lparr>kb_time := Suc (kb_time k)\<rparr>"

definition write_kb :: "ctx \<Rightarrow> 'e transport \<Rightarrow> wl_msg \<Rightarrow> 'e kb_op" where
  "write_kb cx tr m k =
     (case cx (kb_time k) of
        Some e \<Rightarrow> ([KbContext e], tick k)
      | None \<Rightarrow>
          (case tr (kb_time k) of
             None \<Rightarrow> ([], tick (k\<lparr>kb_log := kb_log k @ [m]\<rparr>))
           | Some (e, delivered) \<Rightarrow>
               ([KbWrite e], tick (if delivered then k\<lparr>kb_log := kb_log k @ [m]\<rparr> else k))))"

definition check_ctx :: "ctx \<Rightarrow> 'e kb_op" where
  "check_ctx cx k = (case cx (kb_time k) of Some e \<Rightarrow> ([KbContext e], tick k) | None \<Rightarrow> ([], tick k))"

text \<open>\<^verbatim>\<open>sleepContext\<close> ends with the state of the context after the wait.\<close>

definition sleep_ctx :: "ctx \<Rightarrow> 'e kb_op" where "sleep_ctx = check_ctx"

text \<open>\<^verbatim>\<open>if err := f(); err != nil { return h(err) }; g()\<close> and its instance without cleanup.\<close>

definition kor :: "'e kb_op \<Rightarrow> 'e kb_op \<Rightarrow> 'e kb_op \<Rightarrow> 'e kb_op" where
  "kor f h g k =
     (case f k of (es, k') \<Rightarrow>
        if es = [] then g k' else (case h k' of (es', k'') \<Rightarrow> (es @ es', k'')))"

definition kdone :: "'e kb_op" where "kdone k = ([], k)"

definition kthen :: "'e kb_op \<Rightarrow> 'e kb_op \<Rightarrow> 'e kb_op" where "kthen f g = kor f kdone g"

definition kfail :: "'e kb_error \<Rightarrow> 'e kb_op" where "kfail e k = ([e], k)"

definition set_mods :: "(u32 \<Rightarrow> u32) \<Rightarrow> 'e kb_op" where
  "set_mods f k = ([], k\<lparr>kb_mods := f (kb_mods k)\<rparr>)"

definition send_key :: "ctx \<Rightarrow> 'e transport \<Rightarrow> nat \<Rightarrow> bool \<Rightarrow> 'e kb_op" where
  "send_key cx tr keycode pressed =
     (if keycode < 8 then kfail (BelowBase keycode) else write_kb cx tr (KeyMsg (keycode - 8) pressed))"

definition send_modifiers :: "ctx \<Rightarrow> 'e transport \<Rightarrow> 'e kb_op" where
  "send_modifiers cx tr k = write_kb cx tr (ModsMsg (kb_mods k)) k"

definition upload_keymap :: "ctx \<Rightarrow> 'e transport \<Rightarrow> xkb_keymap \<Rightarrow> 'e kb_op" where
  "upload_keymap cx tr km k =
     (if kb_last k = Some km then ([], k)
      else kthen (write_kb cx tr (KeymapMsg km)) (\<lambda>k. ([], k\<lparr>kb_last := Some km\<rparr>)) k)"

definition upload_and_restore :: "ctx \<Rightarrow> 'e transport \<Rightarrow> xkb_keymap \<Rightarrow> 'e kb_op" where
  "upload_and_restore cx tr km =
     kthen (upload_keymap cx tr km) (\<lambda>k. if kb_mods k \<noteq> 0 then send_modifiers cx tr k else ([], k))"

text \<open>Cleanup runs with a context of its own; its time limit is a failure of the transport.\<close>

definition cleanup_send_key :: "'e transport \<Rightarrow> nat \<Rightarrow> 'e kb_op" where
  "cleanup_send_key tr keycode = send_key background tr keycode False"

definition cleanup_modifier_key :: "'e transport \<Rightarrow> nat \<Rightarrow> u32 \<Rightarrow> 'e kb_op" where
  "cleanup_modifier_key tr keycode bits =
     kthen (send_key background tr keycode False) (\<lambda>k.
       let previous = kb_mods k in
       kor (send_modifiers background tr) (set_mods (\<lambda>_. previous)) kdone
         (k\<lparr>kb_mods := previous AND NOT bits\<rparr>))"

definition apply_temp_mods :: "ctx \<Rightarrow> 'e transport \<Rightarrow> u32 \<Rightarrow> (u32 \<Rightarrow> 'e kb_op) \<Rightarrow> 'e kb_op" where
  "apply_temp_mods cx tr bits g k =
     (let added = bits AND NOT (kb_mods k) in
      if added = 0 then g 0 k
      else kor (send_modifiers cx tr) (set_mods (\<lambda>m. m AND NOT added)) (g added)
             (k\<lparr>kb_mods := kb_mods k OR added\<rparr>))"

definition clear_temp_mods :: "ctx \<Rightarrow> 'e transport \<Rightarrow> u32 \<Rightarrow> 'e kb_op" where
  "clear_temp_mods cx tr bits k =
     (if bits = 0 then ([], k) else send_modifiers cx tr (k\<lparr>kb_mods := kb_mods k AND NOT bits\<rparr>))"

definition clear_best_effort :: "'e transport \<Rightarrow> u32 \<Rightarrow> 'e kb_op" where
  "clear_best_effort tr bits k =
     (if bits = 0 then ([], k)
      else ([], snd (send_modifiers background tr (k\<lparr>kb_mods := kb_mods k AND NOT bits\<rparr>))))"

definition tap :: "ctx \<Rightarrow> 'e transport \<Rightarrow> nat \<Rightarrow> 'e kb_op" where
  "tap cx tr keycode =
     kthen (check_ctx cx)
    (kthen (send_key cx tr keycode True)
      (kor (sleep_ctx cx) (cleanup_send_key tr keycode)
      (kor (check_ctx cx) (cleanup_send_key tr keycode)
      (kor (send_key cx tr keycode False) (cleanup_send_key tr keycode) kdone))))"

section \<open>Validation\<close>

text \<open>One action of \<^verbatim>\<open>validateSendkeysSequence\<close> on the simulated held keys and modifiers.\<close>

definition validate_action :: "key_send \<Rightarrow> string set \<times> u32 \<Rightarrow> 'e kb_error + string set \<times> u32" where
  "validate_action a hm =
     (case hm of (held, mods) \<Rightarrow>
        if ks_text a \<noteq> [] then
          (if \<not> valid_string (ks_text a) then Inl InvalidText
           else case find (\<lambda>r. r \<in> held) (runes (ks_text a)) of
             Some r \<Rightarrow> Inl (AlreadyHeld r)
           | None \<Rightarrow> Inr (held, mods))
        else if \<not> valid_string (ks_key a) then Inl InvalidKey
        else
          let key = ks_key a; named = named_key key \<noteq> None; bits = (if named then mod_bit key else 0) in
          if ks_up a then
            (if bits \<noteq> 0 then
               (if mods AND bits = 0 then Inl (NotHeld key) else Inr (held, mods AND NOT bits))
             else if key \<notin> held then Inl (NotHeld key)
             else Inr (held - {key}, mods))
          else if ks_down a then
            (if \<not> named \<and> length (runes key) \<noteq> 1 then Inl (MultiChar key)
             else if bits \<noteq> 0 \<and> mods AND bits \<noteq> 0 \<or> bits = 0 \<and> key \<in> held then Inl (AlreadyHeld key)
             else if bits \<noteq> 0 then Inr (held, mods OR bits)
             else Inr (insert key held, mods))
          else if bits \<noteq> 0 \<and> mods AND bits \<noteq> 0 \<or> bits = 0 \<and> key \<in> held then Inl (AlreadyHeld key)
          else Inr (held, mods))"

fun validate_actions :: "key_send list \<Rightarrow> string set \<times> u32 \<Rightarrow> 'e kb_error + string set \<times> u32" where
  "validate_actions [] hm = Inr hm"
| "validate_actions (a # as) hm = ebind (validate_action a hm) (validate_actions as)"

definition held_names :: "wl_keyboard \<Rightarrow> string list" where
  "held_names k = sort (map fst (kb_held k))"

definition validate_sendkeys_sequence :: "key_send list \<Rightarrow> wl_keyboard \<Rightarrow> 'e kb_error + string set \<times> u32" where
  "validate_sendkeys_sequence actions k = validate_actions actions (fst ` set (kb_held k), kb_mods k)"

section \<open>The keymap of a batch\<close>

definition add_new :: "'a \<Rightarrow> 'a list \<Rightarrow> 'a list" where
  "add_new x xs = (if x \<in> set xs then xs else xs @ [x])"

definition action_runes :: "key_send \<Rightarrow> rune list" where
  "action_runes a =
     (if ks_text a \<noteq> [] then runes (ks_text a)
      else if named_key (ks_key a) \<noteq> None then []
      else runes (ks_key a))"

definition collect_runes :: "key_send list \<Rightarrow> rune list" where
  "collect_runes actions = fold (\<lambda>a. fold add_new (action_runes a)) actions []"

text \<open>Held characters join the runes; the loop stops at a held name that is not one character.\<close>

fun collect_held :: "string list \<Rightarrow> rune list \<Rightarrow> 'e kb_error + rune list" where
  "collect_held [] rs = Inr rs"
| "collect_held (name # names) rs =
     (if named_key name \<noteq> None then collect_held names rs
      else
        let (r, n) = decode_rune name in
        if n \<noteq> length name \<or> r = replacement \<and> n = 1 then Inl (InvalidHeldChar name)
        else collect_held names (add_new r rs))"

definition accelerator_runes :: "rune list" where
  "accelerator_runes =
     map (\<lambda>c. [c]) ''abcdefghijklmnopqrstuvwxyzABCDEFGHIJKLMNOPQRSTUVWXYZ0123456789''"

definition stable_runes :: "rune list \<Rightarrow> rune list" where
  "stable_runes rs = fold add_new rs accelerator_runes"

definition plain_named :: "string \<Rightarrow> bool" where
  "plain_named name \<longleftrightarrow> named_key name \<noteq> None \<and> mod_bit name = 0"

definition named_order :: "key_send list \<Rightarrow> string list \<Rightarrow> string list" where
  "named_order actions held =
     fold add_new (filter plain_named (map ks_key (filter (\<lambda>a. ks_text a = []) actions) @ held)) []"

text \<open>The slots of a batch; \<open>al_defs\<close> are the entries written so far.\<close>

record alloc =
  al_reserved :: "nat \<rightharpoonup> string"
  al_runes :: "rune \<rightharpoonup> nat"
  al_named :: "string \<rightharpoonup> nat"
  al_next :: nat
  al_max :: nat
  al_defs :: "keymap_def list"

definition empty_alloc :: alloc where
  "empty_alloc = \<lparr>al_reserved = Map.empty, al_runes = Map.empty, al_named = Map.empty,
     al_next = kc_dyn_base, al_max = kc_super, al_defs = []\<rparr>"

fun reserve_held :: "(string \<times> nat) list \<Rightarrow> alloc \<Rightarrow> 'e kb_error + alloc" where
  "reserve_held [] al = Inr al"
| "reserve_held ((name, slot) # hs) al =
     (if slot < 8 \<or> slot > kc_dyn_max then Inl (InvalidHeldSlot slot name)
      else case al_reserved al slot of
        Some other \<Rightarrow>
          if other \<noteq> name then Inl (SharedSlot other name slot)
          else reserve_held hs al
      | None \<Rightarrow>
          let al = al\<lparr>al_reserved := (al_reserved al)(slot \<mapsto> name)\<rparr> in
          if named_key name \<noteq> None then reserve_held hs (al\<lparr>al_named := (al_named al)(name \<mapsto> slot)\<rparr>)
          else reserve_held hs (al\<lparr>al_runes := (al_runes al)(fst (decode_rune name) \<mapsto> slot)\<rparr>))"

function take_slot :: "(nat \<rightharpoonup> string) \<Rightarrow> nat \<Rightarrow> (nat \<times> nat) option" where
  "take_slot reserved n =
     (if n > kc_dyn_max then None
      else if reserved n \<noteq> None then take_slot reserved (Suc n)
      else Some (n, Suc n))"
  by pat_completeness auto
termination by (relation "measure (\<lambda>(_, n). 256 - n)") (auto simp: kc_defs)

declare take_slot.simps [simp del]

definition next_slot :: "alloc \<Rightarrow> 'e kb_error + nat \<times> alloc" where
  "next_slot al =
     (case take_slot (al_reserved al) (al_next al) of
        None \<Rightarrow> Inl SlotsExhausted
      | Some (slot, n) \<Rightarrow> Inr (slot, al\<lparr>al_next := n\<rparr>))"

definition add_def :: "nat \<Rightarrow> keysym \<Rightarrow> alloc \<Rightarrow> alloc" where
  "add_def slot symb al =
     al\<lparr>al_max := max slot (al_max al), al_defs := al_defs al @ [SlotDef slot symb]\<rparr>"

definition assign_rune :: "rune \<Rightarrow> alloc \<Rightarrow> 'e kb_error + alloc" where
  "assign_rune r al =
     (case al_runes al r of
        Some slot \<Rightarrow> Inr (add_def slot (RuneSym r) al)
      | None \<Rightarrow>
          ebind (next_slot al) (\<lambda>(slot, al).
            Inr (add_def slot (RuneSym r) (al\<lparr>al_runes := (al_runes al)(r \<mapsto> slot)\<rparr>))))"

definition assign_named :: "string \<Rightarrow> alloc \<Rightarrow> 'e kb_error + alloc" where
  "assign_named name al =
     (let symb = NameSym (snd (the (named_key name))) in
      case al_named al name of
        Some slot \<Rightarrow> Inr (add_def slot symb al)
      | None \<Rightarrow>
          ebind (next_slot al) (\<lambda>(slot, al).
            Inr (add_def slot symb (al\<lparr>al_named := (al_named al)(name \<mapsto> slot)\<rparr>))))"

fun assign_all :: "('a \<Rightarrow> alloc \<Rightarrow> 'e kb_error + alloc) \<Rightarrow> 'a list \<Rightarrow> alloc \<Rightarrow> 'e kb_error + alloc" where
  "assign_all f [] al = Inr al"
| "assign_all f (x # xs) al = ebind (f x al) (assign_all f xs)"

text \<open>Everything \<^verbatim>\<open>sendkeys\<close> does before it touches the compositor.\<close>

definition plan_sendkeys :: "key_send list \<Rightarrow> wl_keyboard \<Rightarrow> 'e kb_error + alloc" where
  "plan_sendkeys actions k =
     ebind (collect_held (held_names k) (collect_runes actions)) (\<lambda>rs.
     let order = named_order actions (held_names k);
         stable = stable_runes rs;
         rs = (if length stable + length order \<le> max_dynamic_slots then stable else rs)
     in if length rs > max_dynamic_slots then Inl (TooManyRunes (length rs))
        else
          ebind (reserve_held (map (\<lambda>n. (n, the (map_of (kb_held k) n))) (held_names k)) empty_alloc) (\<lambda>al.
          ebind (validate_sendkeys_sequence actions k) (\<lambda>_.
          ebind (assign_all assign_rune rs al) (assign_all assign_named order))))"

definition keymap_of :: "alloc \<Rightarrow> xkb_keymap" where
  "keymap_of al = \<lparr>km_maximum = al_max al, km_defs = al_defs al\<rparr>"

section \<open>Executing a batch\<close>

definition slot_of :: "('a \<rightharpoonup> nat) \<Rightarrow> 'a \<Rightarrow> nat" where
  "slot_of m x = (case m x of None \<Rightarrow> 0 | Some s \<Rightarrow> s)"

definition hold :: "string \<Rightarrow> nat \<Rightarrow> 'e kb_op" where
  "hold name slot k = ([], k\<lparr>kb_held := AList.update name slot (kb_held k)\<rparr>)"

definition unhold :: "string \<Rightarrow> 'e kb_op" where
  "unhold name k = ([], k\<lparr>kb_held := filter (\<lambda>p. fst p \<noteq> name) (kb_held k)\<rparr>)"

fun type_runes :: "ctx \<Rightarrow> 'e transport \<Rightarrow> (rune \<rightharpoonup> nat) \<Rightarrow> 'e kb_op \<Rightarrow> rune list \<Rightarrow> 'e kb_op" where
  "type_runes cx tr slots h [] = kdone"
| "type_runes cx tr slots h (r # rs) =
     kor (tap cx tr (slot_of slots r)) h (kor (sleep_ctx cx) h (type_runes cx tr slots h rs))"

text \<open>Releasing a held key: the branches \<^verbatim>\<open>case ka.up\<close> of named and literal keys.\<close>

definition key_up :: "ctx \<Rightarrow> 'e transport \<Rightarrow> string \<Rightarrow> 'e kb_op \<Rightarrow> 'e kb_op \<Rightarrow> 'e kb_op" where
  "key_up cx tr name clear g k =
     (case map_of (kb_held k) name of
        None \<Rightarrow> kor (kfail (NotHeld name)) clear kdone k
      | Some slot \<Rightarrow> kor (send_key cx tr slot False) clear (kthen (unhold name) g) k)"

definition modifier_up :: "ctx \<Rightarrow> 'e transport \<Rightarrow> nat \<Rightarrow> u32 \<Rightarrow> 'e kb_op \<Rightarrow> 'e kb_op \<Rightarrow> 'e kb_op" where
  "modifier_up cx tr kc bits clear g =
     (let cleanup = (\<lambda>k. case cleanup_modifier_key tr kc bits k of (es, k') \<Rightarrow> (es, snd (clear k'))) in
      kor (send_key cx tr kc False) cleanup
        (kthen (set_mods (\<lambda>m. m AND NOT bits))
          (kor (send_modifiers cx tr) (kthen (set_mods (\<lambda>m. m OR bits)) cleanup) g)))"

definition modifier_down :: "ctx \<Rightarrow> 'e transport \<Rightarrow> nat \<Rightarrow> u32 \<Rightarrow> 'e kb_op \<Rightarrow> 'e kb_op \<Rightarrow> 'e kb_op" where
  "modifier_down cx tr kc bits clear g =
     (let cleanup = (\<lambda>k. case cleanup_modifier_key tr kc bits k of (es, k') \<Rightarrow> (es, snd (clear k'))) in
      kor (send_key cx tr kc True) clear
        (kthen (set_mods (\<lambda>m. m OR bits))
          (kor (send_modifiers cx tr) (kthen (set_mods (\<lambda>m. m AND NOT bits)) cleanup) g)))"

definition exec_modifier :: "ctx \<Rightarrow> 'e transport \<Rightarrow> key_send \<Rightarrow> nat \<Rightarrow> u32 \<Rightarrow> 'e kb_op \<Rightarrow> 'e kb_op \<Rightarrow> 'e kb_op" where
  "exec_modifier cx tr a kc bits clear g k =
     (if ks_up a then
        (if kb_mods k AND bits = 0 then kor (kfail (NotHeld (ks_key a))) clear kdone k
         else modifier_up cx tr kc bits clear g k)
      else if ks_down a then modifier_down cx tr kc bits clear g k
      else modifier_down cx tr kc bits clear (modifier_up cx tr kc bits clear g) k)"

definition exec_named :: "ctx \<Rightarrow> 'e transport \<Rightarrow> alloc \<Rightarrow> key_send \<Rightarrow> 'e kb_op \<Rightarrow> 'e kb_op \<Rightarrow> 'e kb_op" where
  "exec_named cx tr al a clear g =
     (let slot = slot_of (al_named al) (ks_key a);
          cleanup = (\<lambda>k. case cleanup_send_key tr slot k of (es, k') \<Rightarrow> (es, snd (clear k'))) in
      if ks_up a then key_up cx tr (ks_key a) clear g
      else if ks_down a then kor (send_key cx tr slot True) clear (kthen (hold (ks_key a) slot) g)
      else
        kor (send_key cx tr slot True) clear
          (kor (sleep_ctx cx) cleanup
            (kor (send_key cx tr slot False) cleanup g)))"

definition exec_literal :: "ctx \<Rightarrow> 'e transport \<Rightarrow> alloc \<Rightarrow> key_send \<Rightarrow> 'e kb_op \<Rightarrow> 'e kb_op \<Rightarrow> 'e kb_op" where
  "exec_literal cx tr al a clear g =
     (let rs = runes (ks_key a) in
      if ks_up a then key_up cx tr (ks_key a) clear g
      else if ks_down a then
        (if length rs \<noteq> 1 then kor (kfail (MultiChar (ks_key a))) clear kdone
         else
           let slot = slot_of (al_runes al) (hd rs) in
           kor (send_key cx tr slot True) clear (kthen (hold (ks_key a) slot) g))
      else kthen (type_runes cx tr (al_runes al) clear rs) g)"

definition exec_key :: "ctx \<Rightarrow> 'e transport \<Rightarrow> alloc \<Rightarrow> key_send \<Rightarrow> 'e kb_op" where
  "exec_key cx tr al a =
     apply_temp_mods cx tr (modifier_mask (ks_modifiers a)) (\<lambda>temp.
       let clear = clear_best_effort tr temp;
           release = kor (clear_temp_mods cx tr temp) clear kdone in
       case named_key (ks_key a) of
         Some (kc, _) \<Rightarrow>
           if mod_bit (ks_key a) \<noteq> 0 then exec_modifier cx tr a kc (mod_bit (ks_key a)) clear release
           else exec_named cx tr al a clear release
       | None \<Rightarrow> exec_literal cx tr al a clear release)"

fun exec_actions :: "ctx \<Rightarrow> 'e transport \<Rightarrow> alloc \<Rightarrow> key_send list \<Rightarrow> 'e kb_op" where
  "exec_actions cx tr al [] = kdone"
| "exec_actions cx tr al (a # as) =
     kthen (check_ctx cx)
       (kthen (if ks_text a \<noteq> [] then type_runes cx tr (al_runes al) kdone (runes (ks_text a))
               else exec_key cx tr al a)
         (exec_actions cx tr al as))"

definition sendkeys :: "ctx \<Rightarrow> 'e transport \<Rightarrow> key_send list \<Rightarrow> 'e kb_op" where
  "sendkeys cx tr actions =
     kthen (check_ctx cx) (\<lambda>k.
       if actions = [] then ([], k)
       else case plan_sendkeys actions k of
         Inl e \<Rightarrow> ([e], k)
       | Inr al \<Rightarrow> kthen (upload_and_restore cx tr (keymap_of al)) (exec_actions cx tr al actions) k)"

section \<open>Single keys\<close>

definition press_key :: "ctx \<Rightarrow> 'e transport \<Rightarrow> string \<Rightarrow> 'e kb_op" where
  "press_key cx tr key =
     kthen (check_ctx cx) (\<lambda>k.
       if kb_held k \<noteq> [] then
         sendkeys cx tr [\<lparr>ks_text = [], ks_key = key, ks_down = True, ks_up = False, ks_modifiers = no_modifiers\<rparr>] k
       else case named_key key of
         Some (kc, symb) \<Rightarrow>
           kthen (upload_and_restore cx tr (xkb_with_named kc symb))
             (kthen (send_key cx tr kc True) (\<lambda>k.
               if mod_bit key \<noteq> 0 then
                 let previous = kb_mods k in
                 kor (send_modifiers cx tr) (kthen (set_mods (\<lambda>_. previous)) (cleanup_send_key tr kc)) kdone
                   (k\<lparr>kb_mods := previous OR mod_bit key\<rparr>)
               else hold key kc k)) k
       | None \<Rightarrow>
           if length (runes key) \<noteq> 1 then kfail (MultiChar key) k
           else
             kthen (upload_and_restore cx tr (xkb_with_runes (runes key)))
               (kthen (send_key cx tr kc_dyn_base True) (hold key kc_dyn_base)) k)"

definition release_named_key :: "ctx \<Rightarrow> 'e transport \<Rightarrow> string \<Rightarrow> nat \<Rightarrow> string \<Rightarrow> 'e kb_op" where
  "release_named_key cx tr key kc symb =
     (let finish = kthen (send_key cx tr kc False) (\<lambda>k.
            if mod_bit key \<noteq> 0 then
              let previous = kb_mods k in
              kor (send_modifiers cx tr) (set_mods (\<lambda>_. previous)) kdone
                (k\<lparr>kb_mods := previous AND NOT (mod_bit key)\<rparr>)
            else unhold key k)
      in (\<lambda>k.
        if kc > kc_super then
          (if map_of (kb_held k) key = None then kfail (NotHeld key) k
           else kthen (upload_keymap cx tr (xkb_with_named kc symb)) finish k)
        else finish k))"

definition release_key :: "ctx \<Rightarrow> 'e transport \<Rightarrow> string \<Rightarrow> 'e kb_op" where
  "release_key cx tr key =
     kthen (check_ctx cx) (\<lambda>k.
       if mod_bit key \<noteq> 0 \<and> kb_mods k AND mod_bit key = 0 then kfail (NotHeld key) k
       else if (case map_of (kb_held k) key of
           None \<Rightarrow> False
         | Some slot \<Rightarrow>
             length (kb_held k) > 1 \<or> kb_mods k \<noteq> 0 \<or>
             (case named_key key of Some (kc, _) \<Rightarrow> slot \<noteq> kc | None \<Rightarrow> slot \<noteq> kc_dyn_base))
       then
         sendkeys cx tr [\<lparr>ks_text = [], ks_key = key, ks_down = False, ks_up = True, ks_modifiers = no_modifiers\<rparr>] k
       else case named_key key of
         Some (kc, symb) \<Rightarrow> release_named_key cx tr key kc symb k
       | None \<Rightarrow>
           if length (runes key) \<noteq> 1 then kfail (MultiChar key) k
           else if map_of (kb_held k) key = None then kfail (NotHeld key) k
           else
             kthen (upload_keymap cx tr (xkb_with_runes (runes key)))
               (kthen (send_key cx tr kc_dyn_base False) (unhold key)) k)"

definition warmup :: "ctx \<Rightarrow> 'e transport \<Rightarrow> 'e kb_op" where
  "warmup cx tr =
     kthen (upload_keymap cx tr xkb_mods_only)
       (kthen (send_key cx tr kc_shift True)
         (kthen (check_ctx cx) (send_key cx tr kc_shift False)))"

end
