(* ===== verification/WlKeyboardPlan.thy ===== *)
theory WlKeyboardPlan
  imports WlKeyboard "HOL-Library.Multiset"
begin

text \<open>
  The keymap that a batch of \<^verbatim>\<open>sendkeys\<close> uploads: keys held by earlier calls keep their keycode
  and symbol, every character and named key of the batch has a keycode of its own, and no two
  share one.
\<close>

section \<open>Held keys\<close>

text \<open>What is assigned a slot: a rune or a named key.\<close>

datatype item = RuneItem rune | NameItem string

definition item_of :: "string \<Rightarrow> item" where
  "item_of name = (if named_key name \<noteq> None then NameItem name else RuneItem (fst (decode_rune name)))"

fun sym_of :: "item \<Rightarrow> keysym" where
  "sym_of (RuneItem r) = RuneSym r"
| "sym_of (NameItem n) = NameSym (snd (the (named_key n)))"

text \<open>A name in the held map is a plain named key or one character.\<close>

definition held_name_ok :: "string \<Rightarrow> bool" where
  "held_name_ok n \<longleftrightarrow> plain_named n \<or> named_key n = None \<and> n \<noteq> [] \<and> decode_rune n = (n, length n)"

definition held_ok :: "(string \<times> nat) list \<Rightarrow> bool" where
  "held_ok h \<longleftrightarrow> distinct (map fst h) \<and> distinct (map snd h) \<and>
     (\<forall>(n, s) \<in> set h. held_name_ok n \<and> 12 \<le> s \<and> s \<le> kc_dyn_max)"

lemma item_of_inj: "held_name_ok n \<Longrightarrow> held_name_ok m \<Longrightarrow> item_of n = item_of m \<Longrightarrow> n = m"
  by (auto simp: item_of_def held_name_ok_def plain_named_def split: if_splits)

section \<open>Slots\<close>

fun al_slot :: "alloc \<Rightarrow> item \<Rightarrow> nat option" where
  "al_slot al (RuneItem r) = al_runes al r"
| "al_slot al (NameItem n) = al_named al n"

fun set_slot :: "item \<Rightarrow> nat \<Rightarrow> alloc \<Rightarrow> alloc" where
  "set_slot (RuneItem r) s al = al\<lparr>al_runes := (al_runes al)(r \<mapsto> s)\<rparr>"
| "set_slot (NameItem n) s al = al\<lparr>al_named := (al_named al)(n \<mapsto> s)\<rparr>"

lemma al_slot_set [simp]: "al_slot (set_slot i s al) j = (if j = i then Some s else al_slot al j)"
  by (cases i; cases j) auto

lemma set_slot_frame [simp]:
  "al_next (set_slot i s al) = al_next al" "al_reserved (set_slot i s al) = al_reserved al"
  "al_defs (set_slot i s al) = al_defs al" "al_max (set_slot i s al) = al_max al"
  by (cases i; simp)+

lemma al_slot_frame [simp]:
  "al_slot (al\<lparr>al_next := n\<rparr>) i = al_slot al i" "al_slot (al\<lparr>al_reserved := m\<rparr>) i = al_slot al i"
  "al_slot (add_def s y al) i = al_slot al i" "al_next (add_def s y al) = al_next al"
  "al_reserved (add_def s y al) = al_reserved al" "al_defs (add_def s y al) = al_defs al @ [SlotDef s y]"
  by (cases i; simp add: add_def_def)+

definition assign_item :: "item \<Rightarrow> alloc \<Rightarrow> 'e kb_error + alloc" where
  "assign_item i al =
     (case al_slot al i of
        Some slot \<Rightarrow> Inr (add_def slot (sym_of i) al)
      | None \<Rightarrow> ebind (next_slot al) (\<lambda>(slot, al). Inr (add_def slot (sym_of i) (set_slot i slot al))))"

lemma assign_rune_item: "assign_rune r al = assign_item (RuneItem r) al"
  by (simp add: assign_rune_def assign_item_def cong: option.case_cong)

lemma assign_named_item: "assign_named n al = assign_item (NameItem n) al"
  by (simp add: assign_named_def assign_item_def Let_def cong: option.case_cong)

lemma assign_all_append: "assign_all f (xs @ ys) al = ebind (assign_all f xs al) (assign_all f ys)"
proof (induction xs arbitrary: al)
  case (Cons x xs)
  then show ?case by (cases "f x al") auto
qed simp

lemma assign_all_map: "assign_all f (map g xs) al = assign_all (\<lambda>x. f (g x)) xs al"
proof (induction xs arbitrary: al)
  case (Cons x xs)
  then show ?case by (cases "f (g x) al") auto
qed simp

lemma assign_all_items:
  "assign_all assign_rune rs al = assign_all assign_item (map RuneItem rs) al"
  "assign_all assign_named ns al = assign_all assign_item (map NameItem ns) al"
  unfolding assign_all_map by (simp_all add: assign_rune_item [abs_def] assign_named_item [abs_def])

lemma take_slot_fresh:
  "take_slot reserved n = Some (s, n') \<Longrightarrow> n \<le> s \<and> s \<le> kc_dyn_max \<and> reserved s = None \<and> n' = Suc s"
proof (induction reserved n rule: take_slot.induct)
  case (1 reserved n)
  then show ?case
    by (subst (asm) (2) take_slot.simps) (auto split: if_splits)
qed

definition alloc_ok :: "alloc \<Rightarrow> bool" where
  "alloc_ok al \<longleftrightarrow>
     (\<forall>i j s. al_slot al i = Some s \<longrightarrow> al_slot al j = Some s \<longrightarrow> i = j) \<and>
     (\<forall>i s. al_slot al i = Some s \<longrightarrow>
        12 \<le> s \<and> s \<le> kc_dyn_max \<and> (s < al_next al \<or> al_reserved al s \<noteq> None)) \<and>
     12 \<le> al_next al"

lemma assign_item_ok:
  assumes "assign_item i al = (Inr al' :: 'e kb_error + alloc)" "alloc_ok al"
  shows "alloc_ok al' \<and> (\<forall>j s. al_slot al j = Some s \<longrightarrow> al_slot al' j = Some s) \<and>
    (\<exists>s. al_slot al' i = Some s \<and> al_defs al' = al_defs al @ [SlotDef s (sym_of i)])"
proof (cases "al_slot al i")
  case (Some s)
  have "alloc_ok (add_def s (sym_of i) al) = alloc_ok al" unfolding alloc_ok_def by simp
  with Some assms show ?thesis by (auto simp: assign_item_def)
next
  case None
  with assms(1) obtain s n where t: "take_slot (al_reserved al) (al_next al) = Some (s, n)"
    and al': "al' = add_def s (sym_of i) (set_slot i s (al\<lparr>al_next := n\<rparr>))"
    by (auto simp: assign_item_def next_slot_def split: option.splits)
  have f: "al_next al \<le> s" "s \<le> kc_dyn_max" "al_reserved al s = None" "n = Suc s"
    using take_slot_fresh [OF t] by simp_all
  have new: "al_slot al j \<noteq> Some s" for j
  proof
    assume "al_slot al j = Some s"
    then have "s < al_next al \<or> al_reserved al s \<noteq> None" using assms(2) unfolding alloc_ok_def by blast
    with f show False by simp
  qed
  have old: "12 \<le> t \<and> t \<le> kc_dyn_max \<and> (t < al_next al \<or> al_reserved al t \<noteq> None)" if "al_slot al j = Some t" for j t
    using that assms(2) unfolding alloc_ok_def by blast
  have inj: "j = j'" if "al_slot al j = Some t" "al_slot al j' = Some t" for j j' t
    using that assms(2) unfolding alloc_ok_def by blast
  have "12 \<le> al_next al" using assms(2) by (simp add: alloc_ok_def)
  then have "alloc_ok al'"
    unfolding alloc_ok_def al'
    using f new old inj by (auto simp: less_Suc_eq_le dest!: old split: if_splits)
  with None show ?thesis by (auto simp: al')
qed

lemma assign_all_ok:
  assumes "assign_all assign_item is al = (Inr al' :: 'e kb_error + alloc)" "alloc_ok al"
  shows "alloc_ok al' \<and> (\<forall>j s. al_slot al j = Some s \<longrightarrow> al_slot al' j = Some s) \<and>
    list_all (\<lambda>i. al_slot al' i \<noteq> None) is \<and>
    al_defs al' = al_defs al @ map (\<lambda>i. SlotDef (the (al_slot al' i)) (sym_of i)) is"
  using assms
proof (induction "is" arbitrary: al)
  case (Cons i "is")
  then obtain al1 where a: "assign_item i al = (Inr al1 :: 'e kb_error + alloc)"
    "assign_all assign_item is al1 = (Inr al' :: 'e kb_error + alloc)" by auto
  from assign_item_ok [OF a(1) Cons.prems(2)] obtain s where s: "alloc_ok al1"
    "\<forall>j s. al_slot al j = Some s \<longrightarrow> al_slot al1 j = Some s" "al_slot al1 i = Some s"
    "al_defs al1 = al_defs al @ [SlotDef s (sym_of i)]" by blast
  from Cons.IH [OF a(2) s(1)] s show ?case by auto
qed simp

section \<open>Reserving the held slots\<close>

lemma held_item_literal: "named_key n = None \<Longrightarrow> item_of n = RuneItem (fst (decode_rune n))"
  by (simp add: item_of_def)

lemma reserve_held_ok:
  assumes "reserve_held hs al = (Inr al' :: 'e kb_error + alloc)" "alloc_ok al"
    "distinct (map fst hs)" "distinct (map snd hs)"
    "\<forall>(n, s) \<in> set hs. held_name_ok n \<and> 12 \<le> s \<and> al_slot al (item_of n) = None \<and> al_reserved al s = None"
    "\<forall>i s. al_slot al i = Some s \<longrightarrow> al_reserved al s \<noteq> None"
  shows "alloc_ok al' \<and> (\<forall>j s. al_slot al j = Some s \<longrightarrow> al_slot al' j = Some s) \<and>
    (\<forall>(n, s) \<in> set hs. al_slot al' (item_of n) = Some s) \<and> al_defs al' = al_defs al \<and> al_next al' = al_next al"
  using assms
proof (induction hs arbitrary: al)
  case (Cons p hs)
  obtain n s where p: "p = (n, s)" by (cases p)
  let ?al1 = "set_slot (item_of n) s (al\<lparr>al_reserved := (al_reserved al)(s \<mapsto> n)\<rparr>)"
  have facts: "held_name_ok n" "12 \<le> s" "al_slot al (item_of n) = None" "al_reserved al s = None"
    using Cons.prems(5) p by auto
  have slot: "8 \<le> s" "s \<le> kc_dyn_max" and rest: "reserve_held hs ?al1 = (Inr al' :: 'e kb_error + alloc)"
    using Cons.prems(1) facts unfolding p by (auto simp: item_of_def split: if_splits)
  have res: "al_reserved al t \<noteq> None" if "al_slot al j = Some t" for j t using that Cons.prems(6) by blast
  have new: "al_slot al j \<noteq> Some s" for j using res [of j s] facts(4) by auto
  have ok1: "alloc_ok ?al1"
    using Cons.prems(2) facts slot new unfolding alloc_ok_def by auto
  have d: "distinct (map fst hs)" "distinct (map snd hs)" "n \<notin> fst ` set hs" "s \<notin> snd ` set hs"
    using Cons.prems(3,4) p by simp_all
  have pre: "\<forall>(m, t) \<in> set hs. held_name_ok m \<and> 12 \<le> t \<and> al_slot ?al1 (item_of m) = None \<and> al_reserved ?al1 t = None"
  proof (clarify, intro conjI)
    fix m t assume mt: "(m, t) \<in> set hs"
    with Cons.prems(5) have o: "held_name_ok m" "12 \<le> t" "al_slot al (item_of m) = None" "al_reserved al t = None"
      by auto
    show "held_name_ok m" "12 \<le> t" by fact+
    have "m \<noteq> n" using mt d(3) by force
    then have "item_of m \<noteq> item_of n" using item_of_inj [OF o(1) facts(1)] by blast
    then show "al_slot ?al1 (item_of m) = None" using o(3) by simp
    have "t \<noteq> s" using mt d(4) by force
    then show "al_reserved ?al1 t = None" using o(4) by simp
  qed
  have pre2: "\<forall>i t. al_slot ?al1 i = Some t \<longrightarrow> al_reserved ?al1 t \<noteq> None"
    using Cons.prems(6) by auto
  note IH = Cons.IH [OF rest ok1 d(1,2) pre pre2]
  then have "al_slot al' (item_of n) = Some s" by simp
  moreover have "al_slot al' j = Some t" if "al_slot al j = Some t" for j t
  proof -
    have "j \<noteq> item_of n" using that facts(3) by auto
    with that IH show ?thesis by simp
  qed
  ultimately show ?case using IH p by auto
qed simp

section \<open>The plan of a batch\<close>

lemma add_new_facts [simp]:
  "set (add_new x xs) = insert x (set xs)" "distinct (add_new x xs) = distinct xs"
  by (auto simp: add_new_def)

lemma fold_add_new [simp]:
  "set (fold add_new xs acc) = set acc \<union> set xs" "distinct (fold add_new xs acc) = distinct acc"
  by (induction xs arbitrary: acc) auto

lemma collect_runes_facts:
  "distinct (collect_runes actions)" "set (collect_runes actions) = (\<Union>a \<in> set actions. set (action_runes a))"
proof -
  have "distinct (fold (\<lambda>a. fold add_new (action_runes a)) actions acc) = distinct acc \<and>
      set (fold (\<lambda>a. fold add_new (action_runes a)) actions acc) =
        set acc \<union> (\<Union>a \<in> set actions. set (action_runes a))" for acc
    by (induction actions arbitrary: acc) auto
  from this [of "[]"] show "distinct (collect_runes actions)"
    "set (collect_runes actions) = (\<Union>a \<in> set actions. set (action_runes a))"
    by (simp_all add: collect_runes_def)
qed

lemma collect_held_facts:
  "collect_held names rs = (Inr rs' :: 'e kb_error + rune list) \<Longrightarrow> distinct rs \<Longrightarrow>
     distinct rs' \<and> set rs \<subseteq> set rs' \<and>
     (\<forall>n \<in> set names. named_key n = None \<longrightarrow> fst (decode_rune n) \<in> set rs')"
proof (induction names arbitrary: rs)
  case (Cons n ns)
  show ?case
  proof (cases "named_key n")
    case None
    then have "collect_held ns (add_new (fst (decode_rune n)) rs) = (Inr rs' :: 'e kb_error + rune list)"
      using Cons.prems(1) by (auto simp: case_prod_beta split: if_splits)
    from Cons.IH [OF this] Cons.prems(2) show ?thesis by auto
  next
    case (Some x)
    with Cons show ?thesis by auto
  qed
qed simp

lemma accelerator_distinct: "distinct accelerator_runes"
  by (simp add: accelerator_runes_def)

lemma stable_facts: "distinct (stable_runes rs)" "set rs \<subseteq> set (stable_runes rs)"
  by (simp_all add: stable_runes_def accelerator_distinct)

lemma named_order_facts:
  "distinct (named_order actions held)"
  "set (named_order actions held) =
     {n. plain_named n \<and> (n \<in> set held \<or> (\<exists>a \<in> set actions. ks_text a = [] \<and> ks_key a = n))}"
  by (auto simp: named_order_def)

lemma held_names_pairs:
  assumes "distinct (map fst (kb_held k))"
  shows "set (map (\<lambda>n. (n, the (map_of (kb_held k) n))) (held_names k)) = set (kb_held k)"
    "map fst (map (\<lambda>n. (n, the (map_of (kb_held k) n))) (held_names k)) = held_names k"
proof -
  have "(\<lambda>n. (n, the (map_of h n))) ` fst ` set h = set h" if "distinct (map fst h)" for h :: "(string \<times> nat) list"
    using that by (force simp: image_iff)
  with assms show "set (map (\<lambda>n. (n, the (map_of (kb_held k) n))) (held_names k)) = set (kb_held k)"
    by (simp add: held_names_def)
  show "map fst (map (\<lambda>n. (n, the (map_of (kb_held k) n))) (held_names k)) = held_names k"
    by (simp add: comp_def)
qed

lemma empty_alloc_ok: "alloc_ok empty_alloc"
proof -
  have "al_slot empty_alloc i = None" for i by (cases i) (simp_all add: empty_alloc_def)
  then show ?thesis by (simp add: alloc_ok_def) (simp add: empty_alloc_def kc_defs)
qed

lemma empty_alloc_slots [simp]: "al_slot empty_alloc i = None" "al_reserved empty_alloc s = None"
  by (cases i; simp add: empty_alloc_def) (simp add: empty_alloc_def)

lemma empty_defs: "al_defs empty_alloc = []"
  by (simp add: empty_alloc_def)

text \<open>What the execution of a batch needs to know about its plan.\<close>

definition plan_ok :: "key_send list \<Rightarrow> (string \<times> nat) list \<Rightarrow> alloc \<Rightarrow> bool" where
  "plan_ok actions h al \<longleftrightarrow>
     alloc_ok al \<and> distinct (map def_slot (al_defs al)) \<and>
     (\<forall>d \<in> set (al_defs al). def_slot d \<le> kc_dyn_max) \<and>
     (\<forall>(n, s) \<in> set h. al_slot al (item_of n) = Some s \<and> SlotDef s (sym_of (item_of n)) \<in> set (al_defs al)) \<and>
     (\<forall>a \<in> set actions. \<forall>r \<in> set (action_runes a).
        \<exists>s. al_slot al (RuneItem r) = Some s \<and> SlotDef s (RuneSym r) \<in> set (al_defs al)) \<and>
     (\<forall>a \<in> set actions. ks_text a = [] \<and> plain_named (ks_key a) \<longrightarrow>
        (\<exists>s. al_slot al (NameItem (ks_key a)) = Some s \<and> SlotDef s (sym_of (NameItem (ks_key a))) \<in> set (al_defs al)))"

lemma items_distinct: "distinct rs \<Longrightarrow> distinct ns \<Longrightarrow> distinct (map RuneItem rs @ map NameItem ns)"
  by (auto simp: distinct_map intro: inj_onI)

lemma plan_sendkeys_ok:
  assumes h: "held_ok (kb_held k)" and p: "plan_sendkeys actions k = (Inr al :: 'e kb_error + alloc)"
  shows "plan_ok actions (kb_held k) al \<and>
    (\<exists>hm. validate_sendkeys_sequence actions k = (Inr hm :: 'e kb_error + string set \<times> u32))"
proof -
  let ?pairs = "map (\<lambda>n. (n, the (map_of (kb_held k) n))) (held_names k)"
  let ?order = "named_order actions (held_names k)"
  obtain rs0 where c: "collect_held (held_names k) (collect_runes actions) = (Inr rs0 :: 'e kb_error + rune list)"
    using p by (auto simp: plan_sendkeys_def)
  obtain rs where rs: "rs = (if length (stable_runes rs0) + length ?order \<le> max_dynamic_slots then stable_runes rs0 else rs0)"
    by blast
  obtain al0 hm where r: "reserve_held ?pairs empty_alloc = (Inr al0 :: 'e kb_error + alloc)"
    and v: "validate_sendkeys_sequence actions k = (Inr hm :: 'e kb_error + string set \<times> u32)"
    and a: "ebind (assign_all assign_rune rs al0) (assign_all assign_named ?order) = (Inr al :: 'e kb_error + alloc)"
    using p c unfolding plan_sendkeys_def Let_def rs by (auto split: if_splits)
  have d: "distinct (map fst (kb_held k))" "distinct (map snd (kb_held k))" using h by (simp_all add: held_ok_def)
  have hn: "set (held_names k) = fst ` set (kb_held k)" "distinct (held_names k)"
    using d by (simp_all add: held_names_def)
  note pairs = held_names_pairs [OF d(1)]
  have "distinct (map snd ?pairs)"
  proof -
    have "mset ?pairs = mset (kb_held k)"
      using pairs hn d(1) by (intro set_eq_iff_mset_eq_distinct [THEN iffD1]) (auto simp: distinct_map intro!: inj_onI)
    then have "mset (map snd ?pairs) = mset (map snd (kb_held k))" by (simp only: mset_map)
    then show ?thesis using d(2) by (metis mset_eq_imp_distinct_iff)
  qed
  moreover have "distinct (map fst ?pairs)" unfolding pairs(2) by (rule hn(2))
  moreover have "\<forall>(n, s) \<in> set ?pairs. held_name_ok n \<and> 12 \<le> s \<and> al_slot empty_alloc (item_of n) = None \<and> al_reserved empty_alloc s = None"
    unfolding pairs(1) using h by (auto simp: held_ok_def)
  ultimately have R: "alloc_ok al0" "\<forall>(n, s) \<in> set (kb_held k). al_slot al0 (item_of n) = Some s" "al_defs al0 = []"
    using reserve_held_ok [OF r empty_alloc_ok] unfolding pairs(1) by (simp_all add: empty_defs)
  let ?items = "map RuneItem rs @ map NameItem ?order"
  have A: "assign_all assign_item ?items al0 = (Inr al :: 'e kb_error + alloc)"
    using a by (simp add: assign_all_append assign_all_items)
  from assign_all_ok [OF A R(1)] R(3) have al: "alloc_ok al"
    "\<forall>j s. al_slot al0 j = Some s \<longrightarrow> al_slot al j = Some s" "list_all (\<lambda>i. al_slot al i \<noteq> None) ?items"
    "al_defs al = map (\<lambda>i. SlotDef (the (al_slot al i)) (sym_of i)) ?items" by simp_all
  have item: "\<exists>s. al_slot al i = Some s \<and> SlotDef s (sym_of i) \<in> set (al_defs al)"
    if i: "i \<in> set ?items" for i
  proof -
    have "al_slot al i \<noteq> None" using al(3) i unfolding list_all_iff by blast
    then obtain s where s: "al_slot al i = Some s" by blast
    have "SlotDef (the (al_slot al i)) (sym_of i) \<in> set (al_defs al)"
      unfolding al(4) set_map using i by (rule imageI)
    with s show ?thesis by simp
  qed
  have rs0: "distinct rs0" "set (collect_runes actions) \<subseteq> set rs0"
    "\<forall>n \<in> set (held_names k). named_key n = None \<longrightarrow> fst (decode_rune n) \<in> set rs0"
    using collect_held_facts [OF c collect_runes_facts(1)] by blast+
  have rsd: "distinct rs" "set rs0 \<subseteq> set rs" using rs rs0(1) stable_facts [of rs0] by auto
  have "distinct (map def_slot (al_defs al))"
  proof -
    have "map def_slot (al_defs al) = map (\<lambda>i. the (al_slot al i)) ?items" by (simp add: al(4) comp_def)
    moreover have "inj_on (\<lambda>i. the (al_slot al i)) (set ?items)"
    proof (rule inj_onI)
      fix i j assume ij: "i \<in> set ?items" "j \<in> set ?items" "the (al_slot al i) = the (al_slot al j)"
      from item [OF ij(1)] item [OF ij(2)] ij(3) obtain s where "al_slot al i = Some s" "al_slot al j = Some s" by auto
      then show "i = j" using al(1) unfolding alloc_ok_def by blast
    qed
    ultimately show ?thesis
      using items_distinct [OF rsd(1) named_order_facts(1)] by (simp only: distinct_map)
  qed
  moreover have "al_slot al (item_of n) = Some s \<and> SlotDef s (sym_of (item_of n)) \<in> set (al_defs al)"
    if ns: "(n, s) \<in> set (kb_held k)" for n s
  proof -
    have "n \<in> fst ` set (kb_held k)" using ns by force
    then have n: "n \<in> set (held_names k)" "held_name_ok n" using ns hn(1) h by (auto simp: held_ok_def)
    have "item_of n \<in> set ?items"
    proof (cases "named_key n")
      case None
      then show ?thesis using n(1) rs0(3) rsd(2) by (auto simp: item_of_def)
    next
      case (Some x)
      with n(2) have "plain_named n" by (simp add: held_name_ok_def)
      with Some n(1) show ?thesis by (auto simp: item_of_def named_order_facts(2))
    qed
    from item [OF this] show ?thesis using al(2) R(2) ns by force
  qed
  moreover have "\<exists>s. al_slot al (RuneItem r) = Some s \<and> SlotDef s (RuneSym r) \<in> set (al_defs al)"
    if "a \<in> set actions" "r \<in> set (action_runes a)" for a r
  proof -
    have "RuneItem r \<in> set ?items" using that rs0(2) rsd(2) collect_runes_facts(2) by auto
    from item [OF this] show ?thesis by simp
  qed
  moreover have "\<exists>s. al_slot al (NameItem (ks_key a)) = Some s \<and> SlotDef s (sym_of (NameItem (ks_key a))) \<in> set (al_defs al)"
    if "a \<in> set actions" "ks_text a = []" "plain_named (ks_key a)" for a
    using that by (intro item) (auto simp: named_order_facts(2))
  moreover have "def_slot d \<le> kc_dyn_max" if d: "d \<in> set (al_defs al)" for d
  proof -
    obtain i where i: "i \<in> set ?items" "def_slot d = the (al_slot al i)" using d by (auto simp only: al(4) set_map keymap_def.sel)
    from item [OF i(1)] obtain s where "al_slot al i = Some s" by blast
    moreover from this have "s \<le> kc_dyn_max" using al(1) unfolding alloc_ok_def by blast
    ultimately show ?thesis using i(2) by simp
  qed
  ultimately show ?thesis using al(1) v unfolding plan_ok_def by blast
qed

text \<open>
  C15. The keymap of a batch never orphans or aliases a key: keys held by earlier calls keep their
  keycode and their symbol, every character and every plain named key of the batch is defined
  with its own symbol, no keycode is defined twice, and all of them lie above the modifiers
  and within the 8-bit keycodes.
\<close>

theorem plan_keeps_held:
  assumes "held_ok (kb_held k)" "plan_sendkeys actions k = (Inr al :: 'e kb_error + alloc)"
  shows "distinct (map def_slot (km_defs (keymap_of al))) \<and>
    (\<forall>d \<in> set (al_defs al). def_slot d \<le> kc_dyn_max) \<and>
    (\<forall>(n, s) \<in> set (kb_held k). SlotDef s (sym_of (item_of n)) \<in> set (km_defs (keymap_of al))) \<and>
    (\<forall>a \<in> set actions. \<forall>r \<in> set (action_runes a).
       \<exists>s. al_runes al r = Some s \<and> 12 \<le> s \<and> SlotDef s (RuneSym r) \<in> set (km_defs (keymap_of al))) \<and>
    (\<forall>a \<in> set actions. ks_text a = [] \<and> plain_named (ks_key a) \<longrightarrow>
       (\<exists>s. al_named al (ks_key a) = Some s \<and> 12 \<le> s \<and>
          SlotDef s (sym_of (NameItem (ks_key a))) \<in> set (km_defs (keymap_of al))))"
proof -
  from plan_sendkeys_ok [OF assms] have ok: "alloc_ok al" "plan_ok actions (kb_held k) al"
    by (auto simp: plan_ok_def)
  have low: "12 \<le> s" if "al_slot al i = Some s" for i s using that ok(1) unfolding alloc_ok_def by blast
  have "\<exists>s. al_runes al r = Some s \<and> 12 \<le> s \<and> SlotDef s (RuneSym r) \<in> set (al_defs al)"
    if "a \<in> set actions" "r \<in> set (action_runes a)" for a r
    using that ok(2) low [of "RuneItem r"] unfolding plan_ok_def by fastforce
  moreover have "\<exists>s. al_named al (ks_key a) = Some s \<and> 12 \<le> s \<and> SlotDef s (sym_of (NameItem (ks_key a))) \<in> set (al_defs al)"
    if "a \<in> set actions" "ks_text a = []" "plain_named (ks_key a)" for a
    using that ok(2) low [of "NameItem (ks_key a)"] unfolding plan_ok_def by fastforce
  ultimately show ?thesis using ok(2) unfolding plan_ok_def keymap_of_def by auto
qed

text \<open>A keyboard that holds one character, and a batch that types, taps and holds.\<close>

abbreviation held_b :: wl_keyboard where
  "held_b \<equiv> \<lparr>kb_mods = 0, kb_held = [(''b'', 38)], kb_last = None, kb_log = [], kb_time = 0\<rparr>"

abbreviation mixed_batch :: "key_send list" where
  "mixed_batch \<equiv>
    [\<lparr>ks_text = ''hi'', ks_key = [], ks_down = False, ks_up = False, ks_modifiers = no_modifiers\<rparr>,
     \<lparr>ks_text = [], ks_key = ''enter'', ks_down = False, ks_up = False, ks_modifiers = no_modifiers\<rparr>,
     \<lparr>ks_text = [], ks_key = ''z'', ks_down = True, ks_up = False, ks_modifiers = no_modifiers\<rparr>]"

lemma mixed_batch_plans: "\<not> isl (plan_sendkeys mixed_batch held_b :: unit kb_error + alloc)"
  by code_simp

lemma held_b_ok: "held_ok (kb_held held_b)"
  by (simp add: held_ok_def) code_simp

theorem plan_keeps_held_witness:
  "\<exists>al. plan_sendkeys mixed_batch held_b = (Inr al :: unit kb_error + alloc) \<and>
     SlotDef 38 (RuneSym ''b'') \<in> set (km_defs (keymap_of al))"
proof -
  obtain al where al: "plan_sendkeys mixed_batch held_b = (Inr al :: unit kb_error + alloc)"
    using mixed_batch_plans by (cases "plan_sendkeys mixed_batch held_b :: unit kb_error + alloc") auto
  have "sym_of (item_of ''b'') = RuneSym ''b''" by code_simp
  then show ?thesis using plan_keeps_held [OF held_b_ok al] al by auto
qed

end
