(* ===== verification/WlKeyboardSafety.thy ===== *)
theory WlKeyboardSafety
  imports WlKeyboardPlan
begin

text \<open>
  What the compositor believes is pressed, against the bookkeeping of the virtual keyboard: on a
  transport that delivers what it is given, cancelling an operation at any instant leaves the
  two in agreement. Operations are reasoned about with triples that have one postcondition for
  success and one for an error return.
\<close>

section \<open>Pressed keys\<close>

fun msg_pressed :: "wl_msg \<Rightarrow> nat set \<Rightarrow> nat set" where
  "msg_pressed (KeyMsg c True) D = insert c D"
| "msg_pressed (KeyMsg c False) D = D - {c}"
| "msg_pressed _ D = D"

text \<open>The evdev codes down after the messages the compositor received.\<close>

definition pressed :: "wl_keyboard \<Rightarrow> nat set" where
  "pressed k = fold msg_pressed (kb_log k) {}"

definition held_codes :: "(string \<times> nat) list \<Rightarrow> nat set" where
  "held_codes h = (\<lambda>p. snd p - 8) ` set h"

definition mod_codes :: "u32 \<Rightarrow> nat set" where
  "mod_codes m =
     (if m AND 1 \<noteq> 0 then {0} else {}) \<union> (if m AND 4 \<noteq> 0 then {1} else {}) \<union>
     (if m AND 8 \<noteq> 0 then {2} else {}) \<union> (if m AND 64 \<noteq> 0 then {3} else {})"

definition consistent :: "wl_keyboard \<Rightarrow> bool" where
  "consistent k \<longleftrightarrow> held_ok (kb_held k) \<and> pressed k = held_codes (kb_held k) \<union> mod_codes (kb_mods k)"

definition reliable :: "'e transport" where "reliable = (\<lambda>_. None)"

section \<open>Triples\<close>

definition triple ::
    "(wl_keyboard \<Rightarrow> bool) \<Rightarrow> 'e kb_op \<Rightarrow> (wl_keyboard \<Rightarrow> bool) \<Rightarrow> (wl_keyboard \<Rightarrow> bool) \<Rightarrow> bool" where
  "triple P f Q E \<longleftrightarrow> (\<forall>k. P k \<longrightarrow> (case f k of (es, k') \<Rightarrow> if es = [] then Q k' else E k'))"

lemma tripleI: "(\<And>k es k'. P k \<Longrightarrow> f k = (es, k') \<Longrightarrow> if es = [] then Q k' else E k') \<Longrightarrow> triple P f Q E"
  by (simp add: triple_def split: prod.split)

lemma tripleD: "triple P f Q E \<Longrightarrow> P k \<Longrightarrow> f k = (es, k') \<Longrightarrow> if es = [] then Q k' else E k'"
  by (drule triple_def [THEN iffD1]) (drule spec [of _ k], simp)

lemma triple_kor:
  assumes "triple P f Q1 E1" "triple E1 h E E" "triple Q1 g Q E"
  shows "triple P (kor f h g) Q E"
proof (rule tripleI)
  fix k es k' assume k: "P k" "kor f h g k = (es, k')"
  obtain fs k1 where f: "f k = (fs, k1)" by fastforce
  obtain hs k2 where h: "h k1 = (hs, k2)" by fastforce
  note F = tripleD [OF assms(1) k(1) f]
  show "if es = [] then Q k' else E k'"
  proof (cases "fs = []")
    case True
    then have "g k1 = (es, k')" "Q1 k1" using k(2) f F by (simp_all add: kor_def)
    then show ?thesis using tripleD [OF assms(3)] by blast
  next
    case False
    then have "E1 k1" "es = fs @ hs" "k' = k2" using k(2) f h F by (simp_all add: kor_def)
    then show ?thesis using tripleD [OF assms(2) _ h] False by (simp split: if_splits)
  qed
qed

lemma triple_kdone: "(\<And>k. P k \<Longrightarrow> Q k) \<Longrightarrow> triple P kdone Q E"
  by (simp add: triple_def kdone_def)

lemma triple_kthen: "triple P f Q1 E \<Longrightarrow> triple Q1 g Q E \<Longrightarrow> triple P (kthen f g) Q E"
  unfolding kthen_def by (erule triple_kor) (rule triple_kdone)

lemma triple_kfail: "(\<And>k. P k \<Longrightarrow> E k) \<Longrightarrow> triple P (kfail e) Q E"
  by (simp add: triple_def kfail_def)

lemma triple_cons:
  assumes "triple P' f Q' E'" "\<And>k. P k \<Longrightarrow> P' k" "\<And>k. Q' k \<Longrightarrow> Q k" "\<And>k. E' k \<Longrightarrow> E k"
  shows "triple P f Q E"
proof (rule tripleI)
  fix k es k' assume "P k" "f k = (es, k')"
  with tripleD [OF assms(1) assms(2)] show "if es = [] then Q k' else E k'"
    using assms(3,4) by (metis (full_types))
qed

lemma triple_cleanup:
  assumes "triple P c Q Q" "triple Q f E E"
  shows "triple P (\<lambda>k. case c k of (es, k') \<Rightarrow> (es, snd (f k'))) E E"
proof (rule tripleI)
  fix k es k' assume k: "P k" "(case c k of (es, k') \<Rightarrow> (es, snd (f k'))) = (es, k')"
  obtain k1 where c: "c k = (es, k1)" "k' = snd (f k1)" using k(2) by (cases "c k") auto
  obtain fs k2 where f: "f k1 = (fs, k2)" by fastforce
  have "Q k1" using tripleD [OF assms(1) k(1) c(1)] by (simp split: if_splits)
  from tripleD [OF assms(2) this f] show "if es = [] then E k' else E k'" using c(2) f by (simp split: if_splits)
qed

text \<open>The abstract state: held keys, modifier mask, and what the compositor sees pressed.\<close>

definition st :: "(string \<times> nat) list \<Rightarrow> u32 \<Rightarrow> nat set \<Rightarrow> wl_keyboard \<Rightarrow> bool" where
  "st h m D k \<longleftrightarrow> kb_held k = h \<and> kb_mods k = m \<and> pressed k = D"

lemma st_tick [simp]: "st h m D (tick k) = st h m D k"
  by (simp add: st_def tick_def pressed_def)

lemma pressed_append [simp]: "pressed (k\<lparr>kb_log := kb_log k @ [x]\<rparr>) = msg_pressed x (pressed k)"
  by (simp add: pressed_def)

lemma pressed_frame [simp]:
  "pressed (k\<lparr>kb_mods := m\<rparr>) = pressed k" "pressed (k\<lparr>kb_held := h\<rparr>) = pressed k"
  "pressed (k\<lparr>kb_last := l\<rparr>) = pressed k" "pressed (k\<lparr>kb_time := t\<rparr>) = pressed k"
  by (simp_all add: pressed_def)

lemma triple_write:
  "triple (st h m D) (write_kb cx reliable x) (st h m (msg_pressed x D)) (st h m D)"
  by (simp add: triple_def write_kb_def reliable_def split: option.split) (simp add: st_def)

lemma triple_write_background:
  "triple (st h m D) (write_kb background reliable x) (st h m (msg_pressed x D)) E"
  by (simp add: triple_def write_kb_def reliable_def background_def) (simp add: st_def)

lemma triple_check: "triple (st h m D) (check_ctx cx) (st h m D) (st h m D)"
  by (simp add: triple_def check_ctx_def split: option.split)

lemma triple_sleep: "triple (st h m D) (sleep_ctx cx) (st h m D) (st h m D)"
  by (simp add: sleep_ctx_def triple_check)

lemma triple_down: "8 \<le> c \<Longrightarrow>
    triple (st h m D) (send_key cx reliable c True) (st h m (insert (c - 8) D)) (st h m D)"
  using triple_write [of h m D cx "KeyMsg (c - 8) True"] by (simp add: send_key_def)

lemma triple_up: "8 \<le> c \<Longrightarrow>
    triple (st h m D) (send_key cx reliable c False) (st h m (D - {c - 8})) (st h m D)"
  using triple_write [of h m D cx "KeyMsg (c - 8) False"] by (simp add: send_key_def)

lemma triple_cleanup_key: "8 \<le> c \<Longrightarrow>
    triple (st h m D) (cleanup_send_key reliable c) (st h m (D - {c - 8})) E"
  using triple_write_background [of h m D "KeyMsg (c - 8) False" E] by (simp add: cleanup_send_key_def send_key_def)

lemma triple_mods: "triple (st h m D) (send_modifiers cx reliable) (st h m D) (st h m D)"
  using triple_write [of h m D cx "ModsMsg m"]
  by (auto simp: triple_def send_modifiers_def st_def)

lemma triple_mods_background: "triple (st h m D) (send_modifiers background reliable) (st h m D) E"
  using triple_write_background [of h m D "ModsMsg m" E]
  by (auto simp: triple_def send_modifiers_def st_def)

lemma triple_set_mods: "triple (st h m D) (set_mods f) (st h (f m) D) E"
  by (auto simp: triple_def set_mods_def st_def)

text \<open>Steps that start from an updated mask, or read the mask or the held keys first.\<close>

lemma triple_with_mods:
  "triple (st h (g m) D) f Q E \<Longrightarrow> triple (st h m D) (\<lambda>k. f (k\<lparr>kb_mods := g (kb_mods k)\<rparr>)) Q E"
  by (simp add: triple_def st_def)

lemma triple_read_mods:
  "triple (st h m D) (f m) Q E \<Longrightarrow> triple (st h m D) (\<lambda>k. f (kb_mods k) k) Q E"
  by (simp add: triple_def st_def)

lemma triple_read_held:
  "triple (st h m D) (f h) Q E \<Longrightarrow> triple (st h m D) (\<lambda>k. f (kb_held k) k) Q E"
  by (simp add: triple_def st_def)

lemma triple_mods_now:
  assumes "triple (st h (g m) D) (send_modifiers cx reliable :: 'e kb_op) (st h (g m) D) E1"
    "triple E1 (hh m :: 'e kb_op) E E" "triple (st h (g m) D) f Q E"
  shows "triple (st h m D) (\<lambda>k. kor (send_modifiers cx reliable) (hh (kb_mods k)) f (k\<lparr>kb_mods := g (kb_mods k)\<rparr>)) Q E"
proof -
  have "triple (st h m D) (\<lambda>k. kor (send_modifiers cx reliable) (hh m) f (k\<lparr>kb_mods := g (kb_mods k)\<rparr>)) Q E"
    by (rule triple_with_mods, rule triple_kor [OF assms])
  then show ?thesis by (simp add: triple_def st_def)
qed

lemma triple_False: "triple (\<lambda>_. False) f Q E"
  by (simp add: triple_def)

lemma triple_cleanup_modifier:
  assumes "8 \<le> c"
  shows "triple (st h m D) (cleanup_modifier_key reliable c bits) (st h (m AND NOT bits) (D - {c - 8})) E"
proof -
  have "triple (st h m D) (send_key background reliable c False) (st h m (D - {c - 8})) E"
    using triple_cleanup_key [OF assms] by (simp add: cleanup_send_key_def)
  moreover have "triple (st h m D') (\<lambda>k. let previous = kb_mods k in
       kor (send_modifiers background reliable) (set_mods (\<lambda>_. previous)) kdone (k\<lparr>kb_mods := previous AND NOT bits\<rparr>))
     (st h (m AND NOT bits) D') E" for D'
    unfolding Let_def
    by (rule triple_mods_now [where g = "\<lambda>x. x AND NOT bits", OF triple_mods_background triple_False triple_kdone])
  ultimately show ?thesis unfolding cleanup_modifier_key_def by (rule triple_kthen)
qed

lemma triple_clear: "triple (st h m D) (clear_temp_mods cx reliable bits) (st h (m AND NOT bits) D) (st h (m AND NOT bits) D)"
proof (cases "bits = 0")
  case True
  then show ?thesis by (simp add: triple_def clear_temp_mods_def)
next
  case False
  have "triple (st h m D) (\<lambda>k. send_modifiers cx reliable (k\<lparr>kb_mods := kb_mods k AND NOT bits\<rparr>))
      (st h (m AND NOT bits) D) (st h (m AND NOT bits) D)"
    by (rule triple_with_mods [where g = "\<lambda>x. x AND NOT bits"], rule triple_mods)
  with False show ?thesis by (simp add: clear_temp_mods_def [abs_def])
qed

lemma triple_clear_best: "triple (st h m D) (clear_best_effort reliable bits) (st h (m AND NOT bits) D) E"
proof (cases "bits = 0")
  case True
  then show ?thesis by (simp add: triple_def clear_best_effort_def)
next
  case False
  have "triple (st h m D) (\<lambda>k. send_modifiers background reliable (k\<lparr>kb_mods := kb_mods k AND NOT bits\<rparr>))
      (st h (m AND NOT bits) D) (\<lambda>_. False)"
    by (rule triple_with_mods [where g = "\<lambda>x. x AND NOT bits"], rule triple_mods_background)
  note T = this
  show ?thesis
  proof (rule tripleI)
    fix k and es :: "'a kb_error list" and k'
    assume k: "st h m D k" "clear_best_effort reliable bits k = (es, k')"
    obtain fs :: "'a kb_error list" and k1
      where f: "send_modifiers background reliable (k\<lparr>kb_mods := kb_mods k AND NOT bits\<rparr>) = (fs, k1)" by fastforce
    from tripleD [OF T k(1) f] have "st h (m AND NOT bits) D k1" by (simp split: if_splits)
    moreover have "es = []" "k' = k1" using k(2) f False by (simp_all add: clear_best_effort_def)
    ultimately show "if es = [] then st h (m AND NOT bits) D k' else E k'" by simp
  qed
qed

lemma triple_tap:
  assumes "8 \<le> c" "c - 8 \<notin> D"
  shows "triple (st h m D) (tap cx reliable c) (st h m D) (st h m D)"
proof -
  have D: "insert (c - 8) D - {c - 8} = D" using assms(2) by simp
  note clean = triple_cleanup_key [OF assms(1), of h m "insert (c - 8) D" "st h m D", unfolded D]
  have last: "triple (st h m (insert (c - 8) D))
      (kor (send_key cx reliable c False) (cleanup_send_key reliable c) kdone) (st h m D) (st h m D)"
    using triple_up [OF assms(1), of h m "insert (c - 8) D" cx, unfolded D] clean
    by (rule triple_kor) (rule triple_kdone)
  show ?thesis unfolding tap_def
    by (rule triple_kthen [OF triple_check triple_kthen [OF triple_down [OF assms(1)]
          triple_kor [OF triple_sleep clean triple_kor [OF triple_check clean last]]]])
qed

lemma triple_type_runes:
  assumes "\<forall>r \<in> set rs. \<exists>s. slots r = Some s \<and> 8 \<le> s \<and> s - 8 \<notin> D"
    and h: "triple (st h m D) hh E E"
  shows "triple (st h m D) (type_runes cx reliable slots hh rs) (st h m D) E"
  using assms(1)
proof (induction rs)
  case Nil
  show ?case by (simp add: triple_kdone)
next
  case (Cons r rs)
  then obtain s where s: "slot_of slots r = s" "8 \<le> s" "s - 8 \<notin> D" by (auto simp: slot_of_def)
  show ?case
    by (simp only: type_runes.simps s(1))
      (rule triple_kor [OF triple_tap [OF s(2,3)] h triple_kor [OF triple_sleep h Cons.IH]],
       use Cons.prems in simp)
qed

section \<open>Modifier bits\<close>

unbundle bit_operations_syntax

lemma mod_bit_cases:
  assumes "mod_bit key \<noteq> 0"
  obtains kc s where "named_key key = Some (kc, s)"
    "(kc = 8 \<and> mod_bit key = 1) \<or> (kc = 9 \<and> mod_bit key = 4) \<or> (kc = 10 \<and> mod_bit key = 8) \<or> (kc = 11 \<and> mod_bit key = 64)"
proof -
  from assms obtain k where k: "from_string key = Some k" "k = KeyShift \<or> k = KeyCtrl \<or> k = KeyAlt \<or> k = KeySuper"
    by (auto simp: mod_bit_def split: option.splits if_splits)
  have "\<exists>kc s. named_key key = Some (kc, s) \<and>
      ((kc = 8 \<and> mod_bit key = 1) \<or> (kc = 9 \<and> mod_bit key = 4) \<or> (kc = 10 \<and> mod_bit key = 8) \<or> (kc = 11 \<and> mod_bit key = 64))"
    using k(2) by (elim disjE) (simp_all add: named_key_def named_keys_def k(1) mod_bit_def)
  then show thesis using that by blast
qed

lemma and_bit_0: "(m :: u32) AND 1 = 0 \<longleftrightarrow> \<not> bit m 0" "m AND 4 = 0 \<longleftrightarrow> \<not> bit m 2"
    "m AND 8 = 0 \<longleftrightarrow> \<not> bit m 3" "m AND 64 = 0 \<longleftrightarrow> \<not> bit m 6"
  using and_exp_eq_0_iff_not_bit [of m 0] and_exp_eq_0_iff_not_bit [of m 2]
    and_exp_eq_0_iff_not_bit [of m 3] and_exp_eq_0_iff_not_bit [of m 6] by simp_all

lemma mod_codes_bits:
  "mod_codes m = (if bit m 0 then {0} else {}) \<union> (if bit m 2 then {1} else {}) \<union>
     (if bit m 3 then {2} else {}) \<union> (if bit m 6 then {3} else {})"
  by (simp add: mod_codes_def and_bit_0)

lemma bit_u32_small: "n < 32 \<Longrightarrow> bit (NOT (m :: u32)) n \<longleftrightarrow> \<not> bit m n"
  by (simp add: bit_not_iff)

lemma bit_literals:
  "bit (1 :: u32) n \<longleftrightarrow> n = 0" "bit (4 :: u32) n \<longleftrightarrow> n = 2" "bit (8 :: u32) n \<longleftrightarrow> n = 3" "bit (64 :: u32) n \<longleftrightarrow> n = 6"
  using bit_exp_iff [where 'a = "32 word", of 2 n] bit_exp_iff [where 'a = "32 word", of 3 n]
    bit_exp_iff [where 'a = "32 word", of 6 n] by (auto simp: bit_1_iff)

lemma modifier_codes:
  assumes "named_key key = Some (kc, s)" "mod_bit key \<noteq> 0"
  shows "8 \<le> kc" "kc - 8 < 4" "mod_codes (m OR mod_bit key) = insert (kc - 8) (mod_codes m)"
    "mod_codes (m AND NOT (mod_bit key)) = mod_codes m - {kc - 8}"
    "m AND mod_bit key = 0 \<longleftrightarrow> kc - 8 \<notin> mod_codes m"
    "m AND mod_bit key = 0 \<Longrightarrow> (m OR mod_bit key) AND NOT (mod_bit key) = m"
proof -
  obtain kc' s' where n: "named_key key = Some (kc', s')" "(kc' = 8 \<and> mod_bit key = 1) \<or> (kc' = 9 \<and> mod_bit key = 4) \<or>
      (kc' = 10 \<and> mod_bit key = 8) \<or> (kc' = 11 \<and> mod_bit key = 64)"
    by (rule mod_bit_cases [OF assms(2)])
  then have c: "(kc = 8 \<and> mod_bit key = 1) \<or> (kc = 9 \<and> mod_bit key = 4) \<or>
      (kc = 10 \<and> mod_bit key = 8) \<or> (kc = 11 \<and> mod_bit key = 64)" using assms(1) by simp
  show "8 \<le> kc" "kc - 8 < 4" using c by auto
  show "mod_codes (m OR mod_bit key) = insert (kc - 8) (mod_codes m)"
    using c by (elim disjE) (auto simp: mod_codes_bits bit_or_iff bit_literals)
  show "mod_codes (m AND NOT (mod_bit key)) = mod_codes m - {kc - 8}"
    using c by (elim disjE) (auto simp: mod_codes_bits bit_and_iff bit_u32_small bit_literals)
  show "m AND mod_bit key = 0 \<longleftrightarrow> kc - 8 \<notin> mod_codes m"
    using c by (elim disjE) (auto simp: mod_codes_bits and_bit_0)
  show "(m OR mod_bit key) AND NOT (mod_bit key) = m" if "m AND mod_bit key = 0"
  proof (rule bit_word_eqI)
    fix n assume "n < LENGTH(32)"
    have "\<not> (bit m n \<and> bit (mod_bit key) n)" using that bit_and_iff [of m "mod_bit key" n] by simp
    then show "bit ((m OR mod_bit key) AND NOT (mod_bit key)) n = bit m n"
      using \<open>n < LENGTH(32)\<close> by (auto simp: bit_and_iff bit_or_iff bit_not_iff)
  qed
qed

section \<open>Held keys and slots\<close>

definition codes :: "(string \<times> nat) list \<Rightarrow> u32 \<Rightarrow> nat set" where
  "codes h m = held_codes h \<union> mod_codes m"

definition agree :: "alloc \<Rightarrow> (string \<times> nat) list \<Rightarrow> bool" where
  "agree al h \<longleftrightarrow> (\<forall>(n, s) \<in> set h. al_slot al (item_of n) = Some s)"

lemma mod_codes_small: "c \<in> mod_codes m \<Longrightarrow> c < 4"
  by (auto simp: mod_codes_def split: if_splits)

lemma held_codes_ge: "held_ok h \<Longrightarrow> c \<in> held_codes h \<Longrightarrow> 4 \<le> c"
  by (auto simp: held_codes_def held_ok_def)

lemma held_entry: "held_ok h \<Longrightarrow> (n, s) \<in> set h \<Longrightarrow> held_name_ok n \<and> 12 \<le> s \<and> s \<le> kc_dyn_max"
  by (auto simp: held_ok_def)

lemma unhold_ok: "held_ok h \<Longrightarrow> held_ok (filter (\<lambda>p. fst p \<noteq> name) h)"
  by (auto simp: held_ok_def distinct_map_filter)

lemma unhold_codes:
  assumes h: "held_ok h" and s: "(name, s) \<in> set h"
  shows "codes (filter (\<lambda>p. fst p \<noteq> name) h) m = codes h m - {s - 8}"
proof -
  have d: "distinct (map fst h)" "distinct (map snd h)" using h by (simp_all add: held_ok_def)
  have one: "n = name \<longleftrightarrow> t = s" if "(n, t) \<in> set h" for n t
    using that s d by (metis eq_key_imp_eq_value distinct_map fst_conv inj_onD snd_conv)
  have "s - 8 \<notin> mod_codes m" using held_entry [OF h s] mod_codes_small by fastforce
  moreover have "held_codes (filter (\<lambda>p. fst p \<noteq> name) h) = held_codes h - {s - 8}"
  proof (rule set_eqI)
    fix c
    have low: "t - 8 = s - 8 \<longleftrightarrow> t = s" if "(n, t) \<in> set h" for n t
      using held_entry [OF h that] held_entry [OF h s] by auto
    have key: "(n \<noteq> name) \<longleftrightarrow> t - 8 \<noteq> s - 8" if "(n, t) \<in> set h" for n t
      using one [OF that] low [OF that] by simp
    have "c \<in> held_codes (filter (\<lambda>p. fst p \<noteq> name) h) \<longleftrightarrow> (\<exists>n t. (n, t) \<in> set h \<and> n \<noteq> name \<and> c = t - 8)"
      by (auto simp: held_codes_def image_iff Bex_def)
    also have "\<dots> \<longleftrightarrow> (\<exists>n t. (n, t) \<in> set h \<and> c = t - 8 \<and> c \<noteq> s - 8)" using key by blast
    also have "\<dots> \<longleftrightarrow> c \<in> held_codes h - {s - 8}" by (auto simp: held_codes_def image_iff Bex_def)
    finally show "c \<in> held_codes (filter (\<lambda>p. fst p \<noteq> name) h) \<longleftrightarrow> c \<in> held_codes h - {s - 8}" .
  qed
  ultimately show ?thesis by (auto simp: codes_def)
qed

lemma slot_fresh:
  assumes "alloc_ok al" "held_ok h" "agree al h" "al_slot al i = Some s"
    "\<And>n. n \<in> fst ` set h \<Longrightarrow> item_of n \<noteq> i"
  shows "8 \<le> s" "12 \<le> s" "s \<le> kc_dyn_max" "s \<notin> snd ` set h" "s - 8 \<notin> codes h m"
proof -
  show s: "12 \<le> s" "s \<le> kc_dyn_max" using assms(1,4) unfolding alloc_ok_def by blast+
  then show "8 \<le> s" by simp
  show new: "s \<notin> snd ` set h"
  proof
    assume "s \<in> snd ` set h"
    then obtain n where n: "(n, s) \<in> set h" by force
    then have "al_slot al (item_of n) = Some s" using assms(3) by (auto simp: agree_def)
    then have "item_of n = i" using assms(1,4) unfolding alloc_ok_def by blast
    moreover have "n \<in> fst ` set h" using n by force
    ultimately show False using assms(5) by blast
  qed
  have "s - 8 \<notin> held_codes h"
  proof
    assume "s - 8 \<in> held_codes h"
    then obtain n t where t: "(n, t) \<in> set h" "s - 8 = t - 8" by (auto simp: held_codes_def)
    with held_entry [OF assms(2) t(1)] s have "s = t" by simp
    with t new show False by force
  qed
  moreover have "s - 8 \<notin> mod_codes m" using s mod_codes_small by fastforce
  ultimately show "s - 8 \<notin> codes h m" by (simp add: codes_def)
qed

lemma held_item: "held_ok h \<Longrightarrow> n \<in> fst ` set h \<Longrightarrow> item_of n = RuneItem r \<Longrightarrow> r \<in> fst ` set h"
  by (auto simp: item_of_def held_name_ok_def plain_named_def dest!: held_entry split: if_splits) (force)

lemma held_item_named: "held_ok h \<Longrightarrow> n \<in> fst ` set h \<Longrightarrow> item_of n = NameItem k \<Longrightarrow> k \<in> fst ` set h"
  by (auto simp: item_of_def split: if_splits)

lemma hold_ok:
  assumes "held_ok h" "held_name_ok name" "name \<notin> fst ` set h" "s \<notin> snd ` set h" "12 \<le> s" "s \<le> kc_dyn_max"
  shows "AList.update name s h = h @ [(name, s)]" "held_ok (AList.update name s h)"
    "codes (AList.update name s h) m = insert (s - 8) (codes h m)"
proof -
  show u: "AList.update name s h = h @ [(name, s)]" using assms(3) by (rule alist_update_new)
  show "held_ok (AList.update name s h)" using assms by (auto simp: u held_ok_def)
  show "codes (AList.update name s h) m = insert (s - 8) (codes h m)" by (auto simp: u codes_def held_codes_def)
qed

section \<open>The steps of an action\<close>

lemma st_consistent: "held_ok h \<Longrightarrow> st h m (codes h m) k \<Longrightarrow> consistent k"
  by (simp add: st_def consistent_def codes_def)

lemma triple_hold: "triple (st h m D) (hold name s) (st (AList.update name s h) m D) E"
  by (simp add: triple_def hold_def st_def)

lemma triple_unhold: "triple (st h m D) (unhold name) (st (filter (\<lambda>p. fst p \<noteq> name) h) m D) E"
  by (simp add: triple_def unhold_def st_def)

lemma triple_weaken: "triple P f Q E' \<Longrightarrow> (\<And>k. E' k \<Longrightarrow> E k) \<Longrightarrow> triple P f Q E"
  by (erule triple_cons)

lemma triple_post: "triple P f Q' E \<Longrightarrow> (\<And>k. Q' k \<Longrightarrow> Q k) \<Longrightarrow> triple P f Q E"
  by (erule triple_cons)

text \<open>
  During an action the mask is \<open>M\<close>, the mask \<open>m\<close> of the held modifiers with the temporary ones;
  \<open>clear\<close> and \<open>g\<close> are the two ways in which the action takes them back.
\<close>

definition clears :: "u32 \<Rightarrow> u32 \<Rightarrow> 'e kb_op \<Rightarrow> bool" where
  "clears M m clear \<longleftrightarrow> (\<forall>h D E. triple (st h M D) clear (st h m D) E)"

definition finishes :: "u32 \<Rightarrow> u32 \<Rightarrow> 'e kb_op \<Rightarrow> bool" where
  "finishes M m g \<longleftrightarrow> (\<forall>h D. triple (st h M D) g (st h m D) (st h m D))"

lemma clearsD: "clears M m clear \<Longrightarrow> triple (st h M D) clear (st h m D) E"
  by (simp add: clears_def)

lemma finishesD: "finishes M m g \<Longrightarrow> triple (st h M D) g (st h m D) (st h m D)"
  by (simp add: finishes_def)

lemma clears_consistent:
  "clears M m clear \<Longrightarrow> held_ok h \<Longrightarrow> triple (st h M (codes h m)) clear consistent consistent"
  by (rule triple_post [OF clearsD st_consistent])

lemma finishes_consistent:
  "finishes M m g \<Longrightarrow> held_ok h \<Longrightarrow> triple (st h M (codes h m)) g (st h m (codes h m)) consistent"
  by (rule triple_weaken [OF finishesD st_consistent])

lemma triple_key_up:
  assumes h: "held_ok h" "(name, s) \<in> set h" and c: "clears M m clear" "finishes M m g"
    and h': "h' = filter (\<lambda>p. fst p \<noteq> name) h"
  shows "triple (st h M (codes h m)) (key_up cx reliable name clear g) (st h' m (codes h' m)) consistent"
proof -
  have s: "8 \<le> s" using held_entry [OF h] by simp
  have get: "map_of h name = Some s" using h by (simp add: held_ok_def)
  note h'1 = unhold_ok [OF h(1), of name, folded h']
  note h'2 = unhold_codes [OF h, of m, folded h']
  have "triple (st h M (codes h m)) (kor (send_key cx reliable s False) clear (kthen (unhold name) g))
      (st h' m (codes h' m)) consistent"
    using triple_up [OF s, of h M "codes h m" cx, folded h'2] clears_consistent [OF c(1) h(1)] triple_kthen [OF triple_unhold [where h = h and name = name, folded h']
      finishes_consistent [OF c(2) h'1]] by (rule triple_kor)
  then show ?thesis unfolding key_up_def by (simp add: triple_def st_def get)
qed

lemma triple_key_down:
  assumes h: "held_ok h" "held_name_ok name" "name \<notin> fst ` set h" "s \<notin> snd ` set h" "12 \<le> s" "s \<le> kc_dyn_max"
    and c: "clears M m clear" "finishes M m g" and h': "h' = AList.update name s h"
  shows "triple (st h M (codes h m)) (kor (send_key cx reliable s True) clear (kthen (hold name s) g))
    (st h' m (codes h' m)) consistent"
proof -
  have s: "8 \<le> s" using h(5) by simp
  note h'1 = hold_ok(2) [OF h, folded h']
  note h'2 = hold_ok(3) [OF h, of m, folded h']
  show ?thesis
    using triple_down [OF s, of h M "codes h m" cx, folded h'2] clears_consistent [OF c(1) h(1)] triple_kthen [OF triple_hold [where h = h and name = name and s = s, folded h']
      finishes_consistent [OF c(2) h'1]] by (rule triple_kor)
qed

lemma triple_key_tap:
  assumes s: "8 \<le> s" "s - 8 \<notin> D" and c: "clears M m clear" "finishes M m g"
  shows "triple (st h M D) (kor (send_key cx reliable s True) clear
      (kor (sleep_ctx cx) (\<lambda>k. case cleanup_send_key reliable s k of (es, k') \<Rightarrow> (es, snd (clear k')))
        (kor (send_key cx reliable s False) (\<lambda>k. case cleanup_send_key reliable s k of (es, k') \<Rightarrow> (es, snd (clear k'))) g)))
    (st h m D) (st h m D)"
proof -
  have D: "insert (s - 8) D - {s - 8} = D" using s(2) by simp
  have clean: "triple (st h M (insert (s - 8) D))
      (\<lambda>k. case cleanup_send_key reliable s k of (es, k') \<Rightarrow> (es, snd (clear k'))) (st h m D) (st h m D)"
    by (rule triple_cleanup [OF triple_cleanup_key [OF s(1), of h M "insert (s - 8) D", unfolded D] clearsD [OF c(1)]])
  show ?thesis
    by (rule triple_kor [OF triple_down [OF s(1)] clearsD [OF c(1)]
          triple_kor [OF triple_sleep clean triple_kor [OF triple_up [OF s(1), of h M "insert (s - 8) D" cx, unfolded D] clean
            finishesD [OF c(2)]]]])
qed

lemma triple_modifier_cleanup:
  assumes "8 \<le> kc" "clears (m AND NOT bits) (m AND NOT bits) clear"
  shows "triple (st h m D) (\<lambda>k. case cleanup_modifier_key reliable kc bits k of (es, k') \<Rightarrow> (es, snd (clear k')))
    (st h (m AND NOT bits) (D - {kc - 8})) (st h (m AND NOT bits) (D - {kc - 8}))"
  by (rule triple_cleanup [OF triple_cleanup_modifier [OF assms(1)] clearsD [OF assms(2)]])

lemma mask_laws:
  "((x :: u32) OR b) AND NOT b = x AND NOT b" "(x AND NOT b) AND NOT b = x AND NOT b"
  by (rule bit_word_eqI; auto simp: bit_and_iff bit_or_iff bit_not_iff)+

lemma mask_disjoint: "(m :: u32) AND b = 0 \<Longrightarrow> m AND NOT b = m"
proof (rule bit_word_eqI)
  fix n assume "m AND b = 0" "n < LENGTH(32)"
  then have "\<not> (bit m n \<and> bit b n)" using bit_and_iff [of m b n] by simp
  then show "bit (m AND NOT b) n = bit m n" using \<open>n < LENGTH(32)\<close> by (auto simp: bit_and_iff bit_not_iff)
qed

lemma codes_modifier:
  assumes "held_ok h" "named_key key = Some (kc, s)" "mod_bit key \<noteq> 0"
  shows "codes h (m AND NOT (mod_bit key)) = codes h m - {kc - 8}"
    "codes h (m OR mod_bit key) = insert (kc - 8) (codes h m)"
    "m AND mod_bit key = 0 \<Longrightarrow> kc - 8 \<notin> codes h m"
proof -
  have "kc - 8 \<notin> held_codes h" using held_codes_ge [OF assms(1)] modifier_codes(2) [OF assms(2,3)] by fastforce
  then show "codes h (m AND NOT (mod_bit key)) = codes h m - {kc - 8}"
    "codes h (m OR mod_bit key) = insert (kc - 8) (codes h m)" "m AND mod_bit key = 0 \<Longrightarrow> kc - 8 \<notin> codes h m"
    using modifier_codes [OF assms(2,3)] by (auto simp: codes_def)
qed

lemma triple_modifier_up:
  assumes h: "held_ok h" and key: "named_key key = Some (kc, s)" "mod_bit key \<noteq> 0"
    and c: "\<And>m. clears m m clear" "\<And>m. finishes m m g" and m': "m' = m AND NOT (mod_bit key)"
  shows "triple (st h m (codes h m)) (modifier_up cx reliable kc (mod_bit key) clear g)
    (st h m' (codes h m')) (st h m' (codes h m'))"
proof -
  note kc = modifier_codes(1) [OF key]
  note down = codes_modifier(1) [OF h key, of m, folded m']
  have idem: "codes h m' - {kc - 8} = codes h m'" by (auto simp: down)
  have inv: "(m' OR mod_bit key) AND NOT (mod_bit key) = m'" by (simp add: m' mask_laws)
  note up = triple_up [OF kc, of h m "codes h m" cx, folded down]
  note cl1 = triple_modifier_cleanup [OF kc c(1), where bits = "mod_bit key" and h = h and m = m and D = "codes h m", folded m' down]
  note cl2 = triple_modifier_cleanup [OF kc c(1), where bits = "mod_bit key" and h = h and m = "m' OR mod_bit key" and D = "codes h m'", unfolded inv idem]
  show ?thesis unfolding modifier_up_def Let_def
    by (rule triple_kor [OF up cl1 triple_kthen [OF triple_set_mods [where f = "\<lambda>m. m AND NOT (mod_bit key)" and m = m, folded m']
          triple_kor [OF triple_mods triple_kthen [OF triple_set_mods [where f = "\<lambda>m. m OR mod_bit key"] cl2]
            finishesD [OF c(2)]]]])
qed

lemma triple_modifier_down:
  assumes h: "held_ok h" and key: "named_key key = Some (kc, s)" "mod_bit key \<noteq> 0" "m AND mod_bit key = 0"
    and c: "\<And>m. clears m m clear" and m': "m' = m OR mod_bit key"
    and g: "triple (st h m' (codes h m')) g Q consistent"
  shows "triple (st h m (codes h m)) (modifier_down cx reliable kc (mod_bit key) clear g) Q consistent"
proof -
  note kc = modifier_codes(1) [OF key(1,2)]
  note up = codes_modifier(2) [OF h key(1,2), of m, folded m']
  have inv: "m' AND NOT (mod_bit key) = m" "m AND NOT (mod_bit key) = m"
    using modifier_codes(6) [OF key] mask_disjoint [OF key(3)] by (simp_all add: m')
  have D: "codes h m' - {kc - 8} = codes h m" using codes_modifier(3) [OF h key] by (simp add: up)
  note dn = triple_down [OF kc, of h m "codes h m" cx, folded up]
  note cl = triple_weaken [OF triple_post [OF triple_modifier_cleanup [OF kc c, where bits = "mod_bit key" and h = h and m = m and D = "codes h m'", unfolded inv D]
      st_consistent [OF h]] st_consistent [OF h]]
  note sm = triple_set_mods [where f = "\<lambda>m. m AND NOT (mod_bit key)" and m = m', unfolded inv]
  show ?thesis unfolding modifier_down_def Let_def
    by (rule triple_kor [OF dn triple_post [OF clearsD [OF c] st_consistent [OF h]]
          triple_kthen [OF triple_set_mods [where f = "\<lambda>m. m OR mod_bit key" and m = m, folded m']
            triple_kor [OF triple_mods triple_kthen [OF sm cl] g]]])
qed

lemma temp_clears: "(m OR t) AND NOT t = m \<Longrightarrow> clears (m OR t) m (clear_best_effort reliable t)"
  unfolding clears_def by (intro allI) (metis triple_clear_best)

lemma temp_finishes:
  assumes "(m OR t) AND NOT t = m" "m AND NOT t = m"
  shows "finishes (m OR t) m (kor (clear_temp_mods cx reliable t) (clear_best_effort reliable t) kdone)"
  unfolding finishes_def
proof (intro allI)
  fix h D
  show "triple (st h (m OR t) D) (kor (clear_temp_mods cx reliable t) (clear_best_effort reliable t) kdone) (st h m D) (st h m D)"
    by (rule triple_kor [OF triple_clear [where m = "m OR t" and bits = t, unfolded assms(1)]
          triple_clear_best [where m = m and bits = t, unfolded assms(2)] triple_kdone])
qed

lemma triple_apply_temp:
  assumes h: "held_ok h" and G: "\<And>t. (m OR t) AND NOT t = m \<Longrightarrow> m AND NOT t = m \<Longrightarrow> (bits = 0 \<Longrightarrow> t = 0) \<Longrightarrow>
    triple (st h (m OR t) (codes h m)) (G t) Q consistent"
  shows "triple (st h m (codes h m)) (apply_temp_mods cx reliable bits G) Q consistent"
proof -
  let ?t = "bits AND NOT m"
  have d: "m AND ?t = 0" by (rule bit_word_eqI) (simp add: bit_and_iff bit_not_iff)
  have laws: "(m OR ?t) AND NOT ?t = m" "m AND NOT ?t = m"
    unfolding mask_laws using mask_disjoint [OF d] by simp_all
  have zero: "?t = 0" if "bits = 0" using that by simp
  show ?thesis
  proof (cases "?t = 0")
    case True
    with G [of 0] show ?thesis by (simp add: triple_def apply_temp_mods_def st_def Let_def)
  next
    case False
    have "triple (st h m (codes h m)) (\<lambda>k. kor (send_modifiers cx reliable) (set_mods (\<lambda>m. m AND NOT ?t)) (G ?t)
        (k\<lparr>kb_mods := kb_mods k OR ?t\<rparr>)) Q consistent"
      by (rule triple_with_mods [where g = "\<lambda>m. m OR ?t"], rule triple_kor [OF triple_mods
            triple_post [OF triple_weaken [OF triple_set_mods [where f = "\<lambda>m. m AND NOT ?t" and m = "m OR ?t", unfolded laws]]]
            G [OF laws zero]]) (use st_consistent [OF h] in blast)+
    with False show ?thesis by (simp add: triple_def apply_temp_mods_def st_def Let_def)
  qed
qed

text \<open>What holds after an action, for the held names and the mask that the validation predicts.\<close>

definition after :: "alloc \<Rightarrow> string set \<times> u32 \<Rightarrow> wl_keyboard \<Rightarrow> bool" where
  "after al hm k \<longleftrightarrow>
     (\<exists>h m. hm = (fst ` set h, m) \<and> st h m (codes h m) k \<and> held_ok h \<and> agree al h)"

lemma afterI: "st h m (codes h m) k \<Longrightarrow> held_ok h \<Longrightarrow> agree al h \<Longrightarrow> after al (fst ` set h, m) k"
  by (auto simp: after_def)

definition plain_action :: "key_send \<Rightarrow> bool" where
  "plain_action a \<longleftrightarrow> ks_text a \<noteq> [] \<or>
     (ks_modifiers a = no_modifiers \<or> mod_bit (ks_key a) = 0) \<and>
     (named_key (ks_key a) \<noteq> None \<or> ks_up a \<or> ks_down a \<or> length (runes (ks_key a)) = 1)"

text \<open>The slots of a plan that one action uses.\<close>

definition has_slots :: "alloc \<Rightarrow> key_send \<Rightarrow> bool" where
  "has_slots al a \<longleftrightarrow> alloc_ok al \<and>
     (\<forall>r \<in> set (action_runes a). \<exists>s. al_slot al (RuneItem r) = Some s) \<and>
     (ks_text a = [] \<and> plain_named (ks_key a) \<longrightarrow> (\<exists>s. al_slot al (NameItem (ks_key a)) = Some s))"

lemma agree_unhold: "agree al h \<Longrightarrow> agree al (filter (\<lambda>p. fst p \<noteq> name) h)"
  by (auto simp: agree_def)

lemma agree_hold: "agree al h \<Longrightarrow> name \<notin> fst ` set h \<Longrightarrow> al_slot al (item_of name) = Some s \<Longrightarrow> agree al (AList.update name s h)"
  by (auto simp: agree_def alist_update_new)

lemma names_unhold: "fst ` set (filter (\<lambda>p. fst p \<noteq> name) h) = fst ` set h - {name}"
  by force

lemma names_hold: "name \<notin> fst ` set h \<Longrightarrow> fst ` set (AList.update name s h) = insert name (fst ` set h)"
  by (simp add: alist_update_new)

lemma triple_held_up:
  assumes h: "held_ok h" "agree al h" "name \<in> fst ` set h" and c: "clears M m clear" "finishes M m g"
  shows "triple (st h M (codes h m)) (key_up cx reliable name clear g) (after al (fst ` set h - {name}, m)) consistent"
proof -
  obtain s where s: "(name, s) \<in> set h" using h(3) by force
  show ?thesis
    by (rule triple_post [OF triple_key_up [OF h(1) s c refl]], drule afterI [OF _ unhold_ok [OF h(1)] agree_unhold [OF h(2)]])
      (simp only: names_unhold)
qed

lemma triple_held_down:
  assumes h: "held_ok h" "agree al h" "name \<notin> fst ` set h" "held_name_ok name" and al: "alloc_ok al" "al_slot al (item_of name) = Some s"
    and c: "clears M m clear" "finishes M m g"
  shows "triple (st h M (codes h m)) (kor (send_key cx reliable s True) clear (kthen (hold name s) g))
    (after al (insert name (fst ` set h), m)) consistent"
proof -
  have new: "item_of n \<noteq> item_of name" if "n \<in> fst ` set h" for n
  proof
    assume "item_of n = item_of name"
    moreover have "held_name_ok n" using that h(1) by (auto simp: held_ok_def)
    ultimately have "n = name" using item_of_inj h(4) by blast
    with that h(3) show False by simp
  qed
  note s = slot_fresh [OF al(1) h(1,2) al(2) new]
  note t = triple_key_down [OF h(1,4,3) s(4,2,3) c refl]
  have ok: "held_ok (AList.update name s h)" by (rule hold_ok(2) [OF h(1,4,3) s(4,2,3)])
  have ag: "agree al (AList.update name s h)" by (rule agree_hold [OF h(2,3) al(2)])
  have post: "after al (insert name (fst ` set h), m) k"
    if "st (AList.update name s h) m (codes (AList.update name s h) m) k" for k
    using afterI [OF that ok ag] by (simp only: names_hold [OF h(3)])
  show ?thesis by (rule triple_post [OF t post])
qed

section \<open>Actions\<close>

definition valid_for :: "key_send \<Rightarrow> string set \<times> u32 \<Rightarrow> string set \<times> u32 \<Rightarrow> bool" where
  "valid_for a hm hm' \<longleftrightarrow> validate_action a hm = (Inr hm' :: unit kb_error + string set \<times> u32)"

lemma validate_action_poly:
  "validate_action a hm = (Inr hm' :: 'e kb_error + string set \<times> u32) \<longleftrightarrow> valid_for a hm hm'"
  by (cases hm) (auto simp: valid_for_def validate_action_def Let_def split: option.splits)

lemma triple_exec_modifier:
  assumes h: "held_ok h" "agree al h" and key: "named_key (ks_key a) = Some (kc, s)" "mod_bit (ks_key a) \<noteq> 0"
    and v: "valid_for a (fst ` set h, m) hm'" "ks_text a = []"
    and c: "\<And>m. clears m m clear" "\<And>m. finishes m m g"
  shows "triple (st h m (codes h m)) (exec_modifier cx reliable a kc (mod_bit (ks_key a)) clear g) (after al hm') consistent"
proof -
  let ?b = "mod_bit (ks_key a)"
  have up: "triple (st h m (codes h m)) (modifier_up cx reliable kc ?b clear g)
      (after al (fst ` set h, m AND NOT ?b)) consistent" for m
    using triple_cons [OF triple_modifier_up [OF h(1) key c refl] _ afterI [OF _ h] st_consistent [OF h(1)]] by simp
  consider (up) "ks_up a" | (down) "\<not> ks_up a" "ks_down a" | (tap) "\<not> ks_up a" "\<not> ks_down a" by blast
  then show ?thesis
  proof cases
    case up
    with v key have "m AND ?b \<noteq> 0" "hm' = (fst ` set h, m AND NOT ?b)"
      by (auto simp: valid_for_def validate_action_def Let_def split: if_splits)
    with up \<open>\<And>m. triple (st h m (codes h m)) (modifier_up cx reliable kc ?b clear g) (after al (fst ` set h, m AND NOT ?b)) consistent\<close> [of m]
    show ?thesis by (simp add: triple_def exec_modifier_def st_def)
  next
    case down
    with v key have z: "m AND ?b = 0" "hm' = (fst ` set h, m OR ?b)"
      by (auto simp: valid_for_def validate_action_def Let_def split: if_splits)
    have "triple (st h m (codes h m)) (modifier_down cx reliable kc ?b clear g) (after al hm') consistent"
      by (rule triple_modifier_down [OF h(1) key z(1) c(1) refl],
          rule triple_cons [OF finishesD [OF c(2)]]) (use z(2) afterI [OF _ h] st_consistent [OF h(1)] in auto)
    with down show ?thesis by (simp add: triple_def exec_modifier_def st_def)
  next
    case tap
    with v key have z: "m AND ?b = 0" "hm' = (fst ` set h, m)"
      by (auto simp: valid_for_def validate_action_def Let_def split: if_splits)
    have inv: "(m OR ?b) AND NOT ?b = m" by (rule modifier_codes(6) [OF key z(1)])
    have "triple (st h m (codes h m)) (modifier_down cx reliable kc ?b clear (modifier_up cx reliable kc ?b clear g)) (after al hm') consistent"
      by (rule triple_modifier_down [OF h(1) key z(1) c(1) refl]) (use up [of "m OR ?b"] inv z(2) in simp)
    with tap show ?thesis by (simp add: triple_def exec_modifier_def st_def)
  qed
qed

lemma triple_exec_named:
  assumes h: "held_ok h" "agree al h" and key: "plain_named (ks_key a)" and sl: "has_slots al a"
    and v: "valid_for a (fst ` set h, m) hm'" "ks_text a = []"
    and c: "clears M m clear" "finishes M m g"
  shows "triple (st h M (codes h m)) (exec_named cx reliable al a clear g) (after al hm') consistent"
proof -
  have k: "named_key (ks_key a) \<noteq> None" "mod_bit (ks_key a) = 0" using key by (simp_all add: plain_named_def)
  have it: "item_of (ks_key a) = NameItem (ks_key a)" using k by (simp add: item_of_def)
  have ok: "held_name_ok (ks_key a)" using key by (simp add: held_name_ok_def)
  obtain s where s: "al_slot al (NameItem (ks_key a)) = Some s" "alloc_ok al"
    using sl v(2) key by (auto simp: has_slots_def)
  then have slot: "slot_of (al_named al) (ks_key a) = s" by (simp add: slot_of_def)
  consider (up) "ks_up a" | (down) "\<not> ks_up a" "ks_down a" | (tap) "\<not> ks_up a" "\<not> ks_down a" by blast
  then show ?thesis
  proof cases
    case up
    with v k have z: "ks_key a \<in> fst ` set h" "hm' = (fst ` set h - {ks_key a}, m)"
      by (auto simp: valid_for_def validate_action_def Let_def split: if_splits)
    from triple_held_up [OF h z(1) c] up z(2) show ?thesis by (simp add: exec_named_def Let_def)
  next
    case down
    with v k have z: "ks_key a \<notin> fst ` set h" "hm' = (insert (ks_key a) (fst ` set h), m)"
      by (auto simp: valid_for_def validate_action_def Let_def split: if_splits)
    from triple_held_down [OF h z(1) ok s(2) s(1) [folded it] c] down z(2) slot show ?thesis
      by (simp add: exec_named_def Let_def)
  next
    case tap
    with v k have z: "ks_key a \<notin> fst ` set h" "hm' = (fst ` set h, m)"
      by (auto simp: valid_for_def validate_action_def Let_def split: if_splits)
    have new: "item_of n \<noteq> NameItem (ks_key a)" if "n \<in> fst ` set h" for n
      using held_item_named [OF h(1) that] z(1) by blast
    note f = slot_fresh [OF s(2) h s(1) new]
    have "triple (st h M (codes h m)) (exec_named cx reliable al a clear g) (st h m (codes h m)) (st h m (codes h m))"
      using triple_key_tap [OF f(1,5) c] tap slot by (simp add: exec_named_def Let_def)
    then show ?thesis by (rule triple_cons) (use z(2) afterI [OF _ h] st_consistent [OF h(1)] in auto)
  qed
qed

lemma text_slots_fresh:
  assumes "held_ok h" "agree al h" "alloc_ok al" "\<forall>r \<in> set rs. \<exists>s. al_slot al (RuneItem r) = Some s"
    "\<forall>r \<in> set rs. r \<notin> fst ` set h"
  shows "\<forall>r \<in> set rs. \<exists>s. al_runes al r = Some s \<and> 8 \<le> s \<and> s - 8 \<notin> codes h m"
proof
  fix r assume r: "r \<in> set rs"
  with assms(4) obtain s where s: "al_slot al (RuneItem r) = Some s" by blast
  have new: "item_of n \<noteq> RuneItem r" if "n \<in> fst ` set h" for n
    using held_item [OF assms(1) that] assms(5) r by blast
  from slot_fresh [OF assms(3,1,2) s new] s show "\<exists>s. al_runes al r = Some s \<and> 8 \<le> s \<and> s - 8 \<notin> codes h m" by auto
qed

lemma triple_exec_literal:
  assumes h: "held_ok h" "agree al h" and key: "named_key (ks_key a) = None" "length (runes (ks_key a)) = 1" and sl: "has_slots al a"
    and v: "valid_for a (fst ` set h, m) hm'" "ks_text a = []"
    and c: "clears M m clear" "finishes M m g"
  shows "triple (st h M (codes h m)) (exec_literal cx reliable al a clear g) (after al hm') consistent"
proof -
  let ?k = "ks_key a"
  have valid: "valid_string ?k" using v by (auto simp: valid_for_def validate_action_def split: if_splits)
  note one = single_rune [OF valid key(2)]
  have it: "item_of ?k = RuneItem ?k" using key(1) one(3) by (simp add: item_of_def)
  have ok: "held_name_ok ?k" using key(1) one by (simp add: held_name_ok_def)
  have "action_runes a = [?k]" using v(2) key(1) one(2) by (simp add: action_runes_def)
  then obtain s where s: "al_slot al (RuneItem ?k) = Some s" "alloc_ok al" using sl by (auto simp: has_slots_def)
  then have slot: "slot_of (al_runes al) ?k = s" by (simp add: slot_of_def)
  consider (up) "ks_up a" | (down) "\<not> ks_up a" "ks_down a" | (tap) "\<not> ks_up a" "\<not> ks_down a" by blast
  then show ?thesis
  proof cases
    case up
    with v key have z: "?k \<in> fst ` set h" "hm' = (fst ` set h - {?k}, m)"
      by (auto simp: valid_for_def validate_action_def Let_def split: if_splits)
    from triple_held_up [OF h z(1) c] up z(2) show ?thesis by (simp add: exec_literal_def Let_def)
  next
    case down
    with v key have z: "?k \<notin> fst ` set h" "hm' = (insert ?k (fst ` set h), m)"
      by (auto simp: valid_for_def validate_action_def Let_def split: if_splits)
    from triple_held_down [OF h z(1) ok s(2) s(1) [folded it] c] down z(2) slot one(2) show ?thesis
      by (simp add: exec_literal_def Let_def)
  next
    case tap
    with v key have z: "?k \<notin> fst ` set h" "hm' = (fst ` set h, m)"
      by (auto simp: valid_for_def validate_action_def Let_def split: if_splits)
    have rs: "\<forall>r \<in> set [?k]. \<exists>s. al_runes al r = Some s \<and> 8 \<le> s \<and> s - 8 \<notin> codes h m"
      by (rule text_slots_fresh [OF h s(2)]) (use s z in auto)
    have "triple (st h M (codes h m)) (kthen (type_runes cx reliable (al_runes al) clear [?k]) g) (st h m (codes h m)) consistent"
      by (rule triple_kthen [OF triple_type_runes [OF rs clears_consistent [OF c(1) h(1)]] finishes_consistent [OF c(2) h(1)]])
    then have "triple (st h M (codes h m)) (exec_literal cx reliable al a clear g) (st h m (codes h m)) consistent"
      using tap one(2) by (simp add: exec_literal_def Let_def)
    then show ?thesis by (rule triple_post) (use z(2) afterI [OF _ h] in auto)
  qed
qed

lemma no_modifiers_mask: "modifier_mask no_modifiers = 0"
  by (simp add: modifier_mask_def no_modifiers_def)

lemma literal_single:
  assumes "held_ok h" "plain_action a" "named_key (ks_key a) = None" "ks_text a = []" "valid_for a (fst ` set h, m) hm'"
  shows "length (runes (ks_key a)) = 1"
proof (cases "ks_up a")
  case True
  with assms have "ks_key a \<in> fst ` set h"
    by (auto simp: valid_for_def validate_action_def Let_def split: if_splits)
  then have "held_name_ok (ks_key a)" using assms(1) by (auto simp: held_ok_def)
  then show ?thesis using assms(3) single_runes by (auto simp: held_name_ok_def plain_named_def)
next
  case False
  with assms show ?thesis
    by (auto simp: valid_for_def validate_action_def plain_action_def Let_def split: if_splits)
qed

lemma triple_exec_key:
  assumes h: "held_ok h" "agree al h" and a: "plain_action a" "has_slots al a" "ks_text a = []"
    and v: "valid_for a (fst ` set h, m) hm'"
  shows "triple (st h m (codes h m)) (exec_key cx reliable al a) (after al hm') consistent"
  unfolding exec_key_def
proof (rule triple_apply_temp [OF h(1)])
  fix t assume t: "(m OR t) AND NOT t = m" "m AND NOT t = m" "modifier_mask (ks_modifiers a) = 0 \<Longrightarrow> t = 0"
  let ?clear = "clear_best_effort reliable t" and ?g = "kor (clear_temp_mods cx reliable t) (clear_best_effort reliable t) kdone"
  note c = temp_clears [OF t(1)] temp_finishes [OF t(1,2)]
  show "triple (st h (m OR t) (codes h m))
      (let clear = ?clear; release = kor (clear_temp_mods cx reliable t) clear kdone in
        case named_key (ks_key a) of
          Some (kc, _) \<Rightarrow>
            if mod_bit (ks_key a) \<noteq> 0 then exec_modifier cx reliable a kc (mod_bit (ks_key a)) clear release
            else exec_named cx reliable al a clear release
        | None \<Rightarrow> exec_literal cx reliable al a clear release) (after al hm') consistent"
  proof (cases "named_key (ks_key a)")
    case None
    then have "length (runes (ks_key a)) = 1" using literal_single [OF h(1) a(1) None a(3) v] by simp
    from triple_exec_literal [OF h None this a(2) v a(3) c] None show ?thesis by (simp add: Let_def)
  next
    case (Some p)
    obtain kc s where p: "p = (kc, s)" by (cases p)
    show ?thesis
    proof (cases "mod_bit (ks_key a) = 0")
      case True
      then have "plain_named (ks_key a)" using Some by (simp add: plain_named_def)
      from triple_exec_named [OF h this a(2) v a(3) c] Some p True show ?thesis by (simp add: Let_def)
    next
      case False
      then have "ks_modifiers a = no_modifiers" using a by (simp add: plain_action_def)
      then have t0: "t = 0" using t(3) no_modifiers_mask by simp
      have c0: "clears m m ?clear" "finishes m m ?g" for m
        using temp_clears [of m 0] temp_finishes [of m 0] by (simp_all add: t0)
      from triple_exec_modifier [OF h Some [unfolded p] False v a(3) c0] Some p False t0 show ?thesis by (simp add: Let_def)
    qed
  qed
qed

lemma triple_exec_text:
  assumes h: "held_ok h" "agree al h" and a: "has_slots al a" "ks_text a \<noteq> []"
    and v: "valid_for a (fst ` set h, m) hm'"
  shows "triple (st h m (codes h m)) (type_runes cx reliable (al_runes al) kdone (runes (ks_text a))) (after al hm') consistent"
proof -
  have z: "\<forall>r \<in> set (runes (ks_text a)). r \<notin> fst ` set h" "hm' = (fst ` set h, m)"
    using v a(2) by (auto simp: valid_for_def validate_action_def find_None_iff split: if_splits option.splits)
  have rs: "\<forall>r \<in> set (runes (ks_text a)). \<exists>s. al_slot al (RuneItem r) = Some s" and ok: "alloc_ok al"
    using a by (simp_all add: has_slots_def action_runes_def)
  have "triple (st h m (codes h m)) (type_runes cx reliable (al_runes al) kdone (runes (ks_text a))) (st h m (codes h m)) consistent"
    by (rule triple_type_runes [OF text_slots_fresh [OF h ok rs z(1)] triple_kdone]) (rule st_consistent [OF h(1)])
  then show ?thesis by (rule triple_post) (use z(2) afterI [OF _ h] in auto)
qed

lemma triple_exec_actions:
  assumes "list_all plain_action as" "list_all (has_slots al) as"
    "validate_actions as hm = (Inr hm' :: unit kb_error + string set \<times> u32)"
  shows "triple (after al hm) (exec_actions cx reliable al as) (after al hm') consistent"
  using assms
proof (induction as arbitrary: hm)
  case Nil
  then show ?case by (simp add: triple_kdone)
next
  case (Cons a as)
  from Cons.prems(3) obtain hm1 where v: "valid_for a hm hm1"
    and rest: "validate_actions as hm1 = (Inr hm' :: unit kb_error + string set \<times> u32)"
    by (auto simp: valid_for_def)
  let ?f = "if ks_text a \<noteq> [] then type_runes cx reliable (al_runes al) kdone (runes (ks_text a)) else exec_key cx reliable al a"
  have step: "triple (after al hm) ?f (after al hm1) consistent"
  proof (rule tripleI)
    fix k es k' assume k: "after al hm k" "?f k = (es, k')"
    from k(1) obtain h m where h: "hm = (fst ` set h, m)" "st h m (codes h m) k" "held_ok h" "agree al h"
      by (auto simp: after_def)
    have "triple (st h m (codes h m)) ?f (after al hm1) consistent"
    proof (cases "ks_text a = []")
      case True
      then show ?thesis
        using triple_exec_key [OF h(3,4) _ _ True v [unfolded h(1)]] Cons.prems(1,2) by simp
    next
      case False
      then show ?thesis
        using triple_exec_text [OF h(3,4) _ False v [unfolded h(1)]] Cons.prems(2) by simp
    qed
    from tripleD [OF this h(2) k(2)] show "if es = [] then after al hm1 k' else consistent k'" .
  qed
  have chk: "triple (after al hm) (check_ctx cx) (after al hm) consistent"
  proof (rule tripleI)
    fix k es k' assume k: "after al hm k" "check_ctx cx k = (es, k')"
    from k(1) obtain h m where h: "hm = (fst ` set h, m)" "st h m (codes h m) k" "held_ok h" "agree al h"
      by (auto simp: after_def)
    from tripleD [OF triple_check h(2) k(2)] have "st h m (codes h m) k'" by (simp split: if_splits)
    then show "if es = [] then after al hm k' else consistent k'"
      using afterI [OF _ h(3,4)] st_consistent [OF h(3)] h(1) by simp
  qed
  show ?case
    by (simp only: exec_actions.simps) (rule triple_kthen [OF chk triple_kthen [OF step Cons.IH]], use Cons.prems rest in simp_all)
qed

section \<open>Batches\<close>

lemma triple_upload: "triple (st h m D) (upload_keymap cx reliable km) (st h m D) (st h m D)"
proof (rule tripleI)
  fix k es k' assume k: "st h m D k" "upload_keymap cx reliable km k = (es, k')"
  have "triple (st h m D) (kthen (write_kb cx reliable (KeymapMsg km)) (\<lambda>k. ([], k\<lparr>kb_last := Some km\<rparr>))) (st h m D) (st h m D)"
    using triple_write [of h m D cx "KeymapMsg km"]
    by (rule triple_kthen [simplified]) (simp add: triple_def st_def)
  from tripleD [OF this k(1)] k show "if es = [] then st h m D k' else st h m D k'"
    by (simp add: upload_keymap_def split: if_splits)
qed

lemma triple_upload_and_restore:
  "triple (st h m D) (upload_and_restore cx reliable km) (st h m D) (st h m D)"
  unfolding upload_and_restore_def
proof (rule triple_kthen [OF triple_upload])
  show "triple (st h m D) (\<lambda>k. if kb_mods k \<noteq> 0 then send_modifiers cx reliable k else ([], k)) (st h m D) (st h m D)"
    by (rule tripleI) (auto dest: tripleD [OF triple_mods] split: if_splits)
qed

lemma plan_has_slots:
  "plan_ok actions h al \<Longrightarrow> a \<in> set actions \<Longrightarrow> has_slots al a"
  unfolding plan_ok_def has_slots_def by blast

lemma validate_actions_poly:
  "validate_actions as hm = (Inr hm' :: 'e kb_error + string set \<times> u32) \<longleftrightarrow>
   validate_actions as hm = (Inr hm' :: unit kb_error + string set \<times> u32)"
proof (induction as arbitrary: hm)
  case (Cons a as)
  show ?case
    by (cases "validate_action a hm :: 'e kb_error + string set \<times> u32";
        cases "validate_action a hm :: unit kb_error + string set \<times> u32")
      (use Cons.IH validate_action_poly [of a hm, where ?'e = 'e] validate_action_poly [of a hm, where ?'e = unit] in auto)
qed simp

lemma sendkeys_triple:
  assumes k: "consistent k" and a: "list_all plain_action actions"
    and s: "sendkeys cx reliable actions k = ((es, k') :: 'e kb_error list \<times> wl_keyboard)"
  shows "consistent k' \<and> (es = [] \<longrightarrow>
    validate_sendkeys_sequence actions k = (Inr (fst ` set (kb_held k'), kb_mods k') :: 'e kb_error + string set \<times> u32))"
proof -
  let ?h = "kb_held k" and ?m = "kb_mods k"
  have h: "held_ok ?h" and k0: "st ?h ?m (codes ?h ?m) k" using k by (simp_all add: consistent_def st_def codes_def)
  obtain cs :: "'e kb_error list" and k1 where c: "check_ctx cx k = (cs, k1)" by fastforce
  from tripleD [OF triple_check k0 c] have k1: "st ?h ?m (codes ?h ?m) k1" by (simp split: if_splits)
  then have k1': "consistent k1" "kb_held k1 = ?h" "kb_mods k1 = ?m" using st_consistent [OF h] by (auto simp: st_def)
  show ?thesis
  proof (cases "cs = [] \<and> actions \<noteq> []")
    case False
    then show ?thesis
      using s c k1' by (auto simp: sendkeys_def kthen_def kor_def kdone_def validate_sendkeys_sequence_def split: if_splits)
  next
    case True
    show ?thesis
    proof (cases "plan_sendkeys actions k1 :: 'e kb_error + alloc")
      case (Inl e)
      then show ?thesis using s c k1' True by (auto simp: sendkeys_def kthen_def kor_def)
    next
      case (Inr al)
      note ok = plan_sendkeys_ok [OF h [folded k1'(2)] Inr]
      obtain hm' where v: "validate_actions actions (fst ` set ?h, ?m) = (Inr hm' :: 'e kb_error + string set \<times> u32)"
        using ok k1' by (auto simp: validate_sendkeys_sequence_def)
      have ag: "agree al ?h" using ok k1' by (auto simp: plan_ok_def agree_def)
      have sl: "list_all (has_slots al) actions"
        using ok plan_has_slots by (auto simp: list_all_iff)
      have up: "triple (st ?h ?m (codes ?h ?m)) (upload_and_restore cx reliable (keymap_of al))
          (after al (fst ` set ?h, ?m)) consistent"
        by (rule triple_cons [OF triple_upload_and_restore]) (use afterI [OF _ h ag] st_consistent [OF h] in auto)
      have "triple (st ?h ?m (codes ?h ?m)) (kthen (upload_and_restore cx reliable (keymap_of al)) (exec_actions cx reliable al actions))
          (after al hm') consistent"
        by (rule triple_kthen [OF up triple_exec_actions [OF a sl]]) (use v validate_actions_poly in blast)
      moreover have "kthen (upload_and_restore cx reliable (keymap_of al)) (exec_actions cx reliable al actions) k1 = (es, k')"
        using s c True Inr by (simp add: sendkeys_def kthen_def kor_def)
      ultimately have post: "if es = [] then after al hm' k' else consistent k'" using tripleD k1 by blast
      then have "consistent k'" using st_consistent by (auto simp: after_def split: if_splits)
      moreover have "hm' = (fst ` set (kb_held k'), kb_mods k')" if "es = []"
        using post that by (auto simp: after_def st_def)
      ultimately show ?thesis using v by (auto simp: validate_sendkeys_sequence_def)
    qed
  qed
qed



section \<open>Named keys\<close>

lemma named_range:
  assumes "named_key key = Some (kc, s)"
  shows "kc \<le> 36" "mod_bit key = 0 \<Longrightarrow> 12 \<le> kc"
proof -
  obtain q where q: "from_string key = Some q" "map_of named_keys q = Some (kc, s)"
    using assms by (auto simp: named_key_def bind_eq_Some_conv)
  from map_of_SomeD [OF q(2)] have "kc \<le> 36 \<and> (kc < 12 \<longrightarrow> q \<in> {KeyShift, KeyCtrl, KeyAlt, KeySuper})"
    by (auto simp: named_keys_def)
  then show "kc \<le> 36" "mod_bit key = 0 \<Longrightarrow> 12 \<le> kc"
    using q(1) by (auto simp: mod_bit_def split: if_splits intro: ccontr)
qed

end
