(* ===== verification/WlKeyboardKeys.thy ===== *)
theory WlKeyboardKeys
  imports WlKeyboardSafety
begin

text \<open>
  Pressing and releasing single keys (\<^verbatim>\<open>pressKey\<close>, \<^verbatim>\<open>releaseKey\<close>): both keep the bookkeeping
  and the compositor in agreement, and a press followed by a release undoes it.
\<close>

section \<open>Key presses\<close>

text \<open>The held keys and the mask that a press of \<open>key\<close> is meant to lead to.\<close>

definition key_pressed :: "string \<Rightarrow> wl_keyboard \<Rightarrow> wl_keyboard \<Rightarrow> bool" where
  "key_pressed key k k' \<longleftrightarrow>
     fst ` set (kb_held k') = (if mod_bit key = 0 then insert key (fst ` set (kb_held k)) else fst ` set (kb_held k)) \<and>
     kb_mods k' = kb_mods k OR mod_bit key"

definition key_released :: "string \<Rightarrow> wl_keyboard \<Rightarrow> wl_keyboard \<Rightarrow> bool" where
  "key_released key k k' \<longleftrightarrow>
     fst ` set (kb_held k') = (if mod_bit key = 0 then fst ` set (kb_held k) - {key} else fst ` set (kb_held k)) \<and>
     kb_mods k' = kb_mods k AND NOT (mod_bit key)"

abbreviation down_action :: "string \<Rightarrow> key_send" where
  "down_action key \<equiv> \<lparr>ks_text = [], ks_key = key, ks_down = True, ks_up = False, ks_modifiers = no_modifiers\<rparr>"

abbreviation up_action :: "string \<Rightarrow> key_send" where
  "up_action key \<equiv> \<lparr>ks_text = [], ks_key = key, ks_down = False, ks_up = True, ks_modifiers = no_modifiers\<rparr>"

lemma mod_bit_unnamed: "named_key key = None \<Longrightarrow> mod_bit key = 0"
  using mod_bit_cases [of key] by fastforce

lemma validate_down:
  "validate_actions [down_action key] (H, m) = (Inr (H', m') :: 'e kb_error + string set \<times> u32) \<Longrightarrow>
     H' = (if mod_bit key = 0 then insert key H else H) \<and> m' = m OR mod_bit key"
  by (cases "named_key key") (auto simp: validate_action_def Let_def mod_bit_unnamed split: if_splits)

lemma validate_up:
  "validate_actions [up_action key] (H, m) = (Inr (H', m') :: 'e kb_error + string set \<times> u32) \<Longrightarrow>
     H' = (if mod_bit key = 0 then H - {key} else H) \<and> m' = m AND NOT (mod_bit key)"
  by (cases "named_key key") (auto simp: validate_action_def Let_def mod_bit_unnamed split: if_splits)

lemma plain_down_up: "list_all plain_action [down_action key]" "list_all plain_action [up_action key]"
  by (simp_all add: plain_action_def)

lemma held_name_plain: "plain_named key \<Longrightarrow> held_name_ok key"
  by (simp add: held_name_ok_def)

lemma held_name_single:
  "named_key key = None \<Longrightarrow> valid_string key \<Longrightarrow> length (runes key) = 1 \<Longrightarrow> held_name_ok key"
  using single_rune [of key] by (simp add: held_name_ok_def)

lemma triple_first_hold:
  assumes "held_name_ok key" "12 \<le> s" "s \<le> kc_dyn_max"
  shows "triple (st [] m (codes [] m)) (kthen (send_key cx reliable s True) (hold key s))
    (\<lambda>k. st [(key, s)] m (codes [(key, s)] m) k \<and> held_ok [(key, s)]) consistent"
proof -
  have ok: "held_ok []" by (simp add: held_ok_def)
  note h = hold_ok [OF ok assms(1) _ _ assms(2,3)]
  have D: "codes [(key, s)] m = insert (s - 8) (codes [] m)" using h(3) [of m] by simp
  have "triple (st [] m (codes [] m)) (kthen (send_key cx reliable s True) (hold key s)) (st [(key, s)] m (codes [(key, s)] m)) consistent"
    using triple_kthen [OF triple_weaken [OF triple_down [of s "[]" m "codes [] m" cx] st_consistent [OF ok]]
        triple_hold [of "[]" m "insert (s - 8) (codes [] m)" key s]] assms(2) D by simp
  then show ?thesis by (rule triple_post) (use h(2) in simp)
qed

lemma triple_press_modifier:
  assumes h: "held_ok h" and key: "named_key key = Some (kc, s)" "mod_bit key \<noteq> 0" "m AND mod_bit key = 0"
  shows "triple (st h m (codes h m)) (kthen (send_key cx (reliable :: 'e transport) kc True) (\<lambda>k.
      kor (send_modifiers cx (reliable :: 'e transport)) (kthen (set_mods (\<lambda>_. kb_mods k)) (cleanup_send_key reliable kc)) kdone
        (k\<lparr>kb_mods := kb_mods k OR mod_bit key\<rparr>)))
    (st h (m OR mod_bit key) (codes h (m OR mod_bit key))) consistent"
proof -
  note kc = modifier_codes(1) [OF key(1,2)]
  note up = codes_modifier(2) [OF h key(1,2), of m]
  have D: "insert (kc - 8) (codes h m) - {kc - 8} = codes h m" using codes_modifier(3) [OF h key] by simp
  have "triple (st h m (insert (kc - 8) (codes h m))) (\<lambda>k.
      kor (send_modifiers cx (reliable :: 'e transport)) (kthen (set_mods (\<lambda>_. kb_mods k)) (cleanup_send_key reliable kc)) kdone
        (k\<lparr>kb_mods := kb_mods k OR mod_bit key\<rparr>))
    (st h (m OR mod_bit key) (codes h (m OR mod_bit key))) consistent"
  proof (rule triple_mods_now [where g = "\<lambda>m. m OR mod_bit key" and hh = "\<lambda>p. kthen (set_mods (\<lambda>_. p)) (cleanup_send_key reliable kc)"])
    show "triple (st h (m OR mod_bit key) (insert (kc - 8) (codes h m))) (kthen (set_mods (\<lambda>_. m)) (cleanup_send_key reliable kc)) consistent consistent"
      by (rule triple_kthen [OF triple_set_mods [where f = "\<lambda>_. m"]
            triple_post [OF triple_cleanup_key [OF kc, of h m "insert (kc - 8) (codes h m)", unfolded D] st_consistent [OF h]]])
    show "triple (st h (m OR mod_bit key) (insert (kc - 8) (codes h m))) kdone (st h (m OR mod_bit key) (codes h (m OR mod_bit key))) consistent"
      by (rule triple_kdone) (simp add: up)
  qed (rule triple_mods)
  moreover have "triple (st h m (codes h m)) (send_key cx (reliable :: 'e transport) kc True)
      (st h m (insert (kc - 8) (codes h m))) consistent"
    by (rule triple_weaken [OF triple_down [OF kc]]) (rule st_consistent [OF h])
  ultimately show ?thesis using triple_kthen by blast
qed

text \<open>The branches of \<^verbatim>\<open>pressKey\<close> after its context check.\<close>

lemma press_branches:
  assumes k: "consistent k" and v: "valid_string key" and m: "kb_mods k AND mod_bit key = 0"
    and none: "kb_held k = []"
    and r: "(case named_key key of
         Some (kc, symb) \<Rightarrow>
           kthen (upload_and_restore cx reliable (xkb_with_named kc symb))
             (kthen (send_key cx reliable kc True) (\<lambda>k.
               if mod_bit key \<noteq> 0 then
                 let previous = kb_mods k in
                 kor (send_modifiers cx reliable) (kthen (set_mods (\<lambda>_. previous)) (cleanup_send_key reliable kc)) kdone
                   (k\<lparr>kb_mods := previous OR mod_bit key\<rparr>)
               else hold key kc k)) k
       | None \<Rightarrow>
           if length (runes key) \<noteq> 1 then kfail (MultiChar key) k
           else
             kthen (upload_and_restore cx reliable (xkb_with_runes (runes key)))
               (kthen (send_key cx reliable kc_dyn_base True) (hold key kc_dyn_base)) k) = ((es, k') :: 'e kb_error list \<times> wl_keyboard)"
  shows "consistent k' \<and> (es = [] \<longrightarrow> key_pressed key k k')"
proof -
  have ok: "held_ok []" by (simp add: held_ok_def)
  let ?m = "kb_mods k"
  have k0: "st [] ?m (codes [] ?m) k" using k none by (simp add: consistent_def st_def codes_def)
  note up = triple_weaken [OF triple_upload_and_restore [of "[]" ?m "codes [] ?m" cx] st_consistent [OF ok, where m = ?m]]
  show ?thesis
  proof (cases "named_key key")
    case None
    show ?thesis
    proof (cases "length (runes key) = 1")
      case True
      have "12 \<le> kc_dyn_base" "kc_dyn_base \<le> kc_dyn_max" by (simp_all add: kc_defs)
      note t = triple_kthen [OF up triple_first_hold [OF held_name_single [OF None v True] this]]
      have "kthen (upload_and_restore cx reliable (xkb_with_runes (runes key)))
               (kthen (send_key cx reliable kc_dyn_base True) (hold key kc_dyn_base)) k = (es, k')"
        using r None True by simp
      from tripleD [OF t k0 this] show ?thesis
        using st_consistent none mod_bit_unnamed [OF None] by (auto simp: key_pressed_def st_def split: if_splits)
    next
      case False
      then show ?thesis using r None k by (auto simp: kfail_def)
    qed
  next
    case (Some p)
    obtain kc s where p: "p = (kc, s)" by (cases p)
    show ?thesis
    proof (cases "mod_bit key = 0")
      case True
      note rng = named_range [OF Some [unfolded p]]
      have "12 \<le> kc" "kc \<le> kc_dyn_max" using rng True by (simp_all add: kc_defs)
      moreover have "held_name_ok key" using True Some by (simp add: held_name_ok_def plain_named_def)
      ultimately have t: "triple (st [] ?m (codes [] ?m)) (kthen (upload_and_restore cx reliable (xkb_with_named kc s))
          (kthen (send_key cx reliable kc True) (hold key kc)))
          (\<lambda>k. st [(key, kc)] ?m (codes [(key, kc)] ?m) k \<and> held_ok [(key, kc)]) consistent"
        by (intro triple_kthen [OF up] triple_first_hold)
      have "kthen (upload_and_restore cx reliable (xkb_with_named kc s)) (kthen (send_key cx reliable kc True) (hold key kc)) k = (es, k')"
        using r Some p True by simp
      from tripleD [OF t k0 this] show ?thesis
        using st_consistent none True by (auto simp: key_pressed_def st_def split: if_splits)
    next
      case False
      note t = triple_kthen [OF up triple_press_modifier [OF ok Some [unfolded p] False m]]
      have "kthen (upload_and_restore cx reliable (xkb_with_named kc s)) (kthen (send_key cx reliable kc True) (\<lambda>k.
          kor (send_modifiers cx reliable) (kthen (set_mods (\<lambda>_. kb_mods k)) (cleanup_send_key reliable kc)) kdone
          (k\<lparr>kb_mods := kb_mods k OR mod_bit key\<rparr>))) k = (es, k')"
        using r Some p False by (simp add: Let_def)
      from tripleD [OF t k0 this] show ?thesis
        using st_consistent [OF ok] none False by (auto simp: key_pressed_def st_def split: if_splits)
    qed
  qed
qed

lemma press_key_ok:
  assumes k: "consistent k" and v: "valid_string key" and m: "kb_mods k AND mod_bit key = 0"
    and r: "press_key cx reliable key k = ((es, k') :: 'e kb_error list \<times> wl_keyboard)"
  shows "consistent k' \<and> (es = [] \<longrightarrow> key_pressed key k k')"
proof -
  obtain cs :: "'e kb_error list" and k1 where c: "check_ctx cx k = (cs, k1)" by fastforce
  have h: "held_ok (kb_held k)" and k0: "st (kb_held k) (kb_mods k) (codes (kb_held k) (kb_mods k)) k"
    using k by (simp_all add: consistent_def st_def codes_def)
  from tripleD [OF triple_check k0 c] have "st (kb_held k) (kb_mods k) (codes (kb_held k) (kb_mods k)) k1"
    by (simp split: if_splits)
  then have k1: "consistent k1" "kb_held k1 = kb_held k" "kb_mods k1 = kb_mods k"
    using st_consistent [OF h] by (auto simp: st_def)
  have frame: "key_pressed key k1 k' = key_pressed key k k'" by (simp add: key_pressed_def k1)
  show ?thesis
  proof (cases "cs = []")
    case False
    then show ?thesis using r c k1 by (auto simp: press_key_def kthen_def kor_def kdone_def)
  next
    case True
    have body: "(if kb_held k1 \<noteq> [] then sendkeys cx reliable [down_action key] k1
      else case named_key key of
         Some (kc, symb) \<Rightarrow>
           kthen (upload_and_restore cx reliable (xkb_with_named kc symb))
             (kthen (send_key cx reliable kc True) (\<lambda>k.
               if mod_bit key \<noteq> 0 then
                 let previous = kb_mods k in
                 kor (send_modifiers cx reliable) (kthen (set_mods (\<lambda>_. previous)) (cleanup_send_key reliable kc)) kdone
                   (k\<lparr>kb_mods := previous OR mod_bit key\<rparr>)
               else hold key kc k)) k1
       | None \<Rightarrow>
           if length (runes key) \<noteq> 1 then kfail (MultiChar key) k1
           else
             kthen (upload_and_restore cx reliable (xkb_with_runes (runes key)))
               (kthen (send_key cx reliable kc_dyn_base True) (hold key kc_dyn_base)) k1) = (es, k')"
      using r unfolding press_key_def kthen_def [of "check_ctx cx"] kor_def [of "check_ctx cx"]
      by (simp only: c True prod.case simp_thms if_True)
    show ?thesis
    proof (cases "kb_held k = []")
      case True
      have "consistent k' \<and> (es = [] \<longrightarrow> key_pressed key k1 k')"
        by (rule press_branches [OF k1(1) v m [folded k1(3)]])
          (use True k1 body in simp_all)
      then show ?thesis by (simp add: frame)
    next
      case False
      have "sendkeys cx reliable [down_action key] k1 = (es, k')"
        using body False k1 by simp
      note ok = sendkeys_triple [OF k1(1) plain_down_up(1) this]
      have "key_pressed key k1 k'" if "es = []"
        using ok that validate_down [of key "fst ` set (kb_held k1)" "kb_mods k1"]
        unfolding key_pressed_def validate_sendkeys_sequence_def by blast
      then show ?thesis unfolding frame [symmetric] using ok by blast
    qed
  qed
qed

section \<open>Key releases\<close>

lemma triple_release_held:
  assumes h: "held_ok h" "(key, s) \<in> set h"
  shows "triple (st h m (codes h m)) (kthen (upload_keymap cx reliable km) (kthen (send_key cx reliable s False) (unhold key)))
    (\<lambda>k. st (filter (\<lambda>p. fst p \<noteq> key) h) m (codes (filter (\<lambda>p. fst p \<noteq> key) h) m) k) consistent"
proof -
  have s: "8 \<le> s" using held_entry [OF h] by simp
  have "triple (st h m (codes h m)) (send_key cx reliable s False) (st h m (codes (filter (\<lambda>p. fst p \<noteq> key) h) m)) consistent"
    by (rule triple_cons [OF triple_up [OF s]]) (use unhold_codes [OF h, of m] st_consistent [OF h(1)] in auto)
  from triple_kthen [OF triple_weaken [OF triple_upload st_consistent [OF h(1), where m = m]] triple_kthen [OF this triple_unhold]]
  show ?thesis .
qed

lemma triple_release_modifier:
  assumes h: "held_ok h" and key: "named_key key = Some (kc, s)" "mod_bit key \<noteq> 0"
  shows "triple (st h m (codes h m)) (kthen (send_key cx (reliable :: 'e transport) kc False) (\<lambda>k.
      kor (send_modifiers cx reliable) (set_mods (\<lambda>_. kb_mods k)) kdone (k\<lparr>kb_mods := kb_mods k AND NOT (mod_bit key)\<rparr>)))
    (st h (m AND NOT (mod_bit key)) (codes h (m AND NOT (mod_bit key)))) (\<lambda>_. True)"
proof (rule triple_kthen)
  show "triple (st h m (codes h m)) (send_key cx (reliable :: 'e transport) kc False)
      (st h m (codes h (m AND NOT (mod_bit key)))) (\<lambda>_. True)"
    unfolding codes_modifier(1) [OF h key, of m]
    by (rule triple_weaken [OF triple_up [OF modifier_codes(1) [OF key]]]) simp
  show "triple (st h m (codes h (m AND NOT (mod_bit key)))) (\<lambda>k.
      kor (send_modifiers cx (reliable :: 'e transport)) (set_mods (\<lambda>_. kb_mods k)) kdone (k\<lparr>kb_mods := kb_mods k AND NOT (mod_bit key)\<rparr>))
      (st h (m AND NOT (mod_bit key)) (codes h (m AND NOT (mod_bit key)))) (\<lambda>_. True)"
    by (rule triple_mods_now [where g = "\<lambda>x. x AND NOT (mod_bit key)" and hh = "\<lambda>p. set_mods (\<lambda>_. p)",
          OF triple_mods _ triple_kdone]) (simp_all add: triple_def split: prod.split)
qed

lemma only_entry: "held_ok h \<Longrightarrow> map_of h key = Some s \<Longrightarrow> \<not> length h > 1 \<Longrightarrow> h = [(key, s)]"
  by (cases h) (auto dest: map_of_SomeD simp: length_Suc_conv split: if_splits)

lemma kthen_ok: "f k = ([], k1) \<Longrightarrow> kthen f g k = g k1"
  by (simp add: kthen_def kor_def)

lemma kthen_error: "f k = (e # es, k1) \<Longrightarrow> kthen f g k = (e # es, k1)"
  by (simp add: kthen_def kor_def kdone_def)

lemma release_key_ok:
  assumes k: "consistent k"
    and r: "release_key cx reliable key k = ((es, k') :: 'e kb_error list \<times> wl_keyboard)"
  shows "(es = [] \<or> mod_bit key = 0 \<longrightarrow> consistent k') \<and> (es = [] \<longrightarrow> key_released key k k')"
proof -
  obtain cs :: "'e kb_error list" and k1 where c: "check_ctx cx k = (cs, k1)" by fastforce
  let ?h = "kb_held k" and ?m = "kb_mods k"
  have h: "held_ok ?h" and k0: "st ?h ?m (codes ?h ?m) k" using k by (simp_all add: consistent_def st_def codes_def)
  from tripleD [OF triple_check k0 c] have s1: "st ?h ?m (codes ?h ?m) k1" by (simp split: if_splits)
  then have k1: "consistent k1" "kb_held k1 = ?h" "kb_mods k1 = ?m" using st_consistent [OF h] by (auto simp: st_def)
  have frame: "key_released key k1 k' = key_released key k k'" by (simp add: key_released_def k1)
  let ?cond = "case map_of ?h key of None \<Rightarrow> False | Some slot \<Rightarrow> length ?h > 1 \<or> ?m \<noteq> 0 \<or>
             (case named_key key of Some (kc, _) \<Rightarrow> slot \<noteq> kc | None \<Rightarrow> slot \<noteq> kc_dyn_base)"
  show ?thesis
  proof (cases "cs = [] \<and> \<not> (mod_bit key \<noteq> 0 \<and> ?m AND mod_bit key = 0)")
    case False
    have "k' = k1 \<and> es \<noteq> []"
    proof (cases cs)
      case Nil
      with False r c k1 show ?thesis by (simp add: release_key_def kthen_ok [of "check_ctx cx", OF c [unfolded Nil]] kfail_def) blast
    next
      case (Cons e es')
      with r show ?thesis by (simp add: release_key_def kthen_error [of "check_ctx cx", OF c [unfolded Cons]]) blast
    qed
    with k1 show ?thesis by simp
  next
    case go: True
    have body: "(if ?cond then sendkeys cx reliable [up_action key] k1
       else case named_key key of
         Some (kc, symb) \<Rightarrow> release_named_key cx reliable key kc symb k1
       | None \<Rightarrow>
           if length (runes key) \<noteq> 1 then kfail (MultiChar key) k1
           else if map_of ?h key = None then kfail (NotHeld key) k1
           else
             kthen (upload_keymap cx reliable (xkb_with_runes (runes key)))
               (kthen (send_key cx reliable kc_dyn_base False) (unhold key)) k1) = (es, k')"
      using r unfolding release_key_def kthen_ok [of "check_ctx cx", OF c [unfolded conjunct1 [OF go]]] k1(2,3)
      by (simp only: conjunct2 [OF go] if_False)
    show ?thesis
    proof (cases ?cond)
      case True
      with body have "sendkeys cx reliable [up_action key] k1 = (es, k')" by simp
      note ok = sendkeys_triple [OF k1(1) plain_down_up(2) this]
      have "key_released key k1 k'" if "es = []"
        using ok that validate_up [of key "fst ` set (kb_held k1)" "kb_mods k1"]
        unfolding key_released_def validate_sendkeys_sequence_def by blast
      then show ?thesis unfolding frame [symmetric] using ok by blast
    next
      case nc: False
      note body' = body [unfolded if_not_P [OF nc]]
      have held: "consistent k' \<and> (es = [] \<longrightarrow> key_released key k k')"
        if in_held: "map_of ?h key = Some s" "mod_bit key = 0"
          and run: "kthen (upload_keymap cx reliable km) (kthen (send_key cx reliable s False) (unhold key)) k1 = (es, k')" for s km
      proof -
        have mem: "(key, s) \<in> set ?h" using in_held map_of_SomeD by fastforce
        from tripleD [OF triple_release_held [OF h mem] s1 run] show ?thesis
          using st_consistent [OF unhold_ok [OF h, of key], where m = ?m] in_held(2)
          by (cases "es = []") (auto simp: key_released_def st_def names_unhold)
      qed
      show ?thesis
      proof (cases "named_key key")
        case None
        note z = mod_bit_unnamed [OF None]
        have run: "(if length (runes key) \<noteq> 1 then kfail (MultiChar key) k1
           else if map_of ?h key = None then kfail (NotHeld key) k1
           else kthen (upload_keymap cx reliable (xkb_with_runes (runes key)))
               (kthen (send_key cx reliable kc_dyn_base False) (unhold key)) k1) = (es, k')"
          using body' unfolding None option.case .
        show ?thesis
        proof (cases "length (runes key) \<noteq> 1 \<or> map_of ?h key = None")
          case True
          then have "k' = k1 \<and> es \<noteq> []" using run by (auto simp: kfail_def split: if_splits)
          with k1 show ?thesis by simp
        next
          case False
          then obtain slot where s: "map_of ?h key = Some slot" by blast
          with nc None have slot: "slot = kc_dyn_base" by simp
          have run': "kthen (upload_keymap cx reliable (xkb_with_runes (runes key)))
               (kthen (send_key cx reliable slot False) (unhold key)) k1 = (es, k')"
            using run False s unfolding slot by simp
          from held [OF s z run'] show ?thesis by blast
        qed
      next
        case (Some p)
        obtain kc symb where p: "p = (kc, symb)" by (cases p)
        have run: "release_named_key cx reliable key kc symb k1 = (es, k')"
          using body' unfolding Some p option.case prod.case .
        show ?thesis
        proof (cases "mod_bit key = 0")
          case True
          have kc: "kc > kc_super" using named_range(2) [OF Some [unfolded p] True] by (simp add: kc_defs)
          show ?thesis
          proof (cases "map_of ?h key")
            case None
            then have "k' = k1 \<and> es \<noteq> []" using run kc k1 by (auto simp: release_named_key_def kfail_def Let_def)
            with k1 show ?thesis by simp
          next
            case (Some slot)
            with nc \<open>named_key key = Some p\<close> p have slot: "slot = kc" by simp
            have run': "kthen (upload_keymap cx reliable (xkb_with_named kc symb))
                (kthen (send_key cx reliable slot False) (unhold key)) k1 = (es, k')"
              using run kc Some True k1 unfolding slot by (simp add: release_named_key_def Let_def)
            from held [OF Some True run'] show ?thesis by blast
          qed
        next
          case False
          have kc: "\<not> kc > kc_super" using modifier_codes(1,2) [OF Some [unfolded p] False] by (simp add: kc_defs)
          have "kthen (send_key cx reliable kc False) (\<lambda>k. kor (send_modifiers cx reliable) (set_mods (\<lambda>_. kb_mods k)) kdone
              (k\<lparr>kb_mods := kb_mods k AND NOT (mod_bit key)\<rparr>)) k1 = (es, k')"
            using run kc False by (simp add: release_named_key_def Let_def)
          note T = tripleD [OF triple_release_modifier [OF h Some [unfolded p] False] s1 this]
          show ?thesis
          proof (cases "es = []")
            case True
            with T have "st ?h (?m AND NOT (mod_bit key)) (codes ?h (?m AND NOT (mod_bit key))) k'" by simp
            then show ?thesis using st_consistent [OF h] \<open>mod_bit key \<noteq> 0\<close> by (simp add: key_released_def st_def)
          next
            case es: False
            then show ?thesis using \<open>mod_bit key \<noteq> 0\<close> by simp
          qed
        qed
      qed
    qed
  qed
qed

lemma mask_off_on: "(m :: u32) AND b = 0 \<Longrightarrow> (m OR b) AND NOT b = m"
  unfolding mask_laws by (rule mask_disjoint)



text \<open>
  A modifier release is not atomic: when it is cancelled between the key-up and the new mask, the
  key is up but still counts as held.
\<close>

lemma release_modifier_cancelled:
  "let k = \<lparr>kb_mods = 1, kb_held = [], kb_last = None, kb_log = [KeyMsg 0 True], kb_time = 0\<rparr>;
       r = release_key (\<lambda>t. if t < 2 then None else Some Canceled) (reliable :: unit transport) ''shift'' k
   in fst r \<noteq> [] \<and> kb_mods (snd r) = 1 \<and> 0 \<notin> pressed (snd r)"
  unfolding reliable_def pressed_def by code_simp

end
