(* ===== verification/WlKeyboardText.thy ===== *)
theory WlKeyboardText
  imports WlKeyboardSafety
begin

text \<open>
  What the compositor makes of a batch of texts: reading the messages with the keymap in force,
  it sees exactly the characters of the texts, in order.
\<close>

section \<open>The receiving side\<close>

text \<open>The keymap in force and the symbols typed so far, after one more message.\<close>

fun recv :: "wl_msg \<Rightarrow> xkb_keymap option \<times> keysym list \<Rightarrow> xkb_keymap option \<times> keysym list" where
  "recv (KeymapMsg km) (_, typed) = (Some km, typed)"
| "recv (KeyMsg c True) (km, typed) =
     (km, typed @ (case km of None \<Rightarrow> [] | Some km \<Rightarrow> map def_sym (filter (\<lambda>d. def_slot d = c + 8) (km_defs km))))"
| "recv _ r = r"

definition received :: "wl_msg list \<Rightarrow> xkb_keymap option \<Rightarrow> wl_keyboard \<Rightarrow> xkb_keymap option \<times> keysym list \<Rightarrow> bool" where
  "received log km k r \<longleftrightarrow> (\<exists>ms. kb_log k = log @ ms \<and> fold recv ms (km, []) = r)"

definition rx :: "wl_msg list \<Rightarrow> xkb_keymap option \<Rightarrow> xkb_keymap option \<times> keysym list \<Rightarrow> wl_keyboard \<Rightarrow> bool" where
  "rx log km r k \<longleftrightarrow> received log km k r"

lemma rx_log: "kb_log k' = kb_log k \<Longrightarrow> rx log km r k' = rx log km r k"
  by (simp add: rx_def received_def)

lemma rx_frame [simp]:
  "rx log km r (tick k) = rx log km r k" "rx log km r (k\<lparr>kb_mods := m\<rparr>) = rx log km r k"
  "rx log km r (k\<lparr>kb_last := l\<rparr>) = rx log km r k"
  by (rule rx_log, simp add: tick_def)+

lemma rx_append: "rx log km r k \<Longrightarrow> rx log km (recv m r) (k\<lparr>kb_log := kb_log k @ [m]\<rparr>)"
proof -
  assume "rx log km r k"
  then obtain ms where "kb_log k = log @ ms" "fold recv ms (km, []) = r" by (auto simp: rx_def received_def)
  then have "kb_log (k\<lparr>kb_log := kb_log k @ [m]\<rparr>) = log @ (ms @ [m]) \<and> fold recv (ms @ [m]) (km, []) = recv m r" by simp
  then show ?thesis unfolding rx_def received_def by blast
qed

lemma rx_write: "triple (rx log km r) (write_kb cx reliable m) (rx log km (recv m r)) (\<lambda>_. True)"
  by (rule tripleI) (auto simp: write_kb_def reliable_def dest: rx_append split: option.splits)

lemma rx_check: "triple (rx log km r) (check_ctx cx) (rx log km r) (\<lambda>_. True)"
  by (rule tripleI) (auto simp: check_ctx_def split: option.splits)

lemma rx_any: "triple (\<lambda>_. True) f (\<lambda>_. True) (\<lambda>_. True)"
  by (simp add: triple_def split: prod.split)

lemma rx_kor:
  "triple P f Q1 (\<lambda>_. True) \<Longrightarrow> triple Q1 g Q (\<lambda>_. True) \<Longrightarrow> triple P (kor f h g) Q (\<lambda>_. True)"
  by (erule triple_kor) (rule rx_any)

lemma rx_kthen:
  "triple P f Q1 (\<lambda>_. True) \<Longrightarrow> triple Q1 g Q (\<lambda>_. True) \<Longrightarrow> triple P (kthen f g) Q (\<lambda>_. True)"
  by (rule triple_kthen)

section \<open>Characters\<close>

text \<open>A keymap that defines a rune at one slot only.\<close>

definition at_slot :: "xkb_keymap \<Rightarrow> nat \<Rightarrow> rune \<Rightarrow> bool" where
  "at_slot km s r \<longleftrightarrow> 8 \<le> s \<and> SlotDef s (RuneSym r) \<in> set (km_defs km) \<and> distinct (map def_slot (km_defs km))"

lemma at_slot_symbol:
  "at_slot km s r \<Longrightarrow> map def_sym (filter (\<lambda>d. def_slot d = s) (km_defs km)) = [RuneSym r]"
proof -
  have "map def_sym (filter (\<lambda>d. def_slot d = s) ds) = [def_sym d]"
    if "d \<in> set ds" "distinct (map def_slot ds)" "def_slot d = s" for d s and ds :: "keymap_def list"
    using that
  proof (induction ds)
    case (Cons e ds)
    show ?case
    proof (cases "e = d")
      case True
      with Cons.prems have "def_slot e = s" "s \<notin> def_slot ` set ds" by auto
      then have "filter (\<lambda>d. def_slot d = s) ds = []" by (simp add: filter_empty_conv) (metis imageI)
      with True Cons.prems show ?thesis by simp
    next
      case False
      with Cons.prems have "d \<in> set ds" "def_slot e \<noteq> s" by force+
      with Cons show ?thesis by simp
    qed
  qed simp
  from this [of "SlotDef s (RuneSym r)" "km_defs km" s] show "at_slot km s r \<Longrightarrow> ?thesis"
    by (simp add: at_slot_def)
qed

lemma recv_press:
  "at_slot km s r \<Longrightarrow> recv (KeyMsg (s - 8) True) (Some km, typed) = (Some km, typed @ [RuneSym r])"
  using at_slot_symbol [of km s r] by (simp add: at_slot_def)

lemma rx_tap:
  assumes "at_slot m s r"
  shows "triple (rx log km (Some m, typed)) (tap cx reliable s) (rx log km (Some m, typed @ [RuneSym r])) (\<lambda>_. True)"
proof -
  have s: "\<not> s < 8" using assms by (simp add: at_slot_def)
  have press: "triple (rx log km (Some m, typed)) (send_key cx reliable s True) (rx log km (Some m, typed @ [RuneSym r])) (\<lambda>_. True)"
    using rx_write [of log km "(Some m, typed)" cx "KeyMsg (s - 8) True"] s
    by (simp only: send_key_def if_False recv_press [OF assms])
  have lift: "triple (rx log km (Some m, t)) (send_key cx reliable s False) (rx log km (Some m, t)) (\<lambda>_. True)" for t
    using rx_write [of log km "(Some m, t)" cx "KeyMsg (s - 8) False"] s by (simp add: send_key_def)
  show ?thesis unfolding tap_def sleep_ctx_def
    by (rule rx_kthen [OF rx_check rx_kthen [OF press rx_kor [OF rx_check rx_kor [OF rx_check rx_kor [OF lift triple_kdone]]]]])
qed

lemma rx_type_runes:
  assumes "\<forall>r \<in> set rs. \<exists>s. slots r = Some s \<and> at_slot m s r"
  shows "triple (rx log km (Some m, typed)) (type_runes cx reliable slots h rs)
    (rx log km (Some m, typed @ map RuneSym rs)) (\<lambda>_. True)"
  using assms
proof (induction rs arbitrary: typed)
  case Nil
  show ?case by (simp add: triple_kdone)
next
  case (Cons r rs)
  then obtain s where s: "slot_of slots r = s" "at_slot m s r" by (auto simp: slot_of_def)
  have "triple (rx log km (Some m, typed @ [RuneSym r])) (type_runes cx reliable slots h rs)
      (rx log km (Some m, (typed @ [RuneSym r]) @ map RuneSym rs)) (\<lambda>_. True)"
    using Cons.prems by (intro Cons.IH) simp
  from rx_kor [OF rx_tap [OF s(2)] rx_kor [OF rx_check this]] show ?case
    by (simp add: s(1) sleep_ctx_def)
qed

lemma rx_exec_texts:
  assumes "list_all (\<lambda>a. ks_text a \<noteq> []) as"
    "\<forall>a \<in> set as. \<forall>r \<in> set (action_runes a). \<exists>s. al_runes al r = Some s \<and> at_slot m s r"
  shows "triple (rx log km (Some m, typed)) (exec_actions cx (reliable :: 'e transport) al as)
    (rx log km (Some m, typed @ map RuneSym (concat (map (\<lambda>a. runes (ks_text a)) as)))) (\<lambda>_. True)"
  using assms
proof (induction as arbitrary: typed)
  case Nil
  show ?case by (simp add: triple_kdone)
next
  case (Cons a as)
  have t: "ks_text a \<noteq> []" using Cons.prems by simp
  have rs: "\<forall>r \<in> set (runes (ks_text a)). \<exists>s. al_runes al r = Some s \<and> at_slot m s r"
    using Cons.prems t by (simp add: action_runes_def)
  let ?typed = "typed @ map RuneSym (runes (ks_text a))"
  have "triple (rx log km (Some m, ?typed)) (exec_actions cx (reliable :: 'e transport) al as)
      (rx log km (Some m, ?typed @ map RuneSym (concat (map (\<lambda>a. runes (ks_text a)) as)))) (\<lambda>_. True)"
    by (rule Cons.IH) (use Cons.prems in simp_all)
  from rx_kthen [OF rx_check rx_kthen [OF rx_type_runes [OF rs] this]] t show ?case by simp
qed

section \<open>Batches of texts\<close>

lemma rx_upload:
  assumes "kb_last k = km" "upload_and_restore cx reliable m k = (([], k') :: 'e kb_error list \<times> wl_keyboard)"
  shows "rx (kb_log k) km (Some m, []) k'"
proof -
  obtain es :: "'e kb_error list" and k1 where u: "upload_keymap cx reliable m k = (es, k1)" by fastforce
  with assms(2) have es: "es = []" by (auto simp: upload_and_restore_def kthen_def kor_def kdone_def split: if_splits)
  have start: "rx (kb_log k) km (km, []) k" by (simp add: rx_def received_def)
  have up: "rx (kb_log k) km (Some m, []) k1"
  proof (cases "km = Some m")
    case True
    then show ?thesis using u start assms(1) by (simp add: upload_keymap_def)
  next
    case False
    have "triple (rx (kb_log k) km (km, [])) (kthen (write_kb cx (reliable :: 'e transport) (KeymapMsg m)) (\<lambda>k. ([], k\<lparr>kb_last := Some m\<rparr>)))
        (rx (kb_log k) km (Some m, [])) (\<lambda>_. True)"
      using rx_write [of "kb_log k" km "(km, [])" cx "KeymapMsg m"]
      by (rule rx_kthen [simplified]) (simp add: triple_def)
    from tripleD [OF this start] u es False assms(1) show ?thesis by (simp add: upload_keymap_def)
  qed
  have rest: "(if kb_mods k1 \<noteq> 0 then send_modifiers cx reliable k1 else ([], k1)) = (([], k') :: 'e kb_error list \<times> wl_keyboard)"
    using assms(2) u es by (simp add: upload_and_restore_def kthen_def kor_def)
  show ?thesis
  proof (cases "kb_mods k1 = 0")
    case True
    then show ?thesis using rest up by simp
  next
    case False
    then have "write_kb cx reliable (ModsMsg (kb_mods k1)) k1 = (([], k') :: 'e kb_error list \<times> wl_keyboard)"
      using rest by (simp add: send_modifiers_def)
    from tripleD [OF rx_write up this] show ?thesis by simp
  qed
qed

lemma texts_typed:
  assumes h: "held_ok (kb_held k)" and a: "list_all (\<lambda>a. ks_text a \<noteq> []) actions" "actions \<noteq> []"
    and s: "sendkeys cx reliable actions k = (([], k') :: 'e kb_error list \<times> wl_keyboard)"
  shows "\<exists>m. rx (kb_log k) (kb_last k) (Some m, map RuneSym (concat (map (\<lambda>a. runes (ks_text a)) actions))) k'"
    "list_all (\<lambda>a. valid_string (ks_text a)) actions"
proof -
  obtain cs :: "'e kb_error list" and k1 where c: "check_ctx cx k = (cs, k1)" by fastforce
  have cs: "cs = []" using s c by (auto simp: sendkeys_def kthen_def kor_def kdone_def split: if_splits)
  have k1: "k1 = tick k" using c cs by (auto simp: check_ctx_def split: option.splits)
  then have f: "kb_held k1 = kb_held k" "kb_last k1 = kb_last k" "kb_log k1 = kb_log k" by (simp_all add: tick_def)
  obtain al where p: "plan_sendkeys actions k1 = (Inr al :: 'e kb_error + alloc)"
    and run: "kthen (upload_and_restore cx reliable (keymap_of al)) (exec_actions cx reliable al actions) k1 = (([], k') :: 'e kb_error list \<times> wl_keyboard)"
    using s c cs a(2) by (auto simp: sendkeys_def kthen_def [of "check_ctx cx"] kor_def [of "check_ctx cx"] split: sum.splits)
  have ok: "plan_ok actions (kb_held k1) al" and v: "\<exists>hm. validate_sendkeys_sequence actions k1 = (Inr hm :: 'e kb_error + string set \<times> u32)"
    using plan_sendkeys_ok [OF h [folded f(1)] p] by blast+
  have "valid_string (ks_text a)" if "a \<in> set actions" for a
  proof -
    have "\<forall>a \<in> set as. ks_text a \<noteq> [] \<longrightarrow> valid_string (ks_text a)"
      if "validate_actions as hm = (Inr hm' :: 'e kb_error + string set \<times> u32)" for as hm hm'
      using that
    proof (induction as arbitrary: hm)
      case (Cons a as)
      then show ?case by (cases hm) (auto simp: validate_action_def split: if_splits)
    qed simp
    then show ?thesis using v that a(1) by (fastforce simp: validate_sendkeys_sequence_def list_all_iff)
  qed
  then show "list_all (\<lambda>a. valid_string (ks_text a)) actions" by (simp add: list_all_iff)
  have low: "12 \<le> s" if "al_slot al i = Some s" for i s using ok that unfolding plan_ok_def alloc_ok_def by blast
  have at: "\<exists>s. al_runes al r = Some s \<and> at_slot (keymap_of al) s r" if "a \<in> set actions" "r \<in> set (action_runes a)" for a r
  proof -
    have "\<forall>a \<in> set actions. \<forall>r \<in> set (action_runes a). \<exists>s. al_slot al (RuneItem r) = Some s \<and> SlotDef s (RuneSym r) \<in> set (al_defs al)"
      using ok by (simp add: plan_ok_def)
    with that obtain s where s: "al_slot al (RuneItem r) = Some s" "SlotDef s (RuneSym r) \<in> set (al_defs al)" by blast
    then show ?thesis using low [OF s(1)] ok by (auto simp: at_slot_def keymap_of_def plan_ok_def)
  qed
  obtain es :: "'e kb_error list" and k2 where u: "upload_and_restore cx reliable (keymap_of al) k1 = (es, k2)" by fastforce
  have es: "es = []" "exec_actions cx reliable al actions k2 = (([], k') :: 'e kb_error list \<times> wl_keyboard)"
    using run u by (auto simp: kthen_def kor_def kdone_def split: if_splits)
  have up: "rx (kb_log k1) (kb_last k1) (Some (keymap_of al), []) k2" by (rule rx_upload [OF refl u [unfolded es(1)]])
  have all: "\<forall>a \<in> set actions. \<forall>r \<in> set (action_runes a). \<exists>s. al_runes al r = Some s \<and> at_slot (keymap_of al) s r"
    using at by blast
  from tripleD [OF rx_exec_texts [OF a(1) all] up es(2)]
  show "\<exists>m. rx (kb_log k) (kb_last k) (Some m, map RuneSym (concat (map (\<lambda>a. runes (ks_text a)) actions))) k'"
    unfolding f by auto
qed

text \<open>
  C4. A batch of texts is typed exactly: when it succeeds, the compositor, reading the messages
  with the keymaps it is sent, has seen the symbols of the characters of the texts, each once
  and in order, and these characters spell the texts.
\<close>

theorem texts_typed_exactly:
  assumes "held_ok (kb_held k)" "list_all (\<lambda>a. ks_text a \<noteq> []) actions"
    "sendkeys cx reliable actions k = (([], k') :: 'e kb_error list \<times> wl_keyboard)"
  shows "\<exists>ms. kb_log k' = kb_log k @ ms \<and>
    snd (fold recv ms (kb_last k, [])) = map RuneSym (concat (map (\<lambda>a. runes (ks_text a)) actions)) \<and>
    concat (concat (map (\<lambda>a. runes (ks_text a)) actions)) = concat (map ks_text actions)"
proof (cases "actions = []")
  case True
  then have "kb_log k' = kb_log k"
    using assms(3) by (auto simp: sendkeys_def kthen_def kor_def check_ctx_def tick_def kdone_def split: option.splits if_splits)
  with True show ?thesis by simp
next
  case False
  note t = texts_typed [OF assms(1,2) False assms(3)]
  have "concat (concat (map (\<lambda>a. runes (ks_text a)) as)) = concat (map ks_text as)"
    if "list_all (\<lambda>a. valid_string (ks_text a)) as" for as
    using that by (induction as) (simp_all add: concat_runes)
  then show ?thesis using t unfolding rx_def received_def by fastforce
qed

section \<open>Success\<close>

text \<open>Without cancellation, on a transport that delivers, nothing can fail once the batch is planned.\<close>

definition succeeds :: "'e kb_op \<Rightarrow> bool" where "succeeds f \<longleftrightarrow> triple (\<lambda>_. True) f (\<lambda>_. True) (\<lambda>_. False)"

lemma succeedsI: "(\<And>k. fst (f k) = []) \<Longrightarrow> succeeds f"
  unfolding succeeds_def by (rule tripleI) (metis fst_conv)

lemma succeedsD: "succeeds f \<Longrightarrow> fst (f k) = []"
  using tripleD [of "\<lambda>_. True" f "\<lambda>_. True" "\<lambda>_. False" k "fst (f k)" "snd (f k)"] unfolding succeeds_def
  by (auto split: if_splits)

lemma succeeds_kor: "succeeds f \<Longrightarrow> succeeds g \<Longrightarrow> succeeds (kor f h g)"
  unfolding succeeds_def by (rule triple_kor, assumption, simp add: triple_def)

lemma succeeds_kthen: "succeeds f \<Longrightarrow> succeeds g \<Longrightarrow> succeeds (kthen f g)"
  unfolding kthen_def by (rule succeeds_kor)

lemma succeeds_write: "succeeds (write_kb background reliable m)"
  by (rule succeedsI) (simp add: write_kb_def reliable_def background_def)

lemma succeeds_check: "succeeds (check_ctx background)" "succeeds (sleep_ctx background)"
  by (rule succeedsI, simp add: sleep_ctx_def check_ctx_def background_def)+

lemma succeeds_done: "succeeds kdone" "succeeds (\<lambda>k. ([], f k))"
  by (rule succeedsI, simp add: kdone_def)+

lemma succeeds_send_key: "8 \<le> s \<Longrightarrow> succeeds (send_key background reliable s p)"
  unfolding send_key_def by (simp add: succeeds_write)

lemma succeeds_tap: "8 \<le> s \<Longrightarrow> succeeds (tap background reliable s)"
  unfolding tap_def by (intro succeeds_kthen succeeds_kor succeeds_check succeeds_send_key succeeds_done)

lemma succeeds_mods: "succeeds (send_modifiers background reliable)"
  by (rule succeedsI) (simp add: send_modifiers_def succeedsD [OF succeeds_write])

lemma succeeds_upload: "succeeds (upload_and_restore background (reliable :: 'e transport) km)"
proof -
  have "succeeds (kthen (write_kb background (reliable :: 'e transport) (KeymapMsg km)) (\<lambda>k. ([], k\<lparr>kb_last := Some km\<rparr>)))"
    by (intro succeeds_kthen succeeds_write succeeds_done)
  then have "succeeds (upload_keymap background (reliable :: 'e transport) km)"
    by (intro succeedsI) (simp add: upload_keymap_def succeedsD)
  moreover have "succeeds (\<lambda>k. if kb_mods k \<noteq> 0 then send_modifiers background (reliable :: 'e transport) k else ([], k))"
    by (rule succeedsI) (simp add: succeedsD [OF succeeds_mods])
  ultimately show ?thesis unfolding upload_and_restore_def by (rule succeeds_kthen)
qed

lemma succeeds_type_runes:
  "\<forall>r \<in> set rs. \<exists>s. slots r = Some s \<and> 8 \<le> s \<Longrightarrow> succeeds (type_runes background reliable slots h rs)"
proof (induction rs)
  case (Cons r rs)
  then obtain s where "slots r = Some s" "8 \<le> s" by auto
  with Cons show ?case
    by (simp only: type_runes.simps slot_of_def option.case) (intro succeeds_kor succeeds_tap succeeds_check; simp)
qed (simp add: succeeds_done)

lemma succeeds_texts:
  assumes "list_all (\<lambda>a. ks_text a \<noteq> []) as" "\<forall>a \<in> set as. \<forall>r \<in> set (action_runes a). \<exists>s. al_runes al r = Some s \<and> 8 \<le> s"
  shows "succeeds (exec_actions background reliable al as)"
  using assms
proof (induction as)
  case (Cons a as)
  have "succeeds (type_runes background reliable (al_runes al) kdone (runes (ks_text a)))"
    by (rule succeeds_type_runes) (use Cons.prems in \<open>auto simp: action_runes_def\<close>)
  with Cons show ?case by (simp, intro succeeds_kthen succeeds_check)
qed (simp add: succeeds_done)

lemma planned_texts_succeed:
  assumes h: "held_ok (kb_held k)" and a: "list_all (\<lambda>a. ks_text a \<noteq> []) actions"
    and p: "plan_sendkeys actions (tick k) = (Inr al :: 'e kb_error + alloc)"
  shows "fst (sendkeys background (reliable :: 'e transport) actions k) = []"
proof -
  have ok: "plan_ok actions (kb_held (tick k)) al" by (rule conjunct1 [OF plan_sendkeys_ok [OF _ p]]) (simp add: tick_def h)
  have low: "12 \<le> s" if "al_slot al i = Some s" for i s using ok that unfolding plan_ok_def alloc_ok_def by blast
  have "\<forall>a \<in> set actions. \<forall>r \<in> set (action_runes a). \<exists>s. al_slot al (RuneItem r) = Some s \<and> SlotDef s (RuneSym r) \<in> set (al_defs al)"
    using ok by (simp add: plan_ok_def)
  then have "\<forall>a \<in> set actions. \<forall>r \<in> set (action_runes a). \<exists>s. al_runes al r = Some s \<and> 8 \<le> s"
    using low [of "RuneItem _"] by fastforce
  then have run: "succeeds (kthen (upload_and_restore background reliable (keymap_of al)) (exec_actions background (reliable :: 'e transport) al actions))"
    by (intro succeeds_kthen succeeds_upload succeeds_texts [OF a])
  have "check_ctx background k = (([], tick k) :: 'e kb_error list \<times> wl_keyboard)" by (simp add: check_ctx_def background_def)
  then have "kthen (check_ctx background) g k = g (tick k)" for g :: "'e kb_op" by (simp add: kthen_def kor_def)
  then show ?thesis by (simp add: sendkeys_def p succeedsD [OF run])
qed

abbreviation fresh_keyboard :: wl_keyboard where
  "fresh_keyboard \<equiv> \<lparr>kb_mods = 0, kb_held = [], kb_last = None, kb_log = [], kb_time = 0\<rparr>"

lemma hello_succeeds:
  "fst (sendkeys background (reliable :: unit transport) [send_text ''Hi!'', send_text ''x''] fresh_keyboard) = []"
proof -
  have "\<not> isl (plan_sendkeys [send_text ''Hi!'', send_text ''x''] (tick fresh_keyboard) :: unit kb_error + alloc)"
    by code_simp
  then obtain al where "plan_sendkeys [send_text ''Hi!'', send_text ''x''] (tick fresh_keyboard) = (Inr al :: unit kb_error + alloc)"
    by (metis isl_def sum.exhaust_sel)
  then show ?thesis by (intro planned_texts_succeed) (simp_all add: held_ok_def send_text_def)
qed

theorem texts_typed_exactly_witness:
  "\<exists>ms. kb_log (snd (sendkeys background (reliable :: unit transport) [send_text ''Hi!'', send_text ''x''] fresh_keyboard)) = ms \<and>
     concat (map (\<lambda>y. case y of RuneSym r \<Rightarrow> r | NameSym n \<Rightarrow> n) (snd (fold recv ms (None, [])))) = ''Hi!x''"
proof -
  let ?actions = "[send_text ''Hi!'', send_text ''x'']"
  have "list_all (\<lambda>a. ks_text a \<noteq> []) ?actions" "held_ok (kb_held fresh_keyboard)"
    by (simp_all add: send_text_def held_ok_def)
  moreover have "sendkeys background (reliable :: unit transport) ?actions fresh_keyboard =
      ([], snd (sendkeys background (reliable :: unit transport) ?actions fresh_keyboard))"
    using hello_succeeds by (simp add: prod_eq_iff)
  ultimately obtain ms where
    "kb_log (snd (sendkeys background (reliable :: unit transport) ?actions fresh_keyboard)) = ms"
    "snd (fold recv ms (None, [])) = map RuneSym (concat (map (\<lambda>a. runes (ks_text a)) ?actions))"
    "concat (concat (map (\<lambda>a. runes (ks_text a)) ?actions)) = concat (map ks_text ?actions)"
    using texts_typed_exactly [of fresh_keyboard ?actions background] by auto
  then show ?thesis by (auto simp: comp_def send_text_def)
qed

end
