(* ===== verification/WinMatch.thy ===== *)
theory WinMatch
  imports KeyInput Runes
begin

text \<open>
  Window selection: the predicate of \<^verbatim>\<open>window/match.go\<close> on windows, its case-insensitive search,
  and the cache of compiled matchers. Two Unicode tables of the standard library are parameters:
  \<open>lo\<close> is \<^verbatim>\<open>unicode.ToLower\<close> on a rune and \<open>cf\<close> picks one rune of every orbit of
  \<^verbatim>\<open>unicode.SimpleFold\<close>. Pointers to optional fields are options: every matcher owns its copies.
\<close>

section \<open>Case-insensitive search\<close>

definition go_to_lower :: "(rune \<Rightarrow> rune) \<Rightarrow> string \<Rightarrow> string" where
  "go_to_lower lo s = concat (map lo (runes s))"

definition equal_fold :: "(rune \<Rightarrow> rune) \<Rightarrow> string \<Rightarrow> string \<Rightarrow> bool" where
  "equal_fold cf s t \<longleftrightarrow> map cf (runes s) = map cf (runes t)"

text \<open>The inner loop of \<^verbatim>\<open>containsFoldASCIILower\<close> at one position.\<close>

fun ascii_here :: "string \<Rightarrow> string \<Rightarrow> bool" where
  "ascii_here (c # cs) (w # ws) =
     (if lower_char c \<noteq> w then False else if ws = [] then True else ascii_here cs ws)"
| "ascii_here _ _ = False"

fun contains_fold_ascii_lower :: "string \<Rightarrow> string \<Rightarrow> bool" where
  "contains_fold_ascii_lower [] sub = False"
| "contains_fold_ascii_lower (c # cs) sub =
     (if length (c # cs) < length sub then False
      else if ascii_here (c # cs) sub then True
      else contains_fold_ascii_lower cs sub)"

fun fold_matches_loop :: "(rune \<Rightarrow> rune) \<Rightarrow> string \<Rightarrow> rune list \<Rightarrow> bool" where
  "fold_matches_loop lo segment [] = True"
| "fold_matches_loop lo segment (want # wants) =
     (if segment = [] then False
      else
        let (r, n) = decode_rune segment in
        if lo r \<noteq> want then False else fold_matches_loop lo (drop n segment) wants)"

definition fold_matches :: "(rune \<Rightarrow> rune) \<Rightarrow> string \<Rightarrow> string \<Rightarrow> bool" where
  "fold_matches lo segment lower_sub = fold_matches_loop lo segment (runes lower_sub)"

function fold_search :: "(rune \<Rightarrow> rune) \<Rightarrow> string \<Rightarrow> string \<Rightarrow> bool" where
  "fold_search lo s lower_sub =
     (if s = [] then False
      else if fold_matches lo s lower_sub then True
      else fold_search lo (drop (snd (decode_rune s)) s) lower_sub)"
  by pat_completeness auto
termination
  by (relation "measure (\<lambda>(_, s, _). length s)") (auto dest: decode_bounds)

declare fold_search.simps [simp del]

definition contains_fold_lower :: "(rune \<Rightarrow> rune) \<Rightarrow> string \<Rightarrow> string \<Rightarrow> bool" where
  "contains_fold_lower lo s lower_sub =
     (if lower_sub = [] then True
      else if s = [] then False
      else if is_ascii s \<and> is_ascii lower_sub then contains_fold_ascii_lower s lower_sub
      else fold_search lo s lower_sub)"

text \<open>What the Unicode table is relied on for: runes go to runes, ASCII as in ASCII.\<close>

definition case_mapping :: "(rune \<Rightarrow> rune) \<Rightarrow> bool" where
  "case_mapping lo \<longleftrightarrow>
     (\<forall>r. valid_rune r \<longrightarrow> valid_rune (lo r)) \<and> (\<forall>c. (of_char c :: nat) < 128 \<longrightarrow> lo [c] = [lower_char c])"

definition ascii_lower :: "rune \<Rightarrow> rune" where
  "ascii_lower r = (if length r = 1 then [lower_char (hd r)] else r)"

lemma ascii_here_prefix: "ws \<noteq> [] \<Longrightarrow> ascii_here cs ws \<longleftrightarrow> prefix ws (map lower_char cs)"
  by (induction cs ws rule: ascii_here.induct) auto

lemma contains_ascii_sublist:
  "sub \<noteq> [] \<Longrightarrow> contains_fold_ascii_lower s sub \<longleftrightarrow> sublist sub (to_lower s)"
proof (induction s sub rule: contains_fold_ascii_lower.induct)
  case (1 sub)
  then show ?case by (simp add: to_lower_def)
next
  case (2 c cs sub)
  show ?case
  proof (cases "length (c # cs) < length sub")
    case True
    then have "\<not> sublist sub (to_lower (c # cs))" by (auto simp: to_lower_def dest!: sublist_length_le)
    with True show ?thesis by simp
  next
    case False
    then show ?thesis
      using 2 ascii_here_prefix [OF 2(2), of "c # cs"] by (simp add: to_lower_def sublist_Cons_right)
  qed
qed

lemma fold_matches_prefix: "fold_matches_loop lo s ws \<longleftrightarrow> prefix ws (map lo (runes s))"
proof (induction ws arbitrary: s)
  case (Cons w ws)
  show ?case
  proof (cases "s = []")
    case False
    then have "runes s = fst (decode_rune s) # runes (drop (snd (decode_rune s)) s)" by (subst runes.simps) simp
    then show ?thesis using Cons False by (auto simp: case_prod_beta Let_def)
  qed simp
qed simp

lemma fold_search_sublist:
  "sub \<noteq> [] \<Longrightarrow> fold_search lo s sub \<longleftrightarrow> sublist (runes sub) (map lo (runes s))"
proof (induction lo s sub rule: fold_search.induct)
  case (1 lo s sub)
  have sub: "runes sub \<noteq> []" using 1(2) by (simp add: runes.simps [of sub])
  show ?case
  proof (cases "s = []")
    case True
    then show ?thesis using sub by (simp add: fold_search.simps)
  next
    case False
    have r: "runes s = fst (decode_rune s) # runes (drop (snd (decode_rune s)) s)" using False by (subst runes.simps) simp
    have "fold_search lo s sub \<longleftrightarrow> fold_matches lo s sub \<or> fold_search lo (drop (snd (decode_rune s)) s) sub"
      using False by (subst fold_search.simps) simp
    also have "\<dots> \<longleftrightarrow> sublist (runes sub) (map lo (runes s))"
      using 1(1) [OF False _ 1(2)] fold_matches_prefix [of lo s "runes sub"]
      unfolding fold_matches_def r by (auto simp: sublist_Cons_right)
    finally show ?thesis .
  qed
qed

lemma go_to_lower_ascii: "case_mapping lo \<Longrightarrow> is_ascii s \<Longrightarrow> go_to_lower lo s = to_lower s"
proof -
  assume c: "case_mapping lo" and s: "is_ascii s"
  have "map lo (runes s) = map (\<lambda>c. [lower_char c]) s"
    using c s by (auto simp: runes_ascii is_ascii_def case_mapping_def)
  then show ?thesis by (simp add: go_to_lower_def to_lower_def)
qed

lemma lowered_valid: "case_mapping lo \<Longrightarrow> \<forall>r \<in> set (map lo (runes s)). valid_rune r"
  by (auto simp: case_mapping_def dest: runes_valid)

lemma go_to_lower_valid: "case_mapping lo \<Longrightarrow> valid_string (go_to_lower lo s)"
  unfolding go_to_lower_def by (rule valid_concat [OF lowered_valid])

lemma contains_fold_correct:
  assumes "case_mapping lo" "valid_string sub"
  shows "contains_fold_lower lo s sub \<longleftrightarrow> sublist sub (go_to_lower lo s)"
proof (cases "sub = [] \<or> s = []")
  case True
  then show ?thesis by (auto simp: contains_fold_lower_def go_to_lower_def)
next
  case False
  show ?thesis
  proof (cases "is_ascii s \<and> is_ascii sub")
    case True
    then show ?thesis
      using False contains_ascii_sublist [of sub s] go_to_lower_ascii [OF assms(1)] by (simp add: contains_fold_lower_def)
  next
    case mixed: False
    have "runes sub \<noteq> []" using False by (simp add: runes.simps [of sub])
    moreover have "\<forall>r \<in> set (runes sub). valid_rune r" by (auto dest: runes_valid)
    moreover have "sub = concat (runes sub)" using concat_runes [OF assms(2)] by simp
    ultimately have "sublist sub (go_to_lower lo s) \<longleftrightarrow> sublist (runes sub) (map lo (runes s))"
      unfolding go_to_lower_def using sublist_concat_runes [of "runes sub" "map lo (runes s)"] lowered_valid [OF assms(1)] by metis
    moreover have "contains_fold_lower lo s sub = fold_search lo s sub"
      using False mixed unfolding contains_fold_lower_def by argo
    ultimately show ?thesis using fold_search_sublist [of sub lo s] False by simp
  qed
qed

text \<open>
  C25. The allocation-free search of window titles is \<^verbatim>\<open>strings.Contains(strings.ToLower(s), sub)\<close>
  for every title, valid UTF-8 or not, and every valid search string, on the ASCII fast path
  and on the rune path.
\<close>

theorem contains_fold_lower_correct:
  assumes "case_mapping lo" "valid_string sub"
  shows "contains_fold_lower lo s sub \<longleftrightarrow> (\<exists>pre post. go_to_lower lo s = pre @ sub @ post)"
  unfolding contains_fold_correct [OF assms] by (simp add: sublist_def)

lemma ascii_lower_mapping: "case_mapping ascii_lower"
proof -
  have "valid_rune (ascii_lower r)" if "valid_rune r" for r
  proof (cases "length r = 1")
    case True
    then obtain c where r: "r = [c]" by (auto simp: length_Suc_conv)
    then have "rune_len (string_bytes [c]) = Some 1" using that by (simp add: valid_rune_def)
    then have "(of_char c :: byte) < 128" by (auto simp: string_bytes_def split: if_splits)
    moreover have "(of_char c :: byte) = of_nat (of_char c :: nat)" by (rule of_nat_of_char [symmetric])
    moreover have "(of_char c :: nat) < 256" by simp
    ultimately have "(of_char c :: nat) < 128" by (simp add: word_less_nat_alt unat_of_nat)
    then have "(of_char (lower_char c) :: nat) < 128" by (auto simp: lower_char_def)
    then show ?thesis by (simp add: r ascii_lower_def ascii_rune)
  next
    case False
    then show ?thesis using that by (simp add: ascii_lower_def)
  qed
  then show ?thesis by (simp add: case_mapping_def ascii_lower_def)
qed

theorem contains_fold_lower_correct_witness:
  "contains_fold_lower ascii_lower ''My Editor'' ''edit'' \<and>
   (\<exists>pre post. go_to_lower ascii_lower ''My Editor'' = pre @ ''edit'' @ post)"
proof -
  have "valid_string ''edit''" by code_simp
  moreover have "contains_fold_lower ascii_lower ''My Editor'' ''edit''" by code_simp
  ultimately show ?thesis using contains_fold_lower_correct [OF ascii_lower_mapping, of "''edit''" "''My Editor''"] by blast
qed

section \<open>The predicate\<close>

record win_info =
  wi_id :: nat
  wi_native_id :: string
  wi_title :: string
  wi_app_id :: string
  wi_class :: string
  wi_pid :: int
  wi_active :: bool
  wi_minimized :: bool
  wi_maximized :: bool
  wi_fullscreen :: bool

record match =
  title_contains :: string
  title_exact :: string
  app_id :: string
  class_name :: string
  pid :: "int option"
  win_id :: "nat option"
  active :: "bool option"
  minimized :: "bool option"
  maximized :: "bool option"
  fullscreen :: "bool option"
  visible_only :: bool

definition any_window :: match where
  "any_window = \<lparr>title_contains = [], title_exact = [], app_id = [], class_name = [], pid = None, win_id = None,
     active = None, minimized = None, maximized = None, fullscreen = None, visible_only = False\<rparr>"

record matcher =
  m_match :: match
  title_contains_lower :: string

text \<open>\<^verbatim>\<open>want != nil && have != *want\<close>\<close>

definition differs :: "'a option \<Rightarrow> 'a \<Rightarrow> bool" where
  "differs want have \<longleftrightarrow> (case want of None \<Rightarrow> False | Some w \<Rightarrow> have \<noteq> w)"

definition matcher_matches :: "(rune \<Rightarrow> rune) \<Rightarrow> (rune \<Rightarrow> rune) \<Rightarrow> matcher \<Rightarrow> win_info \<Rightarrow> bool" where
  "matcher_matches lo cf mr w =
     (let m = m_match mr in
      if title_contains m \<noteq> [] \<and> \<not> contains_fold_lower lo (wi_title w) (title_contains_lower mr) then False
      else if title_exact m \<noteq> [] \<and> \<not> equal_fold cf (wi_title w) (title_exact m) then False
      else if app_id m \<noteq> [] \<and> \<not> equal_fold cf (wi_app_id w) (app_id m) then False
      else if class_name m \<noteq> [] \<and> \<not> equal_fold cf (wi_class w) (class_name m) then False
      else if differs (pid m) (wi_pid w) then False
      else if differs (win_id m) (wi_id w) then False
      else if differs (active m) (wi_active w) then False
      else if differs (minimized m) (wi_minimized w) then False
      else if differs (maximized m) (wi_maximized w) then False
      else if differs (fullscreen m) (wi_fullscreen w) then False
      else if visible_only m \<and> wi_minimized w then False
      else True)"

definition match_matches :: "(rune \<Rightarrow> rune) \<Rightarrow> (rune \<Rightarrow> rune) \<Rightarrow> match \<Rightarrow> win_info \<Rightarrow> bool" where
  "match_matches lo cf m w =
     matcher_matches lo cf
       \<lparr>m_match = m, title_contains_lower = (if title_contains m \<noteq> [] then go_to_lower lo (title_contains m) else [])\<rparr> w"

section \<open>The cache of compiled matchers\<close>

record match_cache_key =
  ck_title_contains :: string
  ck_title_exact :: string
  ck_app_id :: string
  ck_class :: string
  ck_pid :: int
  ck_has_pid :: bool
  ck_id :: nat
  ck_has_id :: bool
  ck_active :: bool
  ck_has_active :: bool
  ck_minimized :: bool
  ck_has_minimized :: bool
  ck_maximized :: bool
  ck_has_maximized :: bool
  ck_fullscreen :: bool
  ck_has_fullscreen :: bool
  ck_visible_only :: bool

definition from_option :: "'a \<Rightarrow> 'a option \<Rightarrow> 'a" where
  "from_option z p = (case p of None \<Rightarrow> z | Some x \<Rightarrow> x)"

definition match_cache_key_from_match :: "match \<Rightarrow> match_cache_key" where
  "match_cache_key_from_match m =
     \<lparr>ck_title_contains = title_contains m, ck_title_exact = title_exact m, ck_app_id = app_id m, ck_class = class_name m,
      ck_pid = from_option 0 (pid m), ck_has_pid = (pid m \<noteq> None),
      ck_id = from_option 0 (win_id m), ck_has_id = (win_id m \<noteq> None),
      ck_active = from_option False (active m), ck_has_active = (active m \<noteq> None),
      ck_minimized = from_option False (minimized m), ck_has_minimized = (minimized m \<noteq> None),
      ck_maximized = from_option False (maximized m), ck_has_maximized = (maximized m \<noteq> None),
      ck_fullscreen = from_option False (fullscreen m), ck_has_fullscreen = (fullscreen m \<noteq> None),
      ck_visible_only = visible_only m\<rparr>"

definition compiled_match_cache_limit :: nat where "compiled_match_cache_limit = 1024"

type_synonym match_cache = "(match_cache_key \<times> matcher) list"

definition compile_fresh :: "(rune \<Rightarrow> rune) \<Rightarrow> match \<Rightarrow> matcher" where
  "compile_fresh lo m = \<lparr>m_match = m, title_contains_lower = go_to_lower lo (title_contains m)\<rparr>"

text \<open>The two critical sections of \<^verbatim>\<open>CompileMatch\<close>: the lookup, and the insertion that looks again.\<close>

definition cache_lookup :: "match \<Rightarrow> match_cache \<Rightarrow> matcher option" where
  "cache_lookup m cache = map_of cache (match_cache_key_from_match m)"

definition cache_insert :: "(rune \<Rightarrow> rune) \<Rightarrow> match \<Rightarrow> match_cache \<Rightarrow> matcher \<times> match_cache" where
  "cache_insert lo m cache =
     (let key = match_cache_key_from_match m; compiled = compile_fresh lo m in
      case map_of cache key of
        Some cached \<Rightarrow> (cached, cache)
      | None \<Rightarrow>
          (compiled, if length cache < compiled_match_cache_limit then (key, compiled) # cache else cache))"

text \<open>\<open>c1\<close> is the cache at the lookup, \<open>c2\<close> at the insertion; other callers may run in between.\<close>

definition compile_match :: "(rune \<Rightarrow> rune) \<Rightarrow> match \<Rightarrow> match_cache \<Rightarrow> match_cache \<Rightarrow> matcher \<times> match_cache" where
  "compile_match lo m c1 c2 =
     (case cache_lookup m c1 of Some cached \<Rightarrow> (cached, c2) | None \<Rightarrow> cache_insert lo m c2)"

definition cache_ok :: "(rune \<Rightarrow> rune) \<Rightarrow> match_cache \<Rightarrow> bool" where
  "cache_ok lo cache \<longleftrightarrow> distinct (map fst cache) \<and> length cache \<le> compiled_match_cache_limit \<and>
     (\<forall>(key, mr) \<in> set cache. \<exists>m. key = match_cache_key_from_match m \<and> mr = compile_fresh lo m)"

lemma option_key: "from_option z p = from_option z q \<Longrightarrow> (p \<noteq> None) = (q \<noteq> None) \<Longrightarrow> p = q"
  by (auto simp: from_option_def split: option.splits)

lemma cache_key_inj: "match_cache_key_from_match m = match_cache_key_from_match m' \<Longrightarrow> m = m'"
  unfolding match_cache_key_from_match_def match_cache_key.ext_inject
  by (elim conjE, rule match.equality) (assumption | rule option_key, assumption, assumption | simp)+

lemma cache_hit: "cache_ok lo cache \<Longrightarrow> map_of cache (match_cache_key_from_match m) = Some mr \<Longrightarrow> mr = compile_fresh lo m"
  by (auto simp: cache_ok_def dest!: map_of_SomeD cache_key_inj)

lemma cache_insert_ok:
  assumes "cache_ok lo cache"
  shows "fst (cache_insert lo m cache) = compile_fresh lo m \<and> cache_ok lo (snd (cache_insert lo m cache))"
proof (cases "map_of cache (match_cache_key_from_match m)")
  case None
  then have "match_cache_key_from_match m \<notin> fst ` set cache" by (simp add: map_of_eq_None_iff)
  with None assms show ?thesis
    by (auto simp: cache_insert_def cache_ok_def Let_def)
next
  case (Some mr)
  with cache_hit [OF assms Some] assms show ?thesis by (simp add: cache_insert_def Let_def)
qed

text \<open>
  C26. The cache of compiled matchers is transparent: whatever other callers put into it between
  the two critical sections, a compiled matcher accepts exactly the windows that its match
  accepts, and the cache stays within its limit, with one correct entry per key.
\<close>

theorem compile_match_transparent:
  assumes "cache_ok lo c1" "cache_ok lo c2" "compile_match lo m c1 c2 = (mr, c3)"
  shows "(\<forall>w. matcher_matches lo cf mr w = match_matches lo cf m w) \<and> cache_ok lo c3"
proof -
  have "mr = compile_fresh lo m \<and> cache_ok lo c3"
  proof (cases "cache_lookup m c1")
    case None
    then show ?thesis using assms(2,3) cache_insert_ok [of lo c2 m] by (simp add: compile_match_def)
  next
    case (Some mr')
    then show ?thesis using assms cache_hit [of lo c1 m] by (simp add: compile_match_def cache_lookup_def)
  qed
  then show ?thesis by (simp add: match_matches_def matcher_matches_def compile_fresh_def Let_def)
qed

theorem compile_match_transparent_witness:
  "\<exists>mr c3. compile_match ascii_lower (any_window\<lparr>title_contains := ''Vim'', pid := Some 7\<rparr>) [] [] = (mr, c3) \<and>
     cache_ok ascii_lower c3 \<and> length c3 = 1"
proof -
  let ?m = "any_window\<lparr>title_contains := ''Vim'', pid := Some 7\<rparr>"
  have ok: "cache_ok ascii_lower []" by (simp add: cache_ok_def)
  let ?r = "compile_match ascii_lower ?m [] []"
  have "cache_ok ascii_lower (snd ?r)"
    using compile_match_transparent [OF ok ok, of ?m "fst ?r" "snd ?r"] by simp
  moreover have "length (snd ?r) = 1" by (simp add: compile_match_def cache_lookup_def cache_insert_def compiled_match_cache_limit_def Let_def)
  ultimately show ?thesis by (metis prod.collapse)
qed

end
