(* ===== verification/Strconv.thy ===== *)
theory Strconv
  imports Runes
begin

text \<open>
  What the window matcher uses of Go's \<^verbatim>\<open>strconv\<close> and \<^verbatim>\<open>fmt\<close>: decimal numbers, \<^verbatim>\<open>Quote\<close> and
  \<^verbatim>\<open>Unquote\<close>. The table of \<^verbatim>\<open>unicode.IsPrint\<close> is the parameter \<open>ip\<close>.
\<close>

section \<open>Decimal numbers\<close>

definition digit_char :: "nat \<Rightarrow> char" where "digit_char d = char_of (48 + d)"

definition digit_of :: "char \<Rightarrow> nat option" where
  "digit_of c = (let n = of_char c :: nat in if 48 \<le> n \<and> n \<le> 57 then Some (n - 48) else None)"

function show_nat :: "nat \<Rightarrow> string" where
  "show_nat n = (if n < 10 then [digit_char n] else show_nat (n div 10) @ [digit_char (n mod 10)])"
  by pat_completeness auto
termination by (relation "measure id") auto

declare show_nat.simps [simp del]

definition show_int :: "int \<Rightarrow> string" where
  "show_int i = (if i < 0 then CHR ''-'' # show_nat (nat (- i)) else show_nat (nat i))"

fun digits_value :: "nat \<Rightarrow> string \<Rightarrow> nat option" where
  "digits_value acc [] = Some acc"
| "digits_value acc (c # cs) = (case digit_of c of None \<Rightarrow> None | Some d \<Rightarrow> digits_value (10 * acc + d) cs)"

text \<open>\<^verbatim>\<open>strconv.ParseUint(s, 10, bits)\<close> and \<^verbatim>\<open>strconv.ParseInt(s, 10, bits)\<close>; all errors are \<open>None\<close>.\<close>

definition parse_uint :: "nat \<Rightarrow> string \<Rightarrow> nat option" where
  "parse_uint bits s =
     (if s = [] then None
      else case digits_value 0 s of None \<Rightarrow> None | Some n \<Rightarrow> if n < 2 ^ bits then Some n else None)"

definition parse_int :: "nat \<Rightarrow> string \<Rightarrow> int option" where
  "parse_int bits s =
     (case s of
        [] \<Rightarrow> None
      | c # cs \<Rightarrow>
          let neg = (c = CHR ''-''); digits = (if c = CHR ''-'' \<or> c = CHR ''+'' then cs else s) in
          case parse_uint bits digits of
            None \<Rightarrow> None
          | Some n \<Rightarrow>
              if \<not> neg \<and> n \<ge> 2 ^ (bits - 1) then None
              else if neg \<and> n > 2 ^ (bits - 1) then None
              else Some (if neg then - int n else int n))"

lemma digit_of_char [simp]: "d < 10 \<Longrightarrow> digit_of (digit_char d) = Some d"
  by (simp add: digit_of_def digit_char_def Let_def)

lemma digits_append: "digits_value acc (s @ t) = Option.bind (digits_value acc s) (\<lambda>n. digits_value n t)"
  by (induction s arbitrary: acc) (auto split: option.split)

lemma digits_show: "digits_value 0 (show_nat n) = Some n"
proof (induction n rule: show_nat.induct)
  case (1 n)
  then show ?case by (subst show_nat.simps) (auto simp: digits_append)
qed

lemma show_nat_digits: "c \<in> set (show_nat n) \<Longrightarrow> 48 \<le> (of_char c :: nat) \<and> (of_char c :: nat) \<le> 57"
proof (induction n rule: show_nat.induct)
  case (1 n)
  then show ?case by (subst (asm) (2) show_nat.simps) (auto simp: digit_char_def split: if_splits)
qed

lemma show_nat_nonempty: "show_nat n \<noteq> []"
  by (subst show_nat.simps) simp

lemma parse_uint_show: "n < 2 ^ bits \<Longrightarrow> parse_uint bits (show_nat n) = Some n"
  by (simp add: parse_uint_def show_nat_nonempty digits_show)

lemma parse_int_show:
  assumes "- (2 ^ (bits - 1)) \<le> i" "i < 2 ^ (bits - 1)" "0 < bits"
  shows "parse_int bits (show_int i) = Some i"
proof -
  have two: "(2 :: nat) ^ bits = 2 * 2 ^ (bits - 1)" using assms(3) by (cases bits) simp_all
  show ?thesis
  proof (cases "i < 0")
    case True
    have n: "nat (- i) \<le> 2 ^ (bits - 1)" using assms(1) by (simp add: nat_le_iff)
    then have "nat (- i) < 2 ^ bits" using two zero_less_power [of "2 :: nat" "bits - 1"] by linarith
    then show ?thesis using True n by (simp add: parse_int_def show_int_def parse_uint_show Let_def)
  next
    case False
    have n: "nat i < 2 ^ (bits - 1)" using assms(2) False by (simp add: nat_less_iff)
    then have lt: "nat i < 2 ^ bits" using two by linarith
    obtain c cs where s: "show_nat (nat i) = c # cs" using show_nat_nonempty by (cases "show_nat (nat i)") auto
    then have "48 \<le> (of_char c :: nat)" using show_nat_digits [of c "nat i"] by simp
    then have "c \<noteq> CHR ''-''" "c \<noteq> CHR ''+''" by auto
    then show ?thesis
      using False n parse_uint_show [OF lt] s by (simp add: parse_int_def show_int_def Let_def)
  qed
qed

section \<open>Code points\<close>

definition byte_at :: "rune \<Rightarrow> nat \<Rightarrow> nat" where "byte_at r i = of_char (r ! i)"

definition rune_code :: "rune \<Rightarrow> nat" where
  "rune_code r =
     (if length r = 1 then byte_at r 0
      else if length r = 2 then (byte_at r 0 - 0xC0) * 64 + (byte_at r 1 - 0x80)
      else if length r = 3 then (byte_at r 0 - 0xE0) * 4096 + (byte_at r 1 - 0x80) * 64 + (byte_at r 2 - 0x80)
      else (byte_at r 0 - 0xF0) * 262144 + (byte_at r 1 - 0x80) * 4096 + (byte_at r 2 - 0x80) * 64 + (byte_at r 3 - 0x80))"

text \<open>\<^verbatim>\<open>utf8.ValidRune\<close> and \<^verbatim>\<open>utf8.AppendRune\<close>.\<close>

definition valid_code :: "nat \<Rightarrow> bool" where
  "valid_code v \<longleftrightarrow> v < 0xD800 \<or> 0xDFFF < v \<and> v \<le> 0x10FFFF"

definition rune_of_code :: "nat \<Rightarrow> rune" where
  "rune_of_code v =
     (if v < 0x80 then [char_of v]
      else if v < 0x800 then [char_of (0xC0 + v div 64), char_of (0x80 + v mod 64)]
      else if \<not> valid_code v then replacement
      else if v < 0x10000 then [char_of (0xE0 + v div 4096), char_of (0x80 + v div 64 mod 64), char_of (0x80 + v mod 64)]
      else [char_of (0xF0 + v div 262144), char_of (0x80 + v div 4096 mod 64), char_of (0x80 + v div 64 mod 64), char_of (0x80 + v mod 64)])"

lemma byte_nat: "unat (of_char c :: byte) = (of_char c :: nat)"
proof -
  have "(of_char c :: byte) = of_nat (of_char c :: nat)" by (rule of_nat_of_char [symmetric])
  moreover have "(of_char c :: nat) < 256" by simp
  ultimately show ?thesis by (simp only: unat_of_nat) simp
qed

abbreviation code :: "char \<Rightarrow> nat" where "code c \<equiv> of_char c"

definition tail_byte :: "char \<Rightarrow> bool" where "tail_byte c \<longleftrightarrow> 0x80 \<le> code c \<and> code c < 0xC0"

lemma cont_tail: "cont (of_char c) \<longleftrightarrow> tail_byte c"
  by (simp add: cont_def tail_byte_def word_less_nat_alt word_le_nat_alt byte_nat)

lemma valid_rune_cases:
  assumes "valid_rune r"
  obtains (one) a where "r = [a]" "code a < 0x80"
  | (two) a b where "r = [a, b]" "0xC2 \<le> code a" "code a < 0xE0" "tail_byte b"
  | (three) a b c where "r = [a, b, c]" "0xE0 \<le> code a" "code a < 0xF0" "tail_byte b" "tail_byte c"
      "code a = 0xE0 \<Longrightarrow> 0xA0 \<le> code b" "code a = 0xED \<Longrightarrow> code b < 0xA0"
  | (four) a b c d where "r = [a, b, c, d]" "0xF0 \<le> code a" "code a < 0xF5" "tail_byte b" "tail_byte c" "tail_byte d"
      "code a = 0xF0 \<Longrightarrow> 0x90 \<le> code b" "code a = 0xF4 \<Longrightarrow> code b < 0x90"
proof -
  obtain a bs where r: "r = a # bs" using valid_rune_nonempty [OF assms] by (cases r) auto
  have len: "rune_len (of_char a # map of_char bs) = Some (Suc (length bs))"
    using assms by (simp add: valid_rune_def string_bytes_def r)
  have eq: "(of_char a :: byte) = of_nat k \<longleftrightarrow> code a = k" if "k < 256" for k
    using that by (simp add: word_unat_eq_iff byte_nat unat_of_nat)
  have eqs: "(of_char a :: byte) = 0xE0 \<longleftrightarrow> code a = 0xE0" "(of_char a :: byte) = 0xED \<longleftrightarrow> code a = 0xED"
    "(of_char a :: byte) = 0xF0 \<longleftrightarrow> code a = 0xF0" "(of_char a :: byte) = 0xF4 \<longleftrightarrow> code a = 0xF4"
    using eq [of "0xE0"] eq [of "0xED"] eq [of "0xF0"] eq [of "0xF4"] by simp_all
  note facts = word_less_nat_alt word_le_nat_alt byte_nat cont_tail eqs
  consider "code a < 0x80" | "0xC2 \<le> code a" "code a < 0xE0" | "0xE0 \<le> code a" "code a < 0xF0"
    | "0xF0 \<le> code a" "code a < 0xF5"
    using len by (simp add: facts split: if_splits)
  then show thesis
  proof cases
    case 1
    then show ?thesis using len r that(1) by (simp add: facts)
  next
    case 2
    then obtain b x where bs: "bs = b # x" using len by (cases bs) (auto simp: facts split: if_splits)
    then show ?thesis using len r 2 that(2) [of a b] by (auto simp: facts split: if_splits)
  next
    case 3
    then obtain b c x where bs: "bs = b # c # x"
      using len by (cases bs; cases "tl bs") (auto simp: facts split: if_splits)
    then show ?thesis using len r 3 that(3) [of a b c] by (auto simp: facts split: if_splits)
  next
    case 4
    then obtain b c d x where bs: "bs = b # c # d # x"
      using len by (cases bs; cases "tl bs"; cases "tl (tl bs)") (auto simp: facts split: if_splits)
    then show ?thesis using len r 4 that(4) [of a b c d] by (auto simp: facts split: if_splits)
  qed
qed

lemma char_eqI: "code c = n \<Longrightarrow> char_of n = c"
  by auto

lemma rune_code_facts:
  assumes "valid_rune r"
  shows "rune_of_code (rune_code r) = r" "valid_code (rune_code r)" "rune_code r < 0x80 \<longleftrightarrow> length r = 1"
proof -
  have "rune_of_code (rune_code r) = r \<and> valid_code (rune_code r) \<and> (rune_code r < 0x80 \<longleftrightarrow> length r = 1)"
    using assms
  proof (cases rule: valid_rune_cases)
    case (one a)
    then show ?thesis by (simp add: rune_code_def rune_of_code_def byte_at_def valid_code_def)
  next
    case (two a b)
    define x y where xy: "x = code a - 0xC0" "y = code b - 0x80"
    then have b: "code a = 0xC0 + x" "code b = 0x80 + y" "2 \<le> x" "x < 32" "y < 64"
      using two by (auto simp: tail_byte_def)
    have v: "rune_code r = x * 64 + y" using two b by (simp add: rune_code_def byte_at_def)
    have "(x * 64 + y) div 64 = x" "(x * 64 + y) mod 64 = y" using b by simp_all
    then show ?thesis
      using b two v by (simp add: rune_of_code_def valid_code_def char_eqI)
  next
    case (three a b c)
    define x y z where xy: "x = code a - 0xE0" "y = code b - 0x80" "z = code c - 0x80"
    then have b: "code a = 0xE0 + x" "code b = 0x80 + y" "code c = 0x80 + z" "x < 16" "y < 64" "z < 64"
      using three by (auto simp: tail_byte_def)
    then have edge: "x = 0 \<Longrightarrow> 32 \<le> y" "x = 13 \<Longrightarrow> y < 32" using three(6,7) by simp_all
    have v: "rune_code r = x * 4096 + y * 64 + z" using three b by (simp add: rune_code_def byte_at_def)
    have low: "(u * 64 + t) div 64 = u" "(u * 64 + t) mod 64 = t" if "t < 64" for u t :: nat using that by simp_all
    have eq: "x * 4096 + y * 64 + z = (x * 64 + y) * 64 + z" by simp
    have d: "(x * 4096 + y * 64 + z) div 4096 = x" "(x * 4096 + y * 64 + z) div 64 = x * 64 + y"
      "(x * 4096 + y * 64 + z) mod 64 = z" "(x * 64 + y) mod 64 = y"
      using b low [of z "x * 64 + y"] low [of y x] unfolding eq by simp_all
    note b = b edge
    have lo: "0x800 \<le> x * 4096 + y * 64 + z" using b by (cases "x = 0") simp_all
    have "valid_code (x * 4096 + y * 64 + z)"
    proof -
      consider "x < 13" | "x = 13" | "13 < x" by linarith
      then show ?thesis using b by cases (simp_all add: valid_code_def)
    qed
    then show ?thesis
      using b three v lo d by (simp add: rune_of_code_def char_eqI)
  next
    case (four a b c e)
    define x y z w where xy: "x = code a - 0xF0" "y = code b - 0x80" "z = code c - 0x80" "w = code e - 0x80"
    then have b: "code a = 0xF0 + x" "code b = 0x80 + y" "code c = 0x80 + z" "code e = 0x80 + w" "x < 5" "y < 64" "z < 64" "w < 64"
      using four by (auto simp: tail_byte_def)
    then have edge: "x = 0 \<Longrightarrow> 16 \<le> y" "x = 4 \<Longrightarrow> y < 16" using four(7,8) by simp_all
    have v: "rune_code r = x * 262144 + y * 4096 + z * 64 + w" using four b by (simp add: rune_code_def byte_at_def)
    let ?v = "x * 262144 + y * 4096 + z * 64 + w"
    have low: "(u * 64 + t) div 64 = u" "(u * 64 + t) mod 64 = t" if "t < 64" for u t :: nat using that by simp_all
    have eq: "?v = ((x * 64 + y) * 64 + z) * 64 + w" by simp
    have "?v div 262144 = x" "?v div 4096 = x * 64 + y" using b by simp_all
    moreover have "?v div 64 = (x * 64 + y) * 64 + z" "?v mod 64 = w" unfolding eq using low b by blast+
    moreover have "(x * 64 + y) mod 64 = y" "((x * 64 + y) * 64 + z) mod 64 = z" using low b by blast+
    ultimately have d: "?v div 262144 = x" "?v div 4096 = x * 64 + y" "?v div 64 = (x * 64 + y) * 64 + z"
      "?v mod 64 = w" "(x * 64 + y) mod 64 = y" "((x * 64 + y) * 64 + z) mod 64 = z" by blast+
    note b = b edge
    have lo: "0x10000 \<le> ?v" using b by (cases "x = 0") simp_all
    have "?v \<le> 0x10FFFF" using b by (cases "x = 4") simp_all
    then have "valid_code ?v" using lo by (simp add: valid_code_def)
    then show ?thesis
      using b four v lo d by (simp add: rune_of_code_def char_eqI)
  qed
  then show "rune_of_code (rune_code r) = r" "valid_code (rune_code r)" "rune_code r < 0x80 \<longleftrightarrow> length r = 1" by blast+
qed

end
