(* ===== verification/GoQuote.thy ===== *)
theory GoQuote
  imports Strconv
begin

text \<open>
  \<^verbatim>\<open>strconv.Quote\<close> and \<^verbatim>\<open>strconv.Unquote\<close> on double-quoted and single-quoted literals, and the
  round trip between them on every string, valid UTF-8 or not.
\<close>

abbreviation dquote :: char where "dquote \<equiv> CHR 0x22"
abbreviation squote :: char where "squote \<equiv> CHR 0x27"
abbreviation backslash :: char where "backslash \<equiv> CHR 0x5C"
abbreviation newline :: char where "newline \<equiv> CHR 0x0A"

section \<open>Hexadecimal digits\<close>

definition hex_char :: "nat \<Rightarrow> char" where
  "hex_char d = (if d < 10 then char_of (48 + d) else char_of (87 + d))"

definition unhex :: "char \<Rightarrow> nat option" where
  "unhex c =
     (let n = code c in
      if 48 \<le> n \<and> n \<le> 57 then Some (n - 48)
      else if 97 \<le> n \<and> n \<le> 102 then Some (n - 87)
      else if 65 \<le> n \<and> n \<le> 70 then Some (n - 55)
      else None)"

fun hex_digits :: "nat \<Rightarrow> nat \<Rightarrow> string" where
  "hex_digits 0 v = []"
| "hex_digits (Suc w) v = hex_digits w (v div 16) @ [hex_char (v mod 16)]"

fun unhex_all :: "nat \<Rightarrow> string \<Rightarrow> nat option" where
  "unhex_all acc [] = Some acc"
| "unhex_all acc (c # cs) = (case unhex c of None \<Rightarrow> None | Some d \<Rightarrow> unhex_all (16 * acc + d) cs)"

lemma unhex_char [simp]: "d < 16 \<Longrightarrow> unhex (hex_char d) = Some d"
  by (auto simp: unhex_def hex_char_def Let_def)

lemma unhex_append: "unhex_all acc (s @ t) = Option.bind (unhex_all acc s) (\<lambda>n. unhex_all n t)"
  by (induction s arbitrary: acc) (auto split: option.split)

lemma unhex_digits: "v < 16 ^ w \<Longrightarrow> unhex_all 0 (hex_digits w v) = Some v"
proof (induction w arbitrary: v)
  case (Suc w)
  then have "v div 16 < 16 ^ w" by (simp add: less_mult_imp_div_less mult.commute)
  with Suc.IH show ?case by (simp add: unhex_append)
qed simp

lemma hex_digits_length [simp]: "length (hex_digits w v) = w"
  by (induction w arbitrary: v) simp_all

lemma hex_char_plain: "d < 16 \<Longrightarrow> 48 \<le> code (hex_char d) \<and> code (hex_char d) < 0x5C \<or> 97 \<le> code (hex_char d) \<and> code (hex_char d) \<le> 102"
  by (simp add: hex_char_def)

lemma hex_digits_plain: "c \<in> set (hex_digits w v) \<Longrightarrow> 48 \<le> code c \<and> code c < 0x5C \<or> 97 \<le> code c \<and> code c \<le> 102"
proof (induction w arbitrary: v)
  case (Suc w)
  then show ?case using hex_char_plain [of "v mod 16"] by auto
qed simp

section \<open>Quoting\<close>

definition escapes :: "(char \<times> char) list" where
  "escapes = [(CHR ''a'', CHR 0x07), (CHR ''b'', CHR 0x08), (CHR ''f'', CHR 0x0C), (CHR ''n'', CHR 0x0A),
     (CHR ''r'', CHR 0x0D), (CHR ''t'', CHR 0x09), (CHR ''v'', CHR 0x0B)]"

definition escape_letter :: "char \<Rightarrow> char option" where
  "escape_letter c = map_of (map (\<lambda>(a, b). (b, a)) escapes) c"

definition quote_rune :: "(rune \<Rightarrow> bool) \<Rightarrow> rune \<Rightarrow> string" where
  "quote_rune ip r =
     (if r = [dquote] \<or> r = [backslash] then backslash # r
      else if ip r then r
      else
        case (if length r = 1 then escape_letter (hd r) else None) of
          Some l \<Rightarrow> [backslash, l]
        | None \<Rightarrow>
            let v = rune_code r in
            if v < 32 \<or> v = 127 then [backslash, CHR ''x''] @ hex_digits 2 v
            else if v < 0x10000 then [backslash, CHR ''u''] @ hex_digits 4 v
            else [backslash, CHR ''U''] @ hex_digits 8 v)"

function quote_go :: "(rune \<Rightarrow> bool) \<Rightarrow> string \<Rightarrow> string" where
  "quote_go ip s =
     (if s = [] then []
      else
        (case rune_len (string_bytes s) of
           None \<Rightarrow> [backslash, CHR ''x''] @ hex_digits 2 (code (hd s))
         | Some _ \<Rightarrow> quote_rune ip (fst (decode_rune s)))
        @ quote_go ip (drop (snd (decode_rune s)) s))"
  by pat_completeness auto
termination
  by (relation "measure (\<lambda>(_, s). length s)") (auto dest: decode_bounds)

declare quote_go.simps [simp del]

definition go_quote :: "(rune \<Rightarrow> bool) \<Rightarrow> string \<Rightarrow> string" where
  "go_quote ip s = dquote # quote_go ip s @ [dquote]"

text \<open>What the table of printable runes is relied on for.\<close>

definition print_table :: "(rune \<Rightarrow> bool) \<Rightarrow> bool" where
  "print_table ip \<longleftrightarrow> (\<forall>c. code c < 0x80 \<longrightarrow> ip [c] = (0x20 \<le> code c \<and> code c < 0x7F))"

section \<open>Unquoting\<close>

definition take_hex :: "nat \<Rightarrow> string \<Rightarrow> (nat \<times> string) option" where
  "take_hex n s =
     (if length s < n then None
      else case unhex_all 0 (take n s) of None \<Rightarrow> None | Some v \<Rightarrow> Some (v, drop n s))"

definition octal_digit :: "char \<Rightarrow> nat option" where
  "octal_digit c = (if 48 \<le> code c \<and> code c \<le> 55 then Some (code c - 48) else None)"

definition take_octal :: "nat \<Rightarrow> string \<Rightarrow> (nat \<times> string) option" where
  "take_octal v s =
     (case s of
        a # b # rest \<Rightarrow>
          (case (octal_digit a, octal_digit b) of
             (Some x, Some y) \<Rightarrow> if (v * 8 + x) * 8 + y > 255 then None else Some ((v * 8 + x) * 8 + y, rest)
           | _ \<Rightarrow> None)
      | _ \<Rightarrow> None)"

text \<open>\<^verbatim>\<open>strconv.UnquoteChar\<close>, with the value as the bytes it is appended as; first after a backslash.\<close>

definition unquote_escape :: "char \<Rightarrow> char \<Rightarrow> string \<Rightarrow> (string \<times> string) option" where
  "unquote_escape q e rest =
     (case map_of escapes e of
        Some x \<Rightarrow> Some ([x], rest)
      | None \<Rightarrow>
          if e = CHR ''x'' then map_option (\<lambda>(v, t). ([char_of v], t)) (take_hex 2 rest)
          else if e = CHR ''u'' \<or> e = CHR ''U'' then
            Option.bind (take_hex (if e = CHR ''u'' then 4 else 8) rest)
              (\<lambda>(v, t). if valid_code v then Some (rune_of_code v, t) else None)
          else
            case octal_digit e of
              Some d \<Rightarrow> map_option (\<lambda>(v, t). ([char_of v], t)) (take_octal d rest)
            | None \<Rightarrow>
                if e = backslash then Some ([backslash], rest)
                else if e = squote \<or> e = dquote then (if e \<noteq> q then None else Some ([e], rest))
                else None)"

definition unquote_char :: "char \<Rightarrow> string \<Rightarrow> (string \<times> string) option" where
  "unquote_char q s =
     (case s of
        [] \<Rightarrow> None
      | c # cs \<Rightarrow>
          if c = q then None
          else if 0x80 \<le> code c then Some (fst (decode_rune s), drop (snd (decode_rune s)) s)
          else if c \<noteq> backslash then Some ([c], cs)
          else case cs of [] \<Rightarrow> None | e # rest \<Rightarrow> unquote_escape q e rest)"

lemma take_hex_length: "take_hex n s = Some (v, t) \<Longrightarrow> length t \<le> length s"
  by (auto simp: take_hex_def split: if_splits option.splits)

lemma take_octal_length: "take_octal d s = Some (v, t) \<Longrightarrow> length t \<le> length s"
  by (auto simp: take_octal_def split: list.splits option.splits if_splits)

lemma unquote_escape_length:
  assumes "unquote_escape q e rest = Some (b, t)"
  shows "length t \<le> length rest"
proof (cases "map_of escapes e")
  case (Some x)
  then show ?thesis using assms by (simp add: unquote_escape_def)
next
  case None
  note unq = assms [unfolded unquote_escape_def None option.case]
  consider "e = CHR ''x''" | "e \<noteq> CHR ''x''" "e = CHR ''u'' \<or> e = CHR ''U''" | "e \<noteq> CHR ''x''" "\<not> (e = CHR ''u'' \<or> e = CHR ''U'')"
    by blast
  then show ?thesis
  proof cases
    case 1
    then show ?thesis using unq by (auto dest: take_hex_length)
  next
    case 2
    then show ?thesis using unq by (auto simp: bind_eq_Some_conv dest: take_hex_length split: if_splits)
  next
    case 3
    then show ?thesis using unq by (auto dest: take_octal_length split: option.splits if_splits)
  qed
qed

lemma unquote_char_shorter:
  assumes "unquote_char q s = Some (b, t)"
  shows "length t < length s"
proof (cases s)
  case Nil
  then show ?thesis using assms by (simp add: unquote_char_def)
next
  case (Cons c cs)
  note unq = assms [unfolded unquote_char_def Cons list.case]
  show ?thesis
  proof (cases "0x80 \<le> code c")
    case True
    then show ?thesis using unq decode_bounds [of s] Cons by (auto split: if_splits)
  next
    case False
    then show ?thesis
      using unq Cons by (auto split: if_splits list.splits dest: unquote_escape_length)
  qed
qed

text \<open>The loop of \<^verbatim>\<open>unquote\<close> up to the closing quote, and the rest after it.\<close>

function unquote_loop :: "char \<Rightarrow> string \<Rightarrow> string \<Rightarrow> (string \<times> string) option" where
  "unquote_loop q s buf =
     (case s of
        [] \<Rightarrow> None
      | c # cs \<Rightarrow>
          if c = q then Some (buf, cs)
          else case unquote_char q s of
            None \<Rightarrow> None
          | Some (b, t) \<Rightarrow>
              if c = newline then None
              else if q = squote then
                (case t of [] \<Rightarrow> None | c' # cs' \<Rightarrow> if c' = q then Some (buf @ b, cs') else None)
              else unquote_loop q t (buf @ b))"
  by pat_completeness auto
termination
  by (relation "measure (\<lambda>(_, s, _). length s)") (auto dest: unquote_char_shorter)

declare unquote_loop.simps [simp del]

text \<open>
  \<^verbatim>\<open>strconv.Unquote\<close> of \<open>content\<close> between two quotes \<open>q\<close>; \<open>p\<close> is the text up to the first quote.
\<close>

definition go_unquote :: "char \<Rightarrow> string \<Rightarrow> string option" where
  "go_unquote q content =
     (let p = takeWhile (\<lambda>c. c \<noteq> q) content in
      if backslash \<notin> set p \<and> newline \<notin> set p \<and>
         (if q = dquote then valid_string p else p \<noteq> [] \<and> snd (decode_rune p) = length p \<and> rune_len (string_bytes p) \<noteq> None)
      then (if p = content then Some p else None)
      else case unquote_loop q (content @ [q]) [] of
        Some (buf, []) \<Rightarrow> Some buf
      | _ \<Rightarrow> None)"

section \<open>The round trip\<close>

lemma take_hex_digits: "v < 16 ^ n \<Longrightarrow> take_hex n (hex_digits n v @ rest) = Some (v, rest)"
  by (simp add: take_hex_def unhex_digits)

lemma escape_x: "v < 256 \<Longrightarrow> unquote_char dquote (backslash # CHR ''x'' # hex_digits 2 v @ rest) = Some ([char_of v], rest)"
  using take_hex_digits [of v 2 rest] by (simp add: unquote_char_def unquote_escape_def escapes_def)

lemma escape_u: "v < 0x10000 \<Longrightarrow> valid_code v \<Longrightarrow>
    unquote_char dquote (backslash # CHR ''u'' # hex_digits 4 v @ rest) = Some (rune_of_code v, rest)"
  using take_hex_digits [of v 4 rest] by (simp add: unquote_char_def unquote_escape_def escapes_def)

lemma escape_U: "valid_code v \<Longrightarrow>
    unquote_char dquote (backslash # CHR ''U'' # hex_digits 8 v @ rest) = Some (rune_of_code v, rest)"
proof -
  assume v: "valid_code v"
  then have "v < 16 ^ 8" by (auto simp: valid_code_def)
  from take_hex_digits [OF this, of rest] v show ?thesis
    by (simp add: unquote_char_def unquote_escape_def escapes_def)
qed

lemma escape_letter_unquote:
  "escape_letter c = Some l \<Longrightarrow> unquote_char dquote (backslash # l # rest) = Some ([c], rest)"
  by (auto simp: escape_letter_def escapes_def unquote_char_def unquote_escape_def split: if_splits)

lemma escape_letter_plain: "escape_letter c = Some l \<Longrightarrow> l \<noteq> dquote \<and> l \<noteq> backslash \<and> l \<noteq> newline \<and> code l < 0x80"
  by (auto simp: escape_letter_def escapes_def split: if_splits)

lemma rune_first_byte: "valid_rune r \<Longrightarrow> length r \<noteq> 1 \<Longrightarrow> 0x80 \<le> code (hd r)"
  by (erule valid_rune_cases) auto

lemma rune_bytes: "valid_rune r \<Longrightarrow> length r \<noteq> 1 \<Longrightarrow> c \<in> set r \<Longrightarrow> 0x80 \<le> code c"
  by (erule valid_rune_cases) (auto simp: tail_byte_def)

lemma unquote_plain:
  assumes "valid_rune r" "r \<noteq> [dquote]" "r \<noteq> [backslash]"
  shows "unquote_char dquote (r @ rest) = Some (r, rest)"
proof (cases "length r = 1")
  case True
  then obtain c where c: "r = [c]" by (auto simp: length_Suc_conv)
  have "code c < 0x80" using assms(1) by (cases rule: valid_rune_cases) (simp_all add: c)
  then show ?thesis using assms(2,3) by (simp add: unquote_char_def c)
next
  case False
  then have "0x80 \<le> code (hd r)" by (rule rune_first_byte [OF assms(1)])
  moreover obtain c cs where "r = c # cs" using valid_rune_nonempty [OF assms(1)] by (cases r) auto
  ultimately show ?thesis using decode_valid [OF assms(1), of rest] by (auto simp: unquote_char_def)
qed

lemma quote_rune_unquote:
  assumes r: "valid_rune r" and ip: "print_table ip"
  shows "unquote_char dquote (quote_rune ip r @ rest) = Some (r, rest)"
proof -
  consider (esc) "r = [dquote] \<or> r = [backslash]" | (print) "r \<noteq> [dquote]" "r \<noteq> [backslash]" "ip r"
    | (letter) l where "r \<noteq> [dquote]" "r \<noteq> [backslash]" "\<not> ip r" "length r = 1" "escape_letter (hd r) = Some l"
    | (hex) "r \<noteq> [dquote]" "r \<noteq> [backslash]" "\<not> ip r" "(if length r = 1 then escape_letter (hd r) else None) = None"
    by (cases "if length r = 1 then escape_letter (hd r) else None") (auto split: if_splits)
  then show ?thesis
  proof cases
    case esc
    then show ?thesis by (auto simp: quote_rune_def unquote_char_def unquote_escape_def escapes_def octal_digit_def)
  next
    case print
    then show ?thesis using unquote_plain [OF r] by (simp add: quote_rune_def)
  next
    case letter
    then obtain c where "r = [c]" by (auto simp: length_Suc_conv)
    with letter escape_letter_unquote [of c l rest] show ?thesis by (simp add: quote_rune_def)
  next
    case hex
    note f = rune_code_facts [OF r]
    have q: "quote_rune ip r = (if rune_code r < 32 \<or> rune_code r = 127 then [backslash, CHR ''x''] @ hex_digits 2 (rune_code r)
        else if rune_code r < 0x10000 then [backslash, CHR ''u''] @ hex_digits 4 (rune_code r)
        else [backslash, CHR ''U''] @ hex_digits 8 (rune_code r))"
      using hex unfolding quote_rune_def Let_def hex(4) by simp
    have "[char_of (rune_code r)] = r" if "rune_code r < 128"
      using that f(1) by (simp add: rune_of_code_def)
    then show ?thesis
      using q escape_x [of "rune_code r" rest] escape_u [of "rune_code r" rest] escape_U [of "rune_code r" rest] f by auto
  qed
qed

lemma quote_rune_head:
  assumes "valid_rune r" "print_table ip"
  shows "quote_rune ip r \<noteq> [] \<and> hd (quote_rune ip r) \<noteq> dquote \<and> hd (quote_rune ip r) \<noteq> newline"
proof (cases "length r = 1")
  case True
  then obtain c where c: "r = [c]" by (auto simp: length_Suc_conv)
  have "code c < 0x80" using assms(1) by (cases rule: valid_rune_cases) (simp_all add: c)
  then have "ip [c] \<Longrightarrow> c \<noteq> newline" using assms(2) by (auto simp: print_table_def)
  then show ?thesis by (auto simp: quote_rune_def c Let_def split: option.split)
next
  case False
  then have "0x80 \<le> code (hd r)" by (rule rune_first_byte [OF assms(1)])
  then have "hd r \<noteq> dquote" "hd r \<noteq> newline" by auto
  then show ?thesis using False valid_rune_nonempty [OF assms(1)] by (auto simp: quote_rune_def Let_def)
qed

text \<open>The quoted piece of the first rune, or of the first byte when it is invalid.\<close>

definition quote_piece :: "(rune \<Rightarrow> bool) \<Rightarrow> string \<Rightarrow> string" where
  "quote_piece ip s = (case rune_len (string_bytes s) of
       None \<Rightarrow> [backslash, CHR ''x''] @ hex_digits 2 (code (hd s))
     | Some _ \<Rightarrow> quote_rune ip (fst (decode_rune s)))"

lemma quote_go_step:
  "s \<noteq> [] \<Longrightarrow> quote_go ip s = quote_piece ip s @ quote_go ip (drop (snd (decode_rune s)) s)"
  by (subst quote_go.simps) (simp add: quote_piece_def)

lemma quote_go_Nil [simp]: "quote_go ip [] = []"
  by (simp add: quote_go.simps)

lemma decode_take: "s \<noteq> [] \<Longrightarrow> rune_len (string_bytes s) = Some n \<Longrightarrow> decode_rune s = (take n s, n) \<and> valid_rune (take n s)"
  using decode_valid_rune [of s] by (auto simp: decode_rune_def)

lemma quote_piece_unquote:
  assumes s: "s \<noteq> []" and ip: "print_table ip"
  shows "unquote_char dquote (quote_piece ip s @ rest) = Some (take (snd (decode_rune s)) s, rest)"
    and "quote_piece ip s \<noteq> []" "hd (quote_piece ip s) \<noteq> dquote" "hd (quote_piece ip s) \<noteq> newline"
proof -
  have "unquote_char dquote (quote_piece ip s @ rest) = Some (take (snd (decode_rune s)) s, rest) \<and>
      quote_piece ip s \<noteq> [] \<and> hd (quote_piece ip s) \<noteq> dquote \<and> hd (quote_piece ip s) \<noteq> newline"
  proof (cases "rune_len (string_bytes s)")
    case None
    have "[char_of (code (hd s) :: nat)] = take 1 s" using s by (cases s) simp_all
    then show ?thesis
      using escape_x [of "code (hd s)" rest] s None by (simp add: quote_piece_def decode_rune_def)
  next
    case (Some n)
    note d = decode_take [OF s Some]
    then show ?thesis
      using quote_rune_unquote [of "take n s" ip rest] quote_rune_head [of "take n s" ip] ip Some
      by (simp add: quote_piece_def)
  qed
  then show "unquote_char dquote (quote_piece ip s @ rest) = Some (take (snd (decode_rune s)) s, rest)"
    "quote_piece ip s \<noteq> []" "hd (quote_piece ip s) \<noteq> dquote" "hd (quote_piece ip s) \<noteq> newline" by blast+
qed

lemma unquote_loop_quote:
  "print_table ip \<Longrightarrow> unquote_loop dquote (quote_go ip s @ dquote # rest) buf = Some (buf @ s, rest)"
proof (induction ip s arbitrary: buf rule: quote_go.induct)
  case (1 ip s)
  show ?case
  proof (cases "s = []")
    case True
    then show ?thesis by (simp add: unquote_loop.simps)
  next
    case False
    let ?n = "snd (decode_rune s)" and ?rest = "quote_go ip (drop (snd (decode_rune s)) s) @ dquote # rest"
    note q = quote_piece_unquote [OF False 1(2)]
    obtain c cs where c: "quote_piece ip s = c # cs" using q(2) by (cases "quote_piece ip s") auto
    have ne: "c \<noteq> dquote" "c \<noteq> newline" using q(3,4) c by simp_all
    have "unquote_loop dquote (quote_go ip s @ dquote # rest) buf = unquote_loop dquote ?rest (buf @ take ?n s)"
      using quote_go_step [OF False, of ip] c ne q(1) [of ?rest] by (subst unquote_loop.simps) simp
    also have "\<dots> = Some ((buf @ take ?n s) @ drop ?n s, rest)" by (rule 1(1) [OF False 1(2)])
    finally show ?thesis by simp
  qed
qed

lemma hex_no_quote: "dquote \<notin> set (hex_digits w v)" "backslash \<notin> set (hex_digits w v)" "newline \<notin> set (hex_digits w v)"
  using hex_digits_plain [of _ w v] by fastforce+

lemma quote_rune_shape:
  assumes "valid_rune r"
  shows "quote_rune ip r = r \<and> dquote \<notin> set r \<and> backslash \<notin> set r \<or>
    backslash \<in> set (quote_rune ip r) \<and> dquote \<notin> set (quote_rune ip r) \<or> quote_rune ip r = [backslash, dquote]"
proof -
  have plain: "dquote \<notin> set r \<and> backslash \<notin> set r" if "r \<noteq> [dquote]" "r \<noteq> [backslash]"
  proof (cases "length r = 1")
    case True
    then show ?thesis using that by (auto simp: length_Suc_conv)
  next
    case False
    then show ?thesis using rune_bytes [OF assms, of dquote] rune_bytes [OF assms, of backslash] by auto
  qed
  show ?thesis
  proof (cases "r = [dquote] \<or> r = [backslash] \<or> ip r")
    case True
    then show ?thesis using plain by (auto simp: quote_rune_def)
  next
    case False
    then show ?thesis
      by (auto simp: quote_rune_def Let_def hex_no_quote dest!: escape_letter_plain split: option.split)
  qed
qed

lemma quote_piece_shape:
  assumes "s \<noteq> []"
  shows "quote_piece ip s = take (snd (decode_rune s)) s \<and> dquote \<notin> set (quote_piece ip s) \<and> backslash \<notin> set (quote_piece ip s) \<or>
    backslash \<in> set (quote_piece ip s) \<and> dquote \<notin> set (quote_piece ip s) \<or> quote_piece ip s = [backslash, dquote]"
proof (cases "rune_len (string_bytes s)")
  case None
  then show ?thesis by (simp add: quote_piece_def hex_no_quote)
next
  case (Some n)
  with decode_take [OF assms Some] quote_rune_shape [of "take n s" ip] show ?thesis by (auto simp: quote_piece_def)
qed

lemma quote_go_plain: "backslash \<notin> set (quote_go ip s) \<Longrightarrow> quote_go ip s = s"
proof (induction ip s rule: quote_go.induct)
  case (1 ip s)
  show ?case
  proof (cases "s = []")
    case False
    note q = quote_go_step [OF False, of ip]
    then have "quote_piece ip s = take (snd (decode_rune s)) s"
      using quote_piece_shape [OF False, of ip] 1(2) by auto
    moreover have "quote_go ip (drop (snd (decode_rune s)) s) = drop (snd (decode_rune s)) s"
      using 1 False q by simp
    ultimately show ?thesis using q by simp
  qed simp
qed

lemma quote_go_guarded:
  "dquote \<in> set (quote_go ip s) \<Longrightarrow> backslash \<in> set (takeWhile (\<lambda>c. c \<noteq> dquote) (quote_go ip s))"
proof (induction ip s rule: quote_go.induct)
  case (1 ip s)
  show ?case
  proof (cases "s = []")
    case True
    then show ?thesis using 1(2) by simp
  next
    case False
    note q = quote_go_step [OF False, of ip]
    consider "quote_piece ip s = [backslash, dquote]" | "dquote \<notin> set (quote_piece ip s)"
      using quote_piece_shape [OF False, of ip] by blast
    then show ?thesis
    proof cases
      case 1
      then show ?thesis using q by simp
    next
      case 2
      then have "takeWhile (\<lambda>c. c \<noteq> dquote) (quote_go ip s) =
          quote_piece ip s @ takeWhile (\<lambda>c. c \<noteq> dquote) (quote_go ip (drop (snd (decode_rune s)) s))"
        unfolding q by (intro takeWhile_append2) auto
      then show ?thesis using 1 2 False q by auto
    qed
  qed
qed

lemma unquote_quote:
  assumes "print_table ip"
  shows "go_unquote dquote (quote_go ip s) = Some s"
proof -
  let ?c = "quote_go ip s"
  let ?p = "takeWhile (\<lambda>c. c \<noteq> dquote) ?c"
  show ?thesis
  proof (cases "backslash \<notin> set ?p \<and> newline \<notin> set ?p \<and> valid_string ?p")
    case True
    then have "dquote \<notin> set ?c" using quote_go_guarded [of ip s] by blast
    then have "\<And>x. x \<in> set ?c \<Longrightarrow> x \<noteq> dquote" by blast
    then have p: "?p = ?c" by (rule takeWhile_eq_all_conv [THEN iffD2, OF ballI])
    have c: "?c = s" by (rule quote_go_plain) (rule conjunct1 [OF True, unfolded p])
    note T = True [unfolded p]
    have "go_unquote dquote ?c = Some ?c" unfolding go_unquote_def Let_def p using T by simp
    then show ?thesis unfolding c .
  next
    case False
    have "go_unquote dquote ?c = (case unquote_loop dquote (?c @ [dquote]) [] of Some (buf, []) \<Rightarrow> Some buf | _ \<Rightarrow> None)"
      unfolding go_unquote_def Let_def by (rule if_not_P) (use False in simp)
    then show ?thesis using unquote_loop_quote [OF assms, of s "[]" "[]"] by simp
  qed
qed

text \<open>\<^verbatim>\<open>unicode.IsPrint\<close> on ASCII, with no printable runes beyond it.\<close>

definition ascii_print :: "rune \<Rightarrow> bool" where
  "ascii_print r \<longleftrightarrow> length r = 1 \<and> 0x20 \<le> code (hd r) \<and> code (hd r) < 0x7F"

lemma ascii_print_table: "print_table ascii_print"
  by (simp add: print_table_def ascii_print_def)

end
