(* ===== verification/WinMatchSpec.thy ===== *)
theory WinMatchSpec
  imports WinMatch GoQuote
begin

text \<open>
  The textual form of a window match: \<^verbatim>\<open>Match.String\<close>, \<^verbatim>\<open>ParseMatchSpec\<close> and its tokenizer of
  \<^verbatim>\<open>window/match.go\<close>, and the round trip between them.
\<close>

section \<open>Tokens\<close>

record tok_state =
  tk_tokens :: "string list"
  tk_buf :: string
  tk_quoted :: string
  tk_quote :: "char option"
  tk_escaped :: bool

definition tk_start :: tok_state where
  "tk_start = \<lparr>tk_tokens = [], tk_buf = [], tk_quoted = [], tk_quote = None, tk_escaped = False\<rparr>"

definition tk_flush :: "tok_state \<Rightarrow> tok_state" where
  "tk_flush st = (if tk_buf st = [] then st else st\<lparr>tk_tokens := tk_tokens st @ [tk_buf st], tk_buf := []\<rparr>)"

text \<open>The permissive reading of backslashes when the quoted text is not a Go literal.\<close>

fun legacy_unescape :: "bool \<Rightarrow> rune list \<Rightarrow> string" where
  "legacy_unescape escape [] = (if escape then [backslash] else [])"
| "legacy_unescape escape (ch # chs) =
     (if escape then ch @ legacy_unescape False chs
      else if ch = [backslash] then legacy_unescape True chs
      else ch @ legacy_unescape False chs)"

definition decode_quoted :: "char \<Rightarrow> string \<Rightarrow> string" where
  "decode_quoted q content =
     (case go_unquote q content of Some d \<Rightarrow> d | None \<Rightarrow> legacy_unescape False (runes content))"

definition tk_step :: "rune \<Rightarrow> tok_state \<Rightarrow> tok_state" where
  "tk_step r st =
     (case tk_quote st of
        Some q \<Rightarrow>
          if tk_escaped st then st\<lparr>tk_quoted := tk_quoted st @ r, tk_escaped := False\<rparr>
          else if r = [backslash] then st\<lparr>tk_quoted := tk_quoted st @ r, tk_escaped := True\<rparr>
          else if r = [q] then
            st\<lparr>tk_buf := tk_buf st @ decode_quoted q (tk_quoted st), tk_quoted := [], tk_quote := None\<rparr>
          else st\<lparr>tk_quoted := tk_quoted st @ r\<rparr>
      | None \<Rightarrow>
          if r = [dquote] \<or> r = [squote] then st\<lparr>tk_quote := Some (hd r)\<rparr>
          else if r \<in> {[CHR '' ''], [CHR 0x09], [CHR 0x0A], [CHR 0x0D], [CHR '','']} then tk_flush st
          else st\<lparr>tk_buf := tk_buf st @ r\<rparr>)"

datatype spec_error =
    UnterminatedQuote string
  | MultipleTitles string
  | BadPid string
  | BadId string
  | BadState string
  | BadBool string string
  | UnknownKey string

definition tokenize_match_spec :: "string \<Rightarrow> spec_error + string list" where
  "tokenize_match_spec spec =
     (let st = fold tk_step (runes spec) tk_start in
      if tk_quote st \<noteq> None then Inl (UnterminatedQuote spec) else Inr (tk_tokens (tk_flush st)))"

section \<open>Parsing\<close>

definition parse_match_bool :: "(rune \<Rightarrow> rune) \<Rightarrow> string \<Rightarrow> bool option" where
  "parse_match_bool lo v =
     (if v = [] then Some True
      else
        let l = go_to_lower lo v in
        if l \<in> {''1'', ''t'', ''true'', ''yes'', ''on''} then Some True
        else if l \<in> {''0'', ''f'', ''false'', ''no'', ''off''} then Some False
        else None)"

definition has_prefix :: "string \<Rightarrow> string \<Rightarrow> bool" where
  "has_prefix s p \<longleftrightarrow> take (length p) s = p"

definition trim_prefix :: "string \<Rightarrow> string \<Rightarrow> string" where
  "trim_prefix s p = (if has_prefix s p then drop (length p) s else s)"

definition apply_match_state :: "(rune \<Rightarrow> rune) \<Rightarrow> string \<Rightarrow> match \<Rightarrow> spec_error + match" where
  "apply_match_state lo raw m =
     (let on = \<not> has_prefix raw ''-''; name = go_to_lower lo (trim_prefix raw ''-'') in
      if name = ''active'' then Inr (m\<lparr>active := Some on\<rparr>)
      else if name = ''minimized'' then Inr (m\<lparr>minimized := Some on\<rparr>)
      else if name = ''maximized'' then Inr (m\<lparr>maximized := Some on\<rparr>)
      else if name = ''fullscreen'' then Inr (m\<lparr>fullscreen := Some on\<rparr>)
      else if name = ''visible'' \<or> name = ''visible-only'' then Inr (m\<lparr>visible_only := on\<rparr>)
      else Inl (BadState raw))"

definition apply_flag :: "(rune \<Rightarrow> rune) \<Rightarrow> string \<Rightarrow> string \<Rightarrow> match \<Rightarrow> spec_error + match" where
  "apply_flag lo spec tok m =
     (let l = go_to_lower lo tok in
      if l = ''active'' then Inr (m\<lparr>active := Some True\<rparr>)
      else if l = ''minimized'' then Inr (m\<lparr>minimized := Some True\<rparr>)
      else if l = ''maximized'' then Inr (m\<lparr>maximized := Some True\<rparr>)
      else if l = ''fullscreen'' then Inr (m\<lparr>fullscreen := Some True\<rparr>)
      else if l = ''visible'' \<or> l = ''visible-only'' then Inr (m\<lparr>visible_only := True\<rparr>)
      else if title_contains m \<noteq> [] then Inl (MultipleTitles spec)
      else Inr (m\<lparr>title_contains := tok\<rparr>))"

definition apply_bool :: "(rune \<Rightarrow> rune) \<Rightarrow> string \<Rightarrow> string \<Rightarrow> (bool \<Rightarrow> match) \<Rightarrow> spec_error + match" where
  "apply_bool lo name val upd =
     (case parse_match_bool lo val of None \<Rightarrow> Inl (BadBool name val) | Some b \<Rightarrow> Inr (upd b))"

definition apply_pair :: "(rune \<Rightarrow> rune) \<Rightarrow> string \<Rightarrow> string \<Rightarrow> match \<Rightarrow> spec_error + match" where
  "apply_pair lo key val m =
     (let l = go_to_lower lo (trim_suffix key ''~'') in
      if l = ''title'' then
        (if has_suffix key ''~'' then Inr (m\<lparr>title_contains := val\<rparr>) else Inr (m\<lparr>title_exact := val\<rparr>))
      else if l \<in> {''app'', ''app_id'', ''appid''} then Inr (m\<lparr>app_id := val\<rparr>)
      else if l = ''class'' then Inr (m\<lparr>class_name := val\<rparr>)
      else if l = ''pid'' then
        (case parse_int 32 val of None \<Rightarrow> Inl (BadPid val) | Some v \<Rightarrow> Inr (m\<lparr>pid := Some v\<rparr>))
      else if l = ''id'' then
        (case parse_uint 64 val of None \<Rightarrow> Inl (BadId val) | Some v \<Rightarrow> Inr (m\<lparr>win_id := Some v\<rparr>))
      else if l = ''state'' then apply_match_state lo val m
      else if l = ''active'' then apply_bool lo ''active'' val (\<lambda>b. m\<lparr>active := Some b\<rparr>)
      else if l = ''minimized'' then apply_bool lo ''minimized'' val (\<lambda>b. m\<lparr>minimized := Some b\<rparr>)
      else if l = ''maximized'' then apply_bool lo ''maximized'' val (\<lambda>b. m\<lparr>maximized := Some b\<rparr>)
      else if l = ''fullscreen'' then apply_bool lo ''fullscreen'' val (\<lambda>b. m\<lparr>fullscreen := Some b\<rparr>)
      else if l = ''visible'' \<or> l = ''visible-only'' then apply_bool lo ''visible-only'' val (\<lambda>b. m\<lparr>visible_only := b\<rparr>)
      else Inl (UnknownKey key))"

text \<open>\<^verbatim>\<open>strings.Cut\<close> at a byte.\<close>

definition cut :: "char \<Rightarrow> string \<Rightarrow> (string \<times> string) option" where
  "cut c s = map_option (\<lambda>n. (take n s, drop (Suc n) s)) (index_byte c s)"

definition parse_token :: "(rune \<Rightarrow> rune) \<Rightarrow> string \<Rightarrow> string \<Rightarrow> match \<Rightarrow> spec_error + match" where
  "parse_token lo spec tok m =
     (case cut CHR ''='' tok of
        Some (key, val) \<Rightarrow> apply_pair lo key val m
      | None \<Rightarrow>
          (case cut CHR '':'' tok of
             Some (key, val) \<Rightarrow> apply_pair lo key val m
           | None \<Rightarrow> apply_flag lo spec tok m))"

fun parse_tokens :: "(rune \<Rightarrow> rune) \<Rightarrow> string \<Rightarrow> string list \<Rightarrow> match \<Rightarrow> spec_error + match" where
  "parse_tokens lo spec [] m = Inr m"
| "parse_tokens lo spec (tok # toks) m = ebind (parse_token lo spec tok m) (parse_tokens lo spec toks)"

definition parse_match_spec :: "(rune \<Rightarrow> rune) \<Rightarrow> string \<Rightarrow> spec_error + match" where
  "parse_match_spec lo spec =
     ebind (tokenize_match_spec spec) (\<lambda>tokens. parse_tokens lo spec tokens any_window)"

section \<open>Printing\<close>

definition opt_part :: "bool \<Rightarrow> string \<Rightarrow> string list" where
  "opt_part b part = (if b then [part] else [])"

definition show_bool :: "bool \<Rightarrow> string" where
  "show_bool b = (if b then ''true'' else ''false'')"

definition match_parts :: "(rune \<Rightarrow> bool) \<Rightarrow> match \<Rightarrow> string list" where
  "match_parts ip m =
     opt_part (title_exact m \<noteq> []) (''title='' @ go_quote ip (title_exact m)) @
     opt_part (title_contains m \<noteq> []) (''title~='' @ go_quote ip (title_contains m)) @
     opt_part (app_id m \<noteq> []) (''app_id='' @ go_quote ip (app_id m)) @
     opt_part (class_name m \<noteq> []) (''class='' @ go_quote ip (class_name m)) @
     opt_part (pid m \<noteq> None) (''pid='' @ show_int (the (pid m))) @
     opt_part (win_id m \<noteq> None) (''id='' @ show_nat (the (win_id m))) @
     opt_part (active m \<noteq> None) (''active='' @ show_bool (the (active m))) @
     opt_part (minimized m \<noteq> None) (''minimized='' @ show_bool (the (minimized m))) @
     opt_part (maximized m \<noteq> None) (''maximized='' @ show_bool (the (maximized m))) @
     opt_part (fullscreen m \<noteq> None) (''fullscreen='' @ show_bool (the (fullscreen m))) @
     opt_part (visible_only m) ''visible-only''"

fun join_parts :: "string list \<Rightarrow> string" where
  "join_parts [] = []"
| "join_parts [p] = p"
| "join_parts (p # ps) = p @ CHR '' '' # join_parts ps"

definition match_string :: "(rune \<Rightarrow> bool) \<Rightarrow> match \<Rightarrow> string" where
  "match_string ip m =
     (if match_parts ip m = [] then ''<any window>'' else join_parts (match_parts ip m))"

section \<open>Tokens of printed parts\<close>

definition tk_fresh :: "string list \<Rightarrow> string \<Rightarrow> tok_state" where
  "tk_fresh ts buf = \<lparr>tk_tokens = ts, tk_buf = buf, tk_quoted = [], tk_quote = None, tk_escaped = False\<rparr>"

definition tk_inside :: "string list \<Rightarrow> string \<Rightarrow> string \<Rightarrow> tok_state" where
  "tk_inside ts buf quoted = \<lparr>tk_tokens = ts, tk_buf = buf, tk_quoted = quoted, tk_quote = Some dquote, tk_escaped = False\<rparr>"

text \<open>\<open>scans s st st'\<close>: the string leads the tokenizer from one state to the other, whatever follows.\<close>

definition scans :: "string \<Rightarrow> tok_state \<Rightarrow> tok_state \<Rightarrow> bool" where
  "scans s st st' \<longleftrightarrow> valid_string s \<and> fold tk_step (runes s) st = st'"

lemma runes_append_valid: "valid_string s \<Longrightarrow> runes (s @ t) = runes s @ runes t"
  using concat_runes [of s] runes_concat_append [of "runes s" t] by (metis runes_valid)

lemma valid_append: "valid_string s \<Longrightarrow> valid_string t \<Longrightarrow> valid_string (s @ t)"
proof -
  assume v: "valid_string s" "valid_string t"
  have "s @ t = concat (runes s @ runes t)" using v by (simp add: concat_runes)
  then show ?thesis using valid_concat [of "runes s @ runes t"] runes_valid by auto
qed

lemma scans_append: "scans s a b \<Longrightarrow> scans t b c \<Longrightarrow> scans (s @ t) a c"
  by (auto simp: scans_def runes_append_valid valid_append)

lemma ascii_valid: "is_ascii s \<Longrightarrow> valid_string s"
proof -
  assume a: "is_ascii s"
  then have "valid_string (concat (runes s))" by (intro valid_concat) (auto dest: runes_valid)
  moreover have "concat (runes s) = s" using a by (simp add: runes_ascii)
  ultimately show ?thesis by simp
qed

definition plain_char :: "char \<Rightarrow> bool" where
  "plain_char c \<longleftrightarrow> 0x2D \<le> code c \<and> code c < 0x7F"

lemma scans_plain: "\<forall>c \<in> set s. plain_char c \<Longrightarrow> scans s (tk_fresh ts buf) (tk_fresh ts (buf @ s))"
proof -
  assume p: "\<forall>c \<in> set s. plain_char c"
  have a: "is_ascii s" using p by (auto simp: is_ascii_def plain_char_def)
  have "fold tk_step (map (\<lambda>c. [c]) s) (tk_fresh ts buf) = tk_fresh ts (buf @ s)"
    using p
  proof (induction s arbitrary: buf)
    case (Cons c s)
    have "c \<noteq> dquote \<and> c \<noteq> squote \<and> c \<noteq> CHR '' '' \<and> c \<noteq> CHR 0x09 \<and> c \<noteq> CHR 0x0A \<and> c \<noteq> CHR 0x0D \<and> c \<noteq> CHR '',''"
      using Cons.prems by (auto simp: plain_char_def)
    then have "tk_step [c] (tk_fresh ts buf) = tk_fresh ts (buf @ [c])" by (simp add: tk_step_def tk_fresh_def)
    with Cons show ?case by simp
  qed simp
  then show ?thesis using ascii_valid [OF a] runes_ascii [OF a] by (simp add: scans_def)
qed

lemma scans_rune_inside:
  assumes "valid_rune r" "r \<noteq> [dquote]" "r \<noteq> [backslash]"
  shows "scans r (tk_inside ts buf q) (tk_inside ts buf (q @ r))"
proof -
  have r: "runes r = [r]" using runes_append [OF assms(1), of "[]"] by simp
  then have "valid_string r" using valid_concat [of "[r]"] assms(1) by simp
  then show ?thesis using r assms by (simp add: scans_def tk_step_def tk_inside_def)
qed

lemma scans_hex_inside:
  assumes "is_ascii s" "dquote \<notin> set s" "backslash \<notin> set s"
  shows "scans s (tk_inside ts buf q) (tk_inside ts buf (q @ s))"
proof -
  have "fold tk_step (map (\<lambda>c. [c]) s) (tk_inside ts buf q) = tk_inside ts buf (q @ s)"
    using assms(2,3)
  proof (induction s arbitrary: q)
    case (Cons c s)
    then have "c \<noteq> dquote" "c \<noteq> backslash" by auto
    then have "tk_step [c] (tk_inside ts buf q) = tk_inside ts buf (q @ [c])" by (simp add: tk_step_def tk_inside_def)
    with Cons show ?case by simp
  qed simp
  then show ?thesis using ascii_valid [OF assms(1)] runes_ascii [OF assms(1)] by (simp add: scans_def)
qed

lemma scans_escape_inside:
  assumes "code e < 0x80"
  shows "scans [backslash, e] (tk_inside ts buf q) (tk_inside ts buf (q @ [backslash, e]))"
proof -
  have a: "is_ascii [backslash, e]" using assms by (simp add: is_ascii_def)
  then show ?thesis
    using ascii_valid [OF a] runes_ascii [OF a] by (simp add: scans_def tk_step_def tk_inside_def)
qed

lemma hex_ascii: "is_ascii (hex_digits w v)"
  using hex_digits_plain [of _ w v] by (fastforce simp: is_ascii_def)

lemma scans_escape_hex:
  "code e < 0x80 \<Longrightarrow> scans (backslash # e # hex_digits w v) (tk_inside ts buf q) (tk_inside ts buf (q @ backslash # e # hex_digits w v))"
  using scans_append [OF scans_escape_inside [of e ts buf q] scans_hex_inside [OF hex_ascii [of w v] hex_no_quote(1,2)]] by simp

lemma scans_quote_rune:
  assumes r: "valid_rune r"
  shows "scans (quote_rune ip r) (tk_inside ts buf q) (tk_inside ts buf (q @ quote_rune ip r))"
proof (cases "r = [dquote] \<or> r = [backslash]")
  case True
  then show ?thesis using scans_escape_inside [of dquote ts buf q] scans_escape_inside [of backslash ts buf q]
    by (auto simp: quote_rune_def)
next
  case False
  then show ?thesis
    using scans_rune_inside [OF r, of ts buf q] scans_escape_inside [of _ ts buf q] scans_escape_hex [of _ _ _ ts buf q]
    by (auto simp: quote_rune_def Let_def dest: escape_letter_plain split: option.split)
qed

lemma scans_quote_go: "scans (quote_go ip s) (tk_inside ts buf q) (tk_inside ts buf (q @ quote_go ip s))"
proof (induction ip s arbitrary: q rule: quote_go.induct)
  case (1 ip s)
  show ?case
  proof (cases "s = []")
    case True
    then show ?thesis by (simp add: scans_def valid_string_def)
  next
    case False
    have "scans (quote_piece ip s) (tk_inside ts buf q) (tk_inside ts buf (q @ quote_piece ip s))"
    proof (cases "rune_len (string_bytes s)")
      case None
      then show ?thesis using scans_escape_hex [of "CHR ''x''" 2 "code (hd s)" ts buf q] by (simp add: quote_piece_def)
    next
      case (Some n)
      with decode_take [OF False Some] scans_quote_rune show ?thesis by (simp add: quote_piece_def)
    qed
    from scans_append [OF this 1 [OF False]] show ?thesis by (simp add: quote_go_step [OF False])
  qed
qed

lemma scans_quoted:
  assumes "print_table ip"
  shows "scans (go_quote ip s) (tk_fresh ts buf) (tk_fresh ts (buf @ s))"
proof -
  have open_q: "scans [dquote] (tk_fresh ts buf) (tk_inside ts buf [])"
    using runes_ascii [of "[dquote]"] ascii_valid [of "[dquote]"]
    by (simp add: scans_def is_ascii_def tk_step_def tk_fresh_def tk_inside_def)
  have close_q: "scans [dquote] (tk_inside ts buf (quote_go ip s)) (tk_fresh ts (buf @ s))"
    using runes_ascii [of "[dquote]"] ascii_valid [of "[dquote]"] unquote_quote [OF assms, of s]
    by (simp add: scans_def is_ascii_def tk_step_def tk_fresh_def tk_inside_def decode_quoted_def)
  from scans_append [OF open_q scans_append [OF scans_quote_go [of ip s ts buf "[]", simplified] close_q]]
  show ?thesis by (simp add: go_quote_def)
qed

text \<open>A printed part is read back as one token, the key with the unquoted value.\<close>

definition part_token :: "string \<Rightarrow> string \<Rightarrow> bool" where
  "part_token p tok \<longleftrightarrow> tok \<noteq> [] \<and> (\<forall>ts. scans p (tk_fresh ts []) (tk_fresh ts tok))"

lemma part_quoted:
  "print_table ip \<Longrightarrow> \<forall>c \<in> set key. plain_char c \<Longrightarrow> key \<noteq> [] \<Longrightarrow> part_token (key @ go_quote ip v) (key @ v)"
  using scans_append [OF scans_plain [of key _ "[]", simplified] scans_quoted [of ip v _ key]] by (simp add: part_token_def)

lemma part_plain: "\<forall>c \<in> set p. plain_char c \<Longrightarrow> p \<noteq> [] \<Longrightarrow> part_token p p"
  using scans_plain [of p _ "[]"] by (simp add: part_token_def)

lemma scans_space: "tok \<noteq> [] \<Longrightarrow> scans '' '' (tk_fresh ts tok) (tk_fresh (ts @ [tok]) [])"
  using runes_ascii [of "'' ''"] ascii_valid [of "'' ''"]
  by (simp add: scans_def is_ascii_def tk_step_def tk_fresh_def tk_flush_def)

lemma scans_join:
  "list_all2 part_token ps toks \<Longrightarrow> ps \<noteq> [] \<Longrightarrow>
     \<exists>ts' tok. scans (join_parts ps) (tk_fresh ts []) (tk_fresh ts' tok) \<and> tok \<noteq> [] \<and> ts' @ [tok] = ts @ toks"
proof (induction ps arbitrary: toks ts rule: join_parts.induct)
  case (2 p)
  then obtain tok where "toks = [tok]" "part_token p tok" by (auto simp: list_all2_Cons1)
  then show ?case by (auto simp: part_token_def)
next
  case (3 p p' ps)
  then obtain tok toks' where t: "toks = tok # toks'" "part_token p tok" "list_all2 part_token (p' # ps) toks'"
    by (auto simp: list_all2_Cons1)
  from 3(1) [OF t(3), of "ts @ [tok]"] obtain ts' tok' where
    r: "scans (join_parts (p' # ps)) (tk_fresh (ts @ [tok]) []) (tk_fresh ts' tok')" "tok' \<noteq> []" "ts' @ [tok'] = (ts @ [tok]) @ toks'"
    by blast
  have "scans p (tk_fresh ts []) (tk_fresh ts tok)" "tok \<noteq> []" using t(2) by (simp_all add: part_token_def)
  from scans_append [OF this(1) scans_append [OF scans_space [OF this(2)] r(1)]] r t(1) show ?case
    by (intro exI [of _ ts'] exI [of _ tok']) simp
qed simp

lemma tokenize_join:
  assumes "list_all2 part_token ps toks" "ps \<noteq> []"
  shows "tokenize_match_spec (join_parts ps) = Inr toks"
proof -
  from scans_join [OF assms, of "[]"] obtain ts tok where
    "scans (join_parts ps) (tk_fresh [] []) (tk_fresh ts tok)" "tok \<noteq> []" "ts @ [tok] = toks" by auto
  then show ?thesis
    by (simp add: tokenize_match_spec_def scans_def tk_start_def tk_fresh_def tk_flush_def Let_def)
qed

definition match_tokens :: "match \<Rightarrow> string list" where
  "match_tokens m =
     opt_part (title_exact m \<noteq> []) (''title='' @ title_exact m) @
     opt_part (title_contains m \<noteq> []) (''title~='' @ title_contains m) @
     opt_part (app_id m \<noteq> []) (''app_id='' @ app_id m) @
     opt_part (class_name m \<noteq> []) (''class='' @ class_name m) @
     opt_part (pid m \<noteq> None) (''pid='' @ show_int (the (pid m))) @
     opt_part (win_id m \<noteq> None) (''id='' @ show_nat (the (win_id m))) @
     opt_part (active m \<noteq> None) (''active='' @ show_bool (the (active m))) @
     opt_part (minimized m \<noteq> None) (''minimized='' @ show_bool (the (minimized m))) @
     opt_part (maximized m \<noteq> None) (''maximized='' @ show_bool (the (maximized m))) @
     opt_part (fullscreen m \<noteq> None) (''fullscreen='' @ show_bool (the (fullscreen m))) @
     opt_part (visible_only m) ''visible-only''"

lemma opt_part_tokens: "(b \<Longrightarrow> part_token p t) \<Longrightarrow> list_all2 part_token (opt_part b p) (opt_part b t)"
  by (simp add: opt_part_def)

lemma show_nat_plain: "\<forall>c \<in> set (show_nat n). plain_char c"
  using show_nat_digits [of _ n] by (fastforce simp: plain_char_def)

lemma show_int_plain: "\<forall>c \<in> set (show_int i). plain_char c"
  using show_nat_plain [of "nat i"] show_nat_plain [of "nat (- i)"] by (auto simp: show_int_def plain_char_def)

lemma show_bool_plain: "\<forall>c \<in> set (show_bool b). plain_char c"
  by (simp add: show_bool_def plain_char_def)

lemma parts_tokens: "print_table ip \<Longrightarrow> list_all2 part_token (match_parts ip m) (match_tokens m)"
  unfolding match_parts_def match_tokens_def
  by (intro list_all2_appendI opt_part_tokens part_quoted part_plain)
    (use show_int_plain show_nat_plain show_bool_plain in \<open>simp_all add: plain_char_def\<close>)

section \<open>Parsing what was printed\<close>

lemma lower_literal: "case_mapping lo \<Longrightarrow> is_ascii s \<Longrightarrow> to_lower s = s \<Longrightarrow> go_to_lower lo s = s"
  by (simp add: go_to_lower_ascii)

lemma parse_tokens_append:
  "parse_tokens lo spec (xs @ ys) m = ebind (parse_tokens lo spec xs m) (parse_tokens lo spec ys)"
proof (induction xs arbitrary: m)
  case (Cons x xs)
  then show ?case by (cases "parse_token lo spec x m") simp_all
qed simp

lemma parse_opt: "parse_tokens lo spec (opt_part b t) m = (if b then parse_token lo spec t m else Inr m)"
  by (cases "parse_token lo spec t m") (simp_all add: opt_part_def)

lemma parse_key:
  "CHR ''='' \<notin> set key \<Longrightarrow> parse_token lo spec (key @ CHR ''='' # v) m = apply_pair lo key v m"
  by (simp add: parse_token_def cut_def index_byte_append)

lemma key_name:
  assumes "case_mapping lo"
  shows "go_to_lower lo (trim_suffix ''title'' ''~'') = ''title''" "go_to_lower lo (trim_suffix ''title~'' ''~'') = ''title''"
    "go_to_lower lo (trim_suffix ''app_id'' ''~'') = ''app_id''" "go_to_lower lo (trim_suffix ''class'' ''~'') = ''class''"
    "go_to_lower lo (trim_suffix ''pid'' ''~'') = ''pid''" "go_to_lower lo (trim_suffix ''id'' ''~'') = ''id''"
    "go_to_lower lo (trim_suffix ''active'' ''~'') = ''active''" "go_to_lower lo (trim_suffix ''minimized'' ''~'') = ''minimized''"
    "go_to_lower lo (trim_suffix ''maximized'' ''~'') = ''maximized''"
    "go_to_lower lo (trim_suffix ''fullscreen'' ''~'') = ''fullscreen''"
    "go_to_lower lo ''visible-only'' = ''visible-only''" "go_to_lower lo ''true'' = ''true''" "go_to_lower lo ''false'' = ''false''"
  by (simp_all add: go_to_lower_ascii [OF assms] trim_suffix_def has_suffix_def is_ascii_def to_lower_def lower_char_def)

lemma parse_bool_shown: "case_mapping lo \<Longrightarrow> parse_match_bool lo (show_bool b) = Some b"
  by (cases b) (simp_all add: parse_match_bool_def show_bool_def key_name Let_def)

lemma apply_printed:
  assumes "case_mapping lo"
  shows "apply_pair lo ''title'' v m = Inr (m\<lparr>title_exact := v\<rparr>)"
    "apply_pair lo ''title~'' v m = Inr (m\<lparr>title_contains := v\<rparr>)"
    "apply_pair lo ''app_id'' v m = Inr (m\<lparr>app_id := v\<rparr>)"
    "apply_pair lo ''class'' v m = Inr (m\<lparr>class_name := v\<rparr>)"
    "- (2 ^ 31) \<le> i \<Longrightarrow> i < 2 ^ 31 \<Longrightarrow> apply_pair lo ''pid'' (show_int i) m = Inr (m\<lparr>pid := Some i\<rparr>)"
    "n < 2 ^ 64 \<Longrightarrow> apply_pair lo ''id'' (show_nat n) m = Inr (m\<lparr>win_id := Some n\<rparr>)"
    "apply_pair lo ''active'' (show_bool b) m = Inr (m\<lparr>active := Some b\<rparr>)"
    "apply_pair lo ''minimized'' (show_bool b) m = Inr (m\<lparr>minimized := Some b\<rparr>)"
    "apply_pair lo ''maximized'' (show_bool b) m = Inr (m\<lparr>maximized := Some b\<rparr>)"
    "apply_pair lo ''fullscreen'' (show_bool b) m = Inr (m\<lparr>fullscreen := Some b\<rparr>)"
  unfolding apply_pair_def Let_def key_name [OF assms] apply_bool_def parse_bool_shown [OF assms]
  by (simp_all add: has_suffix_def parse_uint_show parse_int_show)

lemma parse_visible: "case_mapping lo \<Longrightarrow> parse_token lo spec ''visible-only'' m = Inr (m\<lparr>visible_only := True\<rparr>)"
  by (simp add: parse_token_def cut_def apply_flag_def key_name Let_def)

lemma parse_printed:
  assumes "case_mapping lo"
  shows "parse_token lo spec (''title='' @ v) m = Inr (m\<lparr>title_exact := v\<rparr>)"
    "parse_token lo spec (''title~='' @ v) m = Inr (m\<lparr>title_contains := v\<rparr>)"
    "parse_token lo spec (''app_id='' @ v) m = Inr (m\<lparr>app_id := v\<rparr>)"
    "parse_token lo spec (''class='' @ v) m = Inr (m\<lparr>class_name := v\<rparr>)"
    "- (2 ^ 31) \<le> i \<Longrightarrow> i < 2 ^ 31 \<Longrightarrow> parse_token lo spec (''pid='' @ show_int i) m = Inr (m\<lparr>pid := Some i\<rparr>)"
    "n < 2 ^ 64 \<Longrightarrow> parse_token lo spec (''id='' @ show_nat n) m = Inr (m\<lparr>win_id := Some n\<rparr>)"
    "parse_token lo spec (''active='' @ show_bool b) m = Inr (m\<lparr>active := Some b\<rparr>)"
    "parse_token lo spec (''minimized='' @ show_bool b) m = Inr (m\<lparr>minimized := Some b\<rparr>)"
    "parse_token lo spec (''maximized='' @ show_bool b) m = Inr (m\<lparr>maximized := Some b\<rparr>)"
    "parse_token lo spec (''fullscreen='' @ show_bool b) m = Inr (m\<lparr>fullscreen := Some b\<rparr>)"
  using parse_key [of "''title''" lo spec] parse_key [of "''title~''" lo spec] parse_key [of "''app_id''" lo spec]
    parse_key [of "''class''" lo spec] parse_key [of "''pid''" lo spec] parse_key [of "''id''" lo spec]
    parse_key [of "''active''" lo spec] parse_key [of "''minimized''" lo spec] parse_key [of "''maximized''" lo spec]
    parse_key [of "''fullscreen''" lo spec]
  by (simp_all add: apply_printed [OF assms])

text \<open>Matches whose process and window identifiers are in the range of their Go types.\<close>

definition match_in_range :: "match \<Rightarrow> bool" where
  "match_in_range m \<longleftrightarrow>
     (case pid m of None \<Rightarrow> True | Some i \<Rightarrow> - (2 ^ 31) \<le> i \<and> i < 2 ^ 31) \<and>
     (case win_id m of None \<Rightarrow> True | Some n \<Rightarrow> n < 2 ^ 64)"

lemma parse_match_tokens:
  assumes lo: "case_mapping lo" and m: "match_in_range m"
  shows "parse_tokens lo spec (match_tokens m) any_window = Inr m"
proof -
  note P = parse_printed [OF lo]
  have strings: "(if v \<noteq> [] then parse_token lo spec (''title='' @ v) k else Inr k) = Inr (if v \<noteq> [] then k\<lparr>title_exact := v\<rparr> else k)"
    "(if v \<noteq> [] then parse_token lo spec (''title~='' @ v) k else Inr k) = Inr (if v \<noteq> [] then k\<lparr>title_contains := v\<rparr> else k)"
    "(if v \<noteq> [] then parse_token lo spec (''app_id='' @ v) k else Inr k) = Inr (if v \<noteq> [] then k\<lparr>app_id := v\<rparr> else k)"
    "(if v \<noteq> [] then parse_token lo spec (''class='' @ v) k else Inr k) = Inr (if v \<noteq> [] then k\<lparr>class_name := v\<rparr> else k)"
    for v k unfolding P by simp_all
  have bools: "(if b \<noteq> None then parse_token lo spec (''active='' @ show_bool (the b)) k else Inr k) = Inr (if b \<noteq> None then k\<lparr>active := b\<rparr> else k)"
    "(if b \<noteq> None then parse_token lo spec (''minimized='' @ show_bool (the b)) k else Inr k) = Inr (if b \<noteq> None then k\<lparr>minimized := b\<rparr> else k)"
    "(if b \<noteq> None then parse_token lo spec (''maximized='' @ show_bool (the b)) k else Inr k) = Inr (if b \<noteq> None then k\<lparr>maximized := b\<rparr> else k)"
    "(if b \<noteq> None then parse_token lo spec (''fullscreen='' @ show_bool (the b)) k else Inr k) = Inr (if b \<noteq> None then k\<lparr>fullscreen := b\<rparr> else k)"
    for b k unfolding P by auto
  have nums: "(if pid m \<noteq> None then parse_token lo spec (''pid='' @ show_int (the (pid m))) k else Inr k) = Inr (if pid m \<noteq> None then k\<lparr>pid := pid m\<rparr> else k)"
    "(if win_id m \<noteq> None then parse_token lo spec (''id='' @ show_nat (the (win_id m))) k else Inr k) = Inr (if win_id m \<noteq> None then k\<lparr>win_id := win_id m\<rparr> else k)"
    for k using m P(5) [of "the (pid m)"] P(6) [of "the (win_id m)"] by (auto simp: match_in_range_def split: option.splits)
  have vis: "(if visible_only m then parse_token lo spec ''visible-only'' k else Inr k) = Inr (if visible_only m then k\<lparr>visible_only := True\<rparr> else k)"
    for k unfolding parse_visible [OF lo] by simp
  have "parse_tokens lo spec (match_tokens m) any_window =
      Inr ((\<lambda>k. if visible_only m then k\<lparr>visible_only := True\<rparr> else k)
       ((\<lambda>k. if fullscreen m \<noteq> None then k\<lparr>fullscreen := fullscreen m\<rparr> else k)
       ((\<lambda>k. if maximized m \<noteq> None then k\<lparr>maximized := maximized m\<rparr> else k)
       ((\<lambda>k. if minimized m \<noteq> None then k\<lparr>minimized := minimized m\<rparr> else k)
       ((\<lambda>k. if active m \<noteq> None then k\<lparr>active := active m\<rparr> else k)
       ((\<lambda>k. if win_id m \<noteq> None then k\<lparr>win_id := win_id m\<rparr> else k)
       ((\<lambda>k. if pid m \<noteq> None then k\<lparr>pid := pid m\<rparr> else k)
       ((\<lambda>k. if class_name m \<noteq> [] then k\<lparr>class_name := class_name m\<rparr> else k)
       ((\<lambda>k. if app_id m \<noteq> [] then k\<lparr>app_id := app_id m\<rparr> else k)
       ((\<lambda>k. if title_contains m \<noteq> [] then k\<lparr>title_contains := title_contains m\<rparr> else k)
       ((\<lambda>k. if title_exact m \<noteq> [] then k\<lparr>title_exact := title_exact m\<rparr> else k) any_window)))))))))))"
    unfolding match_tokens_def parse_tokens_append parse_opt strings bools nums vis ebind.simps by (rule refl)
  also have "\<dots> = Inr m"
    by (rule arg_cong [of _ _ Inr], rule match.equality) (auto simp: any_window_def)
  finally show ?thesis .
qed

text \<open>
  C7. Printing a match that says something and parsing the text gives the match back: quoting,
  tokenizing and unquoting are inverse on every title, identifier and class, valid UTF-8 or
  not, whatever quotes, blanks or escapes they contain.
\<close>

theorem match_spec_roundtrip:
  assumes "case_mapping lo" "print_table ip" "match_in_range m" "m \<noteq> any_window"
  shows "parse_match_spec lo (match_string ip m) = Inr m"
proof -
  note toks = parts_tokens [OF assms(2), of m]
  have "match_parts ip m \<noteq> []"
  proof
    assume "match_parts ip m = []"
    then have "match_tokens m = []" using toks by simp
    then have "m = any_window" using parse_match_tokens [OF assms(1,3), of "[]"] by simp
    with assms(4) show False by contradiction
  qed
  then show ?thesis
    by (simp add: parse_match_spec_def match_string_def tokenize_join [OF toks] parse_match_tokens [OF assms(1,3)])
qed

theorem match_spec_roundtrip_witness:
  "parse_match_spec ascii_lower (match_string ascii_print
     (any_window\<lparr>title_exact := [CHR ''a'', CHR '' '', dquote, CHR 0x0A, CHR 0xFF], pid := Some (-7), active := Some False\<rparr>)) =
   Inr (any_window\<lparr>title_exact := [CHR ''a'', CHR '' '', dquote, CHR 0x0A, CHR 0xFF], pid := Some (-7), active := Some False\<rparr>)"
  by (rule match_spec_roundtrip [OF ascii_lower_mapping ascii_print_table]) (simp_all add: match_in_range_def any_window_def)

end
