(* ===== verification/WinFind.thy ===== *)
theory WinFind
  imports WinMatch
begin

text \<open>
  Looking windows up and waiting for them to close (\<^verbatim>\<open>window/find.go\<close>). The window manager is a
  parameter: every listing is the sequence of windows and errors its iterator yields. The
  context is looked at in successive instants.
\<close>

type_synonym 'e listing = "(win_info \<times> 'e option) list"

datatype 'e find_error =
    WindowUnavailable
  | FindContext ctx_err
  | FindBackend 'e
  | WindowNotFound string

section \<open>The first match\<close>

fun find_loop :: "ctx \<Rightarrow> (win_info \<Rightarrow> bool) \<Rightarrow> string \<Rightarrow> nat \<Rightarrow> 'e listing \<Rightarrow> 'e find_error + win_info" where
  "find_loop cx p label t [] =
     (case cx t of Some e \<Rightarrow> Inl (FindContext e) | None \<Rightarrow> Inl (WindowNotFound label))"
| "find_loop cx p label t ((w, err) # ws) =
     (case cx t of
        Some e \<Rightarrow> Inl (FindContext e)
      | None \<Rightarrow>
          (case err of
             Some e \<Rightarrow> Inl (FindBackend e)
           | None \<Rightarrow> if p w then Inr w else find_loop cx p label (Suc t) ws))"

text \<open>\<open>m\<close> is the listing of the manager, \<open>None\<close> for a nil manager.\<close>

definition find_window :: "ctx \<Rightarrow> 'e listing option \<Rightarrow> (win_info \<Rightarrow> bool) \<Rightarrow> string \<Rightarrow> 'e find_error + win_info" where
  "find_window cx m p label =
     (case m of
        None \<Rightarrow> Inl WindowUnavailable
      | Some ws \<Rightarrow>
          (case cx 0 of Some e \<Rightarrow> Inl (FindContext e) | None \<Rightarrow> find_loop cx p label 1 ws))"

definition find_by_title :: "(rune \<Rightarrow> rune) \<Rightarrow> (rune \<Rightarrow> rune) \<Rightarrow> match_cache \<Rightarrow> ctx \<Rightarrow> 'e listing option \<Rightarrow> string \<Rightarrow> 'e find_error + win_info" where
  "find_by_title lo cf cache cx m substr =
     find_window cx m (matcher_matches lo cf (fst (compile_match lo (any_window\<lparr>title_contains := substr\<rparr>) cache cache))) substr"

definition find_by_id :: "(rune \<Rightarrow> rune) \<Rightarrow> (rune \<Rightarrow> rune) \<Rightarrow> match_cache \<Rightarrow> ctx \<Rightarrow> 'e listing option \<Rightarrow> nat \<Rightarrow> string \<Rightarrow> 'e find_error + win_info" where
  "find_by_id lo cf cache cx m i label =
     find_window cx m (matcher_matches lo cf (fst (compile_match lo (any_window\<lparr>win_id := Some i\<rparr>) cache cache))) label"

lemma find_loop_Inr:
  "find_loop cx p label t ws = Inr w \<Longrightarrow>
     \<exists>pre post. ws = pre @ (w, None) # post \<and> p w \<and> (\<forall>(v, e) \<in> set pre. e = None \<and> \<not> p v)"
proof (induction ws arbitrary: t)
  case (Cons q ws)
  obtain v err where q: "q = (v, err)" by (cases q)
  show ?case
  proof (cases "err = None \<and> \<not> p v")
    case True
    with Cons.prems q have "find_loop cx p label (Suc t) ws = Inr w" by (auto split: option.splits)
    from Cons.IH [OF this] obtain pre post where
      "ws = pre @ (w, None) # post" "p w" "\<forall>(v, e) \<in> set pre. e = None \<and> \<not> p v" by blast
    with q True show ?thesis by (intro exI [of _ "q # pre"] exI [of _ post]) auto
  next
    case False
    with Cons.prems q have "w = v \<and> err = None \<and> p v" by (auto split: option.splits if_splits)
    with q show ?thesis by (intro exI [of _ "[]"] exI [of _ ws]) auto
  qed
qed (auto split: option.splits)

lemma background_live [simp]: "background t = None"
  by (simp add: background_def)

lemma find_loop_background:
  "find_loop background p label t ws =
     (case filter (\<lambda>(v, e). e \<noteq> None \<or> p v) ws of
        [] \<Rightarrow> Inl (WindowNotFound label)
      | (v, Some e) # _ \<Rightarrow> Inl (FindBackend e)
      | (v, None) # _ \<Rightarrow> Inr v)"
  by (induction ws arbitrary: t) (auto split: option.splits)

section \<open>Waiting for windows to close\<close>

text \<open>One pass over a listing: whether a window matches, and the instant it ends at.\<close>

fun close_scan :: "ctx \<Rightarrow> (win_info \<Rightarrow> bool) \<Rightarrow> nat \<Rightarrow> 'e listing \<Rightarrow> ('e find_error + bool) \<times> nat" where
  "close_scan cx p t [] = (Inr False, t)"
| "close_scan cx p t ((w, err) # ws) =
     (case cx t of
        Some e \<Rightarrow> (Inl (FindContext e), Suc t)
      | None \<Rightarrow>
          (case err of
             Some e \<Rightarrow> (Inl (FindBackend e), Suc t)
           | None \<Rightarrow> if p w then (Inr True, Suc t) else close_scan cx p (Suc t) ws))"

text \<open>\<open>m r\<close> is what the manager lists in round \<open>r\<close>; the loop may run forever.\<close>

partial_function (option) close_loop ::
    "ctx \<Rightarrow> (nat \<Rightarrow> 'e listing) \<Rightarrow> (win_info \<Rightarrow> bool) \<Rightarrow> nat \<Rightarrow> nat \<Rightarrow> ('e find_error + unit) option" where
  "close_loop cx m p t r =
     (case cx t of
        Some e \<Rightarrow> Some (Inl (FindContext e))
      | None \<Rightarrow>
          (case close_scan cx p (Suc t) (m r) of
             (Inl e, t') \<Rightarrow> Some (Inl e)
           | (Inr found, t') \<Rightarrow>
               (case cx t' of
                  Some e \<Rightarrow> Some (Inl (FindContext e))
                | None \<Rightarrow>
                    if \<not> found then Some (Inr ())
                    else case cx (Suc t') of
                      Some e \<Rightarrow> Some (Inl (FindContext e))
                    | None \<Rightarrow> close_loop cx m p (Suc (Suc t')) (Suc r))))"

definition wait_for_match_close ::
    "(rune \<Rightarrow> rune) \<Rightarrow> (rune \<Rightarrow> rune) \<Rightarrow> match_cache \<Rightarrow> ctx \<Rightarrow> (nat \<Rightarrow> 'e listing) option \<Rightarrow> match \<Rightarrow> ('e find_error + unit) option" where
  "wait_for_match_close lo cf cache cx m mt =
     (case m of
        None \<Rightarrow> Some (Inl WindowUnavailable)
      | Some f \<Rightarrow> close_loop cx f (matcher_matches lo cf (fst (compile_match lo mt cache cache))) 0 0)"

definition present :: "(win_info \<Rightarrow> bool) \<Rightarrow> 'e listing \<Rightarrow> bool" where
  "present p ws \<longleftrightarrow> (\<exists>pre w post. ws = pre @ (w, None) # post \<and> p w \<and> (\<forall>(v, e) \<in> set pre. e = None \<and> \<not> p v))"

definition absent :: "(win_info \<Rightarrow> bool) \<Rightarrow> 'e listing \<Rightarrow> bool" where
  "absent p ws \<longleftrightarrow> (\<forall>(v, e) \<in> set ws. e = None \<and> \<not> p v)"

lemma close_scan_found: "close_scan cx p t ws = (Inr b, t') \<Longrightarrow> (if b then present p ws else absent p ws) \<and> t \<le> t'"
proof (induction ws arbitrary: t)
  case Nil
  then show ?case by (auto simp: absent_def)
next
  case (Cons q ws)
  obtain v err where q: "q = (v, err)" by (cases q)
  show ?case
  proof (cases "err = None \<and> \<not> p v")
    case True
    with Cons.prems q have "close_scan cx p (Suc t) ws = (Inr b, t')" by (auto split: option.splits)
    from Cons.IH [OF this] have IH: "if b then present p ws else absent p ws" "Suc t \<le> t'" by auto
    have "present p (q # ws)" if "present p ws"
    proof -
      from that obtain pre w post where "ws = pre @ (w, None) # post" "p w" "\<forall>(v, e) \<in> set pre. e = None \<and> \<not> p v"
        unfolding present_def by blast
      with q True show ?thesis unfolding present_def
        by (intro exI [of _ "q # pre"] exI [of _ w] exI [of _ post]) auto
    qed
    moreover have "absent p (q # ws)" if "absent p ws" using that q True by (simp add: absent_def)
    ultimately show ?thesis using IH by (auto split: if_splits)
  next
    case False
    with Cons.prems q have r: "b" "err = None" "p v" "t' = Suc t" by (auto split: option.splits if_splits)
    have "present p (q # ws)" unfolding present_def
      by (rule exI [of _ "[]"], rule exI [of _ v], rule exI [of _ ws]) (simp add: q r)
    then show ?thesis using r by simp
  qed
qed

lemma close_loop_step:
  assumes IH: "\<And>cx m p t r x. loop cx m p t r = Some x \<Longrightarrow> x = Inr () \<longrightarrow>
      (\<exists>n \<ge> r. absent p (m n) \<and> (\<forall>j. r \<le> j \<longrightarrow> j < n \<longrightarrow> present p (m j)))"
    and run: "(case cx t of
        Some e \<Rightarrow> Some (Inl (FindContext e))
      | None \<Rightarrow>
          (case close_scan cx p (Suc t) (m r) of
             (Inl e, t') \<Rightarrow> Some (Inl e)
           | (Inr found, t') \<Rightarrow>
               (case cx t' of
                  Some e \<Rightarrow> Some (Inl (FindContext e))
                | None \<Rightarrow>
                    if \<not> found then Some (Inr ())
                    else case cx (Suc t') of
                      Some e \<Rightarrow> Some (Inl (FindContext e))
                    | None \<Rightarrow> loop cx m p (Suc (Suc t')) (Suc r)))) = Some x"
  shows "x = Inr () \<longrightarrow> (\<exists>n \<ge> r. absent p (m n) \<and> (\<forall>j. r \<le> j \<longrightarrow> j < n \<longrightarrow> present p (m j)))"
proof
  assume x: "x = Inr ()"
  have c: "cx t = None" using run x by (auto split: option.splits)
  obtain s t' where s: "close_scan cx p (Suc t) (m r) = (s, t')" by (cases "close_scan cx p (Suc t) (m r)")
  obtain found where f: "s = Inr found" using run x c s by (cases s) (auto split: option.splits)
  have c': "cx t' = None" using run x c s f by (auto split: option.splits)
  note scan = close_scan_found [OF s [unfolded f]]
  show "\<exists>n \<ge> r. absent p (m n) \<and> (\<forall>j. r \<le> j \<longrightarrow> j < n \<longrightarrow> present p (m j))"
  proof (cases found)
    case False
    then show ?thesis using scan by (intro exI [of _ r]) auto
  next
    case True
    have "loop cx m p (Suc (Suc t')) (Suc r) = Some x"
      using run x c s f c' True by (auto split: option.splits)
    from IH [OF this] x obtain n where
      "n \<ge> Suc r" "absent p (m n)" "\<forall>j. Suc r \<le> j \<longrightarrow> j < n \<longrightarrow> present p (m j)" by blast
    then show ?thesis using scan True by (intro exI [of _ n]) (metis Suc_leD Suc_leI le_neq_implies_less)
  qed
qed

lemma close_loop_Inr:
  assumes "close_loop cx m p t r = Some (Inr ())"
  shows "\<exists>n \<ge> r. absent p (m n) \<and> (\<forall>j. r \<le> j \<longrightarrow> j < n \<longrightarrow> present p (m j))"
proof -
  have "(Inr () :: 'a find_error + unit) = Inr () \<longrightarrow> (\<exists>n \<ge> r. absent p (m n) \<and> (\<forall>j. r \<le> j \<longrightarrow> j < n \<longrightarrow> present p (m j)))"
    by (rule close_loop.raw_induct [where P = "\<lambda>cx m p t r x. x = Inr () \<longrightarrow>
        (\<exists>n \<ge> r. absent p (m n) \<and> (\<forall>j. r \<le> j \<longrightarrow> j < n \<longrightarrow> present p (m j)))", OF _ assms])
      (rule close_loop_step [rotated], assumption, blast)
  then show ?thesis by simp
qed

text \<open>
  C34. Looking up and waiting agree on what a listing says. A lookup that is not cancelled returns
  the first window that matches, unless an error of the backend comes before it, and reports
  not found otherwise. Waiting for close succeeds only after a round whose listing had neither
  a matching window nor an error, and every earlier round had shown one.
\<close>

theorem find_and_wait:
  "(case m of
      None \<Rightarrow> find_window background m p label = Inl WindowUnavailable
    | Some ws \<Rightarrow> find_window background m p label =
        (case filter (\<lambda>(v, e). e \<noteq> None \<or> p v) ws of
           [] \<Rightarrow> Inl (WindowNotFound label)
         | (v, Some e) # _ \<Rightarrow> Inl (FindBackend e)
         | (v, None) # _ \<Rightarrow> Inr v)) \<and>
   (wait_for_match_close lo cf cache cx (Some f) mt = Some (Inr ()) \<longrightarrow>
     (\<exists>n. absent (matcher_matches lo cf (fst (compile_match lo mt cache cache))) (f n) \<and>
        (\<forall>j < n. present (matcher_matches lo cf (fst (compile_match lo mt cache cache))) (f j))))"
  using close_loop_Inr [of cx f "matcher_matches lo cf (fst (compile_match lo mt cache cache))" 0 0]
  by (cases m) (auto simp: find_window_def wait_for_match_close_def find_loop_background background_live)

text \<open>Waiting ends as soon as a listing shows no match.\<close>

lemma already_closed:
  "wait_for_match_close ascii_lower id [] background (Some (\<lambda>_. [] :: unit listing)) (any_window\<lparr>title_contains := ''x''\<rparr>) = Some (Inr ())"
  by (simp add: wait_for_match_close_def) (subst close_loop.simps, simp add: background_def)

theorem find_and_wait_witness:
  "\<exists>n. absent (matcher_matches ascii_lower id (fst (compile_match ascii_lower (any_window\<lparr>title_contains := ''x''\<rparr>) [] [])))
     ((\<lambda>_. [] :: unit listing) (n :: nat))"
  using find_and_wait [of "None :: unit listing option" "\<lambda>_. True" "''x''" ascii_lower id "[]" background "\<lambda>_. [] :: unit listing"
      "any_window\<lparr>title_contains := ''x''\<rparr>"] already_closed by auto

end
