(* ===== verification/Geometry.thy ===== *)
theory Geometry
  imports Prelude
begin

text \<open>
  Geometry checks: logical to physical rectangles (\<^verbatim>\<open>screen/rect.go\<close>), the size of capture buffers
  (\<^verbatim>\<open>screen/capture_geometry.go\<close>), window sizes and positions (\<^verbatim>\<open>window/geometry.go\<close>) and the
  bounds of the virtual touchpad (\<^verbatim>\<open>input/uinput_bounds.go\<close>). Go's \<^verbatim>\<open>int\<close> is a 64-bit integer; the
  wrap-around of sums and products is written out.
\<close>

section \<open>Rectangles\<close>

record rectangle =
  min_x :: int
  min_y :: int
  max_x :: int
  max_y :: int

text \<open>\<^verbatim>\<open>image.Rect\<close> orders the corners.\<close>

definition image_rect :: "int \<Rightarrow> int \<Rightarrow> int \<Rightarrow> int \<Rightarrow> rectangle" where
  "image_rect x0 y0 x1 y1 =
     \<lparr>min_x = min x0 x1, min_y = min y0 y1, max_x = max x0 x1, max_y = max y0 y1\<rparr>"

definition scale_coord :: "int \<Rightarrow> int \<Rightarrow> int" where
  "scale_coord v scale =
     (let limit = max_int div scale in
      if v > limit then max_int else if v < - limit then - max_int else wrap64 (v * scale))"

definition logical_rect_to_physical :: "rectangle \<Rightarrow> int \<Rightarrow> rectangle" where
  "logical_rect_to_physical r scale =
     (if scale \<le> 1 then r
      else image_rect (scale_coord (min_x r) scale) (scale_coord (min_y r) scale)
             (scale_coord (max_x r) scale) (scale_coord (max_y r) scale))"

definition saturate :: "int \<Rightarrow> int" where
  "saturate z = max (- max_int) (min max_int z)"

lemma scale_coord_saturate:
  assumes "1 < scale"
  shows "scale_coord v scale = saturate (v * scale)"
proof -
  let ?l = "max_int div scale"
  have "max_int = ?l * scale + max_int mod scale" by simp
  moreover have "0 \<le> max_int mod scale" "max_int mod scale < scale" using assms by simp_all
  ultimately have l: "?l * scale \<le> max_int" "max_int < (?l + 1) * scale"
    unfolding distrib_right by linarith+
  consider "v > ?l" | "v < - ?l" | "- ?l \<le> v" "v \<le> ?l" by linarith
  then show ?thesis
  proof cases
    case 1
    then have "(?l + 1) * scale \<le> v * scale" using assms by (intro mult_right_mono) auto
    then show ?thesis using 1 l by (simp add: scale_coord_def saturate_def Let_def max_int_def)
  next
    case 2
    then have "v * scale \<le> - (?l + 1) * scale" using assms by (intro mult_right_mono) auto
    then have "v * scale < - max_int" using l by (simp add: algebra_simps)
    moreover have "0 \<le> ?l" using assms by (simp add: pos_imp_zdiv_nonneg_iff max_int_def)
    ultimately show ?thesis using 2 by (simp add: scale_coord_def saturate_def Let_def max_int_def)
  next
    case 3
    have "v * scale \<le> ?l * scale" "- ?l * scale \<le> v * scale"
      using 3 assms mult_right_mono [of v ?l scale] mult_right_mono [of "- ?l" v scale] by simp_all
    then have b: "- max_int \<le> v * scale" "v * scale \<le> max_int" using l by linarith+
    then have "in_int (v * scale)" by (simp add: in_int_def min_int_def max_int_def)
    then show ?thesis using 3 b by (simp add: scale_coord_def saturate_def Let_def)
  qed
qed

text \<open>
  Scaling a rectangle saturates and never wraps: every physical corner is the exact product
  clamped to the representable range, so a logical rectangle with ordered corners stays ordered
  and a rectangle that contains another still contains it afterwards.
\<close>

theorem scaling_saturates:
  assumes "1 < scale" "min_x r \<le> max_x r" "min_y r \<le> max_y r"
  shows "logical_rect_to_physical r scale =
      \<lparr>min_x = saturate (min_x r * scale), min_y = saturate (min_y r * scale),
       max_x = saturate (max_x r * scale), max_y = saturate (max_y r * scale)\<rparr> \<and>
    (min_x r \<le> min_x q \<and> max_x q \<le> max_x r \<longrightarrow>
      min_x (logical_rect_to_physical r scale) \<le> saturate (min_x q * scale) \<and>
      saturate (max_x q * scale) \<le> max_x (logical_rect_to_physical r scale))"
proof -
  have mono: "saturate (a * scale) \<le> saturate (b * scale)" if "a \<le> b" for a b
  proof -
    have "a * scale \<le> b * scale" using that assms(1) by (intro mult_right_mono) auto
    then show ?thesis by (auto simp: saturate_def)
  qed
  then show ?thesis
    using assms by (simp add: logical_rect_to_physical_def image_rect_def scale_coord_saturate)
qed

theorem scaling_saturates_witness:
  "logical_rect_to_physical \<lparr>min_x = 0, min_y = -3, max_x = max_int, max_y = 5\<rparr> 2 =
     \<lparr>min_x = 0, min_y = -6, max_x = max_int, max_y = 10\<rparr>"
proof -
  let ?r = "\<lparr>min_x = 0, min_y = -3, max_x = max_int, max_y = 5\<rparr>"
  have "logical_rect_to_physical ?r 2 = \<lparr>min_x = saturate (0 * 2), min_y = saturate (-3 * 2), max_x = saturate (max_int * 2), max_y = saturate (5 * 2)\<rparr>"
    using conjunct1 [OF scaling_saturates [of 2 ?r]] by (simp add: max_int_def)
  then show ?thesis by (simp add: saturate_def max_int_def)
qed

section \<open>Capture buffers\<close>

datatype geometry_error =
    ZeroDimensions
  | StrideTooSmall u32 nat
  | BufferTooLarge nat
  | NotPositive string int
  | TooLarge string int
  | NotRepresentable string int

text \<open>The products are taken at 64 bits, where those of 32-bit values do not wrap.\<close>

definition capture_buffer_size :: "u32 \<Rightarrow> u32 \<Rightarrow> u32 \<Rightarrow> geometry_error + int" where
  "capture_buffer_size width height stride =
     (if width = 0 \<or> height = 0 then Inl ZeroDimensions
      else
        let row_bytes = unat ((ucast width :: u64) * 4) in
        if unat (ucast stride :: u64) < row_bytes then Inl (StrideTooSmall stride row_bytes)
        else
          let size = unat ((ucast stride :: u64) * (ucast height :: u64)) in
          if size > nat max_int \<or> size > 2 ^ 31 - 1 then Inl (BufferTooLarge size) else Inr (int size))"

lemma unat_up: "unat (ucast (a :: u32) :: u64) = unat a"
proof -
  have "unat a < 2 ^ 64" using unsigned_less [of a, where 'a = nat] by simp
  then show ?thesis by (simp add: unsigned_ucast_eq take_bit_nat_eq_self_iff)
qed

lemma u32_product: "unat ((ucast (a :: u32) :: u64) * (ucast (b :: u32) :: u64)) = unat a * unat b"
proof -
  have "unat a < 2 ^ 32" "unat b < 2 ^ 32" using unsigned_less [of a, where 'a = nat] unsigned_less [of b, where 'a = nat] by simp_all
  then have "unat a * unat b < 2 ^ 32 * 2 ^ 32" by (intro mult_strict_mono) simp_all
  then show ?thesis unfolding unat_word_ariths unat_up by simp
qed

lemma capture_size_exact:
  "capture_buffer_size w h s = Inr n \<longleftrightarrow>
     w \<noteq> 0 \<and> h \<noteq> 0 \<and> 4 * unat w \<le> unat s \<and> unat s * unat h \<le> 2 ^ 31 - 1 \<and> n = int (unat s * unat h)"
proof -
  have row: "unat ((ucast w :: u64) * 4) = 4 * unat w" using u32_product [of w 4] by simp
  show ?thesis
    unfolding capture_buffer_size_def Let_def row unat_up u32_product by (auto simp: max_int_def)
qed

section \<open>Window sizes and positions\<close>

definition max_dimension :: int where "max_dimension = 2 ^ 16 - 1"

definition validate_dimension :: "string \<Rightarrow> int \<Rightarrow> geometry_error + unit" where
  "validate_dimension name v =
     (if v \<le> 0 then Inl (NotPositive name v) else if v > max_dimension then Inl (TooLarge name v) else Inr ())"

definition validate_size :: "int \<Rightarrow> int \<Rightarrow> geometry_error + unit" where
  "validate_size width height =
     ebind (validate_dimension ''width'' width) (\<lambda>_. validate_dimension ''height'' height)"

definition validate_coordinate :: "string \<Rightarrow> int \<Rightarrow> geometry_error + unit" where
  "validate_coordinate name v = (if v < - (2 ^ 31) \<or> v > 2 ^ 31 - 1 then Inl (NotRepresentable name v) else Inr ())"

definition validate_position :: "int \<Rightarrow> int \<Rightarrow> geometry_error + unit" where
  "validate_position x y = ebind (validate_coordinate ''x'' x) (\<lambda>_. validate_coordinate ''y'' y)"

lemma validate_size_iff:
  "validate_size w h = Inr () \<longleftrightarrow> 0 < w \<and> w < 2 ^ 16 \<and> 0 < h \<and> h < 2 ^ 16"
  by (auto simp: validate_size_def validate_dimension_def max_dimension_def)

section \<open>Touchpad bounds\<close>

record output_info =
  available :: bool
  out_x :: int
  out_y :: int
  out_w :: int
  out_h :: int

datatype 'e bounds_error =
    UnsupportedOutput int int int int
  | OutputTooFar
  | NoOutput
  | InvalidTouchpad int int
  | DiscoverFailed 'e
  | ListFailed 'e
  | CloseFailed 'e

text \<open>The loop of \<^verbatim>\<open>uinputBoundsFromOutputs\<close>: the extents and whether an output was found.\<close>

fun bounds_loop :: "output_info list \<Rightarrow> int \<Rightarrow> int \<Rightarrow> bool \<Rightarrow> 'e bounds_error + int \<times> int \<times> bool" where
  "bounds_loop [] mx my found = Inr (mx, my, found)"
| "bounds_loop (o1 # os) mx my found =
     (if \<not> available o1 then bounds_loop os mx my found
      else if out_x o1 < 0 \<or> out_y o1 < 0 \<or> out_w o1 \<le> 0 \<or> out_h o1 \<le> 0 then
        Inl (UnsupportedOutput (out_x o1) (out_y o1) (out_w o1) (out_h o1))
      else
        let x = wrap64 (out_x o1 + out_w o1); y = wrap64 (out_y o1 + out_h o1) in
        if x > 2 ^ 31 - 1 \<or> y > 2 ^ 31 - 1 then Inl OutputTooFar
        else bounds_loop os (if x > mx then x else mx) (if y > my then y else my) True)"

definition uinput_bounds_from_outputs :: "output_info list \<Rightarrow> 'e bounds_error + int \<times> int" where
  "uinput_bounds_from_outputs outputs =
     ebind (bounds_loop outputs 0 0 False) (\<lambda>(mx, my, found).
       if \<not> found \<or> mx = 0 \<or> my = 0 then Inl NoOutput else Inr (mx, my))"

definition validate_uinput_dimensions :: "int \<Rightarrow> int \<Rightarrow> 'e bounds_error + unit" where
  "validate_uinput_dimensions width height =
     (if width \<le> 0 \<or> height \<le> 0 then Inl (InvalidTouchpad width height) else Inr ())"

text \<open>\<open>opened\<close> is what opening the lister gives: its listing and the error of closing it.\<close>

definition discover_uinput_logical_bounds ::
    "'e + ('e + output_info list) \<times> 'e option \<Rightarrow> 'e bounds_error + int \<times> int \<times> bool" where
  "discover_uinput_logical_bounds opened =
     (case opened of
        Inl e \<Rightarrow> Inl (DiscoverFailed e)
      | Inr (listing, close_err) \<Rightarrow>
          (case listing of
             Inl e \<Rightarrow> Inl (ListFailed e)
           | Inr outputs \<Rightarrow>
               (case close_err of
                  Some e \<Rightarrow> Inl (CloseFailed e)
                | None \<Rightarrow>
                    ebind (uinput_bounds_from_outputs outputs) (\<lambda>(width, height).
                      Inr (width, height,
                        length outputs = 1 \<and> available (hd outputs) \<and> out_x (hd outputs) = 0 \<and> out_y (hd outputs) = 0 \<and>
                        out_w (hd outputs) = width \<and> out_h (hd outputs) = height)))))"

text \<open>Outputs whose extents do not overflow a 64-bit integer.\<close>

definition extents_fit :: "output_info list \<Rightarrow> bool" where
  "extents_fit os \<longleftrightarrow> (\<forall>o1 \<in> set os. out_x o1 + out_w o1 \<le> max_int \<and> out_y o1 + out_h o1 \<le> max_int)"

definition covers :: "int \<Rightarrow> int \<Rightarrow> output_info \<Rightarrow> bool" where
  "covers mx my o1 \<longleftrightarrow> 0 \<le> out_x o1 \<and> 0 \<le> out_y o1 \<and> 0 < out_w o1 \<and> 0 < out_h o1 \<and>
     out_x o1 + out_w o1 \<le> mx \<and> out_y o1 + out_h o1 \<le> my"

lemma bounds_loop_ok:
  assumes "bounds_loop os mx my found = (Inr (mx', my', found') :: 'e bounds_error + int \<times> int \<times> bool)" "extents_fit os"
  shows "mx \<le> mx' \<and> my \<le> my' \<and> (\<forall>o1 \<in> set os. available o1 \<longrightarrow> covers mx' my' o1) \<and>
    (mx' = mx \<or> mx' \<le> 2 ^ 31 - 1 \<and> (\<exists>o1 \<in> set os. available o1 \<and> mx' = out_x o1 + out_w o1)) \<and>
    (my' = my \<or> my' \<le> 2 ^ 31 - 1 \<and> (\<exists>o1 \<in> set os. available o1 \<and> my' = out_y o1 + out_h o1))"
  using assms
proof (induction os arbitrary: mx my found)
  case (Cons o1 os)
  have fit: "extents_fit os" using Cons.prems(2) by (simp add: extents_fit_def)
  show ?case
  proof (cases "available o1")
    case False
    then show ?thesis using Cons.IH [of mx my found] Cons.prems fit by auto
  next
    case True
    let ?x = "out_x o1 + out_w o1" and ?y = "out_y o1 + out_h o1"
    have pos: "0 \<le> out_x o1" "0 \<le> out_y o1" "0 < out_w o1" "0 < out_h o1"
      using Cons.prems(1) True by (auto split: if_splits)
    then have "in_int ?x" "in_int ?y"
      using Cons.prems(2) by (auto simp: extents_fit_def in_int_def min_int_def)
    then have w: "wrap64 ?x = ?x" "wrap64 ?y = ?y" by simp_all
    then have small: "?x \<le> 2 ^ 31 - 1" "?y \<le> 2 ^ 31 - 1"
      and rest: "bounds_loop os (if ?x > mx then ?x else mx) (if ?y > my then ?y else my) True =
        (Inr (mx', my', found') :: 'e bounds_error + int \<times> int \<times> bool)"
      using Cons.prems(1) True by (auto simp: Let_def split: if_splits)
    from Cons.IH [OF rest fit] show ?thesis
      using pos small True by (auto simp: covers_def split: if_splits)
  qed
qed simp

lemma bounds_loop_found:
  "bounds_loop os mx my found = (Inr (mx', my', found') :: 'e bounds_error + int \<times> int \<times> bool) \<Longrightarrow>
     found' = (found \<or> (\<exists>o1 \<in> set os. available o1))"
  by (induction os arbitrary: mx my found) (auto simp: Let_def split: if_splits)



text \<open>An extent that overflows is not noticed: it wraps below the limit and the output is ignored.\<close>

lemma uinput_bounds_wrap:
  "uinput_bounds_from_outputs
     [\<lparr>available = True, out_x = 0, out_y = 0, out_w = 800, out_h = 600\<rparr>,
      \<lparr>available = True, out_x = 2 ^ 63 - 1, out_y = 0, out_w = 800, out_h = 600\<rparr>] = (Inr (800, 600) :: unit bounds_error + int \<times> int)"
  by (simp add: uinput_bounds_from_outputs_def wrap64_def Let_def)

end
