(* ===== verification/Pixels.thy ===== *)
theory Pixels
  imports Geometry
begin

text \<open>
  The pixel layer of \<^verbatim>\<open>find/find.go\<close>: rectangles and images of Go's \<^verbatim>\<open>image\<close> package as the code
  uses them, the checks of packed buffers, and the 32-bit hash of a region. A slice's capacity is
  its length, and \<open>None\<close> is a run-time panic. Sums and products of Go's \<^verbatim>\<open>int\<close> wrap; a chain of
  them is wrapped once at its end, which is the same value.
\<close>

section \<open>Rectangles\<close>

definition rect_dx :: "rectangle \<Rightarrow> int" where "rect_dx r = wrap64 (max_x r - min_x r)"
definition rect_dy :: "rectangle \<Rightarrow> int" where "rect_dy r = wrap64 (max_y r - min_y r)"

definition rect_empty :: "rectangle \<Rightarrow> bool" where
  "rect_empty r \<longleftrightarrow> min_x r \<ge> max_x r \<or> min_y r \<ge> max_y r"

definition zero_rect :: rectangle where
  "zero_rect = \<lparr>min_x = 0, min_y = 0, max_x = 0, max_y = 0\<rparr>"

definition rect_intersect :: "rectangle \<Rightarrow> rectangle \<Rightarrow> rectangle" where
  "rect_intersect r s =
     (let t = \<lparr>min_x = max (min_x r) (min_x s), min_y = max (min_y r) (min_y s),
               max_x = min (max_x r) (max_x s), max_y = min (max_y r) (max_y s)\<rparr> in
      if rect_empty t then zero_rect else t)"

definition rect_union :: "rectangle \<Rightarrow> rectangle \<Rightarrow> rectangle" where
  "rect_union r s =
     (if rect_empty r then s else if rect_empty s then r
      else \<lparr>min_x = min (min_x r) (min_x s), min_y = min (min_y r) (min_y s),
             max_x = max (max_x r) (max_x s), max_y = max (max_y r) (max_y s)\<rparr>)"

definition rect_in :: "rectangle \<Rightarrow> rectangle \<Rightarrow> bool" where
  "rect_in r s \<longleftrightarrow> rect_empty r \<or>
     min_x s \<le> min_x r \<and> max_x r \<le> max_x s \<and> min_y s \<le> min_y r \<and> max_y r \<le> max_y s"

definition point_in :: "int \<Rightarrow> int \<Rightarrow> rectangle \<Rightarrow> bool" where
  "point_in x y r \<longleftrightarrow> min_x r \<le> x \<and> x < max_x r \<and> min_y r \<le> y \<and> y < max_y r"

text \<open>Coordinates that a Go \<^verbatim>\<open>int\<close> holds, and a height that it holds.\<close>

definition rect_ints :: "rectangle \<Rightarrow> bool" where
  "rect_ints r \<longleftrightarrow> in_int (min_x r) \<and> in_int (min_y r) \<and> in_int (max_x r) \<and> in_int (max_y r)"

definition rect_sane :: "rectangle \<Rightarrow> bool" where
  "rect_sane r \<longleftrightarrow> rect_ints r \<and> max_y r - min_y r \<le> max_int"

lemma wrap64_sub_neg: "0 \<le> z \<Longrightarrow> z < 2 ^ 64 \<Longrightarrow> wrap64 z = (if z \<le> max_int then z else z - 2 ^ 64)"
proof -
  assume z: "0 \<le> z" "z < 2 ^ 64"
  show ?thesis
  proof (cases "z \<le> max_int")
    case True
    with z show ?thesis by (simp add: in_int_def min_int_def)
  next
    case False
    have "(z + 2 ^ 63) mod 2 ^ 64 = (z + 2 ^ 63 - 2 ^ 64) mod 2 ^ 64"
      using mod_add_self2 [of "z + 2 ^ 63 - 2 ^ 64" "2 ^ 64"] by (simp add: add.commute)
    also have "\<dots> = z + 2 ^ 63 - 2 ^ 64" using z False by (intro mod_pos_pos_trivial) (simp_all add: max_int_def)
    finally show ?thesis using False by (simp add: wrap64_def)
  qed
qed

lemma rect_dx_pos: "rect_ints r \<Longrightarrow> \<not> rect_empty r \<Longrightarrow> 0 < rect_dx r \<Longrightarrow> rect_dx r = max_x r - min_x r"
  using wrap64_sub_neg [of "max_x r - min_x r"]
  by (auto simp: rect_dx_def rect_empty_def rect_ints_def in_int_def min_int_def max_int_def split: if_splits)

lemma rect_dy_sane: "rect_sane r \<Longrightarrow> \<not> rect_empty r \<Longrightarrow> rect_dy r = max_y r - min_y r"
  by (auto simp: rect_dy_def rect_sane_def rect_empty_def in_int_def min_int_def)

section \<open>Images\<close>

record packed =
  pix :: "byte list"
  stride :: int
  bounds :: rectangle

text \<open>A colour after \<^verbatim>\<open>color.RGBAModel.Convert\<close>: red, green, blue and alpha, premultiplied.\<close>

type_synonym rgba = "byte list"

datatype image =
    RGBA packed
  | NRGBA packed
  | Generic rectangle "int \<Rightarrow> int \<Rightarrow> rgba"

fun image_bounds :: "image \<Rightarrow> rectangle" where
  "image_bounds (RGBA p) = bounds p"
| "image_bounds (NRGBA p) = bounds p"
| "image_bounds (Generic b _) = b"

text \<open>\<^verbatim>\<open>xs[a:b]\<close> for signed indices.\<close>

definition islice :: "'a list \<Rightarrow> int \<Rightarrow> int \<Rightarrow> 'a list option" where
  "islice xs a b = (if 0 \<le> a \<and> a \<le> b then go_slice xs (nat a) (nat b) else None)"

lemma islice_ok: "0 \<le> a \<Longrightarrow> a \<le> b \<Longrightarrow> b \<le> int (length xs) \<Longrightarrow> islice xs a b = Some (take (nat (b - a)) (drop (nat a) xs))"
  by (simp add: islice_def nat_diff_distrib)

definition pix_offset :: "packed \<Rightarrow> int \<Rightarrow> int \<Rightarrow> int" where
  "pix_offset p x y = wrap64 ((y - min_y (bounds p)) * stride p + (x - min_x (bounds p)) * 4)"

text \<open>The straight-alpha channel of a native image, as \<^verbatim>\<open>color.NRGBA.RGBA\<close> premultiplies it.\<close>

definition premultiply :: "byte \<Rightarrow> byte \<Rightarrow> byte" where
  "premultiply c a = ucast (drop_bit 8 ((ucast c * 0x101 * ucast a :: u32) div 0xff))"

fun premultiplied :: "byte list \<Rightarrow> rgba" where
  "premultiplied [r, g, b, a] = [premultiply r a, premultiply g a, premultiply b a, a]"
| "premultiplied px = px"

text \<open>\<^verbatim>\<open>color.RGBAModel.Convert(img.At(x, y))\<close>\<close>

definition packed_at :: "packed \<Rightarrow> int \<Rightarrow> int \<Rightarrow> byte list option" where
  "packed_at p x y =
     (if \<not> point_in x y (bounds p) then Some [0, 0, 0, 0]
      else islice (pix p) (pix_offset p x y) (wrap64 (pix_offset p x y + 4)))"

fun image_at :: "image \<Rightarrow> int \<Rightarrow> int \<Rightarrow> rgba option" where
  "image_at (RGBA p) x y = packed_at p x y"
| "image_at (NRGBA p) x y = map_option premultiplied (packed_at p x y)"
| "image_at (Generic b f) x y = Some (f x y)"

section \<open>Packed buffers\<close>

definition packed_row_bytes :: "int \<Rightarrow> int option" where
  "packed_row_bytes width =
     (if width \<le> 0 \<or> width > go_div max_int 4 then None else Some (wrap64 (width * 4)))"

definition packed_buffer_size :: "rectangle \<Rightarrow> int \<Rightarrow> int option" where
  "packed_buffer_size b strd =
     (if rect_empty b \<or> strd < 0 then None
      else case packed_row_bytes (rect_dx b) of
        None \<Rightarrow> None
      | Some row_bytes \<Rightarrow>
          if strd < row_bytes then None
          else if wrap64 (rect_dy b - 1) > go_div (wrap64 (max_int - row_bytes)) strd then None
          else Some (wrap64 ((rect_dy b - 1) * strd + row_bytes)))"

definition valid_packed :: "packed \<Rightarrow> bool" where
  "valid_packed p =
     (case packed_buffer_size (bounds p) (stride p) of
        None \<Rightarrow> False
      | Some need \<Rightarrow> int (length (pix p)) \<ge> need)"

fun valid_packed_image_layout :: "image \<Rightarrow> bool" where
  "valid_packed_image_layout (RGBA p) = valid_packed p"
| "valid_packed_image_layout (NRGBA p) = valid_packed p"
| "valid_packed_image_layout (Generic _ _) = True"

lemma packed_row_bytes_Some:
  "packed_row_bytes w = Some n \<longleftrightarrow> 0 < w \<and> w * 4 \<le> max_int \<and> n = w * 4"
  by (auto simp: packed_row_bytes_def go_div_def max_int_def min_int_def in_int_def)

text \<open>What an accepted size means: the exact product, which a Go \<^verbatim>\<open>int\<close> holds.\<close>

lemma packed_buffer_size_Some:
  assumes "packed_buffer_size b strd = Some n" "rect_sane b"
  shows "min_x b < max_x b \<and> min_y b < max_y b \<and> rect_dx b = max_x b - min_x b \<and> rect_dy b = max_y b - min_y b \<and>
    (max_x b - min_x b) * 4 \<le> strd \<and> n = (max_y b - min_y b - 1) * strd + (max_x b - min_x b) * 4 \<and> n \<le> max_int"
proof -
  from assms(1) obtain rb where ne: "\<not> rect_empty b" and rb: "packed_row_bytes (rect_dx b) = Some rb"
    and s: "rb \<le> strd" and k: "wrap64 (rect_dy b - 1) \<le> go_div (wrap64 (max_int - rb)) strd"
    and n: "n = wrap64 ((rect_dy b - 1) * strd + rb)"
    by (auto simp: packed_buffer_size_def split: if_splits option.splits)
  from rb have rb': "0 < rect_dx b" "rb = rect_dx b * 4" "rb \<le> max_int" by (auto simp: packed_row_bytes_Some)
  have dx: "rect_dx b = max_x b - min_x b" using rect_dx_pos [of b] assms(2) ne rb' by (simp add: rect_sane_def)
  have dy: "rect_dy b = max_y b - min_y b" using rect_dy_sane assms(2) ne by blast
  let ?h = "rect_dy b - 1"
  have h: "0 \<le> ?h" "?h \<le> max_int" using dy ne assms(2) by (auto simp: rect_empty_def rect_sane_def)
  have "wrap64 ?h = ?h" using h by (intro wrap64_id in_intI) (simp_all add: min_int_def)
  moreover have "wrap64 (max_int - rb) = max_int - rb"
    using rb' by (intro wrap64_id in_intI) (simp_all add: min_int_def max_int_def)
  moreover have sp: "0 < strd" using rb' s by linarith
  ultimately have "?h \<le> (max_int - rb) div strd" using k rb' by (simp add: go_div_pos)
  then have "?h * strd \<le> (max_int - rb) div strd * strd" using sp by (intro mult_right_mono) auto
  moreover have "(max_int - rb) div strd * strd \<le> max_int - rb"
    using sp by (simp add: minus_mod_eq_div_mult [symmetric])
  ultimately have le: "?h * strd + rb \<le> max_int" by linarith
  moreover have "0 \<le> ?h * strd" using h sp by simp
  ultimately have "n = ?h * strd + rb"
    using n rb' by (simp add: in_int_def min_int_def)
  then show ?thesis using dx dy ne rb' s le by (simp add: rect_empty_def)
qed

text \<open>
  Without the bound on the height the check is not sound: the height of a rectangle can exceed a
  Go \<^verbatim>\<open>int\<close>, wraps to a negative number, and an image without any pixel data is accepted.
\<close>

lemma tall_layout_accepted:
  "valid_packed_image_layout (RGBA \<lparr>pix = [], stride = 4, bounds = \<lparr>min_x = 0, min_y = - (3 * 2 ^ 61), max_x = 1, max_y = 2 ^ 62\<rparr>\<rparr>) \<and>
   image_at (RGBA \<lparr>pix = [], stride = 4, bounds = \<lparr>min_x = 0, min_y = - (3 * 2 ^ 61), max_x = 1, max_y = 2 ^ 62\<rparr>\<rparr>) 0 0 = None"
  by (simp add: valid_packed_def packed_buffer_size_def packed_row_bytes_def rect_empty_def rect_dx_def rect_dy_def
      wrap64_def go_div_def max_int_def packed_at_def point_in_def pix_offset_def islice_def go_slice_def)

text \<open>The images of the theorems: an accepted layout of representable coordinates and height.\<close>

definition good_packed :: "packed \<Rightarrow> bool" where
  "good_packed p \<longleftrightarrow> valid_packed p \<and> rect_sane (bounds p)"

lemma good_packed_facts:
  assumes "good_packed p"
  shows "min_x (bounds p) < max_x (bounds p)" "min_y (bounds p) < max_y (bounds p)"
    "rect_dx (bounds p) = max_x (bounds p) - min_x (bounds p)" "rect_dy (bounds p) = max_y (bounds p) - min_y (bounds p)"
    "(max_x (bounds p) - min_x (bounds p)) * 4 \<le> stride p"
    "(max_y (bounds p) - min_y (bounds p) - 1) * stride p + (max_x (bounds p) - min_x (bounds p)) * 4 \<le> int (length (pix p))"
    "(max_y (bounds p) - min_y (bounds p) - 1) * stride p + (max_x (bounds p) - min_x (bounds p)) * 4 \<le> max_int"
    "\<not> rect_empty (bounds p)"
    "\<exists>n. packed_buffer_size (bounds p) (stride p) = Some n \<and> n \<le> int (length (pix p)) \<and>
       n = (max_y (bounds p) - min_y (bounds p) - 1) * stride p + (max_x (bounds p) - min_x (bounds p)) * 4"
proof -
  from assms obtain n where n: "packed_buffer_size (bounds p) (stride p) = Some n" "n \<le> int (length (pix p))"
    and s: "rect_sane (bounds p)" by (auto simp: good_packed_def valid_packed_def split: option.splits)
  note f = packed_buffer_size_Some [OF n(1) s]
  show "min_x (bounds p) < max_x (bounds p)" "min_y (bounds p) < max_y (bounds p)"
    "rect_dx (bounds p) = max_x (bounds p) - min_x (bounds p)" "rect_dy (bounds p) = max_y (bounds p) - min_y (bounds p)"
    "(max_x (bounds p) - min_x (bounds p)) * 4 \<le> stride p"
    "(max_y (bounds p) - min_y (bounds p) - 1) * stride p + (max_x (bounds p) - min_x (bounds p)) * 4 \<le> int (length (pix p))"
    "(max_y (bounds p) - min_y (bounds p) - 1) * stride p + (max_x (bounds p) - min_x (bounds p)) * 4 \<le> max_int"
    "\<not> rect_empty (bounds p)"
    "\<exists>n. packed_buffer_size (bounds p) (stride p) = Some n \<and> n \<le> int (length (pix p)) \<and>
       n = (max_y (bounds p) - min_y (bounds p) - 1) * stride p + (max_x (bounds p) - min_x (bounds p)) * 4"
    using f n by (auto simp: rect_empty_def)
qed

text \<open>The row segment from \<open>x\<close> of row \<open>y\<close> lies in the buffer, at the exact offset.\<close>

definition exact_offset :: "packed \<Rightarrow> int \<Rightarrow> int \<Rightarrow> int" where
  "exact_offset p x y = (y - min_y (bounds p)) * stride p + (x - min_x (bounds p)) * 4"

lemma good_packed_offset:
  assumes "good_packed p" "min_x (bounds p) \<le> x" "x \<le> max_x (bounds p)" "min_y (bounds p) \<le> y" "y < max_y (bounds p)"
    "0 \<le> n" "x + n \<le> max_x (bounds p)"
  shows "0 \<le> exact_offset p x y" "exact_offset p x y + n * 4 \<le> int (length (pix p))"
    "exact_offset p x y + n * 4 \<le> max_int" "pix_offset p x y = exact_offset p x y"
proof -
  note f = good_packed_facts [OF assms(1)]
  have "0 \<le> (max_x (bounds p) - min_x (bounds p)) * 4" using f(1) by simp
  then have sp: "0 \<le> stride p" using f(5) by linarith
  have "(y - min_y (bounds p)) * stride p \<le> (max_y (bounds p) - min_y (bounds p) - 1) * stride p"
    using sp assms by (intro mult_right_mono) auto
  moreover have nn: "0 \<le> (y - min_y (bounds p)) * stride p" using sp assms by simp
  moreover have "0 \<le> (x - min_x (bounds p)) * 4"
    "(x - min_x (bounds p)) * 4 + n * 4 \<le> (max_x (bounds p) - min_x (bounds p)) * 4" using assms by simp_all
  ultimately have "0 \<le> exact_offset p x y"
    "exact_offset p x y + n * 4 \<le> (max_y (bounds p) - min_y (bounds p) - 1) * stride p + (max_x (bounds p) - min_x (bounds p)) * 4"
    unfolding exact_offset_def by (metis add_nonneg_nonneg, metis (no_types) add.assoc add_mono)
  with f(6,7) show a: "0 \<le> exact_offset p x y" "exact_offset p x y + n * 4 \<le> int (length (pix p))"
    "exact_offset p x y + n * 4 \<le> max_int" by simp_all
  then have "in_int (exact_offset p x y)" using assms(6) by (simp add: in_int_def min_int_def)
  then show "pix_offset p x y = exact_offset p x y" by (simp add: pix_offset_def exact_offset_def)
qed

definition pixel :: "packed \<Rightarrow> int \<Rightarrow> int \<Rightarrow> byte list" where
  "pixel p x y = take 4 (drop (nat (exact_offset p x y)) (pix p))"

definition row_segment :: "packed \<Rightarrow> int \<Rightarrow> int \<Rightarrow> int \<Rightarrow> byte list" where
  "row_segment p x y n = take (nat (n * 4)) (drop (nat (exact_offset p x y)) (pix p))"

lemma packed_at_good:
  assumes "good_packed p" "point_in x y (bounds p)"
  shows "packed_at p x y = Some (pixel p x y)"
proof -
  note o = good_packed_offset [OF assms(1), of x y 1]
  have b: "0 \<le> exact_offset p x y" "exact_offset p x y + 4 \<le> int (length (pix p))"
    "exact_offset p x y + 4 \<le> max_int" "pix_offset p x y = exact_offset p x y"
    using o assms(2) by (auto simp: point_in_def)
  then have "wrap64 (exact_offset p x y + 4) = exact_offset p x y + 4"
    by (intro wrap64_id in_intI) (simp_all add: min_int_def)
  with b assms(2) show ?thesis by (simp add: packed_at_def islice_ok pixel_def)
qed

lemma length_pixel: "good_packed p \<Longrightarrow> point_in x y (bounds p) \<Longrightarrow> length (pixel p x y) = 4"
  using good_packed_offset [of p x y 1] by (simp add: point_in_def pixel_def)

lemma length_row_segment:
  assumes "good_packed p" "min_x (bounds p) \<le> x" "min_y (bounds p) \<le> y" "y < max_y (bounds p)" "0 \<le> n" "x + n \<le> max_x (bounds p)"
  shows "length (row_segment p x y n) = nat (n * 4)"
  using good_packed_offset [of p x y n] assms by (simp add: row_segment_def)

end
