(* ===== verification/PixelHash.thy ===== *)
theory PixelHash
  imports Pixels
begin

text \<open>
  The pixel hash of \<^verbatim>\<open>find/find.go\<close>: the CRC-32 of Go's \<^verbatim>\<open>hash/crc32\<close>, the accumulator, the fast
  paths over packed rows and over raw BGRA frames. A custom hasher is what its \<^verbatim>\<open>Sum32\<close> returns for
  the bytes written so far; the \<open>dflt\<close> argument is the package variable \<^verbatim>\<open>DefaultHasher\<close>, \<open>None\<close>
  while it is still \<^verbatim>\<open>crc32.NewIEEE\<close>.
\<close>

section \<open>CRC-32\<close>

fun crc_bits :: "nat \<Rightarrow> u32 \<Rightarrow> u32" where
  "crc_bits 0 c = c"
| "crc_bits (Suc n) c =
     crc_bits n (if bit c 0 then drop_bit 1 c XOR 0xEDB88320 else drop_bit 1 c)"

definition crc_byte :: "byte \<Rightarrow> u32 \<Rightarrow> u32" where
  "crc_byte b c = crc_bits 8 (c XOR ucast b)"

definition crc32_update :: "u32 \<Rightarrow> byte list \<Rightarrow> u32" where
  "crc32_update c bs = NOT (fold crc_byte bs (NOT c))"

lemma crc32_update_append: "crc32_update c (xs @ ys) = crc32_update (crc32_update c xs) ys"
  by (simp add: crc32_update_def)

lemma crc32_update_Nil [simp]: "crc32_update c [] = c"
  by (simp add: crc32_update_def)

lemma crc32_check: "crc32_update 0 [0x31, 0x32, 0x33, 0x34, 0x35, 0x36, 0x37, 0x38, 0x39] = 0xCBF43926"
  by code_simp

section \<open>The accumulator\<close>

type_synonym hasher = "byte list \<Rightarrow> u32"

record pixel_hash =
  custom :: "(hasher \<times> byte list) option"
  crc_sum :: u32

definition ph_write :: "pixel_hash \<Rightarrow> byte list \<Rightarrow> pixel_hash" where
  "ph_write a p =
     (case custom a of
        Some (f, written) \<Rightarrow> a\<lparr>custom := Some (f, written @ p)\<rparr>
      | None \<Rightarrow> a\<lparr>crc_sum := crc32_update (crc_sum a) p\<rparr>)"

definition ph_sum32 :: "pixel_hash \<Rightarrow> u32" where
  "ph_sum32 a = (case custom a of Some (f, written) \<Rightarrow> f written | None \<Rightarrow> crc_sum a)"

text \<open>\<^verbatim>\<open>writeRGBARows\<close>; the inner \<open>None\<close> is its \<^verbatim>\<open>false\<close> for a short buffer.\<close>

fun write_rows :: "pixel_hash \<Rightarrow> packed \<Rightarrow> int \<Rightarrow> int \<Rightarrow> int list \<Rightarrow> pixel_hash option option" where
  "write_rows a p x row_bytes [] = Some (Some a)"
| "write_rows a p x row_bytes (y # ys) =
     (let off = pix_offset p x y; e = wrap64 (off + row_bytes) in
      if off < 0 \<or> e > int (length (pix p)) then Some None
      else case islice (pix p) off e of
        None \<Rightarrow> None
      | Some seg \<Rightarrow> write_rows (ph_write a seg) p x row_bytes ys)"

definition write_rgba_rows :: "pixel_hash \<Rightarrow> packed \<Rightarrow> rectangle \<Rightarrow> int \<Rightarrow> u32 option option" where
  "write_rgba_rows a p b row_bytes =
     map_option (map_option ph_sum32) (write_rows a p (min_x b) row_bytes [min_y b..max_y b - 1])"

section \<open>Hashing a region\<close>

text \<open>\<^verbatim>\<open>draw.Draw\<close> into a fresh RGBA image of bounds \<open>b\<close>.\<close>

definition points :: "rectangle \<Rightarrow> (int \<times> int) list" where
  "points b = concat (map (\<lambda>y. map (\<lambda>x. (x, y)) [min_x b..max_x b - 1]) [min_y b..max_y b - 1])"

definition draw_rgba :: "rectangle \<Rightarrow> image \<Rightarrow> byte list option" where
  "draw_rgba b img = map_option concat (those (map (\<lambda>(x, y). image_at img x y) (points b)))"

definition pixel_hash_image :: "hasher option \<Rightarrow> image \<Rightarrow> rectangle \<Rightarrow> hasher option \<Rightarrow> u32 option" where
  "pixel_hash_image dflt img rect new_hash =
     (let chosen = (case new_hash of None \<Rightarrow> dflt | Some f \<Rightarrow> Some f);
          a = \<lparr>custom = map_option (\<lambda>f. (f, [])) chosen, crc_sum = 0\<rparr>;
          b = rect_intersect rect (image_bounds img) in
      case img of
        RGBA p \<Rightarrow>
          if rect_empty b then Some (ph_sum32 a)
          else
            (case packed_buffer_size (bounds p) (stride p) of
               None \<Rightarrow> Some 0
             | Some _ \<Rightarrow>
                 (case packed_row_bytes (rect_dx b) of
                    None \<Rightarrow> Some 0
                  | Some row_bytes \<Rightarrow>
                      if b = bounds p \<and> stride p = row_bytes then
                        let required = (case packed_buffer_size b (stride p) of None \<Rightarrow> 0 | Some n \<Rightarrow> n) in
                        if int (length (pix p)) < required then Some 0
                        else map_option (\<lambda>data. ph_sum32 (ph_write a data)) (islice (pix p) 0 required)
                      else
                        map_option (\<lambda>r. case r of None \<Rightarrow> 0 | Some sm \<Rightarrow> sm) (write_rgba_rows a p b row_bytes)))
      | _ \<Rightarrow>
          if \<not> valid_packed_image_layout img then Some 0
          else map_option (\<lambda>data. ph_sum32 (ph_write a data)) (draw_rgba b img))"

text \<open>\<^verbatim>\<open>PixelHash\<close>; a nil image is \<open>None\<close>.\<close>

definition pixel_hash_of :: "hasher option \<Rightarrow> image option \<Rightarrow> hasher option \<Rightarrow> u32 option" where
  "pixel_hash_of dflt img new_hash =
     (case img of None \<Rightarrow> Some 0 | Some i \<Rightarrow> pixel_hash_image dflt i (image_bounds i) new_hash)"

section \<open>What is hashed\<close>

definition hash_bytes :: "hasher option \<Rightarrow> hasher option \<Rightarrow> hasher" where
  "hash_bytes dflt new_hash =
     (case (case new_hash of None \<Rightarrow> dflt | Some f \<Rightarrow> Some f) of None \<Rightarrow> crc32_update 0 | Some f \<Rightarrow> f)"

lemma ph_write_append: "ph_write (ph_write a xs) ys = ph_write a (xs @ ys)"
  by (auto simp: ph_write_def crc32_update_append split: option.splits)

lemma ph_write_Nil [simp]: "ph_write a [] = a"
  by (auto simp: ph_write_def split: option.splits)

definition new_acc :: "hasher option \<Rightarrow> pixel_hash" where
  "new_acc chosen = \<lparr>custom = map_option (\<lambda>f. (f, [])) chosen, crc_sum = 0\<rparr>"

lemma new_acc_sum:
  "ph_sum32 (ph_write (new_acc (case new_hash of None \<Rightarrow> dflt | Some f \<Rightarrow> Some f)) data) = hash_bytes dflt new_hash data"
  by (auto simp: ph_sum32_def ph_write_def new_acc_def hash_bytes_def split: option.splits)

definition region_bytes :: "packed \<Rightarrow> rectangle \<Rightarrow> byte list" where
  "region_bytes p b = concat (map (\<lambda>y. row_segment p (min_x b) y (max_x b - min_x b)) [min_y b..max_y b - 1])"

lemma take_drop_split: "take (a + b) (drop k xs) = take a (drop k xs) @ take b (drop (k + a) xs)"
  by (simp add: take_add add.commute)

lemma row_segment_pixels:
  assumes "good_packed p" "min_x (bounds p) \<le> x" "min_y (bounds p) \<le> y" "y < max_y (bounds p)" "x + int n \<le> max_x (bounds p)"
  shows "row_segment p x y (int n) = concat (map (\<lambda>x. pixel p x y) [x..x + int n - 1])"
  using assms(2,5)
proof (induction n arbitrary: x)
  case 0
  then show ?case by (simp add: row_segment_def)
next
  case (Suc n)
  have o: "0 \<le> exact_offset p x y" "0 \<le> exact_offset p (x + 1) y"
    "exact_offset p (x + 1) y = exact_offset p x y + 4"
    using good_packed_offset [OF assms(1), of x y 1] Suc.prems assms(3,4) by (auto simp: exact_offset_def algebra_simps)
  have "row_segment p x y (int (Suc n)) = take (4 + nat (int n * 4)) (drop (nat (exact_offset p x y)) (pix p))"
    by (simp add: row_segment_def nat_add_distrib)
  also have "\<dots> = pixel p x y @ row_segment p (x + 1) y (int n)"
    unfolding take_drop_split using o by (simp add: pixel_def row_segment_def nat_add_distrib)
  also have "row_segment p (x + 1) y (int n) = concat (map (\<lambda>x. pixel p x y) [x + 1..x + 1 + int n - 1])"
    using Suc.prems by (intro Suc.IH) simp_all
  finally show ?case using upto_rec1 [of x "x + int n"] by (simp add: algebra_simps)
qed

text \<open>A nonempty region inside the image.\<close>

definition region_of :: "rectangle \<Rightarrow> rectangle \<Rightarrow> bool" where
  "region_of b r \<longleftrightarrow> \<not> rect_empty b \<and> min_x r \<le> min_x b \<and> max_x b \<le> max_x r \<and> min_y r \<le> min_y b \<and> max_y b \<le> max_y r"

lemma region_of_intersect:
  "\<not> rect_empty (rect_intersect r s) \<Longrightarrow> region_of (rect_intersect r s) s"
  by (auto simp: rect_intersect_def region_of_def Let_def zero_rect_def rect_empty_def)

lemma points_set: "(x, y) \<in> set (points b) \<longleftrightarrow> point_in x y b"
proof -
  have "(x, y) \<in> (\<lambda>x. (x, y')) ` {min_x b..max_x b - 1} \<longleftrightarrow> y' = y \<and> min_x b \<le> x \<and> x \<le> max_x b - 1" for y'
    by auto
  then show ?thesis by (auto simp: points_def point_in_def)
qed

lemma concat_map_nested: "concat (map f (concat (map g ys))) = concat (map (\<lambda>y. concat (map f (g y))) ys)"
  by (induction ys) simp_all

lemma region_bytes_points:
  assumes "good_packed p" "region_of b (bounds p)"
  shows "region_bytes p b = concat (map (\<lambda>(x, y). pixel p x y) (points b))"
proof -
  have "row_segment p (min_x b) y (max_x b - min_x b) = concat (map (\<lambda>x. pixel p x y) [min_x b..max_x b - 1])"
    if "y \<in> set [min_y b..max_y b - 1]" for y
    using row_segment_pixels [OF assms(1), of "min_x b" y "nat (max_x b - min_x b)"] that assms(2)
    by (auto simp: region_of_def rect_empty_def)
  then show ?thesis
    unfolding region_bytes_def points_def concat_map_nested by (intro arg_cong [of _ _ concat] map_cong) (simp_all add: o_def)
qed

lemma write_rows_good:
  assumes "good_packed p" "min_x (bounds p) \<le> x" "0 \<le> n" "x + n \<le> max_x (bounds p)"
    "\<forall>y \<in> set ys. min_y (bounds p) \<le> y \<and> y < max_y (bounds p)"
  shows "write_rows a p x (n * 4) ys = Some (Some (ph_write a (concat (map (\<lambda>y. row_segment p x y n) ys))))"
  using assms(5)
proof (induction ys arbitrary: a)
  case (Cons y ys)
  have o: "0 \<le> exact_offset p x y" "exact_offset p x y + n * 4 \<le> int (length (pix p))"
    "exact_offset p x y + n * 4 \<le> max_int" "pix_offset p x y = exact_offset p x y"
    using good_packed_offset [OF assms(1), of x y n] assms(2,3,4) Cons.prems by auto
  then have "wrap64 (exact_offset p x y + n * 4) = exact_offset p x y + n * 4"
    using assms(3) by (intro wrap64_id in_intI) (simp_all add: min_int_def)
  then show ?case
    using o assms(3) Cons by (simp add: islice_ok row_segment_def ph_write_append Let_def)
qed simp

text \<open>A buffer whose rows are contiguous holds the region as one slice.\<close>

lemma concat_rows: "concat (map (\<lambda>i. take w (drop (i * w) xs)) [0..<n]) = take (n * w) xs"
proof (induction n)
  case (Suc n)
  have "take (Suc n * w) xs = take (n * w + w) xs" by (simp add: add.commute)
  then show ?case using Suc by (simp add: take_add)
qed simp

lemma map_upto_upt: "map f [a..a + int n - 1] = map (\<lambda>i. f (a + int i)) [0..<n]"
proof (induction n)
  case (Suc n)
  have "[a..a + int (Suc n) - 1] = [a..a + int n - 1] @ [a + int n]"
    using upto_rec2 [of a "a + int n"] by simp
  with Suc show ?case by simp
qed simp

lemma region_bytes_contiguous:
  assumes "good_packed p" "stride p = (max_x (bounds p) - min_x (bounds p)) * 4"
  shows "region_bytes p (bounds p) =
    take (nat ((max_y (bounds p) - min_y (bounds p)) * stride p)) (pix p)"
proof -
  note f = good_packed_facts [OF assms(1)]
  let ?h = "nat (max_y (bounds p) - min_y (bounds p))" and ?w = "nat (stride p)"
  have h: "max_y (bounds p) - 1 = min_y (bounds p) + int ?h - 1" using f(2) by simp
  have "region_bytes p (bounds p) =
      concat (map (\<lambda>i. row_segment p (min_x (bounds p)) (min_y (bounds p) + int i) (max_x (bounds p) - min_x (bounds p))) [0..<?h])"
    unfolding region_bytes_def by (subst h, subst map_upto_upt) (rule refl)
  also have "\<dots> = concat (map (\<lambda>i. take ?w (drop (i * ?w) (pix p))) [0..<?h])"
    unfolding row_segment_def exact_offset_def using assms(2) by (simp add: nat_mult_distrib)
  also have "\<dots> = take (nat ((max_y (bounds p) - min_y (bounds p)) * stride p)) (pix p)"
    using f(2) by (simp add: concat_rows nat_mult_distrib)
  finally show ?thesis .
qed

lemma region_dx:
  assumes "region_of b r" "0 < max_x r - min_x r" "max_x r - min_x r \<le> max_int"
  shows "rect_dx b = max_x b - min_x b"
  using assms by (auto simp: rect_dx_def region_of_def rect_empty_def in_int_def min_int_def)

lemma good_width:
  assumes "good_packed p"
  shows "(max_x (bounds p) - min_x (bounds p)) * 4 \<le> max_int" "0 < max_x (bounds p) - min_x (bounds p)"
    "max_x (bounds p) - min_x (bounds p) \<le> max_int"
proof -
  note f = good_packed_facts [OF assms]
  have "0 \<le> (max_x (bounds p) - min_x (bounds p)) * 4" using f(1) by simp
  then have "0 \<le> (max_y (bounds p) - min_y (bounds p) - 1) * stride p" using f(2,5) by (intro mult_nonneg_nonneg) auto
  with f(7) show "(max_x (bounds p) - min_x (bounds p)) * 4 \<le> max_int" by linarith
  then show "max_x (bounds p) - min_x (bounds p) \<le> max_int" using f(1) by (simp add: left_diff_distrib)
  show "0 < max_x (bounds p) - min_x (bounds p)" using f(1) by simp
qed

text \<open>On an accepted RGBA image every fast path hashes exactly the bytes of the region.\<close>

lemma pixel_hash_image_rgba:
  assumes "good_packed p" "\<not> rect_empty (rect_intersect rect (bounds p))"
  shows "pixel_hash_image dflt (RGBA p) rect h =
    Some (hash_bytes dflt h (region_bytes p (rect_intersect rect (bounds p))))"
proof -
  note f = good_packed_facts [OF assms(1)] and w = good_width [OF assms(1)]
  let ?b = "rect_intersect rect (bounds p)"
  let ?a = "new_acc (case h of None \<Rightarrow> dflt | Some f \<Rightarrow> Some f)"
  have r: "region_of ?b (bounds p)" using region_of_intersect assms(2) by blast
  have dx: "rect_dx ?b = max_x ?b - min_x ?b" by (rule region_dx [OF r w(2,3)])
  have "0 < max_x ?b - min_x ?b" "max_x ?b - min_x ?b \<le> max_x (bounds p) - min_x (bounds p)"
    using r by (auto simp: region_of_def rect_empty_def)
  then have rb: "packed_row_bytes (rect_dx ?b) = Some ((max_x ?b - min_x ?b) * 4)"
    unfolding packed_row_bytes_Some dx using w(1) by (simp add: left_diff_distrib)
  obtain n where n: "packed_buffer_size (bounds p) (stride p) = Some n" "n \<le> int (length (pix p))"
    "n = (max_y (bounds p) - min_y (bounds p) - 1) * stride p + (max_x (bounds p) - min_x (bounds p)) * 4" using f(9) by blast
  show ?thesis
  proof (cases "?b = bounds p \<and> stride p = (max_x ?b - min_x ?b) * 4")
    case True
    then have st: "(max_x (bounds p) - min_x (bounds p)) * 4 = stride p" by metis
    have "n = (max_y (bounds p) - min_y (bounds p)) * stride p"
      unfolding n(3) st by (simp add: left_diff_distrib)
    moreover have "0 \<le> (max_y (bounds p) - min_y (bounds p)) * stride p" using f(1,2) True by simp
    ultimately have s: "islice (pix p) 0 n = Some (region_bytes p (bounds p))"
      using region_bytes_contiguous [OF assms(1)] True n(2) by (simp add: islice_ok)
    show ?thesis
      using True n(1,2) s rb assms(2) new_acc_sum [of dflt h "region_bytes p (bounds p)"]
      by (simp add: pixel_hash_image_def Let_def flip: new_acc_def)
  next
    case False
    have "write_rgba_rows ?a p ?b ((max_x ?b - min_x ?b) * 4) = Some (Some (hash_bytes dflt h (region_bytes p ?b)))"
      unfolding write_rgba_rows_def region_bytes_def
      using r by (subst write_rows_good [OF assms(1)]) (auto simp: region_of_def rect_empty_def new_acc_sum)
    then show ?thesis
      using False n(1) rb assms(2) by (auto simp: pixel_hash_image_def Let_def simp flip: new_acc_def)
  qed
qed

lemma those_map_Some: "\<forall>x \<in> set xs. f x = Some (g x) \<Longrightarrow> those (map f xs) = Some (map g xs)"
  by (induction xs) auto

lemma pixel_hash_image_generic:
  "pixel_hash_image dflt (Generic r f) rect h =
     Some (hash_bytes dflt h (concat (map (\<lambda>(x, y). f x y) (points (rect_intersect rect r)))))"
proof -
  have "draw_rgba b (Generic r f) = Some (concat (map (\<lambda>(x, y). f x y) (points b)))" for b
    unfolding draw_rgba_def by (subst those_map_Some [where g = "\<lambda>(x, y). f x y"]) auto
  then show ?thesis
    by (simp add: pixel_hash_image_def Let_def new_acc_sum flip: new_acc_def)
qed

text \<open>
  The packed fast paths of the pixel hash are an optimisation only: for an RGBA image of an
  accepted layout, whatever its stride, and any region that meets it, the hash of the buffer's
  bytes (one slice when the rows are contiguous, row by row otherwise) is the hash of the generic
  path, which draws pixel after pixel.
\<close>

theorem pixel_hash_paths_agree:
  assumes "good_packed p" "\<not> rect_empty (rect_intersect rect (bounds p))"
    "\<forall>x y. point_in x y (bounds p) \<longrightarrow> image_at (RGBA p) x y = Some (f x y)"
  shows "pixel_hash_image dflt (RGBA p) rect h = pixel_hash_image dflt (Generic (bounds p) f) rect h"
proof -
  let ?b = "rect_intersect rect (bounds p)"
  have r: "region_of ?b (bounds p)" using region_of_intersect assms(2) by blast
  have "pixel p x y = f x y" if "(x, y) \<in> set (points ?b)" for x y
  proof -
    have "point_in x y (bounds p)" using that r by (auto simp: points_set point_in_def region_of_def)
    then show ?thesis using packed_at_good [OF assms(1)] assms(3) by fastforce
  qed
  then have "map (\<lambda>(x, y). pixel p x y) (points ?b) = map (\<lambda>(x, y). f x y) (points ?b)" by (intro map_cong) auto
  then show ?thesis
    unfolding pixel_hash_image_rgba [OF assms(1,2)] pixel_hash_image_generic region_bytes_points [OF assms(1) r] by (rule arg_cong)
qed

theorem pixel_hash_paths_agree_witness:
  "pixel_hash_image None (RGBA \<lparr>pix = [1, 2, 3, 4, 5, 6, 7, 8, 0, 0, 9, 10, 11, 12, 13, 14, 15, 16], stride = 10,
      bounds = \<lparr>min_x = 5, min_y = 3, max_x = 7, max_y = 5\<rparr>\<rparr>) \<lparr>min_x = 6, min_y = 0, max_x = 9, max_y = 9\<rparr> None =
   pixel_hash_image None (Generic \<lparr>min_x = 5, min_y = 3, max_x = 7, max_y = 5\<rparr>
      (\<lambda>x y. if y = 3 then (if x = 5 then [1, 2, 3, 4] else [5, 6, 7, 8]) else if x = 5 then [9, 10, 11, 12] else [13, 14, 15, 16]))
     \<lparr>min_x = 6, min_y = 0, max_x = 9, max_y = 9\<rparr> None"
proof -
  let ?p = "\<lparr>pix = [1, 2, 3, 4, 5, 6, 7, 8, 0, 0, 9, 10, 11, 12, 13, 14, 15, 16] :: byte list, stride = 10,
      bounds = \<lparr>min_x = 5, min_y = 3, max_x = 7, max_y = 5\<rparr>\<rparr>"
  have g: "good_packed ?p"
    by (simp add: good_packed_def valid_packed_def packed_buffer_size_def packed_row_bytes_def rect_empty_def rect_dx_def
        rect_dy_def wrap64_def go_div_def max_int_def rect_sane_def rect_ints_def in_int_def min_int_def)
  have at: "image_at (RGBA ?p) x y = Some (if y = 3 then (if x = 5 then [1, 2, 3, 4] else [5, 6, 7, 8]) else if x = 5 then [9, 10, 11, 12] else [13, 14, 15, 16])"
    if "point_in x y (bounds ?p)" for x y
  proof -
    have "(x = 5 \<or> x = 6) \<and> (y = 3 \<or> y = 4)" using that by (auto simp: point_in_def)
    then show ?thesis
      by (auto simp: point_in_def packed_at_def pix_offset_def islice_def go_slice_def wrap64_def)
  qed
  have "\<not> rect_empty (rect_intersect \<lparr>min_x = 6, min_y = 0, max_x = 9, max_y = 9\<rparr> (bounds ?p))"
    by (simp add: rect_intersect_def rect_empty_def)
  from pixel_hash_paths_agree [OF g this, of _ None None] at show ?thesis by simp
qed

section \<open>Raw BGRA frames\<close>

datatype frame_error = InvalidFrame | EmptyRegion

definition bgra_frame_bounds :: "byte list \<Rightarrow> int \<Rightarrow> int \<Rightarrow> int \<Rightarrow> rectangle option" where
  "bgra_frame_bounds data width height strd =
     (if data = [] \<or> width \<le> 0 \<or> height \<le> 0 \<or> strd \<le> 0 then None
      else if width > go_div max_int 4 then None
      else
        let row_bytes = wrap64 (width * 4) in
        if strd < row_bytes then None
        else
          let last_row = wrap64 (height - 1) in
          if last_row > go_div (wrap64 (max_int - row_bytes)) strd then None
          else if wrap64 (last_row * strd + row_bytes) > int (length data) then None
          else Some (image_rect 0 0 width height))"

text \<open>The channel swap of \<^verbatim>\<open>pixelHashBGRARow\<close>; an incomplete pixel indexes out of range.\<close>

fun swap_bgra :: "byte list \<Rightarrow> byte list option" where
  "swap_bgra [] = Some []"
| "swap_bgra (b # g # r # a # px) = map_option (\<lambda>rest. r # g # b # 0xff # rest) (swap_bgra px)"
| "swap_bgra _ = None"

text \<open>
  \<^verbatim>\<open>pixelHashBGRARow\<close>: \<open>n\<close> is the length of the chunk buffer, which the caller makes positive (a
  zero length would not advance).
\<close>

function bgra_row :: "u32 \<Rightarrow> byte list \<Rightarrow> nat \<Rightarrow> u32 option" where
  "bgra_row sm data n =
     (if data = [] \<or> n = 0 then Some sm
      else case swap_bgra (take n data) of
        None \<Rightarrow> None
      | Some row \<Rightarrow> bgra_row (crc32_update sm row) (drop n data) n)"
  by pat_completeness auto
termination by (relation "measure (\<lambda>(sm, data, n). length data)") auto

declare bgra_row.simps [simp del]

fun bgra_rows :: "u32 \<Rightarrow> byte list \<Rightarrow> int \<Rightarrow> int \<Rightarrow> int \<Rightarrow> nat \<Rightarrow> int list \<Rightarrow> u32 option" where
  "bgra_rows sm data strd x_off row_bytes n [] = Some sm"
| "bgra_rows sm data strd x_off row_bytes n (y # ys) =
     (let src = wrap64 (y * strd + x_off) in
      case islice data src (wrap64 (src + row_bytes)) of
        None \<Rightarrow> None
      | Some seg \<Rightarrow>
          (case bgra_row sm seg n of
             None \<Rightarrow> None
           | Some sm' \<Rightarrow> bgra_rows sm' data strd x_off row_bytes n ys))"

definition pixel_hash_bgra :: "byte list \<Rightarrow> int \<Rightarrow> int \<Rightarrow> int \<Rightarrow> rectangle \<Rightarrow> (frame_error + u32) option" where
  "pixel_hash_bgra data width height strd rect =
     (case bgra_frame_bounds data width height strd of
        None \<Rightarrow> Some (Inl InvalidFrame)
      | Some frame \<Rightarrow>
          let r = (if rect_empty rect then frame else rect_intersect rect frame) in
          if rect_empty r then Some (Inl EmptyRegion)
          else
            let row_bytes = wrap64 (rect_dx r * 4); x_off = wrap64 (min_x r * 4);
                n = nat (min row_bytes (32 * 1024)) in
            map_option Inr (bgra_rows 0 data strd x_off row_bytes n [min_y r..max_y r - 1]))"

lemma bgra_frame_good:
  assumes "bgra_frame_bounds data width height strd = Some frame" "in_int height"
  shows "frame = \<lparr>min_x = 0, min_y = 0, max_x = width, max_y = height\<rparr>" "good_packed \<lparr>pix = data, stride = strd, bounds = frame\<rparr>"
proof -
  from assms(1) have a: "0 < width" "0 < height" "0 < strd" "width \<le> go_div max_int 4" "wrap64 (width * 4) \<le> strd"
    "wrap64 (height - 1) \<le> go_div (wrap64 (max_int - wrap64 (width * 4))) strd"
    "wrap64 (wrap64 (height - 1) * strd + wrap64 (width * 4)) \<le> int (length data)" "frame = image_rect 0 0 width height"
    by (auto simp: bgra_frame_bounds_def Let_def split: if_splits)
  show f: "frame = \<lparr>min_x = 0, min_y = 0, max_x = width, max_y = height\<rparr>" using a by (simp add: image_rect_def)
  have w: "in_int width" "in_int (width * 4)" "width * 4 \<le> max_int" "width \<le> max_int"
    using a(1,4) by (auto simp: go_div_pos in_int_def min_int_def max_int_def)
  have h: "in_int (height - 1)" "height \<le> max_int" using a(2) assms(2) by (auto simp: in_int_def min_int_def)
  have d: "rect_dx frame = width" "rect_dy frame = height" "\<not> rect_empty frame"
    using f w assms(2) a(1,2) by (simp_all add: rect_dx_def rect_dy_def rect_empty_def)
  have "packed_row_bytes width = Some (width * 4)" using a(1) w by (simp add: packed_row_bytes_Some)
  then have "packed_buffer_size frame strd = Some (wrap64 ((height - 1) * strd + width * 4))"
    using d a w h by (simp add: packed_buffer_size_def)
  then have "valid_packed \<lparr>pix = data, stride = strd, bounds = frame\<rparr>" using a(7) w h by (simp add: valid_packed_def)
  moreover have "rect_sane frame" using f w h assms(2) by (simp add: rect_sane_def rect_ints_def in_int_def min_int_def max_int_def)
  ultimately show "good_packed \<lparr>pix = data, stride = strd, bounds = frame\<rparr>" by (simp add: good_packed_def)
qed

lemma dvd_nat4: "(4 :: int) dvd z \<Longrightarrow> 0 \<le> z \<Longrightarrow> 4 dvd nat z"
  by (auto simp: dvd_def nat_mult_distrib)

text \<open>A BGRA pixel in the canonical opaque RGBA representation.\<close>

definition opaque_rgba :: "byte list \<Rightarrow> rgba" where
  "opaque_rgba px = [px ! 2, px ! 1, px ! 0, 0xff]"

lemma swap_bgra_pixels:
  "\<forall>px \<in> set pxs. length px = 4 \<Longrightarrow> swap_bgra (concat pxs) = Some (concat (map opaque_rgba pxs))"
proof (induction pxs)
  case (Cons px pxs)
  then obtain b g r a where "px = [b, g, r, a]" by (auto simp: length_Suc_conv numeral_eq_Suc)
  with Cons show ?case by (simp add: opaque_rgba_def)
qed simp

lemma swap_bgra_append:
  "swap_bgra xs = Some us \<Longrightarrow> swap_bgra (xs @ ys) = map_option (\<lambda>vs. us @ vs) (swap_bgra ys)"
  by (cases "swap_bgra ys"; induction xs arbitrary: us rule: swap_bgra.induct; auto)

lemma swap_bgra_length: "4 dvd length xs \<Longrightarrow> \<exists>us. swap_bgra xs = Some us"
proof (induction xs rule: swap_bgra.induct)
  case (2 b g r a px)
  have "4 dvd length px" using 2 (2) by (simp, presburger)
  with 2 (1) show ?case by auto
qed (simp_all, presburger+)

text \<open>The size of the chunk buffer does not matter.\<close>

lemma bgra_row_chunks:
  assumes "4 dvd n" "0 < n" "swap_bgra data = Some us"
  shows "bgra_row sm data n = Some (crc32_update sm us)"
  using assms(3)
proof (induction "length data" arbitrary: sm data us rule: less_induct)
  case less
  show ?case
  proof (cases "data = []")
    case True
    with less.prems show ?thesis by (simp add: bgra_row.simps)
  next
    case False
    show ?thesis
    proof (cases "length data \<le> n")
      case True
      then show ?thesis using False assms(2) less.prems by (simp add: bgra_row.simps [of sm data] bgra_row.simps [of _ "[]"])
    next
      case len: False
      then obtain vs where vs: "swap_bgra (take n data) = Some vs"
        using swap_bgra_length [of "take n data"] assms(1) by auto
      have "map_option (\<lambda>ws. vs @ ws) (swap_bgra (drop n data)) = Some us"
        using swap_bgra_append [OF vs, of "drop n data"] less.prems by simp
      then obtain ws where ws: "swap_bgra (drop n data) = Some ws" "us = vs @ ws"
        unfolding map_option_eq_Some by blast
      have "bgra_row (crc32_update sm vs) (drop n data) n = Some (crc32_update (crc32_update sm vs) ws)"
        using ws(1) assms(2) False by (intro less.hyps) auto
      then show ?thesis
        using False assms(2) vs ws by (simp add: bgra_row.simps [of sm data] crc32_update_append)
    qed
  qed
qed

lemma row_segment_swap:
  assumes "good_packed p" "min_x (bounds p) \<le> x" "min_y (bounds p) \<le> y" "y < max_y (bounds p)" "0 \<le> n" "x + n \<le> max_x (bounds p)"
  shows "swap_bgra (row_segment p x y n) = Some (concat (map (\<lambda>x. opaque_rgba (pixel p x y)) [x..x + n - 1]))"
proof -
  have "row_segment p x y n = concat (map (\<lambda>x. pixel p x y) [x..x + n - 1])"
    using row_segment_pixels [of p x y "nat n"] assms by simp
  moreover have "\<forall>px \<in> set (map (\<lambda>x. pixel p x y) [x..x + n - 1]). length px = 4"
    using assms by (auto simp: point_in_def intro!: length_pixel)
  ultimately show ?thesis by (simp add: swap_bgra_pixels o_def)
qed

lemma bgra_rows_good:
  assumes "good_packed p" "min_x (bounds p) = 0" "min_y (bounds p) = 0" "0 \<le> x" "0 \<le> n" "x + n \<le> max_x (bounds p)"
    "4 dvd k" "0 < k" "\<forall>y \<in> set ys. 0 \<le> y \<and> y < max_y (bounds p)"
  shows "bgra_rows sm (pix p) (stride p) (x * 4) (n * 4) k ys =
    Some (crc32_update sm (concat (map (\<lambda>y. concat (map (\<lambda>x. opaque_rgba (pixel p x y)) [x..x + n - 1])) ys)))"
  using assms(9)
proof (induction ys arbitrary: sm)
  case (Cons y ys)
  have o: "0 \<le> exact_offset p x y" "exact_offset p x y + n * 4 \<le> int (length (pix p))"
    "exact_offset p x y + n * 4 \<le> max_int" "exact_offset p x y = y * stride p + x * 4"
    using good_packed_offset [OF assms(1), of x y n] assms(2-6) Cons.prems by (auto simp: exact_offset_def)
  have w: "wrap64 (y * stride p + x * 4) = exact_offset p x y"
    "wrap64 (exact_offset p x y + n * 4) = exact_offset p x y + n * 4"
    using o assms(5) by (simp_all add: in_int_def min_int_def)
  have "islice (pix p) (exact_offset p x y) (exact_offset p x y + n * 4) = Some (row_segment p x y n)"
    using o assms(5) by (simp add: islice_ok row_segment_def)
  moreover have "swap_bgra (row_segment p x y n) = Some (concat (map (\<lambda>x. opaque_rgba (pixel p x y)) [x..x + n - 1]))"
    using assms Cons.prems by (intro row_segment_swap) auto
  ultimately show ?case
    using Cons bgra_row_chunks [OF assms(7,8)] by (simp add: w Let_def crc32_update_append)
qed simp

text \<open>
  C28. Hashing raw capture memory is canonical: the hash of a region of a BGRA frame, computed
  chunk by chunk on the padded rows, is the pixel hash of that region of any RGBA image that
  holds the same pixels with an opaque alpha; so the specialised backends and the image path
  give hashes that can be compared with each other.
\<close>

theorem pixel_hash_bgra_canonical:
  assumes "bgra_frame_bounds data w h s = Some frame" "in_int h"
    and r: "r = (if rect_empty rect then frame else rect_intersect rect frame)" "\<not> rect_empty r"
    and q: "good_packed q" "bounds q = frame"
      "\<forall>x y. point_in x y frame \<longrightarrow>
         image_at (RGBA q) x y = map_option opaque_rgba (packed_at \<lparr>pix = data, stride = s, bounds = frame\<rparr> x y)"
  shows "pixel_hash_bgra data w h s rect = map_option Inr (pixel_hash_image None (RGBA q) r None)"
proof -
  let ?p = "\<lparr>pix = data, stride = s, bounds = frame\<rparr>"
  have fr: "frame = \<lparr>min_x = 0, min_y = 0, max_x = w, max_y = h\<rparr>" and g: "good_packed ?p"
    using bgra_frame_good [OF assms(1,2)] by simp_all
  have reg: "region_of r frame"
    using r region_of_intersect by (auto simp: region_of_def split: if_splits)
  have ri: "rect_intersect r frame = r"
    using reg by (simp add: rect_intersect_def region_of_def rect_empty_def max_def min_def)
  note ww = good_width [OF g]
  have dx: "rect_dx r = max_x r - min_x r" using region_dx [OF reg] ww by simp
  have nn: "0 < max_x r - min_x r" "0 \<le> min_x r" "max_x r \<le> w" "0 \<le> min_y r" "max_y r \<le> h"
    using reg fr by (auto simp: region_of_def rect_empty_def)
  have b4: "(max_x r - min_x r) * 4 \<le> max_int" "min_x r * 4 \<le> max_int" "0 < (max_x r - min_x r) * 4"
    using nn ww fr by simp_all
  let ?k = "nat (min ((max_x r - min_x r) * 4) (32 * 1024))"
  have "4 dvd min ((max_x r - min_x r) * 4) (32 * 1024)" by (simp add: min_def)
  moreover have "0 \<le> min ((max_x r - min_x r) * 4) (32 * 1024)" using b4 by simp
  ultimately have k: "4 dvd ?k" "0 < ?k" using b4 nn by (simp_all only: dvd_nat4)
  have wr: "wrap64 (rect_dx r * 4) = (max_x r - min_x r) * 4" "wrap64 (min_x r * 4) = min_x r * 4"
    unfolding dx using b4 nn by (simp_all add: in_int_def min_int_def)
  have "bgra_rows 0 data s (min_x r * 4) ((max_x r - min_x r) * 4) ?k [min_y r..max_y r - 1] =
      Some (crc32_update 0 (concat (map (\<lambda>y. concat (map (\<lambda>x. opaque_rgba (pixel ?p x y)) [min_x r..min_x r + (max_x r - min_x r) - 1])) [min_y r..max_y r - 1])))"
    using bgra_rows_good [OF g, of "min_x r" "max_x r - min_x r" ?k "[min_y r..max_y r - 1]" 0] k nn fr by simp
  also have "concat (map (\<lambda>y. concat (map (\<lambda>x. opaque_rgba (pixel ?p x y)) [min_x r..min_x r + (max_x r - min_x r) - 1])) [min_y r..max_y r - 1]) =
      concat (map (\<lambda>(x, y). opaque_rgba (pixel ?p x y)) (points r))"
    by (simp add: points_def concat_map_nested o_def)
  also have "map (\<lambda>(x, y). opaque_rgba (pixel ?p x y)) (points r) = map (\<lambda>(x, y). pixel q x y) (points r)"
  proof -
    have "opaque_rgba (pixel ?p x y) = pixel q x y" if "(x, y) \<in> set (points r)" for x y
    proof -
      have "point_in x y frame" using that reg by (auto simp: points_set point_in_def region_of_def)
      then show ?thesis using q packed_at_good [OF q(1), of x y] packed_at_good [OF g, of x y] by simp
    qed
    then show ?thesis by (intro map_cong) auto
  qed
  also have "concat (map (\<lambda>(x, y). pixel q x y) (points r)) = region_bytes q r"
    using region_bytes_points [OF q(1)] reg q(2) by simp
  finally have "bgra_rows 0 data s (min_x r * 4) ((max_x r - min_x r) * 4) ?k [min_y r..max_y r - 1] =
      Some (crc32_update 0 (region_bytes q r))" .
  moreover have "pixel_hash_image None (RGBA q) r None = Some (crc32_update 0 (region_bytes q r))"
    using pixel_hash_image_rgba [OF q(1), of r] ri r(2) q(2) by (simp add: hash_bytes_def)
  ultimately show ?thesis
    unfolding pixel_hash_bgra_def assms(1) option.case Let_def r(1) [symmetric] wr using r(2) by simp
qed

theorem pixel_hash_bgra_canonical_witness:
  "pixel_hash_bgra [1, 2, 3, 4, 5, 6, 7, 8, 9] 2 1 9 zero_rect =
     map_option Inr (pixel_hash_image None
       (RGBA \<lparr>pix = [3, 2, 1, 255, 7, 6, 5, 255], stride = 8, bounds = \<lparr>min_x = 0, min_y = 0, max_x = 2, max_y = 1\<rparr>\<rparr>)
       \<lparr>min_x = 0, min_y = 0, max_x = 2, max_y = 1\<rparr> None)"
proof (rule pixel_hash_bgra_canonical)
  let ?q = "\<lparr>pix = [3, 2, 1, 255, 7, 6, 5, 255] :: byte list, stride = 8, bounds = \<lparr>min_x = 0, min_y = 0, max_x = 2, max_y = 1\<rparr>\<rparr>"
  show "bgra_frame_bounds [1, 2, 3, 4, 5, 6, 7, 8, 9] 2 1 9 = Some \<lparr>min_x = 0, min_y = 0, max_x = 2, max_y = 1\<rparr>"
    by (simp add: bgra_frame_bounds_def go_div_def max_int_def wrap64_def image_rect_def)
  show "good_packed ?q"
    by (simp add: good_packed_def valid_packed_def packed_buffer_size_def packed_row_bytes_def rect_empty_def rect_dx_def
        rect_dy_def wrap64_def go_div_def max_int_def rect_sane_def rect_ints_def in_int_def min_int_def)
  have two: "x = 0 \<or> x = 1" if "0 \<le> x" "x < 2" for x :: int using that by arith
  show "\<forall>x y. point_in x y \<lparr>min_x = 0, min_y = 0, max_x = 2, max_y = 1\<rparr> \<longrightarrow>
      image_at (RGBA ?q) x y =
        map_option opaque_rgba (packed_at \<lparr>pix = [1, 2, 3, 4, 5, 6, 7, 8, 9], stride = 9, bounds = \<lparr>min_x = 0, min_y = 0, max_x = 2, max_y = 1\<rparr>\<rparr> x y)"
    by (auto simp: point_in_def packed_at_def pix_offset_def islice_def go_slice_def wrap64_def opaque_rgba_def dest!: two)
qed (simp_all add: in_int_def min_int_def max_int_def rect_empty_def zero_rect_def)

end
