(* ===== verification/FindColor.thy ===== *)
theory FindColor
  imports PixelHash
begin

text \<open>
  Looking for a colour (\<^verbatim>\<open>FindColor\<close>, \<^verbatim>\<open>PixelFound\<close> and \<^verbatim>\<open>scanPackedPixels\<close> of
  \<^verbatim>\<open>find/find.go\<close>). The scan of packed buffers reads the bytes directly and premultiplies the
  straight-alpha ones on the way; the theorem shows that it finds what the generic scan finds.
\<close>

section \<open>Comparing colours\<close>

text \<open>The red, green and blue of the target; its alpha is not compared.\<close>

type_synonym rgb = "byte \<times> byte \<times> byte"

definition chan_close :: "byte \<Rightarrow> byte \<Rightarrow> int \<Rightarrow> bool" where
  "chan_close a b tol \<longleftrightarrow> \<bar>uint a - uint b\<bar> \<le> tol"

fun color_close :: "rgba \<Rightarrow> rgb \<Rightarrow> int \<Rightarrow> bool" where
  "color_close (r # g # b # _) (tr, tg, tb) tol \<longleftrightarrow> chan_close r tr tol \<and> chan_close g tg tol \<and> chan_close b tb tol"
| "color_close _ _ tol = False"

text \<open>The comparison of the packed scan, with its shortcut for exact colours.\<close>

fun packed_close :: "bool \<Rightarrow> byte list \<Rightarrow> rgb \<Rightarrow> int \<Rightarrow> bool" where
  "packed_close straight [r, g, b, a] (tr, tg, tb) tol =
     (case (if straight \<and> a \<noteq> 255 then (premultiply r a, premultiply g a, premultiply b a) else (r, g, b)) of
        (r, g, b) \<Rightarrow>
          tol = 0 \<and> r = tr \<and> g = tg \<and> b = tb \<or>
          tol \<noteq> 0 \<and> chan_close r tr tol \<and> chan_close g tg tol \<and> chan_close b tb tol)"
| "packed_close straight _ _ tol = False"

section \<open>Scanning\<close>

fun scan_packed_row :: "packed \<Rightarrow> int \<Rightarrow> int \<times> int \<Rightarrow> rgb \<Rightarrow> int \<Rightarrow> bool \<Rightarrow> int \<Rightarrow> int list \<Rightarrow> (int \<times> int) option option" where
  "scan_packed_row p off origin target tol straight y [] = Some None"
| "scan_packed_row p off origin target tol straight y (x # xs) =
     (case islice (pix p) off (wrap64 (off + 4)) of
        None \<Rightarrow> None
      | Some px \<Rightarrow>
          if packed_close straight px target tol then
            Some (Some (wrap64 (fst origin + x - min_x (bounds p)), wrap64 (snd origin + y - min_y (bounds p))))
          else scan_packed_row p (wrap64 (off + 4)) origin target tol straight y xs)"

fun scan_packed_rows :: "packed \<Rightarrow> rectangle \<Rightarrow> int \<times> int \<Rightarrow> rgb \<Rightarrow> int \<Rightarrow> bool \<Rightarrow> int list \<Rightarrow> (int \<times> int) option option" where
  "scan_packed_rows p b origin target tol straight [] = Some None"
| "scan_packed_rows p b origin target tol straight (y # ys) =
     (case scan_packed_row p (pix_offset p (min_x b) y) origin target tol straight y [min_x b..max_x b - 1] of
        Some None \<Rightarrow> scan_packed_rows p b origin target tol straight ys
      | r \<Rightarrow> r)"

definition scan_packed_pixels :: "packed \<Rightarrow> rectangle \<Rightarrow> int \<times> int \<Rightarrow> rgb \<Rightarrow> int \<Rightarrow> bool \<Rightarrow> (int \<times> int) option option" where
  "scan_packed_pixels p b origin target tol straight =
     (case packed_buffer_size (bounds p) (stride p) of
        None \<Rightarrow> Some None
      | Some min_required \<Rightarrow>
          if int (length (pix p)) < min_required then Some None
          else scan_packed_rows p b origin target tol straight [min_y b..max_y b - 1])"

fun scan_generic :: "image \<Rightarrow> int \<times> int \<Rightarrow> rgb \<Rightarrow> int \<Rightarrow> (int \<times> int) list \<Rightarrow> (int \<times> int) option option" where
  "scan_generic img origin target tol [] = Some None"
| "scan_generic img origin target tol ((x, y) # ps) =
     (case image_at img x y of
        None \<Rightarrow> None
      | Some c \<Rightarrow>
          if color_close c target tol then
            Some (Some (wrap64 (fst origin + x - min_x (image_bounds img)), wrap64 (snd origin + y - min_y (image_bounds img))))
          else scan_generic img origin target tol ps)"

text \<open>The part of the image to scan, and the screen point of its first pixel.\<close>

definition scan_region :: "rectangle \<Rightarrow> rectangle \<Rightarrow> rectangle \<times> int \<times> int" where
  "scan_region b rect =
     (if \<not> rect_empty rect then
        if rect_in rect b then (rect, min_x b, min_y b)
        else
          let sb = (if rect_dx rect < rect_dx b then b\<lparr>max_x := wrap64 (min_x b + rect_dx rect)\<rparr> else b);
              sb = (if rect_dy rect < rect_dy sb then sb\<lparr>max_y := wrap64 (min_y sb + rect_dy rect)\<rparr> else sb)
          in (sb, min_x rect, min_y rect)
      else (b, min_x b, min_y b))"

definition pixel_found :: "image option \<Rightarrow> rectangle \<Rightarrow> rgb \<Rightarrow> int \<Rightarrow> (int \<times> int) option option" where
  "pixel_found img rect target tol =
     (case img of
        None \<Rightarrow> Some None
      | Some i \<Rightarrow>
          let (sb, origin) = scan_region (image_bounds i) rect in
          (case i of
             RGBA p \<Rightarrow> scan_packed_pixels p sb origin target tol False
           | NRGBA p \<Rightarrow> scan_packed_pixels p sb origin target tol True
           | Generic _ _ \<Rightarrow> scan_generic i origin target tol (points sb)))"

section \<open>The packed scan is the generic one\<close>

lemma premultiply_255: "premultiply c 255 = c"
proof -
  have "unat c < 256" using unsigned_less [of c, where 'a = nat] by simp
  then have u: "unat (ucast c * 0x101 * ucast (255 :: byte) :: u32) = unat c * 257 * 255"
    by (simp add: unat_word_ariths unsigned_ucast_eq take_bit_eq_mod)
  have "unat ((ucast c * 0x101 * ucast (255 :: byte) :: u32) div 0xff) = unat c * 257"
    unfolding unat_div_distrib u by simp
  moreover have "unat (drop_bit 8 w) = unat w div 256" for w :: u32
    unfolding unat_drop_bit_eq by (simp add: drop_bit_eq_div)
  ultimately have "unat (drop_bit 8 ((ucast c * 0x101 * ucast (255 :: byte) :: u32) div 0xff)) = unat c * 257 div 256"
    by (simp only:)
  also have "unat c * 257 div 256 = unat c" using \<open>unat c < 256\<close> by simp
  finally have "unat (premultiply c 255) = unat c"
    using \<open>unat c < 256\<close> by (simp add: premultiply_def unsigned_ucast_eq take_bit_eq_mod)
  then show ?thesis by (rule unsigned_word_eqI)
qed

text \<open>The colour a scan of the buffer compares.\<close>

definition shown :: "bool \<Rightarrow> packed \<Rightarrow> int \<Rightarrow> int \<Rightarrow> rgba" where
  "shown straight p x y = (if straight then premultiplied (pixel p x y) else pixel p x y)"

lemma chan_close_0: "chan_close a b 0 \<longleftrightarrow> a = b"
  by (simp add: chan_close_def word_uint_eq_iff)

lemma packed_close_shown:
  assumes "length px = 4" "0 \<le> tol"
  shows "packed_close straight px target tol = color_close (if straight then premultiplied px else px) target tol"
proof -
  from assms(1) obtain r g b a where px: "px = [r, g, b, a]" by (auto simp: length_Suc_conv numeral_eq_Suc)
  obtain tr tg tb where t: "target = (tr, tg, tb)" by (cases target)
  show ?thesis by (cases "tol = 0"; cases "a = 255") (auto simp: px t premultiply_255 chan_close_0)
qed

definition screen_point :: "rectangle \<Rightarrow> int \<times> int \<Rightarrow> int \<times> int \<Rightarrow> int \<times> int" where
  "screen_point b origin q = (wrap64 (fst origin + fst q - min_x b), wrap64 (snd origin + snd q - min_y b))"

lemma screen_point_pair:
  "screen_point b origin (x, y) = (wrap64 (fst origin + x - min_x b), wrap64 (snd origin + y - min_y b))"
  by (simp add: screen_point_def)

lemma scan_packed_row_good:
  assumes "good_packed p" "min_y (bounds p) \<le> y" "y < max_y (bounds p)" "0 \<le> tol"
    "min_x (bounds p) \<le> x" "x + int n \<le> max_x (bounds p)"
  shows "scan_packed_row p (exact_offset p x y) origin target tol straight y [x..x + int n - 1] =
    Some (map_option (screen_point (bounds p) origin)
      (find (\<lambda>(x, y). color_close (shown straight p x y) target tol) (map (\<lambda>x. (x, y)) [x..x + int n - 1])))"
  using assms(5,6)
proof (induction n arbitrary: x)
  case (Suc n)
  have o: "0 \<le> exact_offset p x y" "exact_offset p x y + 4 \<le> int (length (pix p))" "exact_offset p x y + 4 \<le> max_int"
    "exact_offset p (x + 1) y = exact_offset p x y + 4"
    using good_packed_offset [OF assms(1), of x y 1] Suc.prems assms(2,3) by (auto simp: exact_offset_def algebra_simps)
  have w: "wrap64 (exact_offset p x y + 4) = exact_offset p (x + 1) y" using o by (simp add: in_int_def min_int_def)
  have s: "islice (pix p) (exact_offset p x y) (exact_offset p (x + 1) y) = Some (pixel p x y)"
    using o by (simp add: islice_ok pixel_def)
  have "length (pixel p x y) = 4" using Suc.prems assms(1-3) by (intro length_pixel) (auto simp: point_in_def)
  note c = packed_close_shown [OF this assms(4)]
  have u: "[x..x + int (Suc n) - 1] = x # [x + 1..x + 1 + int n - 1]" using upto_rec1 [of x "x + int n"] by simp
  have "scan_packed_row p (exact_offset p (x + 1) y) origin target tol straight y [x + 1..x + 1 + int n - 1] =
    Some (map_option (screen_point (bounds p) origin)
      (find (\<lambda>(x, y). color_close (shown straight p x y) target tol) (map (\<lambda>x. (x, y)) [x + 1..x + 1 + int n - 1])))"
    using Suc.prems by (intro Suc.IH) simp_all
  then show ?case
    unfolding u by (simp add: w s c screen_point_pair shown_def)
qed simp

text \<open>A region to scan lies inside the image.\<close>

definition inside :: "rectangle \<Rightarrow> rectangle \<Rightarrow> bool" where
  "inside b r \<longleftrightarrow> min_x r \<le> min_x b \<and> max_x b \<le> max_x r \<and> min_y r \<le> min_y b \<and> max_y b \<le> max_y r"

lemma find_append_option: "find P (xs @ ys) = (case find P xs of None \<Rightarrow> find P ys | Some x \<Rightarrow> Some x)"
  by (induction xs) auto

lemma scan_packed_rows_good:
  assumes "good_packed p" "inside b (bounds p)" "min_x b \<le> max_x b" "0 \<le> tol"
    "\<forall>y \<in> set ys. min_y (bounds p) \<le> y \<and> y < max_y (bounds p)"
  shows "scan_packed_rows p b origin target tol straight ys =
    Some (map_option (screen_point (bounds p) origin)
      (find (\<lambda>(x, y). color_close (shown straight p x y) target tol) (concat (map (\<lambda>y. map (\<lambda>x. (x, y)) [min_x b..max_x b - 1]) ys))))"
  using assms(5)
proof (induction ys)
  case (Cons y ys)
  have y: "min_y (bounds p) \<le> y" "y < max_y (bounds p)" using Cons.prems by auto
  have "pix_offset p (min_x b) y = exact_offset p (min_x b) y"
    using good_packed_offset [OF assms(1), of "min_x b" y 0] y assms(2,3) by (auto simp: inside_def)
  then have r: "scan_packed_row p (pix_offset p (min_x b) y) origin target tol straight y [min_x b..max_x b - 1] =
    Some (map_option (screen_point (bounds p) origin)
      (find (\<lambda>(x, y). color_close (shown straight p x y) target tol) (map (\<lambda>x. (x, y)) [min_x b..max_x b - 1])))"
    using scan_packed_row_good [OF assms(1) y assms(4), of "min_x b" "nat (max_x b - min_x b)" origin target straight] assms(2,3)
    by (simp add: inside_def)
  show ?case
    using Cons r by (auto simp: find_append_option split: option.splits)
qed simp

lemma scan_generic_find:
  "\<forall>(x, y) \<in> set ps. image_at img x y = Some (f x y) \<Longrightarrow>
     scan_generic img origin target tol ps =
       Some (map_option (screen_point (image_bounds img) origin) (find (\<lambda>(x, y). color_close (f x y) target tol) ps))"
  by (induction ps) (auto simp: screen_point_pair)

lemma scan_packed_pixels_good:
  assumes "good_packed p" "inside b (bounds p)" "0 \<le> tol"
  shows "scan_packed_pixels p b origin target tol straight =
    Some (map_option (screen_point (bounds p) origin) (find (\<lambda>(x, y). color_close (shown straight p x y) target tol) (points b)))"
proof -
  obtain n where n: "packed_buffer_size (bounds p) (stride p) = Some n" "n \<le> int (length (pix p))"
    using good_packed_facts(9) [OF assms(1)] by blast
  show ?thesis
  proof (cases "min_x b \<le> max_x b")
    case True
    have "\<forall>y \<in> set [min_y b..max_y b - 1]. min_y (bounds p) \<le> y \<and> y < max_y (bounds p)"
      using assms(2) by (auto simp: inside_def)
    from scan_packed_rows_good [OF assms(1,2) True assms(3) this] n show ?thesis
      by (simp add: scan_packed_pixels_def points_def)
  next
    case False
    then have e: "[min_x b..max_x b - 1] = []" by simp
    have "scan_packed_rows p b origin target tol straight ys = Some None" for ys by (induction ys) (simp_all add: e)
    moreover have "points b = []" by (auto simp: points_def e)
    ultimately show ?thesis using n by (simp add: scan_packed_pixels_def)
  qed
qed

lemma scan_region_inside:
  assumes "rect_ints b" "\<not> rect_empty b" "0 < rect_dx b" "0 < rect_dy b"
    "rect_empty rect \<or> 0 \<le> rect_dx rect \<and> 0 \<le> rect_dy rect"
  shows "inside (fst (scan_region b rect)) b"
proof -
  have ints: "in_int (min_x b)" "in_int (max_x b)" "in_int (min_y b)" "in_int (max_y b)"
    using assms(1) by (simp_all add: rect_ints_def)
  have dx: "rect_dx b = max_x b - min_x b" using rect_dx_pos assms(1,2,3) by blast
  have "max_y b - min_y b < 2 ^ 64" "0 \<le> max_y b - min_y b"
    using ints assms(2) by (simp_all add: in_int_def min_int_def max_int_def rect_empty_def)
  then have dy: "rect_dy b = max_y b - min_y b"
    using assms(4) wrap64_sub_neg [of "max_y b - min_y b"] by (simp add: rect_dy_def split: if_splits)
  have wx: "wrap64 (min_x b + rect_dx rect) = min_x b + rect_dx rect"
    if "0 \<le> rect_dx rect" "rect_dx rect < rect_dx b"
    using that ints dx by (simp add: in_int_def)
  have wy: "wrap64 (min_y b + rect_dy rect) = min_y b + rect_dy rect"
    if "0 \<le> rect_dy rect" "rect_dy rect < rect_dy b"
    using that ints dy by (simp add: in_int_def)
  have dy_upd: "rect_dy (b\<lparr>max_x := v\<rparr>) = rect_dy b" for v by (simp add: rect_dy_def)
  show ?thesis
    using assms(5) dx dy by (auto simp: scan_region_def inside_def rect_in_def Let_def dy_upd wx wy)
qed

text \<open>
  C24. Looking for a colour in a packed image finds what the generic scan finds: for an RGBA or
  NRGBA image of an accepted layout, with a tolerance the API allows, the packed scan never
  indexes out of range and returns the screen point of the first pixel in row order, among those
  of the requested region, whose premultiplied colour is within the tolerance.
\<close>

theorem pixel_found_first:
  assumes "good_packed p" "0 \<le> tol" "rect_empty rect \<or> 0 \<le> rect_dx rect \<and> 0 \<le> rect_dy rect"
    and img: "(straight, img) = (False, RGBA p) \<or> (straight, img) = (True, NRGBA p)"
  shows "pixel_found (Some img) rect target tol =
      pixel_found (Some (Generic (bounds p) (shown straight p))) rect target tol \<and>
    pixel_found (Some img) rect target tol =
      (let (sb, origin) = scan_region (bounds p) rect in
       Some (map_option (screen_point (bounds p) origin)
         (find (\<lambda>(x, y). color_close (shown straight p x y) target tol) (points sb))))"
proof -
  note f = good_packed_facts [OF assms(1)]
  obtain sb origin where sb: "scan_region (bounds p) rect = (sb, origin)" by (cases "scan_region (bounds p) rect")
  have "rect_ints (bounds p)" using assms(1) by (simp add: good_packed_def rect_sane_def)
  then have "inside sb (bounds p)"
    using scan_region_inside [of "bounds p" rect] f(1-4,8) assms(3) sb by simp
  note g = scan_packed_pixels_good [OF assms(1) this assms(2), of origin target straight]
  have "scan_generic (Generic (bounds p) (shown straight p)) origin target tol (points sb) =
      Some (map_option (screen_point (bounds p) origin) (find (\<lambda>(x, y). color_close (shown straight p x y) target tol) (points sb)))"
    by (subst scan_generic_find [where f = "shown straight p"]) auto
  with g img show ?thesis by (auto simp: pixel_found_def sb)
qed

theorem pixel_found_first_witness:
  "pixel_found (Some (NRGBA \<lparr>pix = [9, 9, 9, 255, 255, 0, 100, 128], stride = 8, bounds = \<lparr>min_x = 0, min_y = 0, max_x = 2, max_y = 1\<rparr>\<rparr>))
     \<lparr>min_x = 40, min_y = 50, max_x = 42, max_y = 51\<rparr> (128, 0, 50) 0 = Some (Some (41, 50))"
proof -
  let ?p = "\<lparr>pix = [9, 9, 9, 255, 255, 0, 100, 128] :: byte list, stride = 8, bounds = \<lparr>min_x = 0, min_y = 0, max_x = 2, max_y = 1\<rparr>\<rparr>"
  let ?r = "\<lparr>min_x = 40, min_y = 50, max_x = 42, max_y = 51\<rparr>"
  have g: "good_packed ?p"
    by (simp add: good_packed_def valid_packed_def packed_buffer_size_def packed_row_bytes_def rect_empty_def rect_dx_def
        rect_dy_def wrap64_def go_div_def max_int_def rect_sane_def rect_ints_def in_int_def min_int_def)
  have reg: "scan_region (bounds ?p) ?r = (bounds ?p, 40, 50)"
    by (simp add: scan_region_def rect_empty_def rect_in_def rect_dx_def rect_dy_def wrap64_def)
  have pts: "points (bounds ?p) = [(0, 0), (1, 0)]" by (simp add: points_def upto_rec1)
  have p0: "shown True ?p 0 0 = premultiplied [9, 9, 9, 255]" "shown True ?p 1 0 = premultiplied [255, 0, 100, 128]"
    by (simp_all add: shown_def pixel_def exact_offset_def)
  have "premultiply 255 128 = 128" "premultiply 0 128 = 0" "premultiply 100 128 = 50" by code_simp+
  then have c: "\<not> color_close (shown True ?p 0 0) (128, 0, 50) 0" "color_close (shown True ?p 1 0) (128, 0, 50) 0"
    unfolding p0 by (simp_all add: chan_close_0 premultiply_255)
  have "rect_dx ?r = 2" "rect_dy ?r = 1" by (simp_all add: rect_dx_def rect_dy_def wrap64_def)
  then have "pixel_found (Some (NRGBA ?p)) ?r (128, 0, 50) 0 =
      Some (map_option (screen_point (bounds ?p) (40, 50)) (find (\<lambda>(x, y). color_close (shown True ?p x y) (128, 0, 50) 0) (points (bounds ?p))))"
    using conjunct2 [OF pixel_found_first [OF g, of 0 ?r True "NRGBA ?p" "(128, 0, 50)"]] unfolding reg by simp
  then show ?thesis unfolding pts using c by (simp add: screen_point_def wrap64_def)
qed

end
