(* ===== verification/Locate.thy ===== *)
theory Locate
  imports PixelHash
begin

text \<open>
  Exact image search (\<^verbatim>\<open>LocateExactInImage\<close>, \<^verbatim>\<open>selectLocateAnchor\<close> and \<^verbatim>\<open>matchAt\<close> of
  \<^verbatim>\<open>find/find.go\<close>). The packed path looks for the bytes of an anchor of the reference with
  \<^verbatim>\<open>bytes.Index\<close> and, after eight false candidates, restarts once with a more detailed anchor; the
  theorem shows that it answers exactly as the generic pixel by pixel search.
\<close>

section \<open>Substring search\<close>

fun is_prefix :: "'a list \<Rightarrow> 'a list \<Rightarrow> bool" where
  "is_prefix [] ys = True"
| "is_prefix (x # xs) (y # ys) = (x = y \<and> is_prefix xs ys)"
| "is_prefix (x # xs) [] = False"

text \<open>\<^verbatim>\<open>bytes.Index\<close>: the first position of \<open>pat\<close> in \<open>xs\<close>.\<close>

fun index_of :: "'a list \<Rightarrow> 'a list \<Rightarrow> nat option" where
  "index_of [] pat = (if pat = [] then Some 0 else None)"
| "index_of (x # xs) pat = (if is_prefix pat (x # xs) then Some 0 else map_option Suc (index_of xs pat))"

lemma is_prefix_take: "is_prefix pat xs \<longleftrightarrow> take (length pat) xs = pat"
  by (induction pat xs rule: is_prefix.induct) auto

lemma index_of_Some:
  "index_of xs pat = Some k \<Longrightarrow> k \<le> length xs \<and> is_prefix pat (drop k xs) \<and> (\<forall>j < k. \<not> is_prefix pat (drop j xs))"
proof (induction xs arbitrary: k)
  case (Cons x xs)
  show ?case
  proof (cases "is_prefix pat (x # xs)")
    case True
    with Cons.prems show ?thesis by simp
  next
    case False
    with Cons.prems obtain k' where k: "index_of xs pat = Some k'" "k = Suc k'" by auto
    from Cons.IH [OF k(1)] False k(2) show ?thesis by (auto simp: less_Suc_eq_0_disj)
  qed
qed (auto split: if_splits)

lemma index_of_None: "index_of xs pat = None \<Longrightarrow> j \<le> length xs \<Longrightarrow> \<not> is_prefix pat (drop j xs)"
proof (induction xs arbitrary: j)
  case (Cons x xs)
  then show ?case by (cases j) (auto split: if_splits)
qed (cases pat, auto split: if_splits)

section \<open>Comparing at one position\<close>

fun match_rows :: "packed \<Rightarrow> packed \<Rightarrow> int \<Rightarrow> int \<Rightarrow> int \<Rightarrow> int list \<Rightarrow> bool option" where
  "match_rows src ref w4 ox oy [] = Some True"
| "match_rows src ref w4 ox oy (y # ys) =
     (let src_off = pix_offset src ox (oy + y);
          ref_off = pix_offset ref (min_x (bounds ref)) (min_y (bounds ref) + y) in
      if src_off < 0 \<or> src_off > int (length (pix src)) - w4 \<or> ref_off < 0 \<or> ref_off > int (length (pix ref)) - w4 then Some False
      else
        case islice (pix src) src_off (wrap64 (src_off + w4)) of
          None \<Rightarrow> None
        | Some a \<Rightarrow>
            (case islice (pix ref) ref_off (wrap64 (ref_off + w4)) of
               None \<Rightarrow> None
             | Some b \<Rightarrow> if a \<noteq> b then Some False else match_rows src ref w4 ox oy ys))"

fun match_pixels :: "image \<Rightarrow> image \<Rightarrow> int \<Rightarrow> int \<Rightarrow> (int \<times> int) list \<Rightarrow> bool option" where
  "match_pixels src ref ox oy [] = Some True"
| "match_pixels src ref ox oy ((x, y) # xys) =
     (case image_at src (wrap64 (ox + x)) (wrap64 (oy + y)) of
        None \<Rightarrow> None
      | Some a \<Rightarrow>
          (case image_at ref (wrap64 (min_x (image_bounds ref) + x)) (wrap64 (min_y (image_bounds ref) + y)) of
             None \<Rightarrow> None
           | Some b \<Rightarrow> if a \<noteq> b then Some False else match_pixels src ref ox oy xys))"

definition match_at :: "image \<Rightarrow> image \<Rightarrow> int \<Rightarrow> int \<Rightarrow> bool option" where
  "match_at src ref ox oy =
     (let rb = image_bounds ref in
      case (src, ref) of
        (RGBA s, RGBA r) \<Rightarrow>
          (case packed_row_bytes (rect_dx rb) of
             None \<Rightarrow> Some False
           | Some w4 \<Rightarrow>
               if packed_buffer_size (bounds s) (stride s) = None then Some False
               else if packed_buffer_size (bounds r) (stride r) = None then Some False
               else match_rows s r w4 ox oy [0..rect_dy rb - 1])
      | _ \<Rightarrow> match_pixels src ref ox oy (points \<lparr>min_x = 0, min_y = 0, max_x = rect_dx rb, max_y = rect_dy rb\<rparr>))"

section \<open>Anchors\<close>

text \<open>The number of pixels of a row that differ from the one before.\<close>

fun row_detail :: "byte list \<Rightarrow> int" where
  "row_detail (a # b # c # d # e # f # g # h # px) =
     (if e \<noteq> a \<or> f \<noteq> b \<or> g \<noteq> c \<or> h \<noteq> d then 1 else 0) + row_detail (e # f # g # h # px)"
| "row_detail _ = 0"

fun best_row :: "packed \<Rightarrow> int \<Rightarrow> int list \<Rightarrow> int \<Rightarrow> int \<Rightarrow> int option" where
  "best_row ref row_bytes [] selected score = Some selected"
| "best_row ref row_bytes (c # cs) selected score =
     (let start = pix_offset ref (min_x (bounds ref)) (min_y (bounds ref) + c) in
      case islice (pix ref) start (wrap64 (start + row_bytes)) of
        None \<Rightarrow> None
      | Some pixels \<Rightarrow>
          if row_detail pixels > score then best_row ref row_bytes cs c (row_detail pixels)
          else best_row ref row_bytes cs selected score)"

text \<open>The score of the window of \<open>len\<close> bytes at \<open>c\<close>; the caller keeps it inside the row.\<close>

definition window_score :: "byte list \<Rightarrow> byte list \<Rightarrow> nat \<Rightarrow> nat \<Rightarrow> int" where
  "window_score row px len c =
     \<bar>uint (row ! c) - uint (px ! (c mod 4))\<bar> * int len +
     int (length (filter (\<lambda>i. row ! (c + i) \<noteq> row ! (c + i - 1)) [1..<len]))"

fun best_window :: "byte list \<Rightarrow> byte list \<Rightarrow> nat \<Rightarrow> nat list \<Rightarrow> nat \<Rightarrow> int \<Rightarrow> nat" where
  "best_window row px len [] start best = start"
| "best_window row px len (c # cs) start best =
     (let score = window_score row px len c in
      if score > best then best_window row px len cs c score else best_window row px len cs start best)"

definition locate_anchor_window_bytes :: int where "locate_anchor_window_bytes = 16"
definition locate_anchor_fallback_candidates :: nat where "locate_anchor_fallback_candidates = 8"

definition select_locate_anchor :: "packed \<Rightarrow> int \<Rightarrow> byte list \<Rightarrow> (int \<times> int \<times> int) option" where
  "select_locate_anchor ref row_bytes source_pixel =
     (let dy = rect_dy (bounds ref) in
      case (if dy > 1 then best_row ref row_bytes [1..dy - 1] 1 (-1) else Some 0) of
        None \<Rightarrow> None
      | Some row \<Rightarrow>
          let start = pix_offset ref (min_x (bounds ref)) (min_y (bounds ref) + row) in
          (case islice (pix ref) start (wrap64 (start + row_bytes)) of
             None \<Rightarrow> None
           | Some anchor_row \<Rightarrow>
               let len = min row_bytes locate_anchor_window_bytes in
               Some (row, int (best_window anchor_row source_pixel (nat len) [0..<nat (row_bytes - len + 1)] 0 (-1)), len)))"

section \<open>The search\<close>

text \<open>How a candidate, a row or a pass ends; \<open>Next\<close> carries the number of false candidates.\<close>

datatype scan_end =
    Hit int int
  | Again int int int
  | Next nat

record search =
  s_src :: packed
  s_ref :: packed
  s_second :: bool
  s_anchor :: "int \<times> int \<times> int"

definition candidate :: "search \<Rightarrow> int \<Rightarrow> int \<Rightarrow> nat \<Rightarrow> nat \<Rightarrow> scan_end option" where
  "candidate s y row_start byte_offset fc =
     (let sb = bounds (s_src s); rb = bounds (s_ref s);
          pixel_offset = int byte_offset - fst (snd (s_anchor s)) in
      if pixel_offset \<ge> 0 \<and> pixel_offset mod 4 = 0 then
        let x = wrap64 (min_x sb + pixel_offset div 4) in
        if x \<le> wrap64 (max_x sb - rect_dx rb) then
          case match_at (RGBA (s_src s)) (RGBA (s_ref s)) x y of
            None \<Rightarrow> None
          | Some True \<Rightarrow> Some (Hit x y)
          | Some False \<Rightarrow>
              if \<not> s_second s \<and> Suc fc = locate_anchor_fallback_candidates then
                let start = row_start + pixel_offset in
                case islice (pix (s_src s)) start (start + 4) of
                  None \<Rightarrow> None
                | Some px \<Rightarrow>
                    (case select_locate_anchor (s_ref s) (rect_dx rb * 4) px of
                       None \<Rightarrow> None
                     | Some (r, st, len) \<Rightarrow>
                         if r \<noteq> 0 \<or> st \<noteq> 0 \<or> len \<noteq> 4 then Some (Again r st len) else Some (Next (Suc fc)))
              else Some (Next (Suc fc))
        else Some (Next fc)
      else Some (Next fc))"

function scan_row :: "(nat \<Rightarrow> nat \<Rightarrow> scan_end option) \<Rightarrow> byte list \<Rightarrow> byte list \<Rightarrow> nat \<Rightarrow> nat \<Rightarrow> scan_end option" where
  "scan_row cand row anchor pos fc =
     (if pos < length row then
        case index_of (drop pos row) anchor of
          None \<Rightarrow> Some (Next fc)
        | Some offset \<Rightarrow>
            (case cand (pos + offset) fc of
               Some (Next fc') \<Rightarrow> scan_row cand row anchor (Suc (pos + offset)) fc'
             | r \<Rightarrow> r)
      else Some (Next fc))"
  by pat_completeness auto
termination by (relation "measure (\<lambda>(cand, row, anchor, pos, fc). length row - pos)") auto

declare scan_row.simps [simp del]

fun scan_rows :: "search \<Rightarrow> byte list \<Rightarrow> int list \<Rightarrow> nat \<Rightarrow> scan_end option" where
  "scan_rows s anchor [] fc = Some (Next fc)"
| "scan_rows s anchor (y # ys) fc =
     (let row_bytes = rect_dx (bounds (s_src s)) * 4;
          row_start = pix_offset (s_src s) (min_x (bounds (s_src s))) (y + fst (s_anchor s)) in
      if row_start < 0 \<or> row_start > int (length (pix (s_src s))) - row_bytes then Some (Next fc)
      else
        case islice (pix (s_src s)) row_start (wrap64 (row_start + row_bytes)) of
          None \<Rightarrow> None
        | Some row \<Rightarrow>
            (case scan_row (candidate s y row_start) row anchor 0 fc of
               Some (Next fc') \<Rightarrow> scan_rows s anchor ys fc'
             | r \<Rightarrow> r))"

text \<open>One of the two passes, with the anchor of \<open>s\<close>.\<close>

definition anchor_pass :: "search \<Rightarrow> scan_end option" where
  "anchor_pass s =
     (let sb = bounds (s_src s); rb = bounds (s_ref s); (row, start, len) = s_anchor s;
          ref_start = pix_offset (s_ref s) (min_x rb) (min_y rb + row) in
      case islice (pix (s_ref s)) (wrap64 (ref_start + start)) (wrap64 (ref_start + start + len)) of
        None \<Rightarrow> None
      | Some anchor \<Rightarrow> scan_rows s anchor [min_y sb..wrap64 (max_y sb - rect_dy rb)] 0)"

datatype locate_error =
    EmptySearchArea
  | NilSource
  | NilReference
  | EmptyReference
  | MalformedLayout
  | ReferenceTooLarge
  | PackedLayout
  | ReferenceRows
  | NoExactMatch

text \<open>The errors that wrap \<^verbatim>\<open>ErrNotFound\<close>.\<close>

fun locate_not_found :: "locate_error \<Rightarrow> bool" where
  "locate_not_found MalformedLayout = True"
| "locate_not_found PackedLayout = True"
| "locate_not_found ReferenceRows = True"
| "locate_not_found NoExactMatch = True"
| "locate_not_found _ = False"

definition translate_rect :: "rectangle \<Rightarrow> rectangle \<Rightarrow> rectangle \<Rightarrow> rectangle" where
  "translate_rect r sb area =
     (let dx = wrap64 (min_x area - min_x sb); dy = wrap64 (min_y area - min_y sb) in
      \<lparr>min_x = wrap64 (min_x r + dx), min_y = wrap64 (min_y r + dy),
       max_x = wrap64 (max_x r + dx), max_y = wrap64 (max_y r + dy)\<rparr>)"

text \<open>The rectangle reported for a match at a position of the source image.\<close>

definition match_rect :: "rectangle \<Rightarrow> rectangle \<Rightarrow> rectangle \<Rightarrow> int \<Rightarrow> int \<Rightarrow> rectangle" where
  "match_rect sb rb area x y =
     translate_rect (image_rect x y (wrap64 (x + rect_dx rb)) (wrap64 (y + rect_dy rb))) sb area"

fun locate_pixels :: "image \<Rightarrow> image \<Rightarrow> rgba \<Rightarrow> rectangle \<Rightarrow> (int \<times> int) list \<Rightarrow> (locate_error + rectangle) option" where
  "locate_pixels src ref first_px area [] = Some (Inl NoExactMatch)"
| "locate_pixels src ref first_px area ((x, y) # xys) =
     (case image_at src x y of
        None \<Rightarrow> None
      | Some c \<Rightarrow>
          if c \<noteq> first_px then locate_pixels src ref first_px area xys
          else
            case match_at src ref x y of
              None \<Rightarrow> None
            | Some True \<Rightarrow> Some (Inr (match_rect (image_bounds src) (image_bounds ref) area x y))
            | Some False \<Rightarrow> locate_pixels src ref first_px area xys)"

definition locate_positions :: "rectangle \<Rightarrow> rectangle \<Rightarrow> (int \<times> int) list" where
  "locate_positions sb rb =
     concat (map (\<lambda>y. map (\<lambda>x. (x, y)) [min_x sb..wrap64 (max_x sb - rect_dx rb)])
       [min_y sb..wrap64 (max_y sb - rect_dy rb)])"

definition locate_packed :: "packed \<Rightarrow> packed \<Rightarrow> rectangle \<Rightarrow> (locate_error + rectangle) option" where
  "locate_packed s r area =
     (let report = (\<lambda>e. case e of
            Some (Hit x y) \<Rightarrow> Some (Inr (match_rect (bounds s) (bounds r) area x y))
          | Some _ \<Rightarrow> Some (Inl NoExactMatch)
          | None \<Rightarrow> None)
      in case anchor_pass \<lparr>s_src = s, s_ref = r, s_second = False, s_anchor = (0, 0, 4)\<rparr> of
           Some (Again row start len) \<Rightarrow>
             report (anchor_pass \<lparr>s_src = s, s_ref = r, s_second = True, s_anchor = (row, start, len)\<rparr>)
         | e \<Rightarrow> report e)"

text \<open>\<^verbatim>\<open>LocateExactInImage\<close>; a nil image is \<open>None\<close>.\<close>

definition locate_exact_in_image :: "image option \<Rightarrow> rectangle \<Rightarrow> image option \<Rightarrow> (locate_error + rectangle) option" where
  "locate_exact_in_image source area reference =
     (if rect_empty area then Some (Inl EmptySearchArea)
      else case source of
        None \<Rightarrow> Some (Inl NilSource)
      | Some src \<Rightarrow>
      (case reference of
        None \<Rightarrow> Some (Inl NilReference)
      | Some ref \<Rightarrow>
        let sb = image_bounds src; rb = image_bounds ref in
        if rect_empty rb then Some (Inl EmptyReference)
        else if \<not> valid_packed_image_layout src \<or> \<not> valid_packed_image_layout ref then Some (Inl MalformedLayout)
        else if rect_dx rb > rect_dx sb \<or> rect_dy rb > rect_dy sb then Some (Inl ReferenceTooLarge)
        else case image_at ref (min_x rb) (min_y rb) of
          None \<Rightarrow> None
        | Some first_px \<Rightarrow>
          let slow = locate_pixels src ref first_px area (locate_positions sb rb) in
          (case (src, ref) of
            (RGBA s, RGBA r) \<Rightarrow>
              (case (packed_row_bytes (rect_dx sb), packed_row_bytes (rect_dx rb)) of
                (Some src_row, Some ref_row) \<Rightarrow>
                  let off0 = pix_offset r (min_x rb) (min_y rb) in
                  if off0 \<ge> 0 \<and> off0 \<le> int (length (pix r)) - 4 \<and> stride s \<ge> src_row \<and> stride r \<ge> ref_row then
                    (case packed_buffer_size (bounds r) (stride r) of
                      None \<Rightarrow> Some (Inl ReferenceRows)
                    | Some need \<Rightarrow>
                        if int (length (pix r)) < need then Some (Inl ReferenceRows)
                        else locate_packed s r area)
                  else slow
              | _ \<Rightarrow> Some (Inl PackedLayout))
          | _ \<Rightarrow> slow)))"

section \<open>What a match is\<close>

definition same_pixels :: "packed \<Rightarrow> packed \<Rightarrow> int \<Rightarrow> int \<Rightarrow> bool" where
  "same_pixels s r x y \<longleftrightarrow>
     (\<forall>j. 0 \<le> j \<and> j < rect_dy (bounds r) \<longrightarrow> (\<forall>i. 0 \<le> i \<and> i < rect_dx (bounds r) \<longrightarrow>
        pixel s (x + i) (y + j) = pixel r (min_x (bounds r) + i) (min_y (bounds r) + j)))"

definition fits_at :: "packed \<Rightarrow> packed \<Rightarrow> int \<Rightarrow> int \<Rightarrow> bool" where
  "fits_at s r x y \<longleftrightarrow>
     min_x (bounds s) \<le> x \<and> x + rect_dx (bounds r) \<le> max_x (bounds s) \<and>
     min_y (bounds s) \<le> y \<and> y + rect_dy (bounds r) \<le> max_y (bounds s)"

lemma concat_map_eq_iff:
  "length xs = length ys \<Longrightarrow> \<forall>(a, b) \<in> set (zip xs ys). length (f a) = length (g b) \<Longrightarrow>
     concat (map f xs) = concat (map g ys) \<longleftrightarrow> (\<forall>(a, b) \<in> set (zip xs ys). f a = g b)"
  by (induction xs ys rule: list_induct2) auto

lemma upto_shift_map: "map f [a..a + n - 1] = map (\<lambda>i. f (a + i)) [0..n - 1]"
proof (cases "0 \<le> n")
  case True
  then show ?thesis using map_upto_upt [of f a "nat n"] map_upto_upt [of "\<lambda>i. f (a + i)" 0 "nat n"] by simp
qed simp

lemma row_segments_equal:
  assumes "good_packed s" "good_packed r" "0 \<le> n"
    "min_x (bounds s) \<le> x" "x + n \<le> max_x (bounds s)" "min_y (bounds s) \<le> y" "y < max_y (bounds s)"
    "min_x (bounds r) \<le> x'" "x' + n \<le> max_x (bounds r)" "min_y (bounds r) \<le> y'" "y' < max_y (bounds r)"
  shows "row_segment s x y n = row_segment r x' y' n \<longleftrightarrow> (\<forall>i. 0 \<le> i \<and> i < n \<longrightarrow> pixel s (x + i) y = pixel r (x' + i) y')"
proof -
  have e: "row_segment s x y n = concat (map (\<lambda>i. pixel s (x + i) y) [0..n - 1])"
    "row_segment r x' y' n = concat (map (\<lambda>i. pixel r (x' + i) y') [0..n - 1])"
    using row_segment_pixels [of s x y "nat n"] row_segment_pixels [of r x' y' "nat n"] assms
    by (simp_all add: upto_shift_map [of _ x] upto_shift_map [of _ x'])
  have "length (pixel s (x + i) y) = length (pixel r (x' + i) y')" if "0 \<le> i" "i < n" for i
    using that assms by (simp add: length_pixel point_in_def)
  then have "\<forall>(a, b) \<in> set (zip [0..n - 1] [0..n - 1]). length (pixel s (x + a) y) = length (pixel r (x' + b) y')"
    by (auto simp: zip_same_conv_map)
  from concat_map_eq_iff [OF refl this] show ?thesis unfolding e by (auto simp: zip_same_conv_map)
qed

lemma match_rows_good:
  assumes "good_packed s" "good_packed r" "fits_at s r x y"
    "\<forall>j \<in> set js. 0 \<le> j \<and> j < rect_dy (bounds r)"
  shows "match_rows s r (rect_dx (bounds r) * 4) x y js =
    Some (\<forall>j \<in> set js. \<forall>i. 0 \<le> i \<and> i < rect_dx (bounds r) \<longrightarrow>
      pixel s (x + i) (y + j) = pixel r (min_x (bounds r) + i) (min_y (bounds r) + j))"
  using assms(4)
proof (induction js)
  case (Cons j js)
  note fr = good_packed_facts [OF assms(2)] and fs = good_packed_facts [OF assms(1)]
  let ?n = "rect_dx (bounds r)" and ?ry = "min_y (bounds r) + j"
  have n: "0 \<le> ?n" "min_x (bounds r) + ?n \<le> max_x (bounds r)" using fr(1,3) by simp_all
  have j: "min_y (bounds r) \<le> ?ry" "?ry < max_y (bounds r)" using Cons.prems fr(4) by simp_all
  have sy: "min_y (bounds s) \<le> y + j" "y + j < max_y (bounds s)" "x \<le> max_x (bounds s)"
    using Cons.prems assms(3) n by (auto simp: fits_at_def)
  have os: "0 \<le> exact_offset s x (y + j)" "exact_offset s x (y + j) + ?n * 4 \<le> int (length (pix s))"
    "exact_offset s x (y + j) + ?n * 4 \<le> max_int" "pix_offset s x (y + j) = exact_offset s x (y + j)"
    using good_packed_offset [OF assms(1), of x "y + j" ?n] sy assms(3) n by (auto simp: fits_at_def)
  have ro: "0 \<le> exact_offset r (min_x (bounds r)) ?ry" "exact_offset r (min_x (bounds r)) ?ry + ?n * 4 \<le> int (length (pix r))"
    "exact_offset r (min_x (bounds r)) ?ry + ?n * 4 \<le> max_int"
    "pix_offset r (min_x (bounds r)) ?ry = exact_offset r (min_x (bounds r)) ?ry"
    using good_packed_offset [OF assms(2), of "min_x (bounds r)" ?ry ?n] j n fr(1) by auto
  have w: "wrap64 (exact_offset s x (y + j) + ?n * 4) = exact_offset s x (y + j) + ?n * 4"
    "wrap64 (exact_offset r (min_x (bounds r)) ?ry + ?n * 4) = exact_offset r (min_x (bounds r)) ?ry + ?n * 4"
    using os ro n by (simp_all add: in_int_def min_int_def)
  have i: "islice (pix s) (exact_offset s x (y + j)) (exact_offset s x (y + j) + ?n * 4) = Some (row_segment s x (y + j) ?n)"
    "islice (pix r) (exact_offset r (min_x (bounds r)) ?ry) (exact_offset r (min_x (bounds r)) ?ry + ?n * 4) =
      Some (row_segment r (min_x (bounds r)) ?ry ?n)"
    using os ro n by (simp_all add: islice_ok row_segment_def)
  have eq: "row_segment s x (y + j) ?n = row_segment r (min_x (bounds r)) ?ry ?n \<longleftrightarrow>
      (\<forall>i. 0 \<le> i \<and> i < ?n \<longrightarrow> pixel s (x + i) (y + j) = pixel r (min_x (bounds r) + i) ?ry)"
    using assms(1-3) n j sy by (intro row_segments_equal) (auto simp: fits_at_def)
  show ?case
    using Cons os ro by (auto simp: w i eq Let_def)
qed simp

lemma match_at_packed:
  assumes "good_packed s" "good_packed r" "fits_at s r x y"
  shows "match_at (RGBA s) (RGBA r) x y = Some (same_pixels s r x y)"
proof -
  note fr = good_packed_facts [OF assms(2)] and fs = good_packed_facts [OF assms(1)]
  have "packed_row_bytes (rect_dx (bounds r)) = Some (rect_dx (bounds r) * 4)"
    using good_width [OF assms(2)] fr(3) by (simp add: packed_row_bytes_Some)
  moreover obtain a where "packed_buffer_size (bounds s) (stride s) = Some a" using fs(9) by blast
  moreover obtain b where "packed_buffer_size (bounds r) (stride r) = Some b" using fr(9) by blast
  ultimately show ?thesis
    using match_rows_good [OF assms, of "[0..rect_dy (bounds r) - 1]"]
    by (auto simp: match_at_def same_pixels_def Let_def)
qed

text \<open>The generic path compares the same pixels.\<close>

lemma match_pixels_generic:
  assumes "\<forall>(i, j) \<in> set ps. in_int (x + i) \<and> in_int (y + j) \<and> in_int (min_x rb + i) \<and> in_int (min_y rb + j)"
  shows "match_pixels (Generic sb f) (Generic rb g) x y ps =
    Some (\<forall>(i, j) \<in> set ps. f (x + i) (y + j) = g (min_x rb + i) (min_y rb + j))"
  using assms by (induction ps) auto

lemma match_at_generic:
  assumes "good_packed s" "good_packed r" "fits_at s r x y"
  shows "match_at (Generic (bounds s) (pixel s)) (Generic (bounds r) (pixel r)) x y = Some (same_pixels s r x y)"
proof -
  note fr = good_packed_facts [OF assms(2)] and fs = good_packed_facts [OF assms(1)]
  let ?ps = "points \<lparr>min_x = 0, min_y = 0, max_x = rect_dx (bounds r), max_y = rect_dy (bounds r)\<rparr>"
  have ps: "(i, j) \<in> set ?ps \<longleftrightarrow> 0 \<le> i \<and> i < rect_dx (bounds r) \<and> 0 \<le> j \<and> j < rect_dy (bounds r)" for i j
    by (auto simp: points_set point_in_def)
  have "rect_ints (bounds s)" "rect_ints (bounds r)" using assms(1,2) by (auto simp: good_packed_def rect_sane_def)
  then have "in_int (x + i) \<and> in_int (y + j) \<and> in_int (min_x (bounds r) + i) \<and> in_int (min_y (bounds r) + j)"
    if "0 \<le> i" "i < rect_dx (bounds r)" "0 \<le> j" "j < rect_dy (bounds r)" for i j
    using that assms(3) fr(3,4) by (simp add: fits_at_def rect_ints_def in_int_def)
  then have "\<forall>(i, j) \<in> set ?ps. in_int (x + i) \<and> in_int (y + j) \<and> in_int (min_x (bounds r) + i) \<and> in_int (min_y (bounds r) + j)"
    using ps by blast
  from match_pixels_generic [OF this] have "match_pixels (Generic (bounds s) (pixel s)) (Generic (bounds r) (pixel r)) x y ?ps =
      Some (\<forall>(i, j) \<in> set ?ps. pixel s (x + i) (y + j) = pixel r (min_x (bounds r) + i) (min_y (bounds r) + j))" .
  moreover have "(\<forall>(i, j) \<in> set ?ps. pixel s (x + i) (y + j) = pixel r (min_x (bounds r) + i) (min_y (bounds r) + j)) =
      same_pixels s r x y"
    unfolding same_pixels_def Ball_def split_paired_All prod.case ps by blast
  ultimately show ?thesis by (simp add: match_at_def Let_def)
qed

section \<open>The generic search finds the first match\<close>

text \<open>Two images of accepted layouts, the reference not larger than the source.\<close>

definition searchable :: "packed \<Rightarrow> packed \<Rightarrow> bool" where
  "searchable s r \<longleftrightarrow> good_packed s \<and> good_packed r \<and>
     rect_dx (bounds r) \<le> rect_dx (bounds s) \<and> rect_dy (bounds r) \<le> rect_dy (bounds s)"

definition xs_of :: "packed \<Rightarrow> packed \<Rightarrow> int list" where
  "xs_of s r = [min_x (bounds s)..max_x (bounds s) - rect_dx (bounds r)]"

definition ys_of :: "packed \<Rightarrow> packed \<Rightarrow> int list" where
  "ys_of s r = [min_y (bounds s)..max_y (bounds s) - rect_dy (bounds r)]"

definition positions_of :: "int list \<Rightarrow> int list \<Rightarrow> (int \<times> int) list" where
  "positions_of xs ys = concat (map (\<lambda>y. map (\<lambda>x. (x, y)) xs) ys)"

lemma searchable_limits:
  assumes "searchable s r"
  shows "wrap64 (max_x (bounds s) - rect_dx (bounds r)) = max_x (bounds s) - rect_dx (bounds r)"
    "wrap64 (max_y (bounds s) - rect_dy (bounds r)) = max_y (bounds s) - rect_dy (bounds r)"
    "0 < rect_dx (bounds r)" "0 < rect_dy (bounds r)"
    "min_x (bounds s) \<le> max_x (bounds s) - rect_dx (bounds r)" "min_y (bounds s) \<le> max_y (bounds s) - rect_dy (bounds r)"
proof -
  have g: "good_packed s" "good_packed r" and d: "rect_dx (bounds r) \<le> rect_dx (bounds s)" "rect_dy (bounds r) \<le> rect_dy (bounds s)"
    using assms by (simp_all add: searchable_def)
  note fr = good_packed_facts [OF g(2)] and fs = good_packed_facts [OF g(1)]
  have i: "rect_ints (bounds s)" using g(1) by (simp add: good_packed_def rect_sane_def)
  show "wrap64 (max_x (bounds s) - rect_dx (bounds r)) = max_x (bounds s) - rect_dx (bounds r)"
    "wrap64 (max_y (bounds s) - rect_dy (bounds r)) = max_y (bounds s) - rect_dy (bounds r)"
    "0 < rect_dx (bounds r)" "0 < rect_dy (bounds r)"
    "min_x (bounds s) \<le> max_x (bounds s) - rect_dx (bounds r)" "min_y (bounds s) \<le> max_y (bounds s) - rect_dy (bounds r)"
    using d i fs(3,4) fr(1,2,3,4) by (simp_all add: rect_ints_def in_int_def)
qed

lemma locate_positions_eq:
  "searchable s r \<Longrightarrow> locate_positions (bounds s) (bounds r) = positions_of (xs_of s r) (ys_of s r)"
  by (simp add: locate_positions_def positions_of_def xs_of_def ys_of_def searchable_limits)

lemma positions_fit: "(x, y) \<in> set (positions_of (xs_of s r) (ys_of s r)) \<Longrightarrow> fits_at s r x y"
  by (auto simp: positions_of_def xs_of_def ys_of_def fits_at_def)

definition report_match :: "packed \<Rightarrow> packed \<Rightarrow> rectangle \<Rightarrow> (int \<times> int) option \<Rightarrow> locate_error + rectangle" where
  "report_match s r area p =
     (case p of None \<Rightarrow> Inl NoExactMatch | Some (x, y) \<Rightarrow> Inr (match_rect (bounds s) (bounds r) area x y))"

lemma locate_pixels_generic:
  assumes "searchable s r" "\<forall>(x, y) \<in> set ps. fits_at s r x y"
  shows "locate_pixels (Generic (bounds s) (pixel s)) (Generic (bounds r) (pixel r))
      (pixel r (min_x (bounds r)) (min_y (bounds r))) area ps =
    Some (report_match s r area (find (\<lambda>(x, y). same_pixels s r x y) ps))"
  using assms(2)
proof (induction ps)
  case (Cons p ps)
  obtain x y where p: "p = (x, y)" by (cases p)
  have m: "match_at (Generic (bounds s) (pixel s)) (Generic (bounds r) (pixel r)) x y = Some (same_pixels s r x y)"
    using assms(1) Cons.prems p by (intro match_at_generic) (auto simp: searchable_def)
  have first: "pixel s x y = pixel r (min_x (bounds r)) (min_y (bounds r))" if "same_pixels s r x y"
    using that searchable_limits(3,4) [OF assms(1)] unfolding same_pixels_def by force
  show ?case using Cons m first by (auto simp: p report_match_def)
qed (simp add: report_match_def)

section \<open>The anchor search finds the first match\<close>

definition good_anchor :: "packed \<Rightarrow> int \<times> int \<times> int \<Rightarrow> bool" where
  "good_anchor r a \<longleftrightarrow>
     (case a of (row, start, len) \<Rightarrow>
        0 \<le> row \<and> row < rect_dy (bounds r) \<and> 0 \<le> start \<and> 0 < len \<and> start + len \<le> rect_dx (bounds r) * 4)"

lemma row_slice:
  assumes "good_packed r" "0 \<le> c" "c < rect_dy (bounds r)"
  shows "islice (pix r) (pix_offset r (min_x (bounds r)) (min_y (bounds r) + c))
      (wrap64 (pix_offset r (min_x (bounds r)) (min_y (bounds r) + c) + rect_dx (bounds r) * 4)) =
    Some (row_segment r (min_x (bounds r)) (min_y (bounds r) + c) (rect_dx (bounds r)))"
proof -
  note fr = good_packed_facts [OF assms(1)]
  let ?o = "exact_offset r (min_x (bounds r)) (min_y (bounds r) + c)"
  have o: "0 \<le> ?o" "?o + rect_dx (bounds r) * 4 \<le> int (length (pix r))" "?o + rect_dx (bounds r) * 4 \<le> max_int"
    "pix_offset r (min_x (bounds r)) (min_y (bounds r) + c) = ?o"
    using good_packed_offset [OF assms(1), of "min_x (bounds r)" "min_y (bounds r) + c" "rect_dx (bounds r)"] assms fr by auto
  have n: "0 \<le> rect_dx (bounds r) * 4" using fr(1,3) by simp
  then have "wrap64 (?o + rect_dx (bounds r) * 4) = ?o + rect_dx (bounds r) * 4"
    using o by (simp add: in_int_def min_int_def)
  then show ?thesis using o n by (simp add: islice_ok row_segment_def)
qed

lemma best_row_good:
  assumes "good_packed r" "\<forall>c \<in> set cs. 0 \<le> c \<and> c < rect_dy (bounds r)" "0 \<le> selected" "selected < rect_dy (bounds r)"
  shows "\<exists>row. best_row r (rect_dx (bounds r) * 4) cs selected score = Some row \<and> 0 \<le> row \<and> row < rect_dy (bounds r)"
  using assms(2-4) by (induction cs arbitrary: selected score) (auto simp: row_slice [OF assms(1)] Let_def)

lemma best_window_in: "best_window row px len cs start best \<in> insert start (set cs)"
  by (induction cs arbitrary: start best) (auto simp: Let_def)

lemma best_window_less: "0 < n \<Longrightarrow> best_window row px len [0..<n] 0 best < n"
  using best_window_in [of row px len "[0..<n]" 0 best] by auto

lemma select_locate_anchor_good:
  assumes "good_packed r"
  shows "\<exists>a. select_locate_anchor r (rect_dx (bounds r) * 4) px = Some a \<and> good_anchor r a"
proof -
  note fr = good_packed_facts [OF assms]
  let ?n = "rect_dx (bounds r) * 4" and ?len = "min (rect_dx (bounds r) * 4) locate_anchor_window_bytes"
  have pos: "0 < rect_dx (bounds r)" "0 < rect_dy (bounds r)" using fr(1-4) by simp_all
  obtain row where row: "(if rect_dy (bounds r) > 1 then best_row r ?n [1..rect_dy (bounds r) - 1] 1 (-1) else Some 0) = Some row"
    and ok: "0 \<le> row" "row < rect_dy (bounds r)"
  proof (cases "rect_dy (bounds r) > 1")
    case True
    then show ?thesis using best_row_good [OF assms, of "[1..rect_dy (bounds r) - 1]" 1 "-1"] that by auto
  next
    case False
    then show ?thesis using that [of 0] pos by simp
  qed
  have len: "0 < ?len" "?len \<le> ?n" using pos by (auto simp: locate_anchor_window_bytes_def)
  let ?w = "best_window (row_segment r (min_x (bounds r)) (min_y (bounds r) + row) (rect_dx (bounds r))) px (nat ?len) [0..<nat (?n - ?len + 1)] 0 (-1)"
  have "?w < nat (?n - ?len + 1)" using len(2) by (intro best_window_less) simp
  then have "int ?w + ?len \<le> ?n" by linarith
  then have "good_anchor r (row, int ?w, ?len)" using ok len by (simp add: good_anchor_def)
  moreover have "select_locate_anchor r ?n px = Some (row, int ?w, ?len)"
    unfolding select_locate_anchor_def Let_def row option.case row_slice [OF assms ok] by (rule refl)
  ultimately show ?thesis by blast
qed

definition search_ok :: "search \<Rightarrow> bool" where
  "search_ok q \<longleftrightarrow> searchable (s_src q) (s_ref q) \<and> good_anchor (s_ref q) (s_anchor q) \<and>
     (\<not> s_second q \<longrightarrow> s_anchor q = (0, 0, 4))"

text \<open>What the scan of a row is told about one candidate offset.\<close>

fun candidate_ok :: "search \<Rightarrow> int \<Rightarrow> nat \<Rightarrow> scan_end \<Rightarrow> bool" where
  "candidate_ok q y off (Hit x y') \<longleftrightarrow> y' = y \<and> x \<in> set (xs_of (s_src q) (s_ref q)) \<and> same_pixels (s_src q) (s_ref q) x y \<and>
     int off = (x - min_x (bounds (s_src q))) * 4 + fst (snd (s_anchor q))"
| "candidate_ok q y off (Again r st len) \<longleftrightarrow> \<not> s_second q \<and> good_anchor (s_ref q) (r, st, len)"
| "candidate_ok q y off (Next fc) \<longleftrightarrow> (\<forall>x \<in> set (xs_of (s_src q) (s_ref q)).
     int off = (x - min_x (bounds (s_src q))) * 4 + fst (snd (s_anchor q)) \<longrightarrow> \<not> same_pixels (s_src q) (s_ref q) x y)"

lemma candidate_good:
  assumes "search_ok q" "y \<in> set (ys_of (s_src q) (s_ref q))"
    "row_start = pix_offset (s_src q) (min_x (bounds (s_src q))) (y + fst (s_anchor q))"
    "int off < rect_dx (bounds (s_src q)) * 4"
  shows "\<exists>e. candidate q y row_start off fc = Some e \<and> candidate_ok q y off e"
proof -
  obtain s r where sr: "s_src q = s" "s_ref q = r" by blast
  obtain ar ast al where an: "s_anchor q = (ar, ast, al)" by (cases "s_anchor q")
  have g: "searchable s r" "good_packed s" "good_packed r" and ga: "good_anchor r (ar, ast, al)"
    and second: "\<not> s_second q \<Longrightarrow> ar = 0 \<and> ast = 0 \<and> al = 4"
    using assms(1) sr an by (auto simp: search_ok_def searchable_def)
  note fs = good_packed_facts [OF g(2)] and lim = searchable_limits [OF g(1)]
  let ?po = "int off - ast"
  show ?thesis
  proof (cases "0 \<le> ?po \<and> ?po mod 4 = 0")
    case False
    have "int off \<noteq> (x - min_x (bounds s)) * 4 + ast" if "x \<in> set (xs_of s r)" for x
      using that False by (auto simp: xs_of_def)
    moreover have "candidate q y row_start off fc = Some (Next fc)"
      by (simp only: candidate_def Let_def an sr fst_conv snd_conv False if_False)
    ultimately show ?thesis using sr an by simp
  next
    case True
    then have "?po = ?po div 4 * 4" "0 \<le> ?po div 4" using minus_mod_eq_div_mult [of ?po 4] by simp_all
    then obtain k where k: "?po = k * 4" "0 \<le> k" by blast
    let ?x = "min_x (bounds s) + k"
    have "k * 4 < rect_dx (bounds s) * 4" using k(1) assms(4) sr ga by (simp add: good_anchor_def)
    then have kx: "?x < max_x (bounds s)" using fs(3) by simp
    have "in_int ?x" using kx k(2) g(2) by (simp add: good_packed_def rect_sane_def rect_ints_def in_int_def)
    then have wx: "wrap64 (min_x (bounds s) + ?po div 4) = ?x" using k by simp
    have c: "candidate q y row_start off fc =
        (if ?x \<le> max_x (bounds s) - rect_dx (bounds r) then
          case match_at (RGBA s) (RGBA r) ?x y of
            None \<Rightarrow> None
          | Some True \<Rightarrow> Some (Hit ?x y)
          | Some False \<Rightarrow>
              if \<not> s_second q \<and> Suc fc = locate_anchor_fallback_candidates then
                case islice (pix s) (row_start + ?po) (row_start + ?po + 4) of
                  None \<Rightarrow> None
                | Some px \<Rightarrow>
                    (case select_locate_anchor r (rect_dx (bounds r) * 4) px of
                       None \<Rightarrow> None
                     | Some (r, st, len) \<Rightarrow>
                         if r \<noteq> 0 \<or> st \<noteq> 0 \<or> len \<noteq> 4 then Some (Again r st len) else Some (Next (Suc fc)))
              else Some (Next (Suc fc))
        else Some (Next fc))"
      by (simp only: candidate_def Let_def an sr fst_conv snd_conv True simp_thms if_True wx lim(1))
    have uniq: "int off = (x - min_x (bounds s)) * 4 + ast \<longleftrightarrow> x = ?x" for x using k by auto
    show ?thesis
    proof (cases "?x \<le> max_x (bounds s) - rect_dx (bounds r)")
      case False
      then have "\<forall>x \<in> set (xs_of s r). x \<noteq> ?x" by (auto simp: xs_of_def)
      then show ?thesis using c False sr an uniq by simp
    next
      case le: True
      have fit: "fits_at s r ?x y" and inx: "?x \<in> set (xs_of s r)"
        using assms(2) sr le k(2) by (auto simp: fits_at_def ys_of_def xs_of_def)
      have m: "match_at (RGBA s) (RGBA r) ?x y = Some (same_pixels s r ?x y)"
        by (rule match_at_packed [OF g(2,3) fit])
      show ?thesis
      proof (cases "same_pixels s r ?x y")
        case True
        then show ?thesis
          using c le sr an m inx k by simp
      next
        case no: False
        then have next_ok: "candidate_ok q y off (Next n)" for n using sr an uniq by simp
        show ?thesis
        proof (cases "\<not> s_second q \<and> Suc fc = locate_anchor_fallback_candidates")
          case False
          then show ?thesis
            using c le m no next_ok by auto
        next
          case re: True
          have z: "ar = 0" "ast = 0" using second re by auto
          have "0 \<le> exact_offset s (min_x (bounds s)) y" "pix_offset s (min_x (bounds s)) y = exact_offset s (min_x (bounds s)) y"
            "exact_offset s (min_x (bounds s)) y + rect_dx (bounds s) * 4 \<le> int (length (pix s))"
            using good_packed_offset [OF g(2), of "min_x (bounds s)" y "rect_dx (bounds s)"] assms(2) sr fs lim(4) by (auto simp: ys_of_def)
          then obtain px where px: "islice (pix s) (row_start + ?po) (row_start + ?po + 4) = Some px"
            using k z an assms(3) sr kx fs(3) by (simp add: islice_ok)
          obtain r' st' l' where a: "select_locate_anchor r (rect_dx (bounds r) * 4) px = Some (r', st', l')" "good_anchor r (r', st', l')"
            using select_locate_anchor_good [OF g(3), of px] by (metis prod_cases3)
          show ?thesis
            unfolding c using le sr m no next_ok re px a by auto
        qed
      qed
    qed
  qed
qed

fun row_ok :: "search \<Rightarrow> int \<Rightarrow> scan_end \<Rightarrow> bool" where
  "row_ok q y (Hit x y') \<longleftrightarrow> y' = y \<and> x \<in> set (xs_of (s_src q) (s_ref q)) \<and> same_pixels (s_src q) (s_ref q) x y \<and>
     (\<forall>x' \<in> set (xs_of (s_src q) (s_ref q)). x' < x \<longrightarrow> \<not> same_pixels (s_src q) (s_ref q) x' y)"
| "row_ok q y (Again r st len) \<longleftrightarrow> \<not> s_second q \<and> good_anchor (s_ref q) (r, st, len)"
| "row_ok q y (Next fc) \<longleftrightarrow> (\<forall>x \<in> set (xs_of (s_src q) (s_ref q)). \<not> same_pixels (s_src q) (s_ref q) x y)"

definition byte_pos :: "search \<Rightarrow> int \<Rightarrow> int" where
  "byte_pos q x = (x - min_x (bounds (s_src q))) * 4 + fst (snd (s_anchor q))"

lemma scan_row_good:
  assumes cand: "\<And>off fc. off < length row \<Longrightarrow> \<exists>e. cand off fc = Some e \<and> candidate_ok q y off e"
    and occ: "\<And>x. x \<in> set (xs_of (s_src q) (s_ref q)) \<Longrightarrow> same_pixels (s_src q) (s_ref q) x y \<Longrightarrow>
      0 \<le> byte_pos q x \<and> nat (byte_pos q x) < length row \<and> is_prefix anchor (drop (nat (byte_pos q x)) row)"
    and ne: "anchor \<noteq> []"
    and inv: "\<forall>x \<in> set (xs_of (s_src q) (s_ref q)). byte_pos q x < int p \<longrightarrow> \<not> same_pixels (s_src q) (s_ref q) x y"
  shows "\<exists>e. scan_row cand row anchor p fc = Some e \<and> row_ok q y e"
  using inv
proof (induction "length row - p" arbitrary: p fc rule: less_induct)
  case less
  have later: "p \<le> nat (byte_pos q x)" if "x \<in> set (xs_of (s_src q) (s_ref q))" "same_pixels (s_src q) (s_ref q) x y" for x
    using less.prems that occ [OF that] by (meson not_le nat_less_iff)
  show ?case
  proof (cases "p < length row")
    case False
    then have "\<forall>x \<in> set (xs_of (s_src q) (s_ref q)). \<not> same_pixels (s_src q) (s_ref q) x y"
      using later occ by fastforce
    then show ?thesis using False by (simp add: scan_row.simps)
  next
    case p: True
    show ?thesis
    proof (cases "index_of (drop p row) anchor")
      case None
      have "\<not> same_pixels (s_src q) (s_ref q) x y" if x: "x \<in> set (xs_of (s_src q) (s_ref q))" for x
      proof
        assume m: "same_pixels (s_src q) (s_ref q) x y"
        have "is_prefix anchor (drop (nat (byte_pos q x) - p) (drop p row))"
          using occ [OF x m] later [OF x m] by simp
        moreover have "nat (byte_pos q x) - p \<le> length (drop p row)" using occ [OF x m] by auto
        ultimately show False using index_of_None [OF None] by blast
      qed
      then show ?thesis using p None by (simp add: scan_row.simps)
    next
      case (Some k)
      note k = index_of_Some [OF Some]
      have off: "p + k < length row"
      proof (rule ccontr)
        assume "\<not> p + k < length row"
        then have "drop k (drop p row) = []" by simp
        with k ne show False by (cases anchor) auto
      qed
      have before: "\<not> same_pixels (s_src q) (s_ref q) x y" if x: "x \<in> set (xs_of (s_src q) (s_ref q))" "byte_pos q x < int (p + k)" for x
      proof
        assume m: "same_pixels (s_src q) (s_ref q) x y"
        have "is_prefix anchor (drop (nat (byte_pos q x) - p) (drop p row))" "nat (byte_pos q x) - p < k"
          using occ [OF x(1) m] later [OF x(1) m] x(2) by auto
        with k show False by blast
      qed
      obtain e where e: "cand (p + k) fc = Some e" "candidate_ok q y (p + k) e" using cand [OF off] by blast
      show ?thesis
      proof (cases e)
        case (Hit x y')
        then have "\<forall>x' \<in> set (xs_of (s_src q) (s_ref q)). x' < x \<longrightarrow> \<not> same_pixels (s_src q) (s_ref q) x' y"
          using e(2) before by (auto simp: byte_pos_def)
        then show ?thesis using p Some e Hit by (simp add: scan_row.simps)
      next
        case (Again r st len)
        then show ?thesis using p Some e by (simp add: scan_row.simps)
      next
        case (Next fc')
        have "\<forall>x \<in> set (xs_of (s_src q) (s_ref q)). byte_pos q x < int (Suc (p + k)) \<longrightarrow> \<not> same_pixels (s_src q) (s_ref q) x y"
        proof (intro ballI impI)
          fix x assume x: "x \<in> set (xs_of (s_src q) (s_ref q))" "byte_pos q x < int (Suc (p + k))"
          then consider "byte_pos q x < int (p + k)" | "byte_pos q x = int (p + k)" by linarith
          then show "\<not> same_pixels (s_src q) (s_ref q) x y"
            using before [OF x(1)] e(2) Next x(1) by cases (auto simp: byte_pos_def)
        qed
        then have "\<exists>e. scan_row cand row anchor (Suc (p + k)) fc' = Some e \<and> row_ok q y e"
          using off by (intro less.hyps) auto
        then show ?thesis using p Some e Next by (simp add: scan_row.simps [of cand row anchor p])
      qed
    qed
  qed
qed

text \<open>The anchor bytes occur where the reference matches.\<close>

definition anchor_bytes :: "packed \<Rightarrow> int \<times> int \<times> int \<Rightarrow> byte list" where
  "anchor_bytes r a = (case a of (row, start, len) \<Rightarrow>
     take (nat len) (drop (nat start) (row_segment r (min_x (bounds r)) (min_y (bounds r) + row) (rect_dx (bounds r)))))"

lemma anchor_occurs:
  assumes "search_ok q" "y \<in> set (ys_of (s_src q) (s_ref q))" "x \<in> set (xs_of (s_src q) (s_ref q))"
    "same_pixels (s_src q) (s_ref q) x y" "s_anchor q = (ar, ast, al)"
    "row = row_segment (s_src q) (min_x (bounds (s_src q))) (y + ar) (rect_dx (bounds (s_src q)))"
  shows "0 \<le> byte_pos q x \<and> nat (byte_pos q x) < length row \<and> is_prefix (anchor_bytes (s_ref q) (ar, ast, al)) (drop (nat (byte_pos q x)) row)"
proof -
  obtain s r where sr: "s_src q = s" "s_ref q = r" by blast
  have g: "searchable s r" "good_packed s" "good_packed r" and ga: "good_anchor r (ar, ast, al)"
    using assms(1,5) sr by (auto simp: search_ok_def searchable_def)
  note fs = good_packed_facts [OF g(2)] and fr = good_packed_facts [OF g(3)] and lim = searchable_limits [OF g(1)]
  let ?dx = "rect_dx (bounds r)" and ?Dx = "rect_dx (bounds s)" and ?mx = "min_x (bounds s)"
  have a: "0 \<le> ar" "ar < rect_dy (bounds r)" "0 \<le> ast" "0 < al" "ast + al \<le> ?dx * 4" using ga by (auto simp: good_anchor_def)
  have x: "?mx \<le> x" "x + ?dx \<le> max_x (bounds s)" and y: "min_y (bounds s) \<le> y + ar" "y + ar < max_y (bounds s)"
    using assms(2,3) sr a by (auto simp: xs_of_def ys_of_def)
  have seg: "row_segment s x (y + ar) ?dx = row_segment r (min_x (bounds r)) (min_y (bounds r) + ar) ?dx"
    using assms(4) sr a x y g lim(3) fr(1-4)
    by (subst row_segments_equal) (auto simp: same_pixels_def)
  have o: "exact_offset s x (y + ar) = exact_offset s ?mx (y + ar) + (x - ?mx) * 4" by (simp add: exact_offset_def)
  have o0: "0 \<le> exact_offset s ?mx (y + ar)" using good_packed_offset(1) [OF g(2), of ?mx "y + ar" 0] y fs(1) by simp
  have sub: "take (nat (?dx * 4)) (drop (nat ((x - ?mx) * 4)) row) = row_segment s x (y + ar) ?dx"
  proof -
    have "nat (?Dx * 4) - nat ((x - ?mx) * 4) \<ge> nat (?dx * 4)" using x fs(3) lim(3) by simp
    then show ?thesis
      using x o o0 by (simp add: assms(6) sr row_segment_def drop_take min_absorb1 nat_add_distrib add.commute)
  qed
  have len: "length row = nat (?Dx * 4)" unfolding assms(6) sr using y fs by (intro length_row_segment [OF g(2)]) auto
  have bp: "byte_pos q x = (x - ?mx) * 4 + ast" using sr assms(5) by (simp add: byte_pos_def)
  then have b0: "0 \<le> byte_pos q x" "nat (byte_pos q x) = nat ((x - ?mx) * 4) + nat ast" using x a by (auto simp: nat_add_distrib)
  have "byte_pos q x < ?Dx * 4" using bp a x fs(3) by simp
  then have b1: "nat (byte_pos q x) < length row" using b0(1) len by simp
  have "anchor_bytes r (ar, ast, al) = take (nat al) (drop (nat ast) (take (nat (?dx * 4)) (drop (nat ((x - ?mx) * 4)) row)))"
    unfolding sub seg by (simp add: anchor_bytes_def)
  also have "\<dots> = take (nat al) (drop (nat (byte_pos q x)) row)"
    using a b0(2) by (simp add: drop_take take_take min_absorb1 add.commute)
  finally have e: "anchor_bytes r (ar, ast, al) = take (nat al) (drop (nat (byte_pos q x)) row)" .
  have "nat al \<le> length row - nat (byte_pos q x)" using len bp a x fs(3) b0(1) by simp
  then have "length (anchor_bytes r (ar, ast, al)) = nat al" by (simp add: e)
  then have "is_prefix (anchor_bytes r (ar, ast, al)) (drop (nat (byte_pos q x)) row)" by (simp add: is_prefix_take e)
  then show ?thesis using b0(1) b1 sr by simp
qed

fun pass_ok :: "search \<Rightarrow> int list \<Rightarrow> scan_end \<Rightarrow> bool" where
  "pass_ok q ys (Hit x y) \<longleftrightarrow>
     find (\<lambda>(x, y). same_pixels (s_src q) (s_ref q) x y) (positions_of (xs_of (s_src q) (s_ref q)) ys) = Some (x, y)"
| "pass_ok q ys (Again r st len) \<longleftrightarrow> \<not> s_second q \<and> good_anchor (s_ref q) (r, st, len)"
| "pass_ok q ys (Next fc) \<longleftrightarrow>
     find (\<lambda>(x, y). same_pixels (s_src q) (s_ref q) x y) (positions_of (xs_of (s_src q) (s_ref q)) ys) = None"

lemma find_append: "find P (xs @ ys) = (case find P xs of None \<Rightarrow> find P ys | Some x \<Rightarrow> Some x)"
  by (induction xs) auto

lemma find_upto_first:
  "x \<in> set [a..b] \<Longrightarrow> P x \<Longrightarrow> (\<forall>x' \<in> set [a..b]. x' < x \<longrightarrow> \<not> P x') \<Longrightarrow>
     find (\<lambda>(x, y). Q x y) (map (\<lambda>x. (x, y)) [a..b]) = Some (x, y)" if "\<forall>x. Q x y = P x" for a b x :: int
proof (induction "nat (b - a)" arbitrary: a rule: less_induct)
  case less
  show ?case
  proof (cases "x = a")
    case True
    then show ?thesis using less.prems that upto_rec1 [of a b] by simp
  next
    case False
    then have "a < x" "a \<le> b" using less.prems(1) by auto
    moreover have "\<not> P a" using less.prems(3) \<open>a < x\<close> \<open>a \<le> b\<close> by auto
    moreover have "find (\<lambda>(x, y). Q x y) (map (\<lambda>x. (x, y)) [a + 1..b]) = Some (x, y)"
      using less.prems \<open>a < x\<close> \<open>a \<le> b\<close> by (intro less.hyps) auto
    ultimately show ?thesis using that upto_rec1 [of a b] by simp
  qed
qed

lemma row_ok_find:
  "row_ok q y (Hit x y') \<Longrightarrow> y' = y \<and>
     find (\<lambda>(x, y). same_pixels (s_src q) (s_ref q) x y) (map (\<lambda>x. (x, y)) (xs_of (s_src q) (s_ref q))) = Some (x, y)"
  unfolding xs_of_def by (auto intro!: find_upto_first [where P = "\<lambda>x. same_pixels (s_src q) (s_ref q) x y"] simp: xs_of_def)

lemma row_ok_Next:
  "row_ok q y (Next fc) \<Longrightarrow>
     find (\<lambda>(x, y). same_pixels (s_src q) (s_ref q) x y) (map (\<lambda>x. (x, y)) (xs_of (s_src q) (s_ref q))) = None"
  by (auto simp: find_None_iff)

lemma positions_of_Cons: "positions_of xs (y # ys) = map (\<lambda>x. (x, y)) xs @ positions_of xs ys"
  by (simp add: positions_of_def)

lemma scan_rows_good:
  assumes "search_ok q" "set ys \<subseteq> set (ys_of (s_src q) (s_ref q))" "anchor = anchor_bytes (s_ref q) (s_anchor q)"
  shows "\<exists>e. scan_rows q anchor ys fc = Some e \<and> pass_ok q ys e"
  using assms(2)
proof (induction ys arbitrary: fc)
  case Nil
  then show ?case by (simp add: positions_of_def)
next
  case (Cons y ys)
  obtain ar ast al where an: "s_anchor q = (ar, ast, al)" by (cases "s_anchor q")
  let ?s = "s_src q" and ?r = "s_ref q"
  have g: "searchable ?s ?r" "good_packed ?s" "good_packed ?r" and ga: "good_anchor ?r (ar, ast, al)"
    using assms(1) an by (auto simp: search_ok_def searchable_def)
  note fs = good_packed_facts [OF g(2)]
  have y: "y \<in> set (ys_of ?s ?r)" using Cons.prems by simp
  have ya: "0 \<le> y + ar - min_y (bounds ?s)" "y + ar - min_y (bounds ?s) < rect_dy (bounds ?s)"
    using y ga fs(4) by (auto simp: ys_of_def good_anchor_def)
  let ?st = "pix_offset ?s (min_x (bounds ?s)) (y + ar)"
  let ?row = "row_segment ?s (min_x (bounds ?s)) (y + ar) (rect_dx (bounds ?s))"
  have slice: "islice (pix ?s) ?st (wrap64 (?st + rect_dx (bounds ?s) * 4)) = Some ?row"
    using row_slice [OF g(2) ya] by simp
  have off: "0 \<le> ?st" "?st \<le> int (length (pix ?s)) - rect_dx (bounds ?s) * 4"
    using good_packed_offset [OF g(2), of "min_x (bounds ?s)" "y + ar" "rect_dx (bounds ?s)"] fs ya by auto
  have len: "length ?row = nat (rect_dx (bounds ?s) * 4)"
    using ya fs by (intro length_row_segment [OF g(2)]) auto
  have "length (row_segment ?r (min_x (bounds ?r)) (min_y (bounds ?r) + ar) (rect_dx (bounds ?r))) = nat (rect_dx (bounds ?r) * 4)"
    using good_packed_facts [OF g(3)] ga by (intro length_row_segment [OF g(3)]) (auto simp: good_anchor_def)
  then have "length anchor \<noteq> 0" using ga by (auto simp: assms(3) an anchor_bytes_def good_anchor_def)
  then have ne: "anchor \<noteq> []" by auto
  have neg: "byte_pos q x < int 0 \<longrightarrow> \<not> same_pixels ?s ?r x y" if "x \<in> set (xs_of ?s ?r)" for x
    using that ga an by (auto simp: byte_pos_def xs_of_def good_anchor_def)
  have "\<exists>e. scan_row (candidate q y ?st) ?row anchor 0 fc = Some e \<and> row_ok q y e"
  proof (rule scan_row_good [OF _ _ ne])
    show "\<exists>e. candidate q y ?st off fc = Some e \<and> candidate_ok q y off e" if "off < length ?row" for off fc
      using that len an by (intro candidate_good [OF assms(1) y]) auto
    show "0 \<le> byte_pos q x \<and> nat (byte_pos q x) < length ?row \<and> is_prefix anchor (drop (nat (byte_pos q x)) ?row)"
      if "x \<in> set (xs_of ?s ?r)" "same_pixels ?s ?r x y" for x
      using anchor_occurs [OF assms(1) y that an refl] assms(3) an by simp
    show "\<forall>x \<in> set (xs_of ?s ?r). byte_pos q x < int 0 \<longrightarrow> \<not> same_pixels ?s ?r x y" using neg by blast
  qed
  then obtain e where e: "scan_row (candidate q y ?st) ?row anchor 0 fc = Some e" "row_ok q y e" by blast
  have step: "scan_rows q anchor (y # ys) fc = (case e of Next fc' \<Rightarrow> scan_rows q anchor ys fc' | r \<Rightarrow> Some r)"
    using off slice e(1) an by (cases e) (auto simp: Let_def)
  show ?case
  proof (cases e)
    case (Hit x y')
    with row_ok_find e(2) step show ?thesis by (auto simp: positions_of_Cons find_append)
  next
    case (Again a b c)
    with e(2) step show ?thesis by simp
  next
    case (Next fc')
    have "find (\<lambda>(x, y). same_pixels ?s ?r x y) (map (\<lambda>x. (x, y)) (xs_of ?s ?r)) = None"
      using row_ok_Next e(2) Next by blast
    moreover obtain e' where e': "scan_rows q anchor ys fc' = Some e'" "pass_ok q ys e'" using Cons by auto
    ultimately show ?thesis using step Next by (cases e') (auto simp: positions_of_Cons find_append)
  qed
qed

lemma anchor_pass_good:
  assumes "search_ok q"
  shows "\<exists>e. anchor_pass q = Some e \<and> pass_ok q (ys_of (s_src q) (s_ref q)) e"
proof -
  obtain ar ast al where an: "s_anchor q = (ar, ast, al)" by (cases "s_anchor q")
  let ?s = "s_src q" and ?r = "s_ref q"
  have g: "searchable ?s ?r" "good_packed ?s" "good_packed ?r" and ga: "good_anchor ?r (ar, ast, al)"
    using assms(1) an by (auto simp: search_ok_def searchable_def)
  note fr = good_packed_facts [OF g(3)] and lim = searchable_limits [OF g(1)]
  let ?o = "exact_offset ?r (min_x (bounds ?r)) (min_y (bounds ?r) + ar)" and ?n = "rect_dx (bounds ?r)"
  have a: "0 \<le> ar" "ar < rect_dy (bounds ?r)" "0 \<le> ast" "0 < al" "ast + al \<le> ?n * 4" using ga by (auto simp: good_anchor_def)
  have o: "0 \<le> ?o" "?o + ?n * 4 \<le> int (length (pix ?r))" "?o + ?n * 4 \<le> max_int"
    "pix_offset ?r (min_x (bounds ?r)) (min_y (bounds ?r) + ar) = ?o"
    using good_packed_offset [OF g(3), of "min_x (bounds ?r)" "min_y (bounds ?r) + ar" ?n] a fr by auto
  have w: "wrap64 (?o + ast) = ?o + ast" "wrap64 (?o + ast + al) = ?o + ast + al"
    using o a by (simp_all add: in_int_def min_int_def)
  have "take (nat al) (drop (nat ast) (take (nat (?n * 4)) (drop (nat ?o) (pix ?r)))) = take (nat al) (drop (nat (?o + ast)) (pix ?r))"
    using a o(1) by (simp add: drop_take take_take min_absorb1 nat_add_distrib add.commute)
  then have "islice (pix ?r) (?o + ast) (?o + ast + al) = Some (anchor_bytes ?r (ar, ast, al))"
    using o a by (simp add: islice_ok anchor_bytes_def row_segment_def)
  then have "anchor_pass q = scan_rows q (anchor_bytes ?r (s_anchor q)) (ys_of ?s ?r) 0"
    using an by (simp add: anchor_pass_def Let_def o(4) w lim ys_of_def)
  then show ?thesis using scan_rows_good [OF assms subset_refl refl] by simp
qed

lemma locate_packed_good:
  assumes "searchable s r"
  shows "locate_packed s r area =
    Some (report_match s r area (find (\<lambda>(x, y). same_pixels s r x y) (positions_of (xs_of s r) (ys_of s r))))"
proof -
  let ?q = "\<lparr>s_src = s, s_ref = r, s_second = False, s_anchor = (0, 0, 4)\<rparr>"
  let ?q2 = "\<lambda>a. \<lparr>s_src = s, s_ref = r, s_second = True, s_anchor = a\<rparr>"
  have "search_ok ?q" using assms searchable_limits [OF assms] by (simp add: search_ok_def good_anchor_def)
  then obtain e where e: "anchor_pass ?q = Some e" "pass_ok ?q (ys_of s r) e" using anchor_pass_good by fastforce
  show ?thesis
  proof (cases e)
    case (Again a b c)
    then have "search_ok (?q2 (a, b, c))" using assms e(2) by (simp add: search_ok_def)
    then obtain e' where e': "anchor_pass (?q2 (a, b, c)) = Some e'" "pass_ok (?q2 (a, b, c)) (ys_of s r) e'"
      using anchor_pass_good by fastforce
    then show ?thesis using e(1) Again by (cases e') (simp_all add: locate_packed_def report_match_def)
  qed (use e in \<open>simp_all add: locate_packed_def report_match_def\<close>)
qed

text \<open>
  C17. The optimised image search is the plain one: for two RGBA buffers of accepted layouts the
  anchor search, with its restart on a better anchor, neither panics nor misses a match. It
  returns what the pixel by pixel path returns for the same images, and that is the rectangle of
  the first position in row order at which every pixel agrees, moved to the search area, or the
  not-found error when there is none.
\<close>

theorem locate_anchor_search_exact:
  assumes "good_packed s" "good_packed r" "rect_dx (bounds r) \<le> rect_dx (bounds s)" "rect_dy (bounds r) \<le> rect_dy (bounds s)"
    "\<not> rect_empty area"
  shows "locate_exact_in_image (Some (RGBA s)) area (Some (RGBA r)) =
      locate_exact_in_image (Some (Generic (bounds s) (pixel s))) area (Some (Generic (bounds r) (pixel r))) \<and>
    locate_exact_in_image (Some (RGBA s)) area (Some (RGBA r)) =
      Some (case find (\<lambda>(x, y). same_pixels s r x y) (positions_of (xs_of s r) (ys_of s r)) of
              None \<Rightarrow> Inl NoExactMatch
            | Some (x, y) \<Rightarrow> Inr (match_rect (bounds s) (bounds r) area x y))"
proof -
  have g: "searchable s r" using assms by (simp add: searchable_def)
  note fs = good_packed_facts [OF assms(1)] and fr = good_packed_facts [OF assms(2)] and lim = searchable_limits [OF g]
  let ?ps = "positions_of (xs_of s r) (ys_of s r)"
  have v: "valid_packed s" "valid_packed r" using assms(1,2) by (simp_all add: good_packed_def)
  have rows: "packed_row_bytes (rect_dx (bounds s)) = Some (rect_dx (bounds s) * 4)"
    "packed_row_bytes (rect_dx (bounds r)) = Some (rect_dx (bounds r) * 4)"
    using good_width [OF assms(1)] good_width [OF assms(2)] fs(3) fr(3) by (simp_all add: packed_row_bytes_Some)
  have at: "image_at (RGBA r) (min_x (bounds r)) (min_y (bounds r)) = Some (pixel r (min_x (bounds r)) (min_y (bounds r)))"
    using fr(1,2) by (simp add: packed_at_good [OF assms(2)] point_in_def)
  have off: "0 \<le> pix_offset r (min_x (bounds r)) (min_y (bounds r))" "pix_offset r (min_x (bounds r)) (min_y (bounds r)) \<le> int (length (pix r)) - 4"
    using good_packed_offset [OF assms(2), of "min_x (bounds r)" "min_y (bounds r)" 1] fr by auto
  obtain n where n: "packed_buffer_size (bounds r) (stride r) = Some n" "n \<le> int (length (pix r))" using fr(9) by blast
  have fast: "locate_exact_in_image (Some (RGBA s)) area (Some (RGBA r)) = locate_packed s r area"
    using assms fr(3,5,8) fs(3,5) v rows at off n by (simp add: locate_exact_in_image_def Let_def)
  have "locate_exact_in_image (Some (Generic (bounds s) (pixel s))) area (Some (Generic (bounds r) (pixel r))) =
      locate_pixels (Generic (bounds s) (pixel s)) (Generic (bounds r) (pixel r)) (pixel r (min_x (bounds r)) (min_y (bounds r))) area ?ps"
    using assms fr(8) by (simp add: locate_exact_in_image_def Let_def locate_positions_eq [OF g])
  also have "\<dots> = Some (report_match s r area (find (\<lambda>(x, y). same_pixels s r x y) ?ps))"
    using positions_fit by (intro locate_pixels_generic [OF g]) auto
  finally show ?thesis using fast locate_packed_good [OF g] by (simp add: report_match_def)
qed

theorem locate_anchor_search_exact_witness:
  "locate_exact_in_image
     (Some (RGBA \<lparr>pix = [9, 9, 9, 9, 1, 2, 3, 4, 1, 2, 3, 4], stride = 12, bounds = \<lparr>min_x = 5, min_y = 7, max_x = 8, max_y = 8\<rparr>\<rparr>))
     \<lparr>min_x = 100, min_y = 200, max_x = 103, max_y = 201\<rparr>
     (Some (RGBA \<lparr>pix = [1, 2, 3, 4], stride = 4, bounds = \<lparr>min_x = 0, min_y = 0, max_x = 1, max_y = 1\<rparr>\<rparr>)) =
   Some (Inr \<lparr>min_x = 101, min_y = 200, max_x = 102, max_y = 201\<rparr>)"
proof -
  let ?s = "\<lparr>pix = [9, 9, 9, 9, 1, 2, 3, 4, 1, 2, 3, 4] :: byte list, stride = 12, bounds = \<lparr>min_x = 5, min_y = 7, max_x = 8, max_y = 8\<rparr>\<rparr>"
  let ?r = "\<lparr>pix = [1, 2, 3, 4] :: byte list, stride = 4, bounds = \<lparr>min_x = 0, min_y = 0, max_x = 1, max_y = 1\<rparr>\<rparr>"
  let ?a = "\<lparr>min_x = 100, min_y = 200, max_x = 103, max_y = 201\<rparr>"
  have g: "good_packed ?s" "good_packed ?r"
    by (simp_all add: good_packed_def valid_packed_def packed_buffer_size_def packed_row_bytes_def rect_empty_def rect_dx_def
        rect_dy_def wrap64_def go_div_def max_int_def rect_sane_def rect_ints_def in_int_def min_int_def)
  have d: "rect_dx (bounds ?r) = 1" "rect_dy (bounds ?r) = 1" "rect_dx (bounds ?s) = 3" "rect_dy (bounds ?s) = 1"
    by (simp_all add: rect_dx_def rect_dy_def wrap64_def)
  have same: "same_pixels ?s ?r x y \<longleftrightarrow> pixel ?s x y = pixel ?r 0 0" for x y
  proof -
    have "0 \<le> j \<and> j < 1 \<longleftrightarrow> j = 0" for j :: int by auto
    then show ?thesis unfolding same_pixels_def d by simp
  qed
  have ps: "positions_of (xs_of ?s ?r) (ys_of ?s ?r) = [(5, 7), (6, 7), (7, 7)]"
    by (simp add: positions_of_def xs_of_def ys_of_def d [simplified] upto_rec1)
  have "find (\<lambda>(x, y). same_pixels ?s ?r x y) (positions_of (xs_of ?s ?r) (ys_of ?s ?r)) = Some (6, 7)"
    unfolding ps by (simp add: same pixel_def exact_offset_def)
  then show ?thesis
    using conjunct2 [OF locate_anchor_search_exact [OF g, of ?a]]
    by (simp add: d [simplified] rect_empty_def match_rect_def translate_rect_def image_rect_def wrap64_def)
qed

end
