(* ===== verification/FindWait.thy ===== *)
theory FindWait
  imports Poll FindColor Locate
begin

text \<open>
  Observing the screen over time (\<^verbatim>\<open>find/find.go\<close>): the polling loop of this package and the
  waits for a hash, for a change, for a settled region, for an image and for a predicate. The
  screen backend is a parameter that answers each call by the instant of the call; every look at
  the context is a later instant. \<open>SPanic\<close> stands for a run-time panic, which ends the
  caller as well.
\<close>

section \<open>Backends and errors\<close>

datatype 'e see_error =
    SUnavailable
  | SContext ctx_err
  | SBackend 'e
  | SNilImage
  | SMalformed
  | SPartial
  | SEmptyImage
  | SNoArea
  | SOverflow
  | STimeout ctx_err
  | STolerance int
  | SNilPredicate
  | SLocate locate_error
  | SNoColor
  | SLengths nat nat
  | SNoRegions
  | SEmptyAt nat
  | SPanic

text \<open>
  \<open>sc_canonical\<close> is what \<^verbatim>\<open>GrabFullHash\<close> and \<^verbatim>\<open>GrabRegionHash\<close> return, \<open>None\<close> for a backend
  without them or whose \<^verbatim>\<open>CanonicalHashing\<close> is false.
\<close>

record 'e screen =
  sc_grab :: "nat \<Rightarrow> rectangle \<Rightarrow> 'e + image option"
  sc_canonical :: "((nat \<Rightarrow> u32 \<times> 'e option) \<times> (nat \<Rightarrow> rectangle \<Rightarrow> u32 \<times> 'e option)) option"

type_synonym 'e obs = "u32 \<times> 'e see_error option"

section \<open>Single observations\<close>

definition canonical_hash ::
    "(nat \<Rightarrow> u32 \<times> 'e option) \<times> (nat \<Rightarrow> rectangle \<Rightarrow> u32 \<times> 'e option) \<Rightarrow> rectangle \<Rightarrow> nat \<Rightarrow> 'e obs" where
  "canonical_hash fast rect t =
     (let (h, err) = (if rect_empty rect then fst fast t else snd fast t rect) in (h, map_option SBackend err))"

text \<open>\<^verbatim>\<open>grabImageHash\<close>, which looks at the context at \<open>t\<close> and \<open>t + 1\<close>.\<close>

definition grab_image_hash :: "hasher option \<Rightarrow> ctx \<Rightarrow> 'e screen \<Rightarrow> rectangle \<Rightarrow> hasher option \<Rightarrow> bool \<Rightarrow> nat \<Rightarrow> 'e obs" where
  "grab_image_hash dflt cx sc rect new_hash preserve t =
     (case cx t of
        Some e \<Rightarrow> (0, Some (SContext e))
      | None \<Rightarrow>
          (case sc_grab sc t rect of
             Inl e \<Rightarrow> (0, Some (SBackend e))
           | Inr None \<Rightarrow> (0, Some SNilImage)
           | Inr (Some img) \<Rightarrow>
               if rect_empty (image_bounds img) \<or> \<not> valid_packed_image_layout img then (0, Some SMalformed)
               else if \<not> rect_empty rect \<and>
                 (rect_dx (image_bounds img) \<noteq> rect_dx rect \<or> rect_dy (image_bounds img) \<noteq> rect_dy rect) then (0, Some SPartial)
               else
                 (case pixel_hash_of dflt (Some img) new_hash of
                    None \<Rightarrow> (0, Some SPanic)
                  | Some v \<Rightarrow>
                      (case cx (Suc t) of
                         Some e \<Rightarrow> (if preserve then v else 0, Some (SContext e))
                       | None \<Rightarrow> (v, None)))))"

text \<open>\<^verbatim>\<open>GrabHash\<close>; \<open>None\<close> is a nil backend. It ends before the instant \<open>t + 3\<close>.\<close>

definition grab_hash :: "hasher option \<Rightarrow> ctx \<Rightarrow> 'e screen option \<Rightarrow> rectangle \<Rightarrow> hasher option \<Rightarrow> nat \<Rightarrow> 'e obs" where
  "grab_hash dflt cx scr rect new_hash t =
     (case scr of
        None \<Rightarrow> (0, Some SUnavailable)
      | Some sc \<Rightarrow>
          (case cx t of
             Some e \<Rightarrow> (0, Some (SContext e))
           | None \<Rightarrow>
               (case (if new_hash = None then sc_canonical sc else None) of
                  Some fast \<Rightarrow>
                    (case cx (Suc t) of
                       Some e \<Rightarrow> (0, Some (SContext e))
                     | None \<Rightarrow> canonical_hash fast rect t)
                | None \<Rightarrow> grab_image_hash dflt cx sc rect new_hash False (Suc t))))"

definition first_pixel :: "ctx \<Rightarrow> 'e screen option \<Rightarrow> rectangle \<Rightarrow> nat \<Rightarrow> 'e see_error + rgba" where
  "first_pixel cx scr rect t =
     (case scr of
        None \<Rightarrow> Inl SUnavailable
      | Some sc \<Rightarrow>
          (case cx t of
             Some e \<Rightarrow> Inl (SContext e)
           | None \<Rightarrow>
               if rect_empty rect then Inl SNoArea
               else if min_x rect = max_int \<or> min_y rect = max_int then Inl SOverflow
               else
                 (case sc_grab sc t (image_rect (min_x rect) (min_y rect) (wrap64 (min_x rect + 1)) (wrap64 (min_y rect + 1))) of
                    Inl e \<Rightarrow> Inl (SBackend e)
                  | Inr None \<Rightarrow> Inl SNilImage
                  | Inr (Some img) \<Rightarrow>
                      if \<not> valid_packed_image_layout img then Inl SMalformed
                      else
                        (case cx (Suc t) of
                           Some e \<Rightarrow> Inl (SContext e)
                         | None \<Rightarrow>
                             if rect_empty (image_bounds img) then Inl SEmptyImage
                             else
                               (case image_at img (min_x (image_bounds img)) (min_y (image_bounds img)) of
                                  None \<Rightarrow> Inl SPanic
                                | Some px \<Rightarrow> (case cx (t + 2) of Some e \<Rightarrow> Inl (SContext e) | None \<Rightarrow> Inr px))))))"

definition find_color :: "ctx \<Rightarrow> 'e screen option \<Rightarrow> rectangle \<Rightarrow> rgb \<Rightarrow> int \<Rightarrow> nat \<Rightarrow> 'e see_error + int \<times> int" where
  "find_color cx scr rect target tol t =
     (case scr of
        None \<Rightarrow> Inl SUnavailable
      | Some sc \<Rightarrow>
          (case cx t of
             Some e \<Rightarrow> Inl (SContext e)
           | None \<Rightarrow>
               if tol < 0 \<or> tol > 255 then Inl (STolerance tol)
               else
                 (case sc_grab sc t rect of
                    Inl e \<Rightarrow> Inl (SBackend e)
                  | Inr None \<Rightarrow> Inl SNilImage
                  | Inr (Some img) \<Rightarrow>
                      (case cx (Suc t) of
                         Some e \<Rightarrow> Inl (SContext e)
                       | None \<Rightarrow>
                           (case pixel_found (Some img) rect target tol of
                              None \<Rightarrow> Inl SPanic
                            | Some r \<Rightarrow>
                                (case cx (t + 2) of
                                   Some e \<Rightarrow> Inl (SContext e)
                                 | None \<Rightarrow> (case r of Some pt \<Rightarrow> Inr pt | None \<Rightarrow> Inl SNoColor)))))))"

text \<open>\<^verbatim>\<open>LocateExact\<close>; \<open>reference\<close> is \<open>None\<close> for a nil image. It ends before \<open>t + 3\<close>.\<close>

definition locate_exact :: "ctx \<Rightarrow> 'e screen option \<Rightarrow> rectangle \<Rightarrow> image option \<Rightarrow> nat \<Rightarrow> 'e see_error + rectangle" where
  "locate_exact cx scr area reference t =
     (case scr of
        None \<Rightarrow> Inl SUnavailable
      | Some sc \<Rightarrow>
          (case cx t of
             Some e \<Rightarrow> Inl (SContext e)
           | None \<Rightarrow>
               (case sc_grab sc t area of
                  Inl e \<Rightarrow> Inl (SBackend e)
                | Inr src \<Rightarrow>
                    (case cx (Suc t) of
                       Some e \<Rightarrow> Inl (SContext e)
                     | None \<Rightarrow>
                         (case locate_exact_in_image src area reference of
                            None \<Rightarrow> Inl SPanic
                          | Some r \<Rightarrow> (case cx (t + 2) of Some e \<Rightarrow> Inl (SContext e) | None \<Rightarrow> map_sum SLocate id r))))))"

section \<open>The polling loop\<close>

definition poll_delay :: "int \<Rightarrow> nat \<Rightarrow> int" where
  "poll_delay dur k =
     (if dur \<le> 0 then adaptive_poll (int k) (10 * millisecond) (200 * millisecond) else clamp_poll dur)"

text \<open>
  \<^verbatim>\<open>poll\<close>: \<open>fn\<close> is the probe, which changes the state of its closure and ends at a later instant;
  \<open>ws\<close> records the delays it has waited. \<open>None\<close> is a call that never returns.
\<close>

partial_function (option) poll_loop ::
    "ctx \<Rightarrow> int \<Rightarrow> u32 \<Rightarrow> ('s \<Rightarrow> nat \<Rightarrow> 's \<times> nat \<times> bool \<times> 'e obs) \<Rightarrow> nat \<Rightarrow> int list \<Rightarrow> 's \<Rightarrow> nat \<Rightarrow>
       ('s \<times> nat \<times> int list \<times> 'e obs) option" where
  "poll_loop cx dur on_cancel fn k ws s t =
     (case cx t of
        Some e \<Rightarrow> Some (s, Suc t, ws, on_cancel, Some (SContext e))
      | None \<Rightarrow>
          (case fn s (Suc t) of (s', t', dn, res, err) \<Rightarrow>
             (case err of
                Some e \<Rightarrow> Some (s', t', ws, res, Some e)
              | None \<Rightarrow>
                  (case cx t' of
                     Some e \<Rightarrow> Some (s', Suc t', ws, res, Some (SContext e))
                   | None \<Rightarrow>
                       if dn then Some (s', Suc t', ws, res, None)
                       else
                         (case cx (Suc t') of
                            Some e \<Rightarrow> Some (s', Suc (Suc t'), ws @ [poll_delay dur k], res, Some (SContext e))
                          | None \<Rightarrow>
                              poll_loop cx dur on_cancel fn (Suc k) (ws @ [poll_delay dur k]) s' (Suc (Suc t')))))))"

definition poll_see ::
    "ctx \<Rightarrow> int \<Rightarrow> u32 \<Rightarrow> ('s \<Rightarrow> nat \<Rightarrow> 's \<times> nat \<times> bool \<times> 'e obs) \<Rightarrow> 's \<Rightarrow> ('s \<times> nat \<times> int list \<times> 'e obs) option" where
  "poll_see cx dur on_cancel fn s = poll_loop cx dur on_cancel fn 0 [] s 0"

text \<open>
  How the waits report: on an error the last hash is kept when the context is done, as a timeout,
  and dropped otherwise.
\<close>

definition report_wait :: "ctx \<Rightarrow> 's \<times> nat \<times> int list \<times> 'e obs \<Rightarrow> 'e obs" where
  "report_wait cx r =
     (case r of (s, t, ws, h, err) \<Rightarrow>
        (case err of
           None \<Rightarrow> (h, None)
         | Some SPanic \<Rightarrow> (0, Some SPanic)
         | Some e \<Rightarrow> (case cx t of Some ce \<Rightarrow> (h, Some (STimeout ce)) | None \<Rightarrow> (0, Some e))))"

section \<open>Waiting for a hash\<close>

definition selected_hash_backend :: "'e screen \<Rightarrow> hasher option \<Rightarrow> ((nat \<Rightarrow> u32 \<times> 'e option) \<times> (nat \<Rightarrow> rectangle \<Rightarrow> u32 \<times> 'e option)) option" where
  "selected_hash_backend sc new_hash = (if new_hash \<noteq> None then None else sc_canonical sc)"

text \<open>\<^verbatim>\<open>readWaitHash\<close>; it ends before \<open>t + 2\<close>.\<close>

definition read_wait_hash :: "hasher option \<Rightarrow> ctx \<Rightarrow> 'e screen \<Rightarrow> rectangle \<Rightarrow> hasher option \<Rightarrow> nat \<Rightarrow> 'e obs" where
  "read_wait_hash dflt cx sc rect new_hash t =
     (case selected_hash_backend sc new_hash of
        Some fast \<Rightarrow> canonical_hash fast rect t
      | None \<Rightarrow> grab_image_hash dflt cx sc rect new_hash True t)"

definition wait_for :: "hasher option \<Rightarrow> ctx \<Rightarrow> 'e screen option \<Rightarrow> rectangle \<Rightarrow> u32 \<Rightarrow> int \<Rightarrow> hasher option \<Rightarrow> 'e obs option" where
  "wait_for dflt cx scr rect want dur new_hash =
     (case scr of
        None \<Rightarrow> Some (0, Some SUnavailable)
      | Some sc \<Rightarrow>
          map_option (report_wait cx)
            (poll_see cx dur 0
               (\<lambda>u t. case read_wait_hash dflt cx sc rect new_hash t of
                  (h, Some e) \<Rightarrow> (u, t + 2, False, h, Some e)
                | (h, None) \<Rightarrow> (u, t + 2, h = want, h, None)) ()))"

text \<open>
  A backend that is interrupted can return zero without having seen a frame; the hash of the
  caller is kept then. The context is looked at again in the callback, at \<open>t + 2\<close>.
\<close>

definition wait_for_change :: "hasher option \<Rightarrow> ctx \<Rightarrow> 'e screen option \<Rightarrow> rectangle \<Rightarrow> u32 \<Rightarrow> int \<Rightarrow> hasher option \<Rightarrow> 'e obs option" where
  "wait_for_change dflt cx scr rect initial dur new_hash =
     (case scr of
        None \<Rightarrow> Some (0, Some SUnavailable)
      | Some sc \<Rightarrow>
          map_option (report_wait cx)
            (poll_see cx dur initial
               (\<lambda>u t. case read_wait_hash dflt cx sc rect new_hash t of
                  (h, Some e) \<Rightarrow>
                    (u, t + 3, False, if e \<noteq> SPanic \<and> cx (t + 2) \<noteq> None \<and> h = 0 then initial else h, Some e)
                | (h, None) \<Rightarrow> (u, t + 3, h \<noteq> initial, h, None)) ()))"

section \<open>Waiting for a settled region\<close>

record stable_streak =
  sk_last :: u32
  sk_count :: int
  sk_stable :: int

definition new_stable_streak :: "u32 \<Rightarrow> int \<Rightarrow> stable_streak" where
  "new_stable_streak initial n =
     \<lparr>sk_last = initial, sk_count = (if initial \<noteq> 0 then 1 else 0), sk_stable = (if n \<le> 0 then 1 else n)\<rparr>"

definition advance :: "stable_streak \<Rightarrow> u32 \<Rightarrow> stable_streak \<times> bool \<times> u32" where
  "advance s h =
     (if sk_count s > 0 \<and> h = sk_last s then
        let s' = s\<lparr>sk_count := sk_count s + 1\<rparr> in (s', sk_count s' \<ge> sk_stable s', h)
      else (s\<lparr>sk_last := h, sk_count := 1\<rparr>, False, h))"

definition changed :: "stable_streak \<Rightarrow> stable_streak" where
  "changed s = s\<lparr>sk_count := 0\<rparr>"

text \<open>The closure of a probe: the streak, and the top-left pixel of the previous capture.\<close>

record settle =
  st_streak :: stable_streak
  st_sentinel :: "rgba option"

definition canonical_hash_probe ::
    "'e screen \<Rightarrow> rectangle \<Rightarrow> hasher option \<Rightarrow> (settle \<Rightarrow> nat \<Rightarrow> settle \<times> nat \<times> bool \<times> 'e obs) option" where
  "canonical_hash_probe sc rect new_hash =
     (if new_hash \<noteq> None then None
      else case sc_canonical sc of
        None \<Rightarrow> None
      | Some fast \<Rightarrow>
          if rect_empty rect then None
          else Some (\<lambda>s t.
            case snd fast t rect of
              (_, Some e) \<Rightarrow> (s, Suc t, False, 0, Some (SBackend e))
            | (h, None) \<Rightarrow>
                (case advance (st_streak s) h of (k, dn, h') \<Rightarrow> (s\<lparr>st_streak := k\<rparr>, Suc t, dn, h', None))))"

definition grab_hash_probe ::
    "hasher option \<Rightarrow> 'e screen \<Rightarrow> rectangle \<Rightarrow> hasher option \<Rightarrow> settle \<Rightarrow> nat \<Rightarrow> settle \<times> nat \<times> bool \<times> 'e obs" where
  "grab_hash_probe dflt sc rect new_hash s t =
     (case sc_grab sc t rect of
        Inl e \<Rightarrow> (s, Suc t, False, 0, Some (SBackend e))
      | Inr None \<Rightarrow> (s, Suc t, False, 0, Some SNilImage)
      | Inr (Some img) \<Rightarrow>
          if \<not> valid_packed_image_layout img then (s, Suc t, False, 0, Some SMalformed)
          else if rect_empty (image_bounds img) then (s, Suc t, False, 0, Some SEmptyImage)
          else
            (case image_at img (min_x (image_bounds img)) (min_y (image_bounds img)) of
               None \<Rightarrow> (s, Suc t, False, 0, Some SPanic)
             | Some cur \<Rightarrow>
                 if st_sentinel s \<noteq> None \<and> st_sentinel s \<noteq> Some cur then
                   (s\<lparr>st_sentinel := Some cur, st_streak := changed (st_streak s)\<rparr>, Suc t, False, sk_last (st_streak s), None)
                 else
                   (case pixel_hash_of dflt (Some img) new_hash of
                      None \<Rightarrow> (s, Suc t, False, 0, Some SPanic)
                    | Some v \<Rightarrow>
                        (case advance (st_streak s) v of
                           (k, dn, h) \<Rightarrow> (s\<lparr>st_sentinel := Some cur, st_streak := k\<rparr>, Suc t, dn, h, None)))))"

definition wait_for_no_change_from ::
    "hasher option \<Rightarrow> ctx \<Rightarrow> 'e screen option \<Rightarrow> rectangle \<Rightarrow> u32 \<Rightarrow> int \<Rightarrow> int \<Rightarrow> hasher option \<Rightarrow> 'e obs option" where
  "wait_for_no_change_from dflt cx scr rect initial n dur new_hash =
     (case scr of
        None \<Rightarrow> Some (0, Some SUnavailable)
      | Some sc \<Rightarrow>
          if rect_empty rect then Some (0, Some SNoArea)
          else
            let streak = new_stable_streak initial n;
                probe = (case canonical_hash_probe sc rect new_hash of
                           Some p \<Rightarrow> p
                         | None \<Rightarrow> grab_hash_probe dflt sc rect new_hash)
            in map_option (report_wait cx) (poll_see cx dur (sk_last streak) probe \<lparr>st_streak = streak, st_sentinel = None\<rparr>))"

definition wait_for_no_change ::
    "hasher option \<Rightarrow> ctx \<Rightarrow> 'e screen option \<Rightarrow> rectangle \<Rightarrow> int \<Rightarrow> int \<Rightarrow> hasher option \<Rightarrow> 'e obs option" where
  "wait_for_no_change dflt cx scr rect n dur new_hash =
     (case scr of
        None \<Rightarrow> Some (0, Some SUnavailable)
      | Some sc \<Rightarrow> wait_for_no_change_from dflt cx scr rect 0 n dur new_hash)"

section \<open>Waiting for an image or a predicate\<close>

text \<open>\<open>is_nf\<close> tells whether a backend error wraps \<^verbatim>\<open>ErrNotFound\<close>.\<close>

definition wait_for_locate ::
    "('e \<Rightarrow> bool) \<Rightarrow> ctx \<Rightarrow> 'e screen option \<Rightarrow> rectangle \<Rightarrow> image option \<Rightarrow> int \<Rightarrow> ('e see_error + rectangle) option" where
  "wait_for_locate is_nf cx scr area reference dur =
     (case scr of
        None \<Rightarrow> Some (Inl SUnavailable)
      | Some sc \<Rightarrow>
          map_option
            (\<lambda>(found, t, ws, h, err).
               case err of
                 None \<Rightarrow> Inr found
               | Some SPanic \<Rightarrow> Inl SPanic
               | Some e \<Rightarrow> (case cx t of Some ce \<Rightarrow> Inl (STimeout ce) | None \<Rightarrow> Inl e))
            (poll_see cx dur 0
               (\<lambda>found t. case locate_exact cx scr area reference t of
                  Inr r \<Rightarrow> (r, t + 3, True, 0, None)
                | Inl (SLocate e) \<Rightarrow>
                    if locate_not_found e then (found, t + 3, False, 0, None) else (found, t + 3, False, 0, Some (SLocate e))
                | Inl (SBackend e) \<Rightarrow>
                    if is_nf e then (found, t + 3, False, 0, None) else (found, t + 3, False, 0, Some (SBackend e))
                | Inl e \<Rightarrow> (found, t + 3, False, 0, Some e)) zero_rect))"

text \<open>The predicate is the caller's, \<open>None\<close> for a nil function; it is asked at an instant.\<close>

definition wait_for_fn ::
    "ctx \<Rightarrow> 'e screen option \<Rightarrow> rectangle \<Rightarrow> (nat \<Rightarrow> image \<Rightarrow> bool) option \<Rightarrow> int \<Rightarrow> ('e see_error + image option) option" where
  "wait_for_fn cx scr rect pred dur =
     (case scr of
        None \<Rightarrow> Some (Inl SUnavailable)
      | Some sc \<Rightarrow>
          (case pred of
             None \<Rightarrow> Some (Inl SNilPredicate)
           | Some p \<Rightarrow>
               map_option
                 (\<lambda>(found, t, ws, h, err).
                    case err of
                      None \<Rightarrow> Inr found
                    | Some e \<Rightarrow> (case cx t of Some ce \<Rightarrow> Inl (STimeout ce) | None \<Rightarrow> Inl e))
                 (poll_see cx dur 0
                    (\<lambda>found t. case sc_grab sc t rect of
                       Inl e \<Rightarrow> (found, t + 2, False, 0, Some (SBackend e))
                     | Inr None \<Rightarrow> (found, t + 2, False, 0, Some SNilImage)
                     | Inr (Some img) \<Rightarrow>
                         if p (Suc t) img then (Some img, t + 2, True, 0, None) else (found, t + 2, False, 0, None)) None)))"

end
