(* ===== verification/FindSettle.thy ===== *)
theory FindSettle
  imports FindWait
begin

text \<open>
  What the settle loops of \<^verbatim>\<open>find/find.go\<close> promise: with a backend that hashes in place they
  return at the very first moment at which the required number of newest samples agree, and with
  plain captures, where the top-left pixel is compared before hashing, they return only then and
  soon after the region has come to rest.
\<close>

section \<open>Rounds of the polling loop\<close>

text \<open>The state and instant at the start of round \<open>n\<close> when no round ends the loop.\<close>

fun poll_run :: "('s \<Rightarrow> nat \<Rightarrow> 's \<times> nat \<times> bool \<times> 'e obs) \<Rightarrow> 's \<Rightarrow> nat \<Rightarrow> nat \<Rightarrow> 's \<times> nat" where
  "poll_run fn s t 0 = (s, t)"
| "poll_run fn s t (Suc n) =
     (case poll_run fn s t n of (s', t') \<Rightarrow>
        (case fn s' (Suc t') of (s'', t'', _) \<Rightarrow> (s'', Suc (Suc t''))))"

definition round_of :: "('s \<Rightarrow> nat \<Rightarrow> 's \<times> nat \<times> bool \<times> 'e obs) \<Rightarrow> 's \<Rightarrow> nat \<Rightarrow> nat \<Rightarrow> 's \<times> nat \<times> bool \<times> 'e obs" where
  "round_of fn s t n = (case poll_run fn s t n of (s', t') \<Rightarrow> fn s' (Suc t'))"

definition waits_on :: "'s \<times> nat \<times> bool \<times> 'e obs \<Rightarrow> bool" where
  "waits_on r \<longleftrightarrow> (case r of (_, _, dn, _, err) \<Rightarrow> \<not> dn \<and> err = None)"

lemma poll_run_shift:
  "fn s (Suc t) = (s', t', r) \<Longrightarrow> poll_run fn s t (Suc n) = poll_run fn s' (Suc (Suc t')) n"
  by (induction n) simp_all

lemma round_of_shift:
  "fn s (Suc t) = (s', t', r) \<Longrightarrow> round_of fn s t (Suc n) = round_of fn s' (Suc (Suc t')) n"
  unfolding round_of_def by (subst poll_run_shift) simp_all

lemma poll_loop_live:
  "poll_loop background dur oc fn k ws s t =
     (case fn s (Suc t) of (s', t', dn, res, err) \<Rightarrow>
        (case err of
           Some e \<Rightarrow> Some (s', t', ws, res, Some e)
         | None \<Rightarrow> if dn then Some (s', Suc t', ws, res, None)
             else poll_loop background dur oc fn (Suc k) (ws @ [poll_delay dur k]) s' (Suc (Suc t'))))"
  by (subst poll_loop.simps, cases "fn s (Suc t)") (auto simp: background_def split: option.split)

lemma poll_loop_first:
  assumes "\<forall>j < n. waits_on (round_of fn s t j)" "round_of fn s t n = (s', t', True, res, None)"
  shows "poll_loop background dur oc fn k ws s t =
    Some (s', Suc t', ws @ map (poll_delay dur) [k..<k + n], res, None)"
  using assms
proof (induction n arbitrary: k ws s t)
  case 0
  then show ?case by (subst poll_loop_live) (simp add: round_of_def)
next
  case (Suc n)
  obtain s1 t1 dn h err where r: "fn s (Suc t) = (s1, t1, dn, h, err)" by (metis prod_cases5)
  have w: "\<not> dn" "err = None"
    using Suc.prems(1) [rule_format, of 0] r by (simp_all add: round_of_def waits_on_def)
  have "poll_loop background dur oc fn (Suc k) (ws @ [poll_delay dur k]) s1 (Suc (Suc t1)) =
      Some (s', Suc t', (ws @ [poll_delay dur k]) @ map (poll_delay dur) [Suc k..<Suc k + n], res, None)"
    using Suc.prems round_of_shift [of fn s t, OF r] by (intro Suc.IH) auto
  moreover have "[k..<k + Suc n] = k # [Suc k..<Suc k + n]" by (simp add: upt_conv_Cons)
  ultimately show ?case by (subst poll_loop_live) (simp add: r w)
qed

text \<open>Whatever the context does, a successful result comes from a round that ended the loop.\<close>

definition ends_well :: "('s \<Rightarrow> nat \<Rightarrow> 's \<times> nat \<times> bool \<times> 'e obs) \<Rightarrow> 's \<Rightarrow> nat \<Rightarrow> 's \<times> nat \<times> int list \<times> 'e obs \<Rightarrow> bool" where
  "ends_well fn s t r \<longleftrightarrow>
     (case r of (s', t', ws', res, err) \<Rightarrow>
        err = None \<longrightarrow> (\<exists>n t''. (\<forall>j < n. waits_on (round_of fn s t j)) \<and> round_of fn s t n = (s', t'', True, res, None)))"

lemma ends_well_error [simp]: "ends_well fn s t (s', t', ws', res, Some e)"
  by (simp add: ends_well_def)

lemma poll_loop_step:
  assumes eq: "(case cx t of
        Some e \<Rightarrow> Some (s, Suc t, ws, oc, Some (SContext e))
      | None \<Rightarrow>
          (case fn s (Suc t) of (s', t', dn, res, err) \<Rightarrow>
             (case err of
                Some e \<Rightarrow> Some (s', t', ws, res, Some e)
              | None \<Rightarrow>
                  (case cx t' of
                     Some e \<Rightarrow> Some (s', Suc t', ws, res, Some (SContext e))
                   | None \<Rightarrow>
                       if dn then Some (s', Suc t', ws, res, None)
                       else
                         (case cx (Suc t') of
                            Some e \<Rightarrow> Some (s', Suc (Suc t'), ws @ [poll_delay dur k], res, Some (SContext e))
                          | None \<Rightarrow>
                              loop cx dur oc fn (Suc k) (ws @ [poll_delay dur k]) s' (Suc (Suc t'))))))) = Some r"
    and ih: "\<And>cx dur oc fn k ws s t r. loop cx dur oc fn k ws s t = Some r \<Longrightarrow> ends_well fn s t r"
  shows "ends_well fn s t r"
proof -
  obtain s1 t1 dn h err where f: "fn s (Suc t) = (s1, t1, dn, h, err)" by (metis prod_cases5)
  show ?thesis
  proof (cases "cx t = None \<and> err = None \<and> cx t1 = None \<and> (dn \<or> cx (Suc t1) = None)")
    case False
    then show ?thesis using eq f by (auto split: option.splits)
  next
    case go: True
    show ?thesis
    proof (cases dn)
      case True
      then have "r = (s1, Suc t1, ws, h, None)" using eq go f by simp
      moreover have "round_of fn s t 0 = (s1, t1, True, h, None)" using True go f by (simp add: round_of_def)
      ultimately show ?thesis unfolding ends_well_def by (auto intro: exI [of _ "0 :: nat"])
    next
      case False
      then have "loop cx dur oc fn (Suc k) (ws @ [poll_delay dur k]) s1 (Suc (Suc t1)) = Some r" using eq go f by simp
      from ih [OF this] have w: "ends_well fn s1 (Suc (Suc t1)) r" .
      have "waits_on (round_of fn s t 0)" using f go False by (simp add: round_of_def waits_on_def)
      then have "\<forall>j < Suc n. waits_on (round_of fn s t j)" if "\<forall>j < n. waits_on (round_of fn s1 (Suc (Suc t1)) j)" for n
        using that round_of_shift [of fn s t, OF f] by (auto simp: less_Suc_eq_0_disj)
      then show ?thesis
        using w round_of_shift [of fn s t, OF f] unfolding ends_well_def by (auto split: prod.splits) (metis)
    qed
  qed
qed

lemma poll_loop_sound:
  assumes "poll_loop cx dur oc fn k ws s t = Some (s', t', ws', res, None)"
  shows "\<exists>n t''. (\<forall>j < n. waits_on (round_of fn s t j)) \<and> round_of fn s t n = (s', t'', True, res, None)"
proof -
  have "ends_well fn s t (s', t', ws', res, None)"
    by (rule poll_loop.raw_induct [where P = "\<lambda>cx dur oc fn k ws s t r. ends_well fn s t r", OF _ assms])
      (rule poll_loop_step, assumption, blast)
  then show ?thesis by (simp add: ends_well_def)
qed

text \<open>A live loop that returns has seen a round that does not wait on.\<close>

lemma poll_live_step:
  assumes eq: "(case cx t of
        Some e \<Rightarrow> Some (s, Suc t, ws, oc, Some (SContext e))
      | None \<Rightarrow>
          (case fn s (Suc t) of (s', t', dn, res, err) \<Rightarrow>
             (case err of
                Some e \<Rightarrow> Some (s', t', ws, res, Some e)
              | None \<Rightarrow>
                  (case cx t' of
                     Some e \<Rightarrow> Some (s', Suc t', ws, res, Some (SContext e))
                   | None \<Rightarrow>
                       if dn then Some (s', Suc t', ws, res, None)
                       else
                         (case cx (Suc t') of
                            Some e \<Rightarrow> Some (s', Suc (Suc t'), ws @ [poll_delay dur k], res, Some (SContext e))
                          | None \<Rightarrow>
                              loop cx dur oc fn (Suc k) (ws @ [poll_delay dur k]) s' (Suc (Suc t'))))))) = Some r"
    and ih: "\<And>cx dur oc fn k ws s t r. loop cx dur oc fn k ws s t = Some r \<Longrightarrow>
      cx = background \<longrightarrow> (\<exists>n. \<not> waits_on (round_of fn s t n))"
  shows "cx = background \<longrightarrow> (\<exists>n. \<not> waits_on (round_of fn s t n))"
proof
  assume cx: "cx = background"
  obtain s1 t1 dn h err where f: "fn s (Suc t) = (s1, t1, dn, h, err)" by (metis prod_cases5)
  show "\<exists>n. \<not> waits_on (round_of fn s t n)"
  proof (cases "dn \<or> err \<noteq> None")
    case True
    then have "\<not> waits_on (round_of fn s t 0)" using f by (auto simp: round_of_def waits_on_def)
    then show ?thesis by blast
  next
    case False
    then have "loop cx dur oc fn (Suc k) (ws @ [poll_delay dur k]) s1 (Suc (Suc t1)) = Some r"
      using eq f by (simp add: cx background_def)
    from ih [OF this] cx obtain n where "\<not> waits_on (round_of fn s1 (Suc (Suc t1)) n)" by blast
    then have "\<not> waits_on (round_of fn s t (Suc n))" using round_of_shift [of fn s t, OF f] by simp
    then show ?thesis by blast
  qed
qed

lemma poll_loop_never:
  assumes "\<forall>n. waits_on (round_of fn s t n)"
  shows "poll_loop background dur oc fn k ws s t = None"
proof (rule ccontr)
  assume "poll_loop background dur oc fn k ws s t \<noteq> None"
  then obtain r where r: "poll_loop background dur oc fn k ws s t = Some r" by blast
  have "background = background \<longrightarrow> (\<exists>n. \<not> waits_on (round_of fn s t n))"
    by (rule poll_loop.raw_induct [where P = "\<lambda>cx dur oc fn k ws s t r. cx = background \<longrightarrow> (\<exists>n. \<not> waits_on (round_of fn s t n))", OF _ r])
      (rule poll_live_step, assumption, blast)
  with assms show False by blast
qed

section \<open>Runs of equal samples\<close>

text \<open>Samples are listed newest first.\<close>

fun run_length :: "u32 list \<Rightarrow> nat" where
  "run_length [] = 0"
| "run_length [x] = 1"
| "run_length (x # y # ys) = (if x = y then Suc (run_length (y # ys)) else 1)"

text \<open>The \<open>m\<close> newest samples exist and agree.\<close>

definition agree :: "nat \<Rightarrow> u32 list \<Rightarrow> bool" where
  "agree m xs \<longleftrightarrow> m \<le> length xs \<and> (\<forall>x \<in> set (take m xs). x = hd xs)"

lemma run_length_pos: "xs \<noteq> [] \<Longrightarrow> 0 < run_length xs"
  by (induction xs rule: run_length.induct) auto

lemma agree_run_length: "agree m xs \<longleftrightarrow> m \<le> run_length xs"
proof (induction xs arbitrary: m rule: run_length.induct)
  case (3 x y ys)
  show ?case
  proof (cases m)
    case (Suc k)
    show ?thesis
    proof (cases "x = y")
      case True
      with 3 [of k] Suc show ?thesis by (cases k) (auto simp: agree_def)
    next
      case False
      with Suc show ?thesis by (cases k) (auto simp: agree_def)
    qed
  qed (simp add: agree_def)
qed (auto simp: agree_def less_Suc_eq_le le_Suc_eq)

lemma run_length_Cons:
  "run_length (x # xs) = (if xs \<noteq> [] \<and> hd xs = x then Suc (run_length xs) else 1)"
  by (cases xs) auto

text \<open>The number of agreeing samples that ends a wait; one sample alone never does.\<close>

definition needed :: "int \<Rightarrow> nat" where
  "needed n = nat (max 2 n)"

definition streak_inv :: "int \<Rightarrow> u32 list \<Rightarrow> stable_streak \<Rightarrow> bool" where
  "streak_inv n xs k \<longleftrightarrow> sk_stable k = max 1 n \<and> 0 \<le> sk_count k \<and> sk_count k \<le> int (run_length xs) \<and>
     (0 < sk_count k \<longrightarrow> xs \<noteq> [] \<and> hd xs = sk_last k)"

definition streak_exact :: "int \<Rightarrow> u32 list \<Rightarrow> stable_streak \<Rightarrow> bool" where
  "streak_exact n xs k \<longleftrightarrow> streak_inv n xs k \<and> sk_count k = int (run_length xs)"

lemma new_stable_streak_exact:
  "streak_exact n (if initial \<noteq> 0 then [initial] else []) (new_stable_streak initial n)"
  by (auto simp: streak_exact_def streak_inv_def new_stable_streak_def)

lemma advance_inv:
  assumes "streak_inv n xs k" "advance k h = (k', dn, h')"
  shows "streak_inv n (h # xs) k' \<and> h' = h \<and> 0 < sk_count k' \<and> (dn \<longrightarrow> needed n \<le> run_length (h # xs)) \<and>
    (dn \<longleftrightarrow> 2 \<le> sk_count k' \<and> max 1 n \<le> sk_count k') \<and>
    (h = sk_last k \<and> 0 < sk_count k \<longrightarrow> sk_count k' = sk_count k + 1)"
  using assms run_length_pos [of "h # xs"]
  by (auto simp: streak_inv_def advance_def Let_def run_length_Cons needed_def split: if_splits)

lemma advance_exact:
  assumes "streak_exact n xs k" "advance k h = (k', dn, h')"
  shows "streak_exact n (h # xs) k' \<and> h' = h \<and> (dn \<longleftrightarrow> needed n \<le> run_length (h # xs))"
proof -
  have e: "streak_inv n xs k" "sk_count k = int (run_length xs)" using assms(1) by (simp_all add: streak_exact_def)
  have "xs \<noteq> [] \<Longrightarrow> 0 < sk_count k" using e(2) run_length_pos by simp
  then have "sk_count k' = int (run_length (h # xs))"
    using e assms(2) by (auto simp: streak_inv_def advance_def Let_def run_length_Cons split: if_splits)
  with advance_inv [OF e(1) assms(2)] show ?thesis by (auto simp: streak_exact_def needed_def)
qed

section \<open>Backends that hash in place\<close>

text \<open>The samples up to round \<open>n\<close>, newest first; a known initial hash counts as the oldest.\<close>

definition samples :: "(nat \<Rightarrow> u32) \<Rightarrow> u32 \<Rightarrow> nat \<Rightarrow> u32 list" where
  "samples H initial n = map (\<lambda>j. H (4 * j + 1)) (rev [0..<n]) @ (if initial \<noteq> 0 then [initial] else [])"

lemma samples_Suc: "samples H initial (Suc n) = H (4 * n + 1) # samples H initial n"
  by (simp add: samples_def)

lemma samples_0: "samples H initial 0 = (if initial \<noteq> 0 then [initial] else [])"
  by (simp add: samples_def)

lemma canonical_run:
  assumes "canonical_hash_probe sc rect None = Some probe" "sc_canonical sc = Some fast"
    "\<forall>t. snd fast t rect = (H t, None)"
    "st0 = \<lparr>st_streak = new_stable_streak initial n, st_sentinel = None\<rparr>"
  shows "\<exists>s. poll_run probe st0 0 k = (s, 4 * k) \<and> streak_exact n (samples H initial k) (st_streak s)"
    and "\<exists>s. round_of probe st0 0 k =
      (s, 4 * k + 2, agree (needed n) (samples H initial (Suc k)), H (4 * k + 1), None)"
proof -
  have ne: "\<not> rect_empty rect" using assms(1,2) by (auto simp: canonical_hash_probe_def split: if_splits)
  have p: "probe s t = (case advance (st_streak s) (H t) of (k, dn, h') \<Rightarrow> (s\<lparr>st_streak := k\<rparr>, Suc t, dn, h', None))" for s t
    using assms(1-3) ne by (auto simp: canonical_hash_probe_def)
  have step: "\<exists>s'. probe s (Suc (4 * k)) =
      (s', 4 * k + 2, agree (needed n) (samples H initial (Suc k)), H (4 * k + 1), None) \<and>
      streak_exact n (samples H initial (Suc k)) (st_streak s')"
    if "streak_exact n (samples H initial k) (st_streak s)" for s k
  proof -
    obtain k' dn h' where a: "advance (st_streak s) (H (4 * k + 1)) = (k', dn, h')" by (metis prod_cases3)
    from advance_exact [OF that a] a show ?thesis
      by (simp add: p samples_Suc agree_run_length)
  qed
  show run: "\<exists>s. poll_run probe st0 0 k = (s, 4 * k) \<and> streak_exact n (samples H initial k) (st_streak s)" for k
  proof (induction k)
    case 0
    then show ?case using new_stable_streak_exact [of n initial] by (simp add: assms(4) samples_0)
  next
    case (Suc k)
    then obtain s where s: "poll_run probe st0 0 k = (s, 4 * k)" "streak_exact n (samples H initial k) (st_streak s)" by blast
    from step [OF s(2)] s(1) show ?case by auto
  qed
  from run obtain s where s: "poll_run probe st0 0 k = (s, 4 * k)" "streak_exact n (samples H initial k) (st_streak s)" by blast
  from step [OF s(2)] s(1) show "\<exists>s. round_of probe st0 0 k =
      (s, 4 * k + 2, agree (needed n) (samples H initial (Suc k)), H (4 * k + 1), None)"
    by (auto simp: round_of_def)
qed



section \<open>Plain captures\<close>

lemma changed_inv: "streak_inv n xs k \<Longrightarrow> streak_inv n (h # xs) (changed k)"
  by (simp add: streak_inv_def changed_def)

text \<open>Captures that can be hashed: what each shows at its top-left pixel and what it hashes to.\<close>

definition captures :: "hasher option \<Rightarrow> 'e screen \<Rightarrow> rectangle \<Rightarrow> hasher option \<Rightarrow> (nat \<Rightarrow> rgba) \<Rightarrow> (nat \<Rightarrow> u32) \<Rightarrow> bool" where
  "captures dflt sc rect nh px H \<longleftrightarrow>
     (\<forall>t. \<exists>img. sc_grab sc t rect = Inr (Some img) \<and> valid_packed_image_layout img \<and> \<not> rect_empty (image_bounds img) \<and>
        image_at img (min_x (image_bounds img)) (min_y (image_bounds img)) = Some (px t) \<and>
        pixel_hash_of dflt (Some img) nh = Some (H t))"

lemma grab_probe_captures:
  assumes "captures dflt sc rect nh px H"
  shows "grab_hash_probe dflt sc rect nh s t =
    (if st_sentinel s \<noteq> None \<and> st_sentinel s \<noteq> Some (px t) then
       (s\<lparr>st_sentinel := Some (px t), st_streak := changed (st_streak s)\<rparr>, Suc t, False, sk_last (st_streak s), None)
     else
       (case advance (st_streak s) (H t) of
          (k, dn, h) \<Rightarrow> (s\<lparr>st_sentinel := Some (px t), st_streak := k\<rparr>, Suc t, dn, h, None)))"
proof -
  obtain img where i: "sc_grab sc t rect = Inr (Some img)" "valid_packed_image_layout img" "\<not> rect_empty (image_bounds img)"
    "image_at img (min_x (image_bounds img)) (min_y (image_bounds img)) = Some (px t)" "pixel_hash_of dflt (Some img) nh = Some (H t)"
    using assms unfolding captures_def by blast
  show ?thesis using i(2,3) by (simp add: grab_hash_probe_def i(1,4,5))
qed

definition grab_inv :: "int \<Rightarrow> (nat \<Rightarrow> rgba) \<Rightarrow> (nat \<Rightarrow> u32) \<Rightarrow> u32 \<Rightarrow> nat \<Rightarrow> settle \<Rightarrow> bool" where
  "grab_inv n px H initial k s \<longleftrightarrow> streak_inv n (samples H initial k) (st_streak s) \<and>
     st_sentinel s = (case k of 0 \<Rightarrow> None | Suc j \<Rightarrow> Some (px (4 * j + 1)))"

lemma grab_step:
  assumes "captures dflt sc rect nh px H" "grab_inv n px H initial k s"
  obtains s' dn h where "grab_hash_probe dflt sc rect nh s (Suc (4 * k)) = (s', 4 * k + 2, dn, h, None)"
    "grab_inv n px H initial (Suc k) s'"
    "dn \<longrightarrow> agree (needed n) (samples H initial (Suc k)) \<and> h = H (4 * k + 1)"
    "0 < k \<longrightarrow> px (4 * k + 1) = px (4 * k - 3) \<longrightarrow>
       0 < sk_count (st_streak s') \<and> (dn \<longleftrightarrow> 2 \<le> sk_count (st_streak s') \<and> max 1 n \<le> sk_count (st_streak s')) \<and>
       (0 < sk_count (st_streak s) \<and> H (4 * k + 1) = H (4 * k - 3) \<longrightarrow> sk_count (st_streak s') = sk_count (st_streak s) + 1)"
proof -
  have inv: "streak_inv n (samples H initial k) (st_streak s)" and
    sen: "st_sentinel s = (case k of 0 \<Rightarrow> None | Suc j \<Rightarrow> Some (px (4 * j + 1)))"
    using assms(2) by (simp_all add: grab_inv_def)
  have prev: "0 < k \<Longrightarrow> st_sentinel s = Some (px (4 * k - 3))"
    using sen by (cases k) simp_all
  have last: "0 < k \<Longrightarrow> 0 < sk_count (st_streak s) \<Longrightarrow> sk_last (st_streak s) = H (4 * k - 3)"
    using inv by (cases k) (auto simp: streak_inv_def samples_Suc)
  show thesis
  proof (cases "st_sentinel s \<noteq> None \<and> st_sentinel s \<noteq> Some (px (4 * k + 1))")
    case True
    then show thesis
      using that [of "s\<lparr>st_sentinel := Some (px (4 * k + 1)), st_streak := changed (st_streak s)\<rparr>" False "sk_last (st_streak s)"]
        prev changed_inv [OF inv] by (cases "k = 0") (auto simp: grab_probe_captures [OF assms(1)] grab_inv_def samples_Suc)
  next
    case False
    obtain k' dn h where a: "advance (st_streak s) (H (4 * k + 1)) = (k', dn, h)" by (metis prod_cases3)
    note ai = advance_inv [OF inv a]
    have "st_sentinel s = None \<or> st_sentinel s = Some (px (Suc (4 * k)))" using False by auto
    then have e: "grab_hash_probe dflt sc rect nh s (Suc (4 * k)) =
        (s\<lparr>st_sentinel := Some (px (4 * k + 1)), st_streak := k'\<rparr>, 4 * k + 2, dn, h, None)"
      using a by (auto simp: grab_probe_captures [OF assms(1)])
    show thesis
      by (rule that [OF e]) (use ai last in \<open>simp_all add: grab_inv_def samples_Suc agree_run_length\<close>)
  qed
qed

lemma grab_run:
  assumes "captures dflt sc rect nh px H" "st0 = \<lparr>st_streak = new_stable_streak initial n, st_sentinel = None\<rparr>"
  shows "\<exists>s. poll_run (grab_hash_probe dflt sc rect nh) st0 0 k = (s, 4 * k) \<and> grab_inv n px H initial k s"
proof (induction k)
  case 0
  then show ?case
    using new_stable_streak_exact [of n initial] by (simp add: assms(2) grab_inv_def samples_0 streak_exact_def)
next
  case (Suc k)
  then obtain s where s: "poll_run (grab_hash_probe dflt sc rect nh) st0 0 k = (s, 4 * k)" "grab_inv n px H initial k s" by blast
  show ?case by (rule grab_step [OF assms(1) s(2)]) (use s(1) in auto)
qed

lemma report_wait_ok: "report_wait cx r = (h, None) \<Longrightarrow> \<exists>s t ws. r = (s, t, ws, h, None)"
proof -
  assume a: "report_wait cx r = (h, None)"
  obtain s t ws v err where r: "r = (s, t, ws, v, err)" by (metis prod_cases5)
  show ?thesis
  proof (cases err)
    case None
    with a r show ?thesis by (simp add: report_wait_def)
  next
    case (Some e)
    then have "snd (report_wait cx r) \<noteq> None" by (cases e; cases "cx t") (simp_all add: r report_wait_def)
    with a show ?thesis by simp
  qed
qed

text \<open>Once the captures stop changing the streak grows with every round.\<close>

lemma grab_grows:
  assumes "captures dflt sc rect nh px H" "st0 = \<lparr>st_streak = new_stable_streak initial n, st_sentinel = None\<rparr>"
    "\<forall>j \<ge> N. px (4 * j + 1) = px (4 * N + 1) \<and> H (4 * j + 1) = H (4 * N + 1)"
  shows "\<exists>s. poll_run (grab_hash_probe dflt sc rect nh) st0 0 (N + 1 + i) = (s, 4 * (N + 1 + i)) \<and>
    grab_inv n px H initial (N + 1 + i) s \<and> int i \<le> sk_count (st_streak s)"
proof (induction i)
  case 0
  from grab_run [OF assms(1,2), of "N + 1"] show ?case by (auto simp: grab_inv_def streak_inv_def)
next
  case (Suc i)
  then obtain s where s: "poll_run (grab_hash_probe dflt sc rect nh) st0 0 (N + 1 + i) = (s, 4 * (N + 1 + i))"
    "grab_inv n px H initial (N + 1 + i) s" "int i \<le> sk_count (st_streak s)" by blast
  have e: "4 * (N + 1 + i) - 3 = 4 * (N + i) + 1" by simp
  have same: "px (4 * (N + 1 + i) + 1) = px (4 * (N + 1 + i) - 3)" "H (4 * (N + 1 + i) + 1) = H (4 * (N + 1 + i) - 3)"
    unfolding e using assms(3) [rule_format, of "N + 1 + i"] assms(3) [rule_format, of "N + i"] by simp_all
  show ?case
    by (rule grab_step [OF assms(1) s(2)]) (use s same in \<open>cases "i = 0"; auto\<close>)
qed

text \<open>
  C22. Waiting for a region to settle on plain captures is sound and settles. Whatever the context
  does, a returned hash is that of a capture at which the required number of newest captures hash
  alike; and although a change of the top-left pixel skips a hash, once the captures no longer
  change a wait that is not cancelled returns after at most the required number of further
  rounds.
\<close>

theorem settle_captures:
  assumes "captures dflt sc rect nh px H" "\<not> rect_empty rect" "canonical_hash_probe sc rect nh = None"
  shows "(\<forall>h. wait_for_no_change_from dflt cx (Some sc) rect initial n dur nh = Some (h, None) \<longrightarrow>
      (\<exists>k. agree (needed n) (samples H initial (Suc k)) \<and> h = H (4 * k + 1))) \<and>
    (\<forall>N. (\<forall>j \<ge> N. px (4 * j + 1) = px (4 * N + 1) \<and> H (4 * j + 1) = H (4 * N + 1)) \<longrightarrow>
      (\<exists>k \<le> N + needed n. wait_for_no_change_from dflt background (Some sc) rect initial n dur nh = Some (H (4 * k + 1), None)))"
proof -
  let ?st0 = "\<lparr>st_streak = new_stable_streak initial n, st_sentinel = None\<rparr>"
  let ?fn = "grab_hash_probe dflt sc rect nh"
  have w: "wait_for_no_change_from dflt cx (Some sc) rect initial n dur nh =
      map_option (report_wait cx) (poll_loop cx dur initial ?fn 0 [] ?st0 0)" for cx
    using assms(2,3) by (simp add: wait_for_no_change_from_def poll_see_def Let_def new_stable_streak_def)
  have round: "\<exists>s' dn h. round_of ?fn ?st0 0 k = (s', 4 * k + 2, dn, h, None) \<and>
      (dn \<longrightarrow> agree (needed n) (samples H initial (Suc k)) \<and> h = H (4 * k + 1))" for k
  proof -
    obtain s where s: "poll_run ?fn ?st0 0 k = (s, 4 * k)" "grab_inv n px H initial k s"
      using grab_run [OF assms(1) refl] by blast
    show ?thesis by (rule grab_step [OF assms(1) s(2)]) (use s(1) in \<open>auto simp: round_of_def\<close>)
  qed
  have "\<exists>k. agree (needed n) (samples H initial (Suc k)) \<and> h = H (4 * k + 1)"
    if r: "wait_for_no_change_from dflt cx (Some sc) rect initial n dur nh = Some (h, None)" for h
  proof -
    from r obtain s' t' ws' where "poll_loop cx dur initial ?fn 0 [] ?st0 0 = Some (s', t', ws', h, None)"
      unfolding w map_option_eq_Some using report_wait_ok by blast
    from poll_loop_sound [OF this] obtain k t'' where "round_of ?fn ?st0 0 k = (s', t'', True, h, None)" by blast
    moreover obtain s2 dn h2 where "round_of ?fn ?st0 0 k = (s2, 4 * k + 2, dn, h2, None)"
      and ok: "dn \<longrightarrow> agree (needed n) (samples H initial (Suc k)) \<and> h2 = H (4 * k + 1)" using round by blast
    ultimately have "dn" "h2 = h" by simp_all
    with ok have "agree (needed n) (samples H initial (Suc k)) \<and> h = H (4 * k + 1)" by blast
    then show ?thesis by blast
  qed
  moreover have "\<exists>k \<le> N + needed n. wait_for_no_change_from dflt background (Some sc) rect initial n dur nh = Some (H (4 * k + 1), None)"
    if still: "\<forall>j \<ge> N. px (4 * j + 1) = px (4 * N + 1) \<and> H (4 * j + 1) = H (4 * N + 1)" for N
  proof -
    let ?m = "needed n" and ?K = "N + needed n"
    have m: "2 \<le> ?m" by (simp add: needed_def)
    then obtain i where i: "?m = Suc i" by (cases ?m) auto
    obtain s where s: "poll_run ?fn ?st0 0 ?K = (s, 4 * ?K)" "grab_inv n px H initial ?K s" "int i \<le> sk_count (st_streak s)"
      using grab_grows [OF assms(1) refl still, of initial n i] i by auto
    have e: "4 * ?K - 3 = 4 * (N + i) + 1" using i by simp
    have same: "px (4 * ?K + 1) = px (4 * ?K - 3)" "H (4 * ?K + 1) = H (4 * ?K - 3)"
      unfolding e using still [rule_format, of ?K] still [rule_format, of "N + i"] by simp_all
    obtain s' dn h where st: "?fn s (Suc (4 * ?K)) = (s', 4 * ?K + 2, dn, h, None)"
      "dn \<longleftrightarrow> 2 \<le> sk_count (st_streak s') \<and> max 1 n \<le> sk_count (st_streak s')"
      "0 < sk_count (st_streak s) \<longrightarrow> sk_count (st_streak s') = sk_count (st_streak s) + 1"
      by (rule grab_step [OF assms(1) s(2)]) (use same m in auto)
    have "0 < i" using i m by simp
    then have "int ?m \<le> sk_count (st_streak s')" using st(3) s(3) i by simp
    moreover have "int ?m = max 2 n" by (simp add: needed_def)
    ultimately have "dn" using st(2) by simp
    then have "\<not> waits_on (round_of ?fn ?st0 0 ?K)" using st(1) s(1) by (simp add: round_of_def waits_on_def)
    then obtain k where k: "k \<le> ?K" "\<not> waits_on (round_of ?fn ?st0 0 k)" "\<forall>j < k. waits_on (round_of ?fn ?st0 0 j)"
      using ex_least_nat_le [of "\<lambda>k. \<not> waits_on (round_of ?fn ?st0 0 k)" ?K] by blast
    obtain s'' where "round_of ?fn ?st0 0 k = (s'', 4 * k + 2, True, H (4 * k + 1), None)"
      using round [of k] k(2) by (auto simp: waits_on_def)
    from poll_loop_first [OF k(3) this] k(1) show ?thesis by (auto simp: w report_wait_def)
  qed
  ultimately show ?thesis by blast
qed

theorem settle_captures_witness:
  "\<exists>h. wait_for_no_change_from None background
     (Some \<lparr>sc_grab = (\<lambda>t r. Inr (Some (Generic r (\<lambda>x y. [1, 2, 3, 255])))), sc_canonical = None\<rparr>)
     \<lparr>min_x = 0, min_y = 0, max_x = 1, max_y = 1\<rparr> 0 2 1000000 None = Some (h, None)"
proof -
  let ?sc = "\<lparr>sc_grab = (\<lambda>t r. Inr (Some (Generic r (\<lambda>x y. [1, 2, 3, 255])))), sc_canonical = None\<rparr>"
  let ?r = "\<lparr>min_x = 0, min_y = 0, max_x = 1, max_y = 1\<rparr>"
  obtain H where H: "pixel_hash_of None (Some (Generic ?r (\<lambda>x y. [1, 2, 3, 255]))) None = Some H"
    by (simp add: pixel_hash_of_def pixel_hash_image_generic)
  have ne: "\<not> rect_empty ?r" by (simp add: rect_empty_def)
  then have "captures None ?sc ?r None (\<lambda>_. [1, 2, 3, 255]) (\<lambda>_. H)" using H by (simp add: captures_def)
  note c = conjunct2 [OF settle_captures [OF this ne, of background 0 2 1000000]]
  have "canonical_hash_probe ?sc ?r None = None" by (simp add: canonical_hash_probe_def)
  from c [OF this, rule_format, of 0] show ?thesis by blast
qed

end
