(* ===== verification/ScanFor.thy ===== *)
theory ScanFor
  imports FindWait
begin

text \<open>
  Watching several regions (\<^verbatim>\<open>ScanFor\<close> and \<^verbatim>\<open>rectangleArea\<close> of \<^verbatim>\<open>find/find.go\<close>). Regions
  that are close together are hashed in one capture of their bounding box, others are captured
  one by one; on a screen that does not change both find the same region. Areas are 64-bit
  unsigned numbers, here naturals with the code's overflow tests.
\<close>

section \<open>One capture or many\<close>

definition max_uint :: nat where "max_uint = 2 ^ 64 - 1"

text \<open>\<^verbatim>\<open>uint64(v)\<close> for a Go \<^verbatim>\<open>int\<close>.\<close>

definition to_uint :: "int \<Rightarrow> nat" where
  "to_uint v = nat (v mod 2 ^ 64)"

definition rectangle_area :: "rectangle \<Rightarrow> nat option" where
  "rectangle_area r =
     (if rect_empty r then None
      else
        let width = to_uint (rect_dx r); height = to_uint (rect_dy r) in
        if width > max_uint div height then None else Some (width * height))"

fun scan_areas :: "rectangle list \<Rightarrow> rectangle \<Rightarrow> nat \<Rightarrow> bool \<Rightarrow> rectangle \<times> nat \<times> bool" where
  "scan_areas [] bbox sm ok = (bbox, sm, ok)"
| "scan_areas (r # rs) bbox sm ok =
     (case rectangle_area r of
        Some area \<Rightarrow>
          if \<not> ok \<or> max_uint - sm < area then scan_areas rs (rect_union bbox r) sm False
          else scan_areas rs (rect_union bbox r) (sm + area) ok
      | None \<Rightarrow> scan_areas rs (rect_union bbox r) sm False)"

definition scan_plan :: "rectangle list \<Rightarrow> rectangle \<times> bool" where
  "scan_plan rects =
     (case scan_areas rects (hd rects) 0 True of
        (bbox, sm, ok) \<Rightarrow>
          (bbox, ok \<and> (case rectangle_area bbox of
             None \<Rightarrow> False
           | Some area \<Rightarrow> sm \<le> max_uint div 2 \<and> area \<le> 2 * sm)))"

section \<open>Scanning\<close>

text \<open>A round ends with an error, a match, or \<open>None\<close> to go on, and at an instant.\<close>

type_synonym 'e scan_stop = "('e see_error + (u32 \<times> rectangle) option) \<times> nat"

text \<open>The regions of one capture whose bounds start at \<open>(bx, by)\<close>.\<close>

fun scan_hashes :: "hasher option \<Rightarrow> ctx \<Rightarrow> image \<Rightarrow> rectangle \<Rightarrow> int \<Rightarrow> int \<Rightarrow> hasher option \<Rightarrow> (rectangle \<times> u32) list \<Rightarrow> nat \<Rightarrow> 'e scan_stop" where
  "scan_hashes dflt cx img bbox bx by' nh [] t = (Inr None, t)"
| "scan_hashes dflt cx img bbox bx by' nh ((r, want) # rs) t =
     (let tr = image_rect (wrap64 (min_x r - min_x bbox + bx)) (wrap64 (min_y r - min_y bbox + by'))
                 (wrap64 (max_x r - min_x bbox + bx)) (wrap64 (max_y r - min_y bbox + by')) in
      case pixel_hash_image dflt img tr nh of
        None \<Rightarrow> (Inl SPanic, t)
      | Some h \<Rightarrow>
          (case cx t of
             Some e \<Rightarrow> (Inl (SContext e), Suc t)
           | None \<Rightarrow> if h = want then (Inr (Some (h, r)), Suc t) else scan_hashes dflt cx img bbox bx by' nh rs (Suc t)))"

fun scan_grabs :: "hasher option \<Rightarrow> ctx \<Rightarrow> 'e screen \<Rightarrow> hasher option \<Rightarrow> (rectangle \<times> u32) list \<Rightarrow> nat \<Rightarrow> 'e scan_stop" where
  "scan_grabs dflt cx sc nh [] t = (Inr None, t)"
| "scan_grabs dflt cx sc nh ((r, want) # rs) t =
     (case grab_hash dflt cx (Some sc) r nh t of
        (h, Some e) \<Rightarrow> (Inl e, t + 3)
      | (h, None) \<Rightarrow>
          (case cx (t + 3) of
             Some e \<Rightarrow> (Inl (SContext e), t + 4)
           | None \<Rightarrow> if h = want then (Inr (Some (h, r)), t + 4) else scan_grabs dflt cx sc nh rs (t + 4)))"

text \<open>A capture that is not RGBA is drawn into an RGBA image once.\<close>

fun to_rgba :: "image \<Rightarrow> image option" where
  "to_rgba (RGBA p) = Some (RGBA p)"
| "to_rgba img =
     map_option (\<lambda>data. RGBA \<lparr>pix = data, stride = wrap64 (4 * rect_dx (image_bounds img)), bounds = image_bounds img\<rparr>)
       (draw_rgba (image_bounds img) img)"

definition scan_bbox :: "hasher option \<Rightarrow> ctx \<Rightarrow> 'e screen \<Rightarrow> rectangle \<Rightarrow> hasher option \<Rightarrow> (rectangle \<times> u32) list \<Rightarrow> nat \<Rightarrow> 'e scan_stop" where
  "scan_bbox dflt cx sc bbox nh watched t =
     (case sc_grab sc t bbox of
        Inl e \<Rightarrow> (Inl (SBackend e), Suc t)
      | Inr None \<Rightarrow> (Inl SNilImage, Suc t)
      | Inr (Some img) \<Rightarrow>
          if rect_empty (image_bounds img) \<or> \<not> valid_packed_image_layout img then (Inl SMalformed, Suc t)
          else if rect_dx (image_bounds img) \<noteq> rect_dx bbox \<or> rect_dy (image_bounds img) \<noteq> rect_dy bbox then (Inl SPartial, Suc t)
          else
            (case cx (Suc t) of
               Some e \<Rightarrow> (Inl (SContext e), t + 2)
             | None \<Rightarrow>
                 (case to_rgba img of
                    None \<Rightarrow> (Inl SPanic, t + 2)
                  | Some i \<Rightarrow>
                      scan_hashes dflt cx i bbox (min_x (image_bounds i)) (min_y (image_bounds i)) nh watched (t + 2))))"

definition scan_round :: "hasher option \<Rightarrow> ctx \<Rightarrow> 'e screen \<Rightarrow> rectangle \<times> bool \<Rightarrow> hasher option \<Rightarrow> (rectangle \<times> u32) list \<Rightarrow> nat \<Rightarrow> 'e scan_stop" where
  "scan_round dflt cx sc plan nh watched t =
     (if snd plan then scan_bbox dflt cx sc (fst plan) nh watched t else scan_grabs dflt cx sc nh watched t)"

partial_function (option) scan_loop ::
    "hasher option \<Rightarrow> ctx \<Rightarrow> 'e screen \<Rightarrow> rectangle \<times> bool \<Rightarrow> hasher option \<Rightarrow> (rectangle \<times> u32) list \<Rightarrow> nat \<Rightarrow> ('e see_error + u32 \<times> rectangle) option" where
  "scan_loop dflt cx sc plan nh watched t =
     (case cx t of
        Some e \<Rightarrow> Some (Inl (SContext e))
      | None \<Rightarrow>
          (case scan_round dflt cx sc plan nh watched (Suc t) of
             (Inl e, t') \<Rightarrow> Some (Inl e)
           | (Inr (Some m), t') \<Rightarrow> Some (Inr m)
           | (Inr None, t') \<Rightarrow>
               (case cx t' of
                  Some e \<Rightarrow> Some (Inl (STimeout e))
                | None \<Rightarrow> scan_loop dflt cx sc plan nh watched (Suc t'))))"

text \<open>The index of the first empty region.\<close>

fun empty_region :: "nat \<Rightarrow> rectangle list \<Rightarrow> nat option" where
  "empty_region i [] = None"
| "empty_region i (r # rs) = (if rect_empty r then Some i else empty_region (Suc i) rs)"

text \<open>\<^verbatim>\<open>ScanFor\<close>; the interval only sets the pace of the rounds.\<close>

definition scan_for ::
    "hasher option \<Rightarrow> ctx \<Rightarrow> 'e screen option \<Rightarrow> rectangle list \<Rightarrow> u32 list \<Rightarrow> hasher option \<Rightarrow> ('e see_error + u32 \<times> rectangle) option" where
  "scan_for dflt cx scr rects wants nh =
     (case scr of
        None \<Rightarrow> Some (Inl SUnavailable)
      | Some sc \<Rightarrow>
          if length rects \<noteq> length wants then Some (Inl (SLengths (length rects) (length wants)))
          else if rects = [] then Some (Inl SNoRegions)
          else
            case empty_region 0 rects of
              Some i \<Rightarrow> Some (Inl (SEmptyAt i))
            | None \<Rightarrow> scan_loop dflt cx sc (scan_plan rects) nh (zip rects wants) 0)"

section \<open>The choice is made on exact areas\<close>

definition area :: "rectangle \<Rightarrow> nat" where
  "area r = nat (max_x r - min_x r) * nat (max_y r - min_y r)"

lemma to_uint_wrap: "0 \<le> d \<Longrightarrow> d < 2 ^ 64 \<Longrightarrow> to_uint (wrap64 d) = nat d"
proof -
  assume d: "0 \<le> d" "d < 2 ^ 64"
  have "wrap64 d mod 2 ^ 64 = d mod 2 ^ 64"
    unfolding wrap64_def by (simp add: mod_diff_left_eq)
  with d show ?thesis by (simp add: to_uint_def)
qed

lemma rectangle_area_exact:
  assumes "rect_ints r" "\<not> rect_empty r"
  shows "rectangle_area r = (if area r \<le> max_uint then Some (area r) else None)"
proof -
  let ?w = "nat (max_x r - min_x r)" and ?h = "nat (max_y r - min_y r)"
  have b: "max_x r - min_x r < 2 ^ 64" "max_y r - min_y r < 2 ^ 64" "0 < max_x r - min_x r" "0 < max_y r - min_y r"
    using assms by (simp_all add: rect_ints_def in_int_def min_int_def max_int_def rect_empty_def)
  then have u: "to_uint (rect_dx r) = ?w" "to_uint (rect_dy r) = ?h"
    by (simp_all add: rect_dx_def rect_dy_def to_uint_wrap)
  have "0 < ?h" using b by simp
  then have "?w > max_uint div ?h \<longleftrightarrow> ?w * ?h > max_uint"
    by (simp add: div_less_iff_less_mult)
  then show ?thesis using assms(2) by (auto simp: rectangle_area_def Let_def u area_def)
qed

lemma rect_union_ints: "rect_ints r \<Longrightarrow> rect_ints s \<Longrightarrow> rect_ints (rect_union r s)"
  by (auto simp: rect_union_def rect_ints_def min_def max_def)

lemma rect_union_nonempty: "\<not> rect_empty r \<Longrightarrow> \<not> rect_empty s \<Longrightarrow> \<not> rect_empty (rect_union r s)"
  by (auto simp: rect_union_def rect_empty_def)

lemma rect_union_covers:
  "\<not> rect_empty r \<Longrightarrow> \<not> rect_empty s \<Longrightarrow> rect_in r (rect_union r s) \<and> rect_in s (rect_union r s)"
  by (auto simp: rect_union_def rect_in_def)

definition bounding :: "rectangle list \<Rightarrow> rectangle" where
  "bounding rs = fold (\<lambda>r b. rect_union b r) rs (hd rs)"

lemma scan_areas_exact:
  assumes "\<forall>r \<in> set rs. rect_ints r \<and> \<not> rect_empty r" "ok \<longrightarrow> sm \<le> max_uint"
  shows "\<exists>tot. scan_areas rs bbox sm ok = (fold (\<lambda>r b. rect_union b r) rs bbox, tot, ok \<and> sm + sum_list (map area rs) \<le> max_uint) \<and>
    (ok \<and> sm + sum_list (map area rs) \<le> max_uint \<longrightarrow> tot = sm + sum_list (map area rs))"
  using assms
proof (induction rs arbitrary: bbox sm ok)
  case (Cons r rs)
  have a: "rectangle_area r = (if area r \<le> max_uint then Some (area r) else None)"
    using Cons.prems rectangle_area_exact by simp
  have rest: "\<forall>r \<in> set rs. rect_ints r \<and> \<not> rect_empty r" using Cons.prems by simp
  show ?case
  proof (cases "ok \<and> sm + area r \<le> max_uint")
    case True
    then have "scan_areas (r # rs) bbox sm ok = scan_areas rs (rect_union bbox r) (sm + area r) ok"
      using a by auto
    with Cons.IH [OF rest, of ok "sm + area r" "rect_union bbox r"] True show ?thesis by (simp add: add.assoc)
  next
    case False
    then have "scan_areas (r # rs) bbox sm ok = scan_areas rs (rect_union bbox r) sm False"
      using a Cons.prems(2) by auto
    with Cons.IH [OF rest, of False sm "rect_union bbox r"] False show ?thesis by auto
  qed
qed auto

lemma fold_union:
  assumes "\<forall>r \<in> set rs. rect_ints r \<and> \<not> rect_empty r" "rect_ints b" "\<not> rect_empty b"
  shows "rect_ints (fold (\<lambda>r b. rect_union b r) rs b) \<and> \<not> rect_empty (fold (\<lambda>r b. rect_union b r) rs b) \<and>
    rect_in b (fold (\<lambda>r b. rect_union b r) rs b) \<and> (\<forall>r \<in> set rs. rect_in r (fold (\<lambda>r b. rect_union b r) rs b))"
  using assms
proof (induction rs arbitrary: b)
  case Nil
  then show ?case by (simp add: rect_in_def)
next
  case (Cons r rs)
  let ?u = "rect_union b r"
  have u: "rect_ints ?u" "\<not> rect_empty ?u" "rect_in b ?u" "rect_in r ?u"
    using Cons.prems rect_union_ints rect_union_nonempty rect_union_covers by auto
  have trans: "rect_in x ?u \<Longrightarrow> rect_in ?u f \<Longrightarrow> rect_in x f" for x f
    using u(2) by (auto simp: rect_in_def)
  from Cons.IH [of ?u] Cons.prems u trans show ?case by auto
qed

lemma bounding_covers:
  assumes "rects \<noteq> []" "\<forall>r \<in> set rects. rect_ints r \<and> \<not> rect_empty r"
  shows "rect_ints (bounding rects)" "\<not> rect_empty (bounding rects)" "\<forall>r \<in> set rects. rect_in r (bounding rects)"
  using fold_union [OF assms(2), of "hd rects"] assms by (simp_all add: bounding_def)

text \<open>
  The choice between one capture and many is made on exact areas: whatever the coordinates,
  none of the 64-bit products and sums wraps unnoticed. One capture of the bounding box, which
  contains every region, is chosen exactly when its area is at most twice the sum of the areas
  and that sum does not exceed half the range.
\<close>

theorem scan_plan_exact:
  assumes "rects \<noteq> []" "\<forall>r \<in> set rects. rect_ints r \<and> \<not> rect_empty r"
  shows "scan_plan rects =
      (bounding rects, sum_list (map area rects) \<le> max_uint div 2 \<and> area (bounding rects) \<le> 2 * sum_list (map area rects)) \<and>
    (\<forall>r \<in> set rects. rect_in r (bounding rects))"
proof -
  let ?S = "sum_list (map area rects)"
  obtain tot where t: "scan_areas rects (hd rects) 0 True = (bounding rects, tot, ?S \<le> max_uint)" "?S \<le> max_uint \<longrightarrow> tot = ?S"
    using scan_areas_exact [OF assms(2), of True 0 "hd rects"] by (auto simp: bounding_def)
  note b = bounding_covers [OF assms]
  have half: "max_uint div 2 * 2 \<le> max_uint" "max_uint div 2 \<le> max_uint" by simp_all
  have "(?S \<le> max_uint \<and> (case rectangle_area (bounding rects) of None \<Rightarrow> False | Some a \<Rightarrow> tot \<le> max_uint div 2 \<and> a \<le> 2 * tot)) =
      (?S \<le> max_uint div 2 \<and> area (bounding rects) \<le> 2 * ?S)"
  proof (cases "?S \<le> max_uint")
    case True
    then show ?thesis using t(2) half rectangle_area_exact [OF b(1,2)] by auto
  next
    case False
    then show ?thesis using half by auto
  qed
  then show ?thesis using t(1) b(3) by (simp add: scan_plan_def)
qed

theorem scan_plan_exact_witness:
  "scan_plan [\<lparr>min_x = 0, min_y = 0, max_x = 10, max_y = 10\<rparr>, \<lparr>min_x = 10, min_y = 0, max_x = 20, max_y = 10\<rparr>] =
     (\<lparr>min_x = 0, min_y = 0, max_x = 20, max_y = 10\<rparr>, True)"
proof -
  let ?rs = "[\<lparr>min_x = 0, min_y = 0, max_x = 10, max_y = 10\<rparr>, \<lparr>min_x = 10, min_y = 0, max_x = 20, max_y = 10\<rparr>]"
  have "\<forall>r \<in> set ?rs. rect_ints r \<and> \<not> rect_empty r"
    by (simp add: rect_ints_def in_int_def min_int_def max_int_def rect_empty_def)
  from conjunct1 [OF scan_plan_exact [OF _ this]] show ?thesis
    by (simp add: bounding_def rect_union_def rect_empty_def area_def max_uint_def)
qed

section \<open>A screen that does not change\<close>

text \<open>
  A backend that captures the pixels \<open>P\<close> of the rectangles \<open>R\<close>: the image has the size of the rectangle and starts
  anywhere, and hashes taken in place are those of the pixels.
\<close>

definition region_hash :: "hasher option \<Rightarrow> hasher option \<Rightarrow> (int \<Rightarrow> int \<Rightarrow> rgba) \<Rightarrow> rectangle \<Rightarrow> u32" where
  "region_hash dflt nh P r = hash_bytes dflt nh (concat (map (\<lambda>(x, y). P x y) (points r)))"

definition captured :: "(int \<Rightarrow> int \<Rightarrow> rgba) \<Rightarrow> rectangle \<Rightarrow> packed \<Rightarrow> bool" where
  "captured P r p \<longleftrightarrow> good_packed p \<and> rect_dx (bounds p) = rect_dx r \<and> rect_dy (bounds p) = rect_dy r \<and>
     (\<forall>x y. point_in x y r \<longrightarrow> pixel p (x - min_x r + min_x (bounds p)) (y - min_y r + min_y (bounds p)) = P x y)"

definition shows_pixels :: "hasher option \<Rightarrow> 'e screen \<Rightarrow> (int \<Rightarrow> int \<Rightarrow> rgba) \<Rightarrow> rectangle set \<Rightarrow> bool" where
  "shows_pixels dflt sc P R \<longleftrightarrow>
     (\<forall>t. \<forall>r \<in> R. (\<exists>p. sc_grab sc t r = Inr (Some (RGBA p)) \<and> captured P r p) \<and>
        (\<forall>fast. sc_canonical sc = Some fast \<longrightarrow> snd fast t r = (region_hash dflt None P r, None)))"

lemma points_shift:
  "points \<lparr>min_x = min_x r + dx, min_y = min_y r + dy, max_x = max_x r + dx, max_y = max_y r + dy\<rparr> =
     map (\<lambda>(x, y). (x + dx, y + dy)) (points r)"
proof -
  have u: "[a + d..b + d - 1] = map (\<lambda>x. x + d) [a..b - 1]" for a b d :: int
  proof (cases "a \<le> b")
    case True
    have "map (\<lambda>x. x) [a + d..(a + d) + int (nat (b - a)) - 1] = map (\<lambda>i. a + d + int i) [0..<nat (b - a)]" by (rule map_upto_upt)
    moreover have "map (\<lambda>x. x + d) [a..a + int (nat (b - a)) - 1] = map (\<lambda>i. a + int i + d) [0..<nat (b - a)]" by (rule map_upto_upt)
    ultimately show ?thesis using True by (simp add: algebra_simps)
  qed simp
  show ?thesis
    by (simp add: points_def u map_concat o_def)
qed

lemma exact_size:
  assumes "rect_ints r" "\<not> rect_empty r" "0 < rect_dx r" "0 < rect_dy r"
  shows "rect_dx r = max_x r - min_x r" "rect_dy r = max_y r - min_y r"
proof -
  show "rect_dx r = max_x r - min_x r" using rect_dx_pos assms by blast
  have "0 \<le> max_y r - min_y r" "max_y r - min_y r < 2 ^ 64"
    using assms(1,2) by (simp_all add: rect_ints_def in_int_def min_int_def max_int_def rect_empty_def)
  with wrap64_sub_neg [OF this] assms(4) show "rect_dy r = max_y r - min_y r"
    by (simp add: rect_dy_def split: if_splits)
qed

text \<open>A region of a capture of a larger rectangle hashes as its own pixels.\<close>

lemma hash_in_capture:
  assumes "captured P b p" "rect_ints b" "rect_ints r" "\<not> rect_empty r" "rect_in r b"
  shows "pixel_hash_image dflt (RGBA p)
      (image_rect (wrap64 (min_x r - min_x b + min_x (bounds p))) (wrap64 (min_y r - min_y b + min_y (bounds p)))
        (wrap64 (max_x r - min_x b + min_x (bounds p))) (wrap64 (max_y r - min_y b + min_y (bounds p)))) nh =
    Some (region_hash dflt nh P r)"
proof -
  have g: "good_packed p" using assms(1) by (simp add: captured_def)
  note f = good_packed_facts [OF g]
  have in_b: "min_x b \<le> min_x r" "max_x r \<le> max_x b" "min_y b \<le> min_y r" "max_y r \<le> max_y b"
    and ne: "min_x r < max_x r" "min_y r < max_y r"
    using assms(4,5) by (auto simp: rect_in_def rect_empty_def)
  have "\<not> rect_empty b" using in_b ne by (simp add: rect_empty_def)
  then have d: "max_x b - min_x b = max_x (bounds p) - min_x (bounds p)" "max_y b - min_y b = max_y (bounds p) - min_y (bounds p)"
    using exact_size [OF assms(2)] assms(1) f(1-4) by (simp_all add: captured_def)
  have pi: "rect_ints (bounds p)" using g by (simp add: good_packed_def rect_sane_def)
  let ?dx = "min_x (bounds p) - min_x b" and ?dy = "min_y (bounds p) - min_y b"
  let ?t = "\<lparr>min_x = min_x r + ?dx, min_y = min_y r + ?dy, max_x = max_x r + ?dx, max_y = max_y r + ?dy\<rparr>"
  have w: "wrap64 (min_x r - min_x b + min_x (bounds p)) = min_x r + ?dx" "wrap64 (min_y r - min_y b + min_y (bounds p)) = min_y r + ?dy"
    "wrap64 (max_x r - min_x b + min_x (bounds p)) = max_x r + ?dx" "wrap64 (max_y r - min_y b + min_y (bounds p)) = max_y r + ?dy"
    using in_b ne d pi by (simp_all add: rect_ints_def in_int_def algebra_simps)
  have t: "image_rect (min_x r + ?dx) (min_y r + ?dy) (max_x r + ?dx) (max_y r + ?dy) = ?t"
    using ne by (simp add: image_rect_def)
  have reg: "region_of ?t (bounds p)" using in_b ne d by (auto simp: region_of_def rect_empty_def)
  have ri: "rect_intersect ?t (bounds p) = ?t"
    using reg by (simp add: rect_intersect_def region_of_def rect_empty_def max_def min_def)
  have "\<not> rect_empty (rect_intersect ?t (bounds p))" using reg ri by (simp add: region_of_def)
  from pixel_hash_image_rgba [OF g this, of dflt nh]
  have "pixel_hash_image dflt (RGBA p) ?t nh = Some (hash_bytes dflt nh (concat (map (\<lambda>(x, y). pixel p x y) (points ?t))))"
    unfolding ri region_bytes_points [OF g reg] .
  also have "map (\<lambda>(x, y). pixel p x y) (points ?t) = map (\<lambda>(x, y). P x y) (points r)"
  proof -
    have "pixel p (x + ?dx) (y + ?dy) = P x y" if "(x, y) \<in> set (points r)" for x y
    proof -
      have "point_in x y b" using that in_b by (auto simp: points_set point_in_def)
      then have "pixel p (x - min_x b + min_x (bounds p)) (y - min_y b + min_y (bounds p)) = P x y"
        using assms(1) by (simp add: captured_def)
      then show ?thesis by (simp add: algebra_simps)
    qed
    then show ?thesis unfolding points_shift by (auto intro!: map_cong)
  qed
  finally show ?thesis unfolding w t region_hash_def .
qed

definition first_hit :: "hasher option \<Rightarrow> hasher option \<Rightarrow> (int \<Rightarrow> int \<Rightarrow> rgba) \<Rightarrow> (rectangle \<times> u32) list \<Rightarrow> (u32 \<times> rectangle) option" where
  "first_hit dflt nh P ws =
     map_option (\<lambda>(r, want). (want, r)) (find (\<lambda>(r, want). region_hash dflt nh P r = want) ws)"

lemma scan_hashes_static:
  assumes "captured P b p" "rect_ints b" "\<forall>(r, want) \<in> set ws. rect_ints r \<and> \<not> rect_empty r \<and> rect_in r b"
  shows "\<exists>t'. scan_hashes dflt background (RGBA p) b (min_x (bounds p)) (min_y (bounds p)) nh ws t = (Inr (first_hit dflt nh P ws), t')"
  using assms(3)
proof (induction ws arbitrary: t)
  case (Cons w ws)
  obtain r want where w: "w = (r, want)" by (cases w)
  have "rect_ints r" "\<not> rect_empty r" "rect_in r b" using Cons.prems w by auto
  note h = hash_in_capture [OF assms(1,2) this, of dflt nh]
  show ?case
    using Cons.IH [of "Suc t"] Cons.prems h by (auto simp: w background_def first_hit_def Let_def)
qed (simp add: first_hit_def)

lemma grab_hash_static:
  assumes "shows_pixels dflt sc P R" "rect_ints r" "\<not> rect_empty r" "r \<in> R"
  shows "grab_hash dflt background (Some sc) r nh t = (region_hash dflt nh P r, None)"
proof (cases "if nh = None then sc_canonical sc else None")
  case (Some fast)
  then have "nh = None" "sc_canonical sc = Some fast" by (auto split: if_splits)
  then show ?thesis
    using assms by (simp add: grab_hash_def background_def canonical_hash_def shows_pixels_def)
next
  case None
  obtain p where p: "sc_grab sc (Suc t) r = Inr (Some (RGBA p))" "captured P r p"
    using assms(1,4) unfolding shows_pixels_def by blast
  then have g: "good_packed p" and d: "rect_dx (bounds p) = rect_dx r" "rect_dy (bounds p) = rect_dy r" by (simp_all add: captured_def)
  note f = good_packed_facts [OF g]
  have e: "max_x r - min_x r = max_x (bounds p) - min_x (bounds p)" "max_y r - min_y r = max_y (bounds p) - min_y (bounds p)"
    using exact_size [OF assms(2,3)] d f(1-4) by simp_all
  have pi: "rect_ints (bounds p)" using g by (simp add: good_packed_def rect_sane_def)
  have m: "max_x r - min_x r + min_x (bounds p) = max_x (bounds p)" "max_y r - min_y r + min_y (bounds p) = max_y (bounds p)"
    using e by simp_all
  have "rect_in r r" by (simp add: rect_in_def)
  from hash_in_capture [OF p(2) assms(2,2,3) this, of dflt nh]
  have "pixel_hash_image dflt (RGBA p) (image_rect (min_x (bounds p)) (min_y (bounds p)) (max_x (bounds p)) (max_y (bounds p))) nh =
      Some (region_hash dflt nh P r)"
    unfolding m using pi by (simp add: rect_ints_def)
  moreover have "image_rect (min_x (bounds p)) (min_y (bounds p)) (max_x (bounds p)) (max_y (bounds p)) = bounds p"
    using f(1,2) by (simp add: image_rect_def)
  ultimately have "pixel_hash_of dflt (Some (RGBA p)) nh = Some (region_hash dflt nh P r)" by (simp add: pixel_hash_of_def)
  then show ?thesis
    using None p(1) d f(8) g by (simp add: grab_hash_def background_def grab_image_hash_def good_packed_def)
qed

lemma scan_grabs_static:
  assumes "shows_pixels dflt sc P R" "\<forall>(r, want) \<in> set ws. rect_ints r \<and> \<not> rect_empty r \<and> r \<in> R"
  shows "\<exists>t'. scan_grabs dflt background sc nh ws t = (Inr (first_hit dflt nh P ws), t')"
  using assms(2)
proof (induction ws arbitrary: t)
  case (Cons w ws)
  obtain r want where w: "w = (r, want)" by (cases w)
  have "rect_ints r" "\<not> rect_empty r" "r \<in> R" using Cons.prems w by auto
  note h = grab_hash_static [OF assms(1) this, of nh t]
  show ?case
    using Cons.IH [of "t + 4"] Cons.prems h by (auto simp: w background_def first_hit_def)
qed (simp add: first_hit_def)

lemma scan_round_static:
  assumes "shows_pixels dflt sc P (insert (bounding rects) (set rects))" "rects \<noteq> []" "\<forall>r \<in> set rects. rect_ints r \<and> \<not> rect_empty r" "length rects = length wants"
  shows "\<exists>t'. scan_round dflt background sc (scan_plan rects) nh (zip rects wants) t = (Inr (first_hit dflt nh P (zip rects wants)), t')"
proof (cases "snd (scan_plan rects)")
  case False
  have "\<forall>(r, want) \<in> set (zip rects wants). rect_ints r \<and> \<not> rect_empty r \<and> r \<in> insert (bounding rects) (set rects)"
    using assms(3) by (auto dest: set_zip_leftD)
  from scan_grabs_static [OF assms(1) this] False show ?thesis by (simp add: scan_round_def)
next
  case True
  note b = bounding_covers [OF assms(2,3)]
  have plan: "fst (scan_plan rects) = bounding rects"
    using scan_areas_exact [OF assms(3), of True 0 "hd rects"] by (auto simp: scan_plan_def bounding_def)
  obtain p where p: "sc_grab sc t (bounding rects) = Inr (Some (RGBA p))" "captured P (bounding rects) p"
    using assms(1) unfolding shows_pixels_def by blast
  then have g: "good_packed p" and d: "rect_dx (bounds p) = rect_dx (bounding rects)" "rect_dy (bounds p) = rect_dy (bounding rects)"
    by (simp_all add: captured_def)
  have "\<forall>(r, want) \<in> set (zip rects wants). rect_ints r \<and> \<not> rect_empty r \<and> rect_in r (bounding rects)"
    using assms(3) b(3) by (auto dest: set_zip_leftD)
  from scan_hashes_static [OF p(2) b(1) this] show ?thesis
    using True plan p(1) d g good_packed_facts(8) [OF g]
    by (simp add: scan_round_def scan_bbox_def background_def good_packed_def)
qed

lemma empty_region_None: "\<forall>r \<in> set rs. \<not> rect_empty r \<Longrightarrow> empty_region i rs = None"
  by (induction rs arbitrary: i) auto

lemma scan_loop_step:
  assumes eq: "(case cx t of
        Some e \<Rightarrow> Some (Inl (SContext e))
      | None \<Rightarrow>
          (case scan_round dflt cx sc plan nh watched (Suc t) of
             (Inl e, t') \<Rightarrow> Some (Inl e)
           | (Inr (Some m), t') \<Rightarrow> Some (Inr m)
           | (Inr None, t') \<Rightarrow>
               (case cx t' of
                  Some e \<Rightarrow> Some (Inl (STimeout e))
                | None \<Rightarrow> loop dflt cx sc plan nh watched (Suc t')))) = Some r"
    and ih: "\<And>dflt cx sc plan nh watched t r. loop dflt cx sc plan nh watched t = Some r \<Longrightarrow>
      cx = background \<longrightarrow> \<not> (\<forall>t. \<exists>t'. scan_round dflt cx sc plan nh watched t = (Inr None, t'))"
  shows "cx = background \<longrightarrow> \<not> (\<forall>t. \<exists>t'. scan_round dflt cx sc plan nh watched t = (Inr None, t'))"
proof (intro impI notI)
  assume cx: "cx = background" and all: "\<forall>t. \<exists>t'. scan_round dflt cx sc plan nh watched t = (Inr None, t')"
  then obtain t' where "scan_round dflt cx sc plan nh watched (Suc t) = (Inr None, t')" by blast
  then have "loop dflt cx sc plan nh watched (Suc t') = Some r" using eq by (simp add: cx background_def)
  from ih [OF this] cx all show False by blast
qed

lemma scan_loop_never:
  assumes "\<forall>t. \<exists>t'. scan_round dflt background sc plan nh watched t = (Inr None, t')"
  shows "scan_loop dflt background sc plan nh watched t = None"
proof (rule ccontr)
  assume "scan_loop dflt background sc plan nh watched t \<noteq> None"
  then obtain r where r: "scan_loop dflt background sc plan nh watched t = Some r" by blast
  have "background = background \<longrightarrow> \<not> (\<forall>t. \<exists>t'. scan_round dflt background sc plan nh watched t = (Inr None, t'))"
    by (rule scan_loop.raw_induct [where P = "\<lambda>dflt cx sc plan nh watched t r. cx = background \<longrightarrow>
        \<not> (\<forall>t. \<exists>t'. scan_round dflt cx sc plan nh watched t = (Inr None, t'))", OF _ r])
      (rule scan_loop_step, assumption, blast)
  with assms show False by blast
qed

text \<open>
  C23. How regions are captured does not change what is found. On a screen that stays the same,
  watched by a faithful backend, a scan that is not cancelled finds the first region, in the
  order given, whose hash is the wanted one, whether the regions are cut out of one capture of
  their bounding box or captured one by one, and it keeps scanning when there is none.
\<close>

theorem scan_for_finds_first:
  assumes "shows_pixels dflt sc P (insert (bounding rects) (set rects))" "rects \<noteq> []" "\<forall>r \<in> set rects. rect_ints r \<and> \<not> rect_empty r" "length rects = length wants"
  shows "scan_for dflt background (Some sc) rects wants nh =
    map_option (\<lambda>(r, want). Inr (want, r)) (find (\<lambda>(r, want). region_hash dflt nh P r = want) (zip rects wants))"
proof -
  let ?ws = "zip rects wants"
  have s: "scan_for dflt background (Some sc) rects wants nh = scan_loop dflt background sc (scan_plan rects) nh ?ws 0"
    using assms empty_region_None [of rects 0] by (simp add: scan_for_def)
  note round = scan_round_static [OF assms, of nh]
  show ?thesis
  proof (cases "find (\<lambda>(r, want). region_hash dflt nh P r = want) ?ws")
    case None
    then have "first_hit dflt nh P ?ws = None" by (simp add: first_hit_def)
    then have "scan_loop dflt background sc (scan_plan rects) nh ?ws 0 = None"
      using round by (intro scan_loop_never) auto
    with None show ?thesis by (simp add: s)
  next
    case (Some m)
    obtain r want where m: "m = (r, want)" by (cases m)
    obtain t' where "scan_round dflt background sc (scan_plan rects) nh ?ws (Suc 0) = (Inr (Some (want, r)), t')"
      using round [of "Suc 0"] Some m by (auto simp: first_hit_def)
    then have "scan_loop dflt background sc (scan_plan rects) nh ?ws 0 = Some (Inr (want, r))"
      by (subst scan_loop.simps) (simp add: background_def)
    with Some m show ?thesis by (simp add: s)
  qed
qed

text \<open>A screen of one colour, captured with absolute coordinates.\<close>

theorem scan_for_finds_first_witness:
  "scan_for None background
     (Some \<lparr>sc_grab = (\<lambda>t r. Inr (Some (RGBA \<lparr>pix = replicate 8 7, stride = 4 * rect_dx r, bounds = r\<rparr>))), sc_canonical = None\<rparr>)
     [\<lparr>min_x = 0, min_y = 0, max_x = 1, max_y = 1\<rparr>, \<lparr>min_x = 1, min_y = 0, max_x = 2, max_y = 1\<rparr>] [0, crc32_update 0 [7, 7, 7, 7]] None =
   Some (Inr (crc32_update 0 [7, 7, 7, 7], \<lparr>min_x = 1, min_y = 0, max_x = 2, max_y = 1\<rparr>))"
proof -
  let ?sc = "\<lparr>sc_grab = (\<lambda>t r. Inr (Some (RGBA \<lparr>pix = replicate 8 7, stride = 4 * rect_dx r, bounds = r\<rparr>))), sc_canonical = None\<rparr>"
  let ?r = "\<lparr>min_x = 0, min_y = 0, max_x = 1, max_y = 1\<rparr>" and ?s = "\<lparr>min_x = 1, min_y = 0, max_x = 2, max_y = 1\<rparr>"
  let ?b = "\<lparr>min_x = 0, min_y = 0, max_x = 2, max_y = 1\<rparr>" and ?P = "\<lambda>x y. [7, 7, 7, 7] :: byte list"
  have b: "bounding [?r, ?s] = ?b" by (simp add: bounding_def rect_union_def rect_empty_def)
  have good: "good_packed \<lparr>pix = replicate 8 7, stride = 4 * rect_dx q, bounds = q\<rparr>" if "q \<in> {?r, ?s, ?b}" for q
    using that by (auto simp: good_packed_def valid_packed_def packed_buffer_size_def packed_row_bytes_def rect_empty_def rect_dx_def
        rect_dy_def wrap64_def go_div_def max_int_def rect_sane_def rect_ints_def in_int_def min_int_def)
  have cap: "captured ?P q \<lparr>pix = replicate 8 7, stride = 4 * rect_dx q, bounds = q\<rparr>" if q: "q \<in> {?r, ?s, ?b}" for q
  proof -
    have "pixel \<lparr>pix = replicate 8 7, stride = 4 * rect_dx q, bounds = q\<rparr> x y = [7, 7, 7, 7]" if p: "point_in x y q" for x y
    proof -
      have "x = 0 \<or> x = 1" "y = 0" using p q by (auto simp: point_in_def)
      then show ?thesis using p q by (auto simp: point_in_def pixel_def exact_offset_def numeral_eq_Suc)
    qed
    then show ?thesis using good [OF q] by (simp add: captured_def)
  qed
  then have sp: "shows_pixels None ?sc ?P (insert (bounding [?r, ?s]) (set [?r, ?s]))"
    unfolding b shows_pixels_def by auto
  have ok: "\<forall>q \<in> set [?r, ?s]. rect_ints q \<and> \<not> rect_empty q"
    by (simp add: rect_ints_def in_int_def min_int_def max_int_def rect_empty_def)
  have h: "region_hash None None ?P ?r = crc32_update 0 [7, 7, 7, 7]" "region_hash None None ?P ?s = crc32_update 0 [7, 7, 7, 7]"
    by (simp_all add: region_hash_def hash_bytes_def points_def)
  have "crc32_update 0 [7, 7, 7, 7] \<noteq> 0" by code_simp
  then show ?thesis
    using scan_for_finds_first [OF sp _ ok, of "[0, crc32_update 0 [7, 7, 7, 7]]" None] h by simp
qed

end
