(* ===== verification/AccModel.thy ===== *)
theory AccModel
  imports Runes Strconv
begin

text \<open>
  The accessibility data model of \<^verbatim>\<open>accessibility/models.go\<close>: handles, nodes, snapshots, selectors
  and the options of a snapshot. A Go slice or map whose nil-ness the code
  looks at is an option: \<open>None\<close> is nil. Maps are association lists with distinct keys, a
  \<^verbatim>\<open>float64\<close> is its bit pattern, an \<^verbatim>\<open>int32\<close> a 32-bit word read with its sign.
\<close>

section \<open>Handles\<close>

record node_id =
  id_bus :: string
  id_path :: string
  id_generation :: u64
  id_incarnation :: u64

definition no_id :: node_id where
  "no_id = \<lparr>id_bus = [], id_path = [], id_generation = 0, id_incarnation = 0\<rparr>"

definition null_object_path :: string where "null_object_path = ''/org/a11y/atspi/null''"

definition id_valid :: "node_id \<Rightarrow> bool" where
  "id_valid i \<longleftrightarrow> id_bus i \<noteq> [] \<and> id_path i \<noteq> [] \<and> id_path i \<noteq> null_object_path \<and> id_generation i > 0"

text \<open>\<^verbatim>\<open>objectIdentity\<close>: the bus name and the object path.\<close>

type_synonym identity = "string \<times> string"

definition identity_of :: "node_id \<Rightarrow> identity" where
  "identity_of i = (id_bus i, id_path i)"

definition identity_valid :: "identity \<Rightarrow> bool" where
  "identity_valid i \<longleftrightarrow> fst i \<noteq> [] \<and> snd i \<noteq> []"

section \<open>Nodes\<close>

type_synonym int32 = "32 word"
type_synonym float64 = u64

record acc_rect =
  r_x :: int
  r_y :: int
  r_width :: int
  r_height :: int

record value_info =
  v_current :: float64
  v_minimum :: float64
  v_maximum :: float64
  v_increment :: float64

record acc_action =
  a_index :: int32
  a_name :: string
  a_localized :: string
  a_description :: string
  a_binding :: string

record selection_info =
  s_count :: int32

record table_info =
  t_rows :: int32
  t_columns :: int32

record document_info =
  d_locale :: string
  d_page :: int32
  d_pages :: int32

type_synonym 'a slice = "'a list option"

definition elems :: "'a slice \<Rightarrow> 'a list" where
  "elems s = (case s of None \<Rightarrow> [] | Some xs \<Rightarrow> xs)"

lemma elems_simps [simp]: "elems None = []" "elems (Some xs) = xs"
  by (simp_all add: elems_def)

record acc_node =
  nd_id :: node_id
  nd_parent :: node_id
  nd_name :: string
  nd_description :: string
  nd_role :: string
  nd_role_id :: u32
  nd_interfaces :: "string slice"
  nd_attributes :: "(string \<times> string) slice"
  nd_states :: "string slice"
  nd_text :: string
  nd_text_truncated :: bool
  nd_bounds :: acc_rect
  nd_has_bounds :: bool
  nd_child_count :: int
  nd_children :: "node_id slice"
  nd_relations :: "(string \<times> node_id slice) slice"
  nd_value :: "value_info option"
  nd_actions :: "acc_action slice"
  nd_selection :: "selection_info option"
  nd_table :: "table_info option"
  nd_document :: "document_info option"
  nd_focused :: bool
  nd_visible :: bool
  nd_showing :: bool
  nd_enabled :: bool
  nd_redacted :: bool
  nd_warnings :: "string slice"

definition bare_node :: "node_id \<Rightarrow> acc_node" where
  "bare_node i = \<lparr>nd_id = i, nd_parent = no_id, nd_name = [], nd_description = [], nd_role = [], nd_role_id = 0,
     nd_interfaces = None, nd_attributes = None, nd_states = None, nd_text = [], nd_text_truncated = False,
     nd_bounds = \<lparr>r_x = 0, r_y = 0, r_width = 0, r_height = 0\<rparr>, nd_has_bounds = False, nd_child_count = 0,
     nd_children = None, nd_relations = None, nd_value = None, nd_actions = None, nd_selection = None,
     nd_table = None, nd_document = None, nd_focused = False, nd_visible = False, nd_showing = False,
     nd_enabled = False, nd_redacted = False, nd_warnings = None\<rparr>"

section \<open>Snapshots\<close>

text \<open>\<open>sn_captured\<close> is the instant as \<^verbatim>\<open>RFC3339Nano\<close> text, which is all the sizes depend on.\<close>

record snapshot =
  sn_root :: acc_node
  sn_nodes :: "acc_node slice"
  sn_truncated :: bool
  sn_reasons :: "string slice"
  sn_provider_errors :: int
  sn_warnings :: "string slice"
  sn_generation :: u64
  sn_captured :: string
  sn_source :: string

record ancestor_selector =
  an_role :: string
  an_name :: string

record selector =
  sel_role :: string
  sel_name :: string
  sel_label :: string
  sel_text :: string
  sel_states :: "string list"
  sel_attributes :: "(string \<times> string) list"
  sel_ancestors :: "ancestor_selector list"

section \<open>Options\<close>

record snapshot_options =
  o_max_depth :: int
  o_max_nodes :: int
  o_max_text :: int
  o_max_total :: int
  o_visible_only :: bool
  o_allow_sensitive :: bool
  o_fresh :: bool
  o_allow_desktop :: bool
  o_skip_roles :: "string list"

end
