(* ===== verification/AccSize.thy ===== *)
theory AccSize
  imports AccModel Prelude
begin

text \<open>
  The size estimates of \<^verbatim>\<open>accessibility/snapshot.go\<close>: what a node and a snapshot will take as JSON,
  without encoding them, in saturating \<^verbatim>\<open>int\<close> arithmetic.
\<close>

section \<open>Sizes of tokens\<close>

definition add_json_size :: "int \<Rightarrow> int \<Rightarrow> int" where
  "add_json_size size' addition =
     (if addition > 0 \<and> size' > max_int - addition then max_int else size' + addition)"

text \<open>
  The table of bytes that are encoded as themselves, as the code fills it. The loop variable \<open>i\<close>
  of \<^verbatim>\<open>jsonStringSize\<close> is the part of the string that is left.
\<close>

definition build_json_plain_byte_size :: "nat list" where
  "build_json_plain_byte_size =
     fold (\<lambda>b t. t[b := 0]) [34, 92, 60, 62, 38] (fold (\<lambda>b t. t[b := 1]) [0x20..<0x80] (replicate 256 0))"

definition json_plain_byte_size :: "nat list" where
  "json_plain_byte_size = build_json_plain_byte_size"

definition line_separator :: rune where "line_separator = map char_of [0xE2 :: nat, 0x80, 0xA8]"
definition paragraph_separator :: rune where "paragraph_separator = map char_of [0xE2 :: nat, 0x80, 0xA9]"

function json_string_loop :: "int \<Rightarrow> string \<Rightarrow> int" where
  "json_string_loop n s =
     (if s = [] then n
      else
        let b = of_char (hd s) :: nat; plain = json_plain_byte_size ! b; (r, k) = decode_rune s in
        if plain \<noteq> 0 then json_string_loop (n + int plain) (tl s)
        else if b \<in> {34, 92} then json_string_loop (add_json_size n 2) (tl s)
        else if b \<in> {8, 12, 10, 13, 9} then json_string_loop (add_json_size n 2) (tl s)
        else if b \<in> {60, 62, 38} then json_string_loop (add_json_size n 6) (tl s)
        else if b < 0x20 then json_string_loop (add_json_size n 6) (tl s)
        else if r = replacement \<and> k = 1 then json_string_loop (add_json_size n 3) (tl s)
        else json_string_loop
               (if r = line_separator \<or> r = paragraph_separator then add_json_size n 6 else add_json_size n (int k))
               (drop k s))"
  by pat_completeness auto
termination
proof (relation "measure (\<lambda>(n, s). length s)", goal_cases)
  case (8 n s b plain p r k)
  then have "1 \<le> k" using decode_bounds [of s] by (metis snd_conv)
  with 8 show ?case by simp
qed simp_all

declare json_string_loop.simps [simp del]

definition json_string_size :: "string \<Rightarrow> int" where
  "json_string_size s = json_string_loop 2 s"

definition decimal_size :: "int \<Rightarrow> int" where
  "decimal_size v = int (length (show_int v))"

text \<open>A member of an object: the quoted key, the colon and a comma.\<close>

definition member_size :: "string \<Rightarrow> int \<Rightarrow> int" where
  "member_size key value_size = add_json_size (int (length key) + 4) value_size"

definition string_field_size :: "string \<Rightarrow> string \<Rightarrow> int" where
  "string_field_size key s = (if s = [] then 0 else member_size key (json_string_size s))"

text \<open>
  The loop shared by the estimates of slices and maps: a comma before every element but the first.
\<close>

fun sizes_loop :: "('a \<Rightarrow> int \<Rightarrow> int) \<Rightarrow> bool \<Rightarrow> 'a list \<Rightarrow> int \<Rightarrow> int" where
  "sizes_loop step first [] n = n"
| "sizes_loop step first (x # xs) n = sizes_loop step False xs (step x (if first then n else add_json_size n 1))"

definition string_slice_size :: "string list \<Rightarrow> int" where
  "string_slice_size xs =
     (if xs = [] then 0 else sizes_loop (\<lambda>s n. add_json_size n (json_string_size s)) True xs 2)"

definition node_id_size :: "node_id \<Rightarrow> int" where
  "node_id_size i =
     (let n = add_json_size 40 (json_string_size (id_bus i));
          n = add_json_size n (json_string_size (id_path i));
          n = add_json_size n (decimal_size (uint (id_generation i))) in
      if id_incarnation i \<noteq> 0
      then add_json_size n (add_json_size 1 (member_size ''incarnation'' (decimal_size (uint (id_incarnation i)))))
      else n)"

definition node_id_slice_size :: "node_id list \<Rightarrow> int" where
  "node_id_slice_size xs = sizes_loop (\<lambda>i n. add_json_size n (node_id_size i)) True xs 2"

definition string_map_size :: "(string \<times> string) list \<Rightarrow> int" where
  "string_map_size m =
     sizes_loop (\<lambda>(k, v) n. add_json_size (add_json_size (add_json_size n (json_string_size k)) 1) (json_string_size v)) True m 2"

definition relations_size :: "(string \<times> node_id slice) list \<Rightarrow> int" where
  "relations_size m =
     sizes_loop (\<lambda>(k, targets) n.
       add_json_size (add_json_size (add_json_size n (json_string_size k)) 1)
         (case targets of None \<Rightarrow> 4 | Some ts \<Rightarrow> node_id_slice_size ts)) True m 2"

definition action_size :: "acc_action \<Rightarrow> int" where
  "action_size a =
     fold (\<lambda>(key, v) n. if v \<noteq> [] then add_json_size n (string_field_size key v) else n)
       [(''name'', a_name a), (''localizedName'', a_localized a), (''description'', a_description a),
        (''keyBinding'', a_binding a)]
       (2 + member_size ''index'' (decimal_size (sint (a_index a))))"

definition actions_size :: "acc_action list \<Rightarrow> int" where
  "actions_size xs = sizes_loop (\<lambda>a n. add_json_size n (action_size a)) True xs 2"

definition value_info_size :: int where
  "value_info_size =
     sizes_loop (\<lambda>key n. add_json_size n (member_size key 32)) True
       [''current'', ''minimum'', ''maximum'', ''minimumIncrement''] 2"

definition selection_info_size :: "selection_info \<Rightarrow> int" where
  "selection_info_size v = 2 + member_size ''selectedChildCount'' (decimal_size (sint (s_count v)))"

definition table_info_size :: "table_info \<Rightarrow> int" where
  "table_info_size v =
     add_json_size (2 + member_size ''rows'' (decimal_size (sint (t_rows v))))
       (member_size ''columns'' (decimal_size (sint (t_columns v))))"

definition document_info_size :: "document_info \<Rightarrow> int" where
  "document_info_size v =
     (let (n, count) = (if d_locale v \<noteq> [] then (add_json_size 2 (string_field_size ''locale'' (d_locale v)), 1 :: nat) else (2, 0));
          (n, count) =
            (if d_page v \<noteq> 0
             then (add_json_size (if count > 0 then add_json_size n 1 else n)
                     (member_size ''currentPageNumber'' (decimal_size (sint (d_page v)))), count + 1)
             else (n, count)) in
      if d_pages v \<noteq> 0
      then add_json_size (if count > 0 then add_json_size n 1 else n)
             (member_size ''pageCount'' (decimal_size (sint (d_pages v))))
      else n)"

section \<open>Sizes of nodes\<close>

definition node_strings_size :: "acc_node \<Rightarrow> int" where
  "node_strings_size nd =
     fold (\<lambda>x n. add_json_size n x)
       [string_field_size ''name'' (nd_name nd), string_field_size ''description'' (nd_description nd),
        string_field_size ''role'' (nd_role nd), string_field_size ''text'' (nd_text nd),
        node_id_size (nd_id nd), node_id_size (nd_parent nd)] 0"

definition node_scalars_size :: "acc_node \<Rightarrow> int" where
  "node_scalars_size nd =
     (let n = fold (\<lambda>v n. add_json_size n (decimal_size v - 1))
                [r_x (nd_bounds nd), r_y (nd_bounds nd), r_width (nd_bounds nd), r_height (nd_bounds nd), nd_child_count nd] 0;
          n = (if nd_role_id nd \<noteq> 0 then add_json_size n (member_size ''roleId'' (decimal_size (uint (nd_role_id nd)))) else n);
          n = (if nd_text_truncated nd then add_json_size n (member_size ''textTruncated'' 4) else n) in
      if nd_redacted nd then add_json_size n (member_size ''redacted'' 4) else n)"

text \<open>\<^verbatim>\<open>if len(xs) > 0\<close> adds the member, nothing otherwise.\<close>

definition when_some :: "string \<Rightarrow> ('a list \<Rightarrow> int) \<Rightarrow> 'a slice \<Rightarrow> int \<Rightarrow> int" where
  "when_some key f s n = (if elems s \<noteq> [] then add_json_size n (member_size key (f (elems s))) else n)"

definition node_collections_size :: "acc_node \<Rightarrow> int" where
  "node_collections_size nd =
     (let n = when_some ''interfaces'' string_slice_size (nd_interfaces nd) 0;
          n = when_some ''states'' string_slice_size (nd_states nd) n;
          n = when_some ''warnings'' string_slice_size (nd_warnings nd) n;
          n = when_some ''children'' node_id_slice_size (nd_children nd) n;
          n = when_some ''attributes'' string_map_size (nd_attributes nd) n;
          n = when_some ''relations'' relations_size (nd_relations nd) n in
      when_some ''actions'' actions_size (nd_actions nd) n)"

definition node_info_size :: "acc_node \<Rightarrow> int" where
  "node_info_size nd =
     (let n = (case nd_value nd of None \<Rightarrow> 0 | Some v \<Rightarrow> add_json_size 0 (member_size ''value'' value_info_size));
          n = (case nd_selection nd of None \<Rightarrow> n | Some v \<Rightarrow> add_json_size n (member_size ''selection'' (selection_info_size v)));
          n = (case nd_table nd of None \<Rightarrow> n | Some v \<Rightarrow> add_json_size n (member_size ''table'' (table_info_size v))) in
      case nd_document nd of None \<Rightarrow> n | Some v \<Rightarrow> add_json_size n (member_size ''document'' (document_info_size v)))"

definition node_size :: "acc_node \<Rightarrow> int" where
  "node_size nd =
     fold (\<lambda>x n. add_json_size n x)
       [node_strings_size nd, node_scalars_size nd, node_collections_size nd, node_info_size nd] 158"

section \<open>Sizes of snapshots\<close>

definition snapshot_base_size :: "snapshot \<Rightarrow> int" where
  "snapshot_base_size s =
     (let n = add_json_size 65 (json_string_size (sn_captured s));
          n = add_json_size n (decimal_size (uint (sn_generation s)) - 1);
          n = (if sn_provider_errors s \<noteq> 0
               then add_json_size n (member_size ''providerErrors'' (decimal_size (sn_provider_errors s))) else n);
          n = when_some ''truncationReasons'' string_slice_size (sn_reasons s) n;
          n = when_some ''warnings'' string_slice_size (sn_warnings s) n in
      if sn_source s \<noteq> [] then add_json_size n (string_field_size ''source'' (sn_source s)) else n)"

definition size_from_base :: "int \<Rightarrow> int \<Rightarrow> int \<Rightarrow> nat \<Rightarrow> bool \<Rightarrow> int" where
  "size_from_base base root nodes count nodes_nil =
     (let n = add_json_size base root in
      if nodes_nil then add_json_size n 4
      else if count = 0 then add_json_size n 2
      else add_json_size (add_json_size (add_json_size n 2) (int count - 1)) nodes)"

definition size_from_parts :: "snapshot \<Rightarrow> int \<Rightarrow> int \<Rightarrow> nat \<Rightarrow> bool \<Rightarrow> int" where
  "size_from_parts s root nodes count nodes_nil = size_from_base (snapshot_base_size s) root nodes count nodes_nil"

definition nodes_size :: "acc_node list \<Rightarrow> int" where
  "nodes_size nds = fold (\<lambda>nd n. add_json_size n (node_size nd)) nds 0"

definition snapshot_size :: "snapshot \<Rightarrow> int" where
  "snapshot_size s =
     size_from_parts s (node_size (sn_root s)) (nodes_size (elems (sn_nodes s))) (length (elems (sn_nodes s)))
       (sn_nodes s = None)"

end
