(* ===== verification/AccBudget.thy ===== *)
theory AccBudget
  imports AccSize
begin

text \<open>
  Fitting a snapshot into the byte budget of its caller (\<^verbatim>\<open>accessibility/snapshot.go\<close>): nodes that
  cannot fit are reduced, then the longest prefix of the nodes that fits is kept, with the references
  that leave the prefix removed. The set of retained handles is the list of the handles of the prefix.
\<close>

section \<open>Copies\<close>

text \<open>A copy turns an empty list of targets into nil and an empty list of nodes into nil.\<close>

definition clone_node :: "acc_node \<Rightarrow> acc_node" where
  "clone_node nd =
     nd\<lparr>nd_relations := map_option (map (\<lambda>(relation, targets). (relation, if elems targets = [] then None else targets)))
          (nd_relations nd)\<rparr>"

definition clone_nodes :: "acc_node list \<Rightarrow> acc_node slice" where
  "clone_nodes nds = (if nds = [] then None else Some (map clone_node nds))"

definition clone_response :: "snapshot \<Rightarrow> snapshot" where
  "clone_response s =
     (let s = s\<lparr>sn_nodes := clone_nodes (elems (sn_nodes s))\<rparr> in
      case elems (sn_nodes s) of
        nd # _ \<Rightarrow> s\<lparr>sn_root := nd\<rparr>
      | [] \<Rightarrow> s\<lparr>sn_root := clone_node (sn_root s)\<rparr>)"

definition root_to_first :: "snapshot \<Rightarrow> snapshot" where
  "root_to_first s = (case elems (sn_nodes s) of nd # _ \<Rightarrow> s\<lparr>sn_root := nd\<rparr> | [] \<Rightarrow> s)"

section \<open>Reducing one node\<close>

fun cut_invalid :: "nat \<Rightarrow> string \<Rightarrow> string" where
  "cut_invalid 0 s = []"
| "cut_invalid (Suc n) s = (if valid_string (take (Suc n) s) then take (Suc n) s else cut_invalid n s)"

definition truncate_utf8 :: "string \<Rightarrow> int \<Rightarrow> string \<times> bool" where
  "truncate_utf8 s max_bytes =
     (let m = max max_bytes 0 in
      if int (length s) \<le> m then (s, False) else (cut_invalid (nat m) s, True))"

definition half_text :: "acc_node \<Rightarrow> acc_node" where
  "half_text nd =
     (let l = length (nd_text nd) div 2;
          limit = (if l = length (nd_text nd) then int l - 1 else int l) in
      nd\<lparr>nd_text := fst (truncate_utf8 (nd_text nd) limit), nd_text_truncated := True\<rparr>)"

text \<open>The cases of the loop body in their order; \<open>None\<close> is the default case, which returns.\<close>

definition reduce_node :: "acc_node \<Rightarrow> acc_node option" where
  "reduce_node nd =
     (if nd_text nd \<noteq> [] then Some (half_text nd)
      else if nd_attributes nd \<noteq> None then Some (nd\<lparr>nd_attributes := None\<rparr>)
      else if nd_relations nd \<noteq> None then Some (nd\<lparr>nd_relations := None\<rparr>)
      else if nd_actions nd \<noteq> None then Some (nd\<lparr>nd_actions := None\<rparr>)
      else if nd_warnings nd \<noteq> None then Some (nd\<lparr>nd_warnings := None\<rparr>)
      else if nd_description nd \<noteq> [] then Some (nd\<lparr>nd_description := []\<rparr>)
      else if nd_name nd \<noteq> [] then Some (nd\<lparr>nd_name := []\<rparr>)
      else if nd_interfaces nd \<noteq> None then Some (nd\<lparr>nd_interfaces := None\<rparr>)
      else if nd_states nd \<noteq> None then Some (nd\<lparr>nd_states := None\<rparr>)
      else if nd_children nd \<noteq> None then Some (nd\<lparr>nd_children := None\<rparr>)
      else None)"

definition is_set :: "'a slice \<Rightarrow> nat" where
  "is_set s = (if s = None then 0 else 1)"

definition reducible :: "acc_node \<Rightarrow> nat" where
  "reducible nd =
     length (nd_text nd) + is_set (nd_attributes nd) + is_set (nd_relations nd) + is_set (nd_actions nd) +
     is_set (nd_warnings nd) + length (nd_description nd) + length (nd_name nd) + is_set (nd_interfaces nd) +
     is_set (nd_states nd) + is_set (nd_children nd)"

lemma cut_invalid_length: "length (cut_invalid n s) \<le> n"
  by (induction n) (auto simp: min_def)

lemma half_text_shorter: "nd_text nd \<noteq> [] \<Longrightarrow> length (nd_text (half_text nd)) < length (nd_text nd)"
  using cut_invalid_length [of "length (nd_text nd) div 2" "nd_text nd"]
  by (auto simp: half_text_def truncate_utf8_def Let_def max_def nat_eq_iff intro: le_less_trans)

lemma half_text_reducible: "nd_text nd \<noteq> [] \<Longrightarrow> reducible (half_text nd) < reducible nd"
proof -
  assume "nd_text nd \<noteq> []"
  then have "length (nd_text (half_text nd)) < length (nd_text nd)" by (rule half_text_shorter)
  moreover obtain t where "half_text nd = nd\<lparr>nd_text := t, nd_text_truncated := True\<rparr>"
    by (auto simp: half_text_def Let_def)
  ultimately show ?thesis by (simp add: reducible_def)
qed

lemma drop_field_reducible:
  "nd_attributes nd \<noteq> None \<Longrightarrow> reducible (nd\<lparr>nd_attributes := None\<rparr>) < reducible nd"
  "nd_relations nd \<noteq> None \<Longrightarrow> reducible (nd\<lparr>nd_relations := None\<rparr>) < reducible nd"
  "nd_actions nd \<noteq> None \<Longrightarrow> reducible (nd\<lparr>nd_actions := None\<rparr>) < reducible nd"
  "nd_warnings nd \<noteq> None \<Longrightarrow> reducible (nd\<lparr>nd_warnings := None\<rparr>) < reducible nd"
  "nd_description nd \<noteq> [] \<Longrightarrow> reducible (nd\<lparr>nd_description := []\<rparr>) < reducible nd"
  "nd_name nd \<noteq> [] \<Longrightarrow> reducible (nd\<lparr>nd_name := []\<rparr>) < reducible nd"
  "nd_interfaces nd \<noteq> None \<Longrightarrow> reducible (nd\<lparr>nd_interfaces := None\<rparr>) < reducible nd"
  "nd_states nd \<noteq> None \<Longrightarrow> reducible (nd\<lparr>nd_states := None\<rparr>) < reducible nd"
  "nd_children nd \<noteq> None \<Longrightarrow> reducible (nd\<lparr>nd_children := None\<rparr>) < reducible nd"
  by (simp_all add: reducible_def is_set_def)

lemma branch_SomeE:
  assumes "(if c then Some a else r) = Some y" "c \<Longrightarrow> Q a" "r = Some y \<Longrightarrow> Q y"
  shows "Q y"
  using assms by (cases c) auto

lemma reduce_node_less: "reduce_node nd = Some nd' \<Longrightarrow> reducible nd' < reducible nd"
  unfolding reduce_node_def
  apply (erule branch_SomeE, erule half_text_reducible)
  apply (erule branch_SomeE, erule drop_field_reducible)+
  apply (erule option.distinct(1) [THEN notE])
  done

function bound_node_response :: "acc_node \<Rightarrow> int \<Rightarrow> acc_node" where
  "bound_node_response nd max_bytes =
     (if node_size nd + 60 > max_bytes then
        case reduce_node nd of None \<Rightarrow> nd | Some nd' \<Rightarrow> bound_node_response nd' max_bytes
      else nd)"
  by pat_completeness auto
termination
  by (relation "measure (\<lambda>(nd, m). reducible nd)") (auto dest: reduce_node_less)

declare bound_node_response.simps [simp del]

section \<open>Removing references\<close>

text \<open>\<^verbatim>\<open>pruneSnapshotReferencesWithRetained\<close>: nil children stay nil, relations without a target go.\<close>

definition prune_children :: "node_id list \<Rightarrow> node_id slice \<Rightarrow> node_id slice" where
  "prune_children retained cs = map_option (filter (\<lambda>c. c \<in> set retained)) cs"

definition prune_relations :: "node_id list \<Rightarrow> (string \<times> node_id slice) list \<Rightarrow> (string \<times> node_id slice) list" where
  "prune_relations retained m =
     filter (\<lambda>(relation, kept). elems kept \<noteq> []) (map (\<lambda>(relation, targets). (relation, prune_children retained targets)) m)"

definition prune_node :: "node_id list \<Rightarrow> acc_node \<Rightarrow> acc_node" where
  "prune_node retained nd =
     nd\<lparr>nd_children := prune_children retained (nd_children nd),
        nd_relations := map_option (prune_relations retained) (nd_relations nd)\<rparr>"

definition prune_with_retained :: "node_id list \<Rightarrow> snapshot \<Rightarrow> snapshot" where
  "prune_with_retained retained s = root_to_first (s\<lparr>sn_nodes := map_option (map (prune_node retained)) (sn_nodes s)\<rparr>)"

definition prune_references :: "snapshot \<Rightarrow> snapshot" where
  "prune_references s =
     (if elems (sn_nodes s) = [] then s else prune_with_retained (map nd_id (elems (sn_nodes s))) s)"

section \<open>Sizes of sums\<close>

fun prefix_sizes :: "int \<Rightarrow> int list \<Rightarrow> int list" where
  "prefix_sizes acc [] = [acc]"
| "prefix_sizes acc (x # xs) = acc # prefix_sizes (add_json_size acc x) xs"

definition node_size_index :: "acc_node list \<Rightarrow> int list \<times> int list" where
  "node_size_index nds = (map node_size nds, prefix_sizes 0 (map node_size nds))"

definition root_json_size :: "snapshot \<Rightarrow> int list \<Rightarrow> int" where
  "root_json_size s sizes = (if elems (sn_nodes s) \<noteq> [] then sizes ! 0 else node_size (sn_root s))"

fun kept_loop :: "node_id list \<Rightarrow> node_id list \<Rightarrow> int \<Rightarrow> nat \<Rightarrow> int \<times> nat" where
  "kept_loop retained [] n kept = (n, kept)"
| "kept_loop retained (c # cs) n kept =
     (if c \<notin> set retained then kept_loop retained cs n kept
      else kept_loop retained cs (add_json_size (if kept > 0 then add_json_size n 1 else n) (node_id_size c)) (Suc kept))"

fun pruned_relations_loop :: "node_id list \<Rightarrow> (string \<times> node_id slice) list \<Rightarrow> int \<Rightarrow> nat \<Rightarrow> int \<times> nat" where
  "pruned_relations_loop retained [] n kept = (n, kept)"
| "pruned_relations_loop retained ((relation, targets) # m) n kept =
     (let (targets_size, kept_targets) = kept_loop retained (elems targets) 2 0 in
      if kept_targets = 0 then pruned_relations_loop retained m n kept
      else
        let n = (if kept > 0 then add_json_size n 1 else n);
            n = add_json_size n (json_string_size relation);
            n = add_json_size n 1;
            n = add_json_size n targets_size in
        pruned_relations_loop retained m n (Suc kept))"

definition pruned_relations_size :: "(string \<times> node_id slice) list \<Rightarrow> node_id list \<Rightarrow> int \<times> nat" where
  "pruned_relations_size m retained = pruned_relations_loop retained m 2 0"

definition size_after_pruning :: "acc_node \<Rightarrow> int \<Rightarrow> node_id list \<Rightarrow> int" where
  "size_after_pruning nd n retained =
     (let children = elems (nd_children nd); relations = elems (nd_relations nd);
          n = (if children \<noteq> [] then
                 let (children_size, kept) = kept_loop retained children 2 0 in
                 if kept < length children then
                   let n = n - member_size ''children'' (node_id_slice_size children) in
                   if kept > 0 then add_json_size n (member_size ''children'' children_size) else n
                 else n
               else n) in
      if relations \<noteq> [] then
        let (rel_size, kept) = pruned_relations_size relations retained;
            n = n - member_size ''relations'' (relations_size relations) in
        if kept > 0 then add_json_size n (member_size ''relations'' rel_size) else n
      else n)"

fun prefix_loop :: "node_id list \<Rightarrow> (acc_node \<times> int) list \<Rightarrow> int \<Rightarrow> int" where
  "prefix_loop retained [] n = n"
| "prefix_loop retained ((nd, sz) # nds) n =
     (if elems (nd_children nd) = [] \<and> elems (nd_relations nd) = [] then prefix_loop retained nds n
      else prefix_loop retained nds (add_json_size (n - sz) (size_after_pruning nd sz retained)))"

definition size_for_prefix :: "snapshot \<Rightarrow> nat \<Rightarrow> int list \<Rightarrow> int list \<Rightarrow> int \<Rightarrow> node_id list \<Rightarrow> node_id \<Rightarrow> int" where
  "size_for_prefix s count sizes sums base retained original =
     (let nds = elems (sn_nodes s);
          total_size = prefix_loop retained (take count (zip nds sizes)) (sums ! count);
          root_size = (if count > 0 then size_after_pruning (nds ! 0) (sizes ! 0) retained else node_size (bare_node original)) in
      size_from_base base root_size total_size count (count = 0))"

fun potential_loop :: "int \<Rightarrow> int \<Rightarrow> (acc_node \<times> int) list \<Rightarrow> nat \<Rightarrow> int \<Rightarrow> int \<Rightarrow> nat" where
  "potential_loop base max_bytes [] i root_size n = i"
| "potential_loop base max_bytes ((nd, sz) # nds) i root_size n =
     (let minimum = size_after_pruning nd sz [];
          n = add_json_size n minimum;
          root_size = (if i = 0 then minimum else root_size) in
      if size_from_base base root_size n (Suc i) False > max_bytes then i
      else potential_loop base max_bytes nds (Suc i) root_size n)"

definition maximum_potential_prefix :: "snapshot \<Rightarrow> int list \<Rightarrow> int \<Rightarrow> int \<Rightarrow> node_id \<Rightarrow> nat" where
  "maximum_potential_prefix s sizes base max_bytes original =
     potential_loop base max_bytes (zip (elems (sn_nodes s)) sizes) 0 (node_size (bare_node original)) 0"

section \<open>The longest prefix\<close>

text \<open>The binary search; \<open>fits\<close> is its test and \<open>best\<close> the largest count that passed, or -1.\<close>

function search_prefix :: "(nat \<Rightarrow> bool) \<Rightarrow> int \<Rightarrow> int \<Rightarrow> int \<Rightarrow> int" where
  "search_prefix fits low high best =
     (if low \<le> high then
        let middle = low + go_div (high - low) 2 in
        if fits (nat middle) then search_prefix fits (middle + 1) high middle
        else search_prefix fits low (middle - 1) best
      else best)"
  by pat_completeness auto
termination
  by (relation "measure (\<lambda>(fits, low, high, best). nat (high - low + 1))") (auto simp: go_div_pos)

declare search_prefix.simps [simp del]

definition project_prefix :: "snapshot \<Rightarrow> int list \<Rightarrow> int list \<Rightarrow> int \<Rightarrow> int \<Rightarrow> node_id \<Rightarrow> snapshot" where
  "project_prefix s sizes sums base max_bytes original =
     (let nds = elems (sn_nodes s);
          high = maximum_potential_prefix s sizes base max_bytes original;
          fits = (\<lambda>k. size_for_prefix s k sizes sums base (map nd_id (take k nds)) original \<le> max_bytes);
          best = search_prefix fits 0 (int high) (- 1) in
      if best < 0 then s\<lparr>sn_nodes := None, sn_root := bare_node original\<rparr>
      else
        let s = s\<lparr>sn_nodes := clone_nodes (take (nat best) nds)\<rparr> in
        if best = 0 then s\<lparr>sn_root := bare_node original\<rparr>
        else prune_with_retained (map nd_id (elems (sn_nodes s))) (root_to_first s))"

definition minimum_response :: "snapshot \<Rightarrow> node_id \<Rightarrow> int \<Rightarrow> (int \<times> int) + snapshot" where
  "minimum_response s original max_bytes =
     (let m = s\<lparr>sn_nodes := None, sn_root := bare_node original, sn_warnings := None, sn_provider_errors := 0\<rparr>;
          m = prune_references m in
      if snapshot_size m > max_bytes then Inl (snapshot_size m, max_bytes) else Inr m)"

section \<open>The budget\<close>

definition append_unique :: "string slice \<Rightarrow> string \<Rightarrow> string slice" where
  "append_unique xs x = (if x \<in> set (elems xs) then xs else Some (elems xs @ [x]))"

text \<open>\<^verbatim>\<open>append([]string(nil), xs...)\<close>\<close>

definition copy_slice :: "'a slice \<Rightarrow> 'a slice" where
  "copy_slice xs = (if elems xs = [] then None else xs)"

definition total_reason :: "int \<Rightarrow> string" where
  "total_reason max_bytes = ''max total bytes '' @ show_int max_bytes"

definition bound_nodes :: "snapshot \<Rightarrow> int list \<Rightarrow> int \<Rightarrow> snapshot \<times> int list" where
  "bound_nodes s sizes max_bytes =
     (let bounded = map (\<lambda>(nd, sz). if sz + 60 \<le> max_bytes then (nd, sz)
                           else let nd' = bound_node_response nd max_bytes in (nd', node_size nd'))
                        (zip (elems (sn_nodes s)) sizes) in
      if list_all (\<lambda>sz. sz + 60 \<le> max_bytes) sizes then (s, sizes)
      else (s\<lparr>sn_nodes := Some (map fst bounded)\<rparr>, map snd bounded))"

definition mark_total :: "snapshot \<Rightarrow> int \<Rightarrow> snapshot" where
  "mark_total s max_bytes =
     s\<lparr>sn_truncated := True, sn_reasons := append_unique (copy_slice (sn_reasons s)) (total_reason max_bytes)\<rparr>"

definition bound_response :: "snapshot \<Rightarrow> int \<Rightarrow> (int \<times> int) + snapshot" where
  "bound_response s max_bytes =
     (let s = root_to_first s in
      if max_bytes \<le> 0 then Inr (clone_response s)
      else
        let (sizes, sums) = node_size_index (elems (sn_nodes s)); nodes_nil = (sn_nodes s = None); count = length (elems (sn_nodes s)) in
        if size_from_parts s (root_json_size s sizes) (sums ! count) count nodes_nil \<le> max_bytes then Inr (clone_response s)
        else
          let s = mark_total s max_bytes; base = snapshot_base_size s;
              (s, sizes) = bound_nodes s sizes max_bytes;
              s = root_to_first s; sums = prefix_sizes 0 sizes in
          if size_from_base base (root_json_size s sizes) (sums ! count) count nodes_nil \<le> max_bytes then Inr (clone_response s)
          else
            let original = nd_id (sn_root s);
                s = project_prefix s sizes sums base max_bytes original in
            if snapshot_size s > max_bytes then minimum_response s original max_bytes else Inr s)"

end
