(* ===== verification/AccJson.thy ===== *)
theory AccJson
  imports AccSize "HOL-Library.List_Lexorder"
begin

text \<open>
  What \<^verbatim>\<open>encoding/json\<close> writes for the snapshots of \<^verbatim>\<open>accessibility/models.go\<close>, by the tags of their
  fields, and the proof that the size estimates are never below it. Two facts of the library are
  parameters: \<open>bad\<close> is what is written for a byte that is not UTF-8 (the replacement character)
  and \<open>ftext\<close> the text of a \<^verbatim>\<open>float64\<close>.
\<close>

section \<open>The encoder\<close>

definition hex_digit :: "nat \<Rightarrow> char" where
  "hex_digit d = char_of (if d < 10 then 48 + d else 87 + d)"

definition u_escape :: "nat \<Rightarrow> string" where
  "u_escape b = CHR 0x5C # ''u00'' @ [hex_digit (b div 16), hex_digit (b mod 16)]"

definition json_token :: "string \<Rightarrow> rune \<Rightarrow> nat \<Rightarrow> string" where
  "json_token bad r k =
     (if r = replacement \<and> k = 1 then bad
      else if r = line_separator then CHR 0x5C # ''u2028''
      else if r = paragraph_separator then CHR 0x5C # ''u2029''
      else
        let b = of_char (hd r) :: nat in
        if k \<noteq> 1 then r
        else if b = 34 \<or> b = 92 then [CHR 0x5C, hd r]
        else if b = 8 then CHR 0x5C # ''b'' else if b = 12 then CHR 0x5C # ''f'' else if b = 10 then CHR 0x5C # ''n''
        else if b = 13 then CHR 0x5C # ''r'' else if b = 9 then CHR 0x5C # ''t''
        else if b \<in> {60, 62, 38} \<or> b < 0x20 then u_escape b
        else r)"

function json_body :: "string \<Rightarrow> string \<Rightarrow> string" where
  "json_body bad s =
     (if s = [] then []
      else let (r, k) = decode_rune s in json_token bad r k @ json_body bad (drop k s))"
  by pat_completeness auto
termination
  by (relation "measure (\<lambda>(b, s). length s)") (auto, metis decode_bounds snd_conv length_greater_0_conv diff_less zero_less_one less_le_trans)

declare json_body.simps [simp del]

definition json_string :: "string \<Rightarrow> string \<Rightarrow> string" where
  "json_string bad s = CHR 0x22 # json_body bad s @ [CHR 0x22]"

fun commas :: "string list \<Rightarrow> string" where
  "commas [] = []"
| "commas [x] = x"
| "commas (x # xs) = x @ '','' @ commas xs"

definition json_array :: "string list \<Rightarrow> string" where
  "json_array xs = ''['' @ commas xs @ '']''"

definition json_object :: "string list \<Rightarrow> string" where
  "json_object xs = ''{'' @ commas xs @ ''}''"

definition json_member :: "string \<Rightarrow> string \<Rightarrow> string" where
  "json_member key v = CHR 0x22 # key @ [CHR 0x22, CHR '':''] @ v"

text \<open>\<^verbatim>\<open>omitempty\<close>\<close>

definition unless_empty :: "bool \<Rightarrow> string \<Rightarrow> string \<Rightarrow> string list" where
  "unless_empty e key v = (if e then [] else [json_member key v])"

definition json_bool :: "bool \<Rightarrow> string" where
  "json_bool b = (if b then ''true'' else ''false'')"

definition json_strings :: "string \<Rightarrow> string list \<Rightarrow> string" where
  "json_strings bad xs = json_array (map (json_string bad) xs)"

definition json_node_id :: "string \<Rightarrow> node_id \<Rightarrow> string" where
  "json_node_id bad i =
     json_object ([json_member ''busName'' (json_string bad (id_bus i)), json_member ''objectPath'' (json_string bad (id_path i)),
       json_member ''generation'' (show_int (uint (id_generation i)))] @
       unless_empty (id_incarnation i = 0) ''incarnation'' (show_int (uint (id_incarnation i))))"

definition json_node_ids :: "string \<Rightarrow> node_id slice \<Rightarrow> string" where
  "json_node_ids bad s = (case s of None \<Rightarrow> ''null'' | Some xs \<Rightarrow> json_array (map (json_node_id bad) xs))"

text \<open>The members of a map are written in the order of their keys.\<close>

definition json_map :: "string \<Rightarrow> ('v \<Rightarrow> string) \<Rightarrow> (string \<times> 'v) list \<Rightarrow> string" where
  "json_map bad f m =
     json_object (map (\<lambda>(k, v). json_string bad k @ '':'' @ f v) (sort_key (\<lambda>(k, v). map of_char k :: nat list) m))"

definition json_rect :: "acc_rect \<Rightarrow> string" where
  "json_rect r =
     json_object [json_member ''x'' (show_int (r_x r)), json_member ''y'' (show_int (r_y r)),
       json_member ''width'' (show_int (r_width r)), json_member ''height'' (show_int (r_height r))]"

definition json_value :: "(float64 \<Rightarrow> string) \<Rightarrow> value_info \<Rightarrow> string" where
  "json_value ftext v =
     json_object [json_member ''current'' (ftext (v_current v)), json_member ''minimum'' (ftext (v_minimum v)),
       json_member ''maximum'' (ftext (v_maximum v)), json_member ''minimumIncrement'' (ftext (v_increment v))]"

definition json_action :: "string \<Rightarrow> acc_action \<Rightarrow> string" where
  "json_action bad a =
     json_object (json_member ''index'' (show_int (sint (a_index a))) #
       unless_empty (a_name a = []) ''name'' (json_string bad (a_name a)) @
       unless_empty (a_localized a = []) ''localizedName'' (json_string bad (a_localized a)) @
       unless_empty (a_description a = []) ''description'' (json_string bad (a_description a)) @
       unless_empty (a_binding a = []) ''keyBinding'' (json_string bad (a_binding a)))"

definition json_selection :: "selection_info \<Rightarrow> string" where
  "json_selection v = json_object [json_member ''selectedChildCount'' (show_int (sint (s_count v)))]"

definition json_table :: "table_info \<Rightarrow> string" where
  "json_table v =
     json_object [json_member ''rows'' (show_int (sint (t_rows v))), json_member ''columns'' (show_int (sint (t_columns v)))]"

definition json_document :: "string \<Rightarrow> document_info \<Rightarrow> string" where
  "json_document bad v =
     json_object (unless_empty (d_locale v = []) ''locale'' (json_string bad (d_locale v)) @
       unless_empty (d_page v = 0) ''currentPageNumber'' (show_int (sint (d_page v))) @
       unless_empty (d_pages v = 0) ''pageCount'' (show_int (sint (d_pages v))))"

definition when_present :: "string \<Rightarrow> ('a \<Rightarrow> string) \<Rightarrow> 'a option \<Rightarrow> string list" where
  "when_present key f v = (case v of None \<Rightarrow> [] | Some x \<Rightarrow> [json_member key (f x)])"

definition slice_member :: "string \<Rightarrow> ('a list \<Rightarrow> string) \<Rightarrow> 'a slice \<Rightarrow> string list" where
  "slice_member key f s = unless_empty (elems s = []) key (f (elems s))"

definition json_node :: "string \<Rightarrow> (float64 \<Rightarrow> string) \<Rightarrow> acc_node \<Rightarrow> string" where
  "json_node bad ftext nd =
     json_object ([json_member ''id'' (json_node_id bad (nd_id nd)), json_member ''parent'' (json_node_id bad (nd_parent nd))] @
       unless_empty (nd_name nd = []) ''name'' (json_string bad (nd_name nd)) @
       unless_empty (nd_description nd = []) ''description'' (json_string bad (nd_description nd)) @
       unless_empty (nd_role nd = []) ''role'' (json_string bad (nd_role nd)) @
       unless_empty (nd_role_id nd = 0) ''roleId'' (show_int (uint (nd_role_id nd))) @
       slice_member ''interfaces'' (json_strings bad) (nd_interfaces nd) @
       slice_member ''attributes'' (json_map bad (json_string bad)) (nd_attributes nd) @
       slice_member ''states'' (json_strings bad) (nd_states nd) @
       unless_empty (nd_text nd = []) ''text'' (json_string bad (nd_text nd)) @
       unless_empty (\<not> nd_text_truncated nd) ''textTruncated'' (json_bool True) @
       [json_member ''bounds'' (json_rect (nd_bounds nd)), json_member ''hasBounds'' (json_bool (nd_has_bounds nd)),
        json_member ''childCount'' (show_int (nd_child_count nd))] @
       slice_member ''children'' (\<lambda>xs. json_node_ids bad (Some xs)) (nd_children nd) @
       slice_member ''relations'' (json_map bad (json_node_ids bad)) (nd_relations nd) @
       when_present ''value'' (json_value ftext) (nd_value nd) @
       slice_member ''actions'' (\<lambda>xs. json_array (map (json_action bad) xs)) (nd_actions nd) @
       when_present ''selection'' json_selection (nd_selection nd) @
       when_present ''table'' json_table (nd_table nd) @
       when_present ''document'' (json_document bad) (nd_document nd) @
       [json_member ''focused'' (json_bool (nd_focused nd)), json_member ''visible'' (json_bool (nd_visible nd)),
        json_member ''showing'' (json_bool (nd_showing nd)), json_member ''enabled'' (json_bool (nd_enabled nd))] @
       unless_empty (\<not> nd_redacted nd) ''redacted'' (json_bool True) @
       slice_member ''warnings'' (json_strings bad) (nd_warnings nd))"

text \<open>The instant is written by its own marshaller, quoted and without escapes.\<close>

definition json_snapshot :: "string \<Rightarrow> (float64 \<Rightarrow> string) \<Rightarrow> snapshot \<Rightarrow> string" where
  "json_snapshot bad ftext s =
     json_object ([json_member ''root'' (json_node bad ftext (sn_root s)),
       json_member ''nodes'' (case sn_nodes s of None \<Rightarrow> ''null'' | Some nds \<Rightarrow> json_array (map (json_node bad ftext) nds)),
       json_member ''truncated'' (json_bool (sn_truncated s))] @
       slice_member ''truncationReasons'' (json_strings bad) (sn_reasons s) @
       unless_empty (sn_provider_errors s = 0) ''providerErrors'' (show_int (sn_provider_errors s)) @
       slice_member ''warnings'' (json_strings bad) (sn_warnings s) @
       [json_member ''generation'' (show_int (uint (sn_generation s))),
        json_member ''capturedAt'' (CHR 0x22 # sn_captured s @ [CHR 0x22])] @
       unless_empty (sn_source s = []) ''source'' (json_string bad (sn_source s)))"

section \<open>Saturating sums\<close>

lemma add_json_size_nonneg [simp]: "0 \<le> a \<Longrightarrow> 0 \<le> b \<Longrightarrow> 0 \<le> add_json_size a b"
  by (simp add: add_json_size_def max_int_def)

lemma add_json_size_zero [simp]: "add_json_size a 0 = a"
  by (simp add: add_json_size_def)

lemma add_json_size_less:
  "0 \<le> a \<Longrightarrow> 0 \<le> b \<Longrightarrow>
     add_json_size a b < max_int \<longleftrightarrow> a < max_int \<and> b < max_int \<and> a + b < max_int \<and> add_json_size a b = a + b"
  by (auto simp: add_json_size_def)

section \<open>Strings\<close>

lemma plain_byte:
  "b < 256 \<Longrightarrow> json_plain_byte_size ! b = (if 32 \<le> b \<and> b < 128 \<and> b \<notin> {34, 92, 60, 62, 38} then 1 else 0)"
proof -
  have "list_all (\<lambda>b. json_plain_byte_size ! b = (if 32 \<le> b \<and> b < 128 \<and> b \<notin> {34, 92, 60, 62, 38} then 1 else 0)) [0..<256]"
    by code_simp
  then show "b < 256 \<Longrightarrow> ?thesis" by (simp add: list_all_iff)
qed

lemma decode_ascii: "(of_char c :: nat) < 128 \<Longrightarrow> decode_rune (c # s) = ([c], 1)"
  using decode_valid [OF ascii_rune, of c s] by simp

lemma decode_rest:
  assumes "s \<noteq> []" "decode_rune s = (r, k)" "\<not> (r = replacement \<and> k = 1)"
  shows "length r = k"
  using assms rune_len_bounds [of "string_bytes s"]
  by (auto simp: decode_rune_def string_bytes_def split: option.splits)

lemma decode_not_ascii:
  assumes "\<not> (of_char c :: nat) < 128" "decode_rune (c # s) = (r, k)" "\<not> (r = replacement \<and> k = 1)"
  shows "k \<noteq> 1"
proof
  assume "k = 1"
  with assms have "rune_len (string_bytes (c # s)) = Some 1"
    by (auto simp: decode_rune_def split: option.splits)
  then have "(of_char c :: byte) < 0x80"
    by (auto simp: string_bytes_def split: if_splits list.splits)
  then have "(of_char c :: nat) < 128"
    by (simp add: word_less_nat_alt) (metis byte_nat)
  with assms(1) show False by simp
qed

text \<open>What one character adds, by the branches of the loop.\<close>

definition json_weight :: "char \<Rightarrow> rune \<Rightarrow> nat \<Rightarrow> int" where
  "json_weight c r k =
     (let b = of_char c :: nat; plain = json_plain_byte_size ! b in
      if plain \<noteq> 0 then int plain
      else if b \<in> {34, 92} then 2
      else if b \<in> {8, 12, 10, 13, 9} then 2
      else if b \<in> {60, 62, 38} then 6
      else if b < 0x20 then 6
      else if r = replacement \<and> k = 1 then 3
      else if r = line_separator \<or> r = paragraph_separator then 6 else int k)"

lemma json_token_length:
  assumes "decode_rune (c # cs) = (r, k)" "length bad \<le> 3"
  shows "int (length (json_token bad r k)) \<le> json_weight c r k"
proof (cases "(of_char c :: nat) < 128")
  case True
  with assms have rk: "r = [c]" "k = 1" by (simp_all add: decode_ascii)
  have "json_token bad r k = (let b = of_char c :: nat in
     if b = 34 \<or> b = 92 then [CHR 0x5C, c]
     else if b = 8 then CHR 0x5C # ''b'' else if b = 12 then CHR 0x5C # ''f'' else if b = 10 then CHR 0x5C # ''n''
     else if b = 13 then CHR 0x5C # ''r'' else if b = 9 then CHR 0x5C # ''t''
     else if b \<in> {60, 62, 38} \<or> b < 0x20 then u_escape b else [c])"
    by (simp add: json_token_def rk replacement_def line_separator_def paragraph_separator_def Let_def)
  with True show ?thesis by (simp add: json_weight_def plain_byte rk u_escape_def Let_def)
next
  case False
  then have "json_plain_byte_size ! of_char c = 0" by (simp add: plain_byte)
  with False assms decode_not_ascii [OF False assms(1)] decode_rest [OF _ assms(1)] show ?thesis
    by (auto simp: json_token_def json_weight_def Let_def)
qed

lemma json_string_step:
  assumes "decode_rune (c # cs) = (r, k)"
  shows "json_string_loop n (c # cs) =
    json_string_loop (if json_plain_byte_size ! of_char c \<noteq> 0 then n + json_weight c r k else add_json_size n (json_weight c r k))
      (drop k (c # cs))"
proof (cases "(of_char c :: nat) < 128")
  case True
  with assms have k: "k = 1" by (simp add: decode_ascii)
  show ?thesis by (subst json_string_loop.simps) (simp add: assms k json_weight_def Let_def)
next
  case False
  then have "json_plain_byte_size ! of_char c = 0" by (simp add: plain_byte)
  with False show ?thesis
    by (subst json_string_loop.simps) (simp add: assms json_weight_def Let_def)
qed

lemma json_weight_nonneg: "0 \<le> json_weight c r k"
  by (simp add: json_weight_def Let_def)

lemma json_string_loop_nonneg: "0 \<le> n \<Longrightarrow> 0 \<le> json_string_loop n s"
proof (induction "length s" arbitrary: n s rule: less_induct)
  case less
  show ?case
  proof (cases s)
    case Nil
    with less.prems show ?thesis by (simp add: json_string_loop.simps)
  next
    case (Cons c cs)
    obtain r k where rk: "decode_rune (c # cs) = (r, k)" by fastforce
    have "1 \<le> k" using decode_bounds [of "c # cs"] rk by simp
    then show ?thesis using less.prems json_weight_nonneg [of c r k] less.hyps [of "drop k (c # cs)"] Cons
      by (simp add: json_string_step [OF rk])
  qed
qed

lemma json_string_loop_covers:
  assumes "length bad \<le> 3"
  shows "0 \<le> n \<Longrightarrow> json_string_loop n s < max_int \<Longrightarrow> n + int (length (json_body bad s)) \<le> json_string_loop n s"
proof (induction "length s" arbitrary: n s rule: less_induct)
  case less
  show ?case
  proof (cases s)
    case Nil
    then show ?thesis by (simp add: json_string_loop.simps json_body.simps)
  next
    case (Cons c cs)
    obtain r k where rk: "decode_rune (c # cs) = (r, k)" by fastforce
    let ?w = "json_weight c r k"
    obtain m where m: "m = (if json_plain_byte_size ! of_char c \<noteq> 0 then n + ?w else add_json_size n ?w)" by blast
    note step = json_string_step [OF rk, of n, folded m]
    have w: "0 \<le> ?w" by (rule json_weight_nonneg)
    have "1 \<le> k" using decode_bounds [of "c # cs"] rk by simp
    moreover have "0 \<le> m" using m less.prems(1) w by auto
    ultimately have ih: "m + int (length (json_body bad (drop k (c # cs)))) \<le> json_string_loop n s"
      using less.hyps [of "drop k (c # cs)" m] less.prems(2) Cons step by simp
    then have "m < max_int" using less.prems(2) by linarith
    then have "m = n + ?w" using m add_json_size_less [OF less.prems(1) w] by (auto split: if_splits)
    moreover have "json_body bad s = json_token bad r k @ json_body bad (drop k (c # cs))"
      using Cons rk by (subst json_body.simps) simp
    ultimately show ?thesis using ih json_token_length [OF rk assms] by simp
  qed
qed

lemma json_string_size_nonneg [simp]: "0 \<le> json_string_size s"
  by (simp add: json_string_size_def json_string_loop_nonneg)

lemma json_string_covered:
  assumes "length bad \<le> 3" "json_string_size s < max_int"
  shows "int (length (json_string bad s)) \<le> json_string_size s"
  using json_string_loop_covers [OF assms(1), of 2 s] assms(2) by (simp add: json_string_size_def json_string_def)

end
