(* ===== verification/AccCover.thy ===== *)
theory AccCover
  imports AccJson "HOL-Library.Multiset"
begin

text \<open>
  The size estimates of nodes and snapshots are upper bounds of the encoder: \<open>covers n k\<close> says that
  the estimate \<open>n\<close> has saturated or is at least \<open>k\<close>, and every estimate is composed by its rules.
\<close>

named_theorems covering \<open>estimates that cover an encoded length\<close>

definition covers :: "int \<Rightarrow> int \<Rightarrow> bool" where
  "covers n k \<longleftrightarrow> 0 \<le> n \<and> (n < max_int \<longrightarrow> k \<le> n)"

lemma covers_addI: "covers a x \<Longrightarrow> covers b y \<Longrightarrow> z \<le> x + y \<Longrightarrow> covers (add_json_size a b) z"
  by (auto simp: covers_def add_json_size_less)

lemma covers_const [covering]: "0 \<le> n \<Longrightarrow> k \<le> n \<Longrightarrow> covers n k"
  by (simp add: covers_def)

lemma covers_mono: "covers n k \<Longrightarrow> j \<le> k \<Longrightarrow> covers n j"
  by (auto simp: covers_def)

section \<open>Lengths of the encoder\<close>

lemma length_commas: "int (length (commas xs)) = (\<Sum>x\<leftarrow>xs. int (length x)) + int (length xs - 1)"
  by (induction xs rule: commas.induct) auto

definition members_length :: "string list \<Rightarrow> int" where
  "members_length xs = (\<Sum>x\<leftarrow>xs. int (length x) + 1)"

lemma members_length_simps [simp]:
  "members_length [] = 0" "members_length (x # xs) = int (length x) + 1 + members_length xs"
  "members_length (xs @ ys) = members_length xs + members_length ys"
  by (simp_all add: members_length_def)

lemma members_length_nonneg: "0 \<le> members_length xs"
  by (induction xs) auto

lemma length_json_object: "xs \<noteq> [] \<Longrightarrow> int (length (json_object xs)) = 1 + members_length xs"
  by (auto simp: json_object_def length_commas members_length_def sum_list_addf of_nat_diff Suc_le_eq sum_list_triv)

lemma length_json_member [simp]: "length (json_member key v) = length key + 3 + length v"
  by (simp add: json_member_def)

lemma members_unless_empty [simp]:
  "members_length (unless_empty e key v) = (if e then 0 else int (length key + 4 + length v))"
  by (simp add: unless_empty_def)

section \<open>Tokens\<close>

lemma covers_string [covering]: "length bad \<le> 3 \<Longrightarrow> covers (json_string_size s) (int (length (json_string bad s)))"
  by (auto simp: covers_def json_string_covered)

lemma decimal_size_pos: "1 \<le> decimal_size v"
  using show_nat_nonempty by (cases "v < 0") (auto simp: decimal_size_def show_int_def Suc_le_eq)

lemma covers_decimal [covering]: "covers (decimal_size v) (int (length (show_int v)))"
  using decimal_size_pos [of v] by (simp add: covers_def) (simp add: decimal_size_def)

lemma covers_member: "covers v k \<Longrightarrow> covers (member_size key v) (int (length key) + 4 + k)"
  unfolding member_size_def by (rule covers_addI [of _ "int (length key) + 4"]) (auto intro: covers_const)

lemma covers_string_field [covering]:
  assumes "length bad \<le> 3"
  shows "covers (string_field_size key s) (members_length (unless_empty (s = []) key (json_string bad s)))"
  using covers_member [OF covers_string [OF assms]]
  by (cases "s = []") (simp_all add: string_field_size_def covers_def algebra_simps)

section \<open>Slices and maps\<close>

lemma covers_loop:
  assumes "\<And>x m j. x \<in> set xs \<Longrightarrow> covers m j \<Longrightarrow> covers (step x m) (j + len x)" "covers n k"
  shows "covers (sizes_loop step first xs n) (k + (\<Sum>x\<leftarrow>xs. len x) + int (if first then length xs - 1 else length xs))"
  using assms
proof (induction xs arbitrary: n k first)
  case (Cons x xs)
  have "covers (if first then n else add_json_size n 1) (k + (if first then 0 else 1))"
    using Cons.prems(2) covers_addI [OF Cons.prems(2) covers_const [of 1 1], of "k + 1"] by simp
  then have "covers (step x (if first then n else add_json_size n 1)) (k + (if first then 0 else 1) + len x)"
    by (rule Cons.prems(1) [rotated]) simp
  from Cons.IH [OF Cons.prems(1) this, of False]
  have "covers (sizes_loop step False xs (step x (if first then n else add_json_size n 1)))
    (k + (if first then 0 else 1) + len x + sum_list (map len xs) + int (length xs))" by simp
  then show ?case by (cases first) (simp_all add: algebra_simps)
qed simp

lemma covers_array:
  assumes "\<And>x m j. x \<in> set xs \<Longrightarrow> covers m j \<Longrightarrow> covers (step x m) (j + int (length (f x)))"
  shows "covers (sizes_loop step True xs 2) (int (length (json_array (map f xs))))"
proof -
  have "covers (sizes_loop step True xs 2) (2 + (\<Sum>x\<leftarrow>xs. int (length (f x))) + int (if True then length xs - 1 else length xs))"
    by (rule covers_loop [OF assms]) (auto intro: covers_const)
  then show ?thesis by (simp add: json_array_def length_commas comp_def algebra_simps)
qed

lemma covers_strings [covering]:
  assumes "length bad \<le> 3" "xs \<noteq> []"
  shows "covers (string_slice_size xs) (int (length (json_strings bad xs)))"
  using covers_array [of xs "\<lambda>s n. add_json_size n (json_string_size s)" "json_string bad"] assms
  by (auto simp: string_slice_size_def json_strings_def intro!: covers_addI [OF _ covers_string] elim: covers_mono)

lemma sum_list_sort_key: "(\<Sum>x\<leftarrow>sort_key g xs. f x) = (\<Sum>x\<leftarrow>xs. f x :: int)"
proof -
  have "mset (map f (sort_key g xs)) = mset (map f xs)" by simp
  then show ?thesis by (metis sum_mset_sum_list)
qed

lemma covers_map:
  assumes "\<And>k v m j. (k, v) \<in> set xs \<Longrightarrow> covers m j \<Longrightarrow> covers (step (k, v) m) (j + int (length (json_string bad k)) + 1 + int (length (f v)))"
  shows "covers (sizes_loop step True xs 2) (int (length (json_map bad f xs)))"
proof -
  let ?g = "\<lambda>(k, v). json_string bad k @ '':'' @ f v"
  have "covers (sizes_loop step True xs 2) (2 + (\<Sum>x\<leftarrow>xs. int (length (?g x))) + int (if True then length xs - 1 else length xs))"
  proof (rule covers_loop)
    fix x m j assume "x \<in> set xs" "covers m j"
    with assms [of "fst x" "snd x" m j] show "covers (step x m) (j + int (length (?g x)))"
      by (cases x) (simp add: algebra_simps)
  qed (rule covers_const; simp)
  moreover have "int (length (json_map bad f xs)) = 2 + (\<Sum>x\<leftarrow>xs. int (length (?g x))) + int (length xs - 1)"
    by (simp add: json_map_def json_object_def length_commas comp_def sum_list_sort_key)
  ultimately show ?thesis by simp
qed

section \<open>Records\<close>

lemma covers_id [covering]:
  assumes "length bad \<le> 3"
  shows "covers (node_id_size i) (int (length (json_node_id bad i)))"
proof -
  let ?b = "int (length (json_string bad (id_bus i)))" and ?p = "int (length (json_string bad (id_path i)))"
  let ?g = "int (length (show_int (uint (id_generation i))))"
  let ?n = "add_json_size (add_json_size (add_json_size 40 (json_string_size (id_bus i))) (json_string_size (id_path i)))
    (decimal_size (uint (id_generation i)))"
  have n: "covers ?n (40 + ?b + ?p + ?g)"
    by (rule covers_addI [OF covers_addI [OF covers_addI [OF covers_const [of 40 40] covers_string [OF assms] order_refl]
          covers_string [OF assms] order_refl] covers_decimal order_refl]) simp_all
  let ?m = "json_member ''incarnation'' (show_int (uint (id_incarnation i)))"
  have m: "covers (add_json_size 1 (member_size ''incarnation'' (decimal_size (uint (id_incarnation i))))) (1 + (int (length ?m) + 1))"
    by (rule covers_addI [OF covers_const [of 1 1] covers_member [OF covers_decimal]]) simp_all
  show ?thesis
    using n covers_addI [OF n m order_refl]
    by (auto simp: node_id_size_def json_node_id_def length_json_object Let_def elim!: covers_mono)
qed

lemma covers_ids [covering]:
  assumes "length bad \<le> 3"
  shows "covers (node_id_slice_size xs) (int (length (json_node_ids bad (Some xs))))"
  unfolding node_id_slice_size_def json_node_ids_def option.case
  by (rule covers_array) (rule covers_addI [OF _ covers_id [OF assms] order_refl])

lemma covers_string_map [covering]:
  assumes "length bad \<le> 3"
  shows "covers (string_map_size m) (int (length (json_map bad (json_string bad) m)))"
  unfolding string_map_size_def
proof (rule covers_map)
  fix k v n and j :: int
  assume "covers n j"
  then show "covers ((\<lambda>(k, v) n. add_json_size (add_json_size (add_json_size n (json_string_size k)) 1) (json_string_size v)) (k, v) n)
    (j + int (length (json_string bad k)) + 1 + int (length (json_string bad v)))"
    unfolding prod.case
    by (rule covers_addI [OF covers_addI [OF covers_addI [OF _ covers_string [OF assms] order_refl] covers_const [of 1 1] order_refl]
          covers_string [OF assms]]) auto
qed

lemma covers_relations [covering]:
  assumes "length bad \<le> 3"
  shows "covers (relations_size m) (int (length (json_map bad (json_node_ids bad) m)))"
  unfolding relations_size_def
proof (rule covers_map)
  fix k v n and j :: int
  assume n: "covers n j"
  have v: "covers (case v of None \<Rightarrow> 4 | Some ts \<Rightarrow> node_id_slice_size ts) (int (length (json_node_ids bad v)))"
    using covers_ids [OF assms] by (cases v) (auto simp: json_node_ids_def intro: covers_const)
  show "covers ((\<lambda>(k, targets) n. add_json_size (add_json_size (add_json_size n (json_string_size k)) 1)
      (case targets of None \<Rightarrow> 4 | Some ts \<Rightarrow> node_id_slice_size ts)) (k, v) n)
    (j + int (length (json_string bad k)) + 1 + int (length (json_node_ids bad v)))"
    unfolding prod.case
    by (rule covers_addI [OF covers_addI [OF covers_addI [OF n covers_string [OF assms] order_refl] covers_const [of 1 1] order_refl] v]) auto
qed

lemma covers_members:
  assumes "covers n (k - members_length (concat xs))" "list_all2 covers ns (map members_length xs)"
  shows "covers (fold (\<lambda>x n. add_json_size n x) ns n) k"
  using assms(2,1)
proof (induction ns "map members_length xs" arbitrary: n xs rule: list_all2_induct)
  case (Cons x ns y ys)
  then obtain z zs where xs: "xs = z # zs" "y = members_length z" "ys = map members_length zs" by auto
  have "covers (add_json_size n x) (k - members_length (concat zs))"
    using Cons.prems Cons.hyps(1) xs by (auto intro!: covers_addI)
  then show ?case using Cons.hyps(3) [OF xs(3)] by simp
qed simp

lemma string_field_if: "(if v \<noteq> [] then add_json_size n (string_field_size key v) else n) = add_json_size n (string_field_size key v)"
  by (simp add: string_field_size_def)

lemma covers_action [covering]:
  assumes "length bad \<le> 3"
  shows "covers (action_size a) (int (length (json_action bad a)))"
proof -
  let ?i = "json_member ''index'' (show_int (sint (a_index a)))"
  let ?f = "\<lambda>key v. unless_empty (v = []) key (json_string bad v)"
  let ?fs = "[?f ''name'' (a_name a), ?f ''localizedName'' (a_localized a), ?f ''description'' (a_description a), ?f ''keyBinding'' (a_binding a)]"
  let ?ns = "[string_field_size ''name'' (a_name a), string_field_size ''localizedName'' (a_localized a),
    string_field_size ''description'' (a_description a), string_field_size ''keyBinding'' (a_binding a)]"
  have i: "covers (2 + member_size ''index'' (decimal_size (sint (a_index a)))) (2 + (int (length ?i) + 1))"
    using covers_member [OF covers_decimal, of "''index''" "sint (a_index a)"] by (auto simp: covers_def)
  have "covers (fold (\<lambda>x n. add_json_size n x) ?ns (2 + member_size ''index'' (decimal_size (sint (a_index a)))))
    (2 + (int (length ?i) + 1) + members_length (concat ?fs))"
    by (rule covers_members [where xs = ?fs]) (use i covers_string_field [OF assms] in auto)
  then show ?thesis
    by (auto simp: action_size_def json_action_def length_json_object string_field_if simp del: members_unless_empty elim!: covers_mono)
qed

lemma covers_actions [covering]:
  assumes "length bad \<le> 3"
  shows "covers (actions_size xs) (int (length (json_array (map (json_action bad) xs))))"
  unfolding actions_size_def by (rule covers_array) (rule covers_addI [OF _ covers_action [OF assms] order_refl])

lemma covers_value [covering]:
  assumes "\<forall>x. length (ftext x) \<le> 32"
  shows "covers value_info_size (int (length (json_value ftext v)))"
proof -
  have "value_info_size = 186" by code_simp
  moreover have "int (length (ftext (v_current v))) \<le> 32" "int (length (ftext (v_minimum v))) \<le> 32"
    "int (length (ftext (v_maximum v))) \<le> 32" "int (length (ftext (v_increment v))) \<le> 32"
    using assms [rule_format, of "v_current v"] assms [rule_format, of "v_minimum v"]
      assms [rule_format, of "v_maximum v"] assms [rule_format, of "v_increment v"] by linarith+
  ultimately show ?thesis by (simp add: covers_def json_value_def length_json_object)
qed

lemma covers_member_field [covering]: "covers v (int (length x)) \<Longrightarrow> covers (member_size key v) (members_length [json_member key x])"
  using covers_member [of v "int (length x)" key] by (auto elim: covers_mono)

lemma covers_selection [covering]: "covers (selection_info_size v) (int (length (json_selection v)))"
  using covers_member [OF covers_decimal, of "''selectedChildCount''" "sint (s_count v)"]
  by (auto simp: selection_info_size_def json_selection_def length_json_object covers_def)

lemma covers_table [covering]: "covers (table_info_size v) (int (length (json_table v)))"
proof -
  have "covers (2 + member_size ''rows'' (decimal_size (sint (t_rows v)))) (10 + int (length (show_int (sint (t_rows v)))))"
    using covers_member [OF covers_decimal, of "''rows''" "sint (t_rows v)"] by (auto simp: covers_def)
  from covers_addI [OF this covers_member [OF covers_decimal] order_refl]
  show ?thesis unfolding table_info_size_def
    by (rule covers_mono) (simp add: json_table_def length_json_object)
qed

lemma covers_document [covering]:
  assumes "length bad \<le> 3"
  shows "covers (document_info_size v) (int (length (json_document bad v)))"
proof -
  let ?l = "unless_empty (d_locale v = []) ''locale'' (json_string bad (d_locale v))"
  let ?p = "unless_empty (d_page v = 0) ''currentPageNumber'' (show_int (sint (d_page v)))"
  let ?q = "unless_empty (d_pages v = 0) ''pageCount'' (show_int (sint (d_pages v)))"
  let ?n1 = "if d_locale v \<noteq> [] then add_json_size 2 (string_field_size ''locale'' (d_locale v)) else 2"
  let ?c1 = "if d_locale v \<noteq> [] then 1 else 0 :: nat"
  let ?n2 = "if d_page v \<noteq> 0 then add_json_size (if ?c1 > 0 then add_json_size ?n1 1 else ?n1)
     (member_size ''currentPageNumber'' (decimal_size (sint (d_page v)))) else ?n1"
  let ?c2 = "if d_page v \<noteq> 0 then ?c1 + 1 else ?c1"
  let ?n3 = "if d_pages v \<noteq> 0 then add_json_size (if ?c2 > 0 then add_json_size ?n2 1 else ?n2)
     (member_size ''pageCount'' (decimal_size (sint (d_pages v)))) else ?n2"
  have bump: "covers (if c > 0 then add_json_size n 1 else n) k" if "covers n k" for n k and c :: nat
    using covers_addI [OF that covers_const [of 1 0], of k] that by auto
  have 1: "covers ?n1 (2 + members_length ?l)"
    using covers_addI [OF covers_const [of 2 2] covers_string_field [OF assms]] by (auto intro: covers_const)
  have 2: "covers ?n2 (2 + members_length (?l @ ?p))"
    using covers_addI [OF bump [OF 1] covers_member [OF covers_decimal]] 1 by auto
  have 3: "covers ?n3 (2 + members_length (?l @ ?p @ ?q))"
    using covers_addI [OF bump [OF 2] covers_member [OF covers_decimal]] 2 by auto
  have "int (length (json_document bad v)) \<le> 2 + members_length (?l @ ?p @ ?q)"
  proof (cases "?l @ ?p @ ?q = []")
    case True
    then show ?thesis unfolding json_document_def by (simp add: json_object_def)
  next
    case False
    from length_json_object [OF this] show ?thesis unfolding json_document_def by linarith
  qed
  moreover have "document_info_size v = ?n3" by (simp add: document_info_size_def Let_def)
  ultimately show ?thesis using covers_mono [OF 3] by simp
qed

section \<open>Nodes\<close>

lemma covers_strings_part:
  assumes "length bad \<le> 3"
  shows "covers (node_strings_size nd)
    (members_length (unless_empty (nd_name nd = []) ''name'' (json_string bad (nd_name nd))) +
     members_length (unless_empty (nd_description nd = []) ''description'' (json_string bad (nd_description nd))) +
     members_length (unless_empty (nd_role nd = []) ''role'' (json_string bad (nd_role nd))) +
     members_length (unless_empty (nd_text nd = []) ''text'' (json_string bad (nd_text nd))) +
     int (length (json_node_id bad (nd_id nd))) + int (length (json_node_id bad (nd_parent nd))))"
  unfolding node_strings_size_def fold.simps comp_apply id_apply
  by (intro covers_addI [OF covers_addI [OF covers_addI [OF covers_addI [OF covers_addI [OF covers_addI [OF covers_const [of 0 0]
        covers_string_field [OF assms] order_refl] covers_string_field [OF assms] order_refl] covers_string_field [OF assms] order_refl]
        covers_string_field [OF assms] order_refl] covers_id [OF assms] order_refl] covers_id [OF assms]]) simp_all

lemma covers_if:
  assumes "covers n k" "c \<Longrightarrow> covers v j"
  shows "covers (if c then add_json_size n v else n) (k + (if c then j else 0))"
  using assms covers_addI [OF assms(1), of v j "k + j"] by auto

lemma covers_decimal_less: "covers (decimal_size v - 1) (int (length (show_int v)) - 1)"
  using decimal_size_pos [of v] by (simp add: covers_def) (simp add: decimal_size_def)

lemma covers_scalars_part:
  "covers (node_scalars_size nd)
    (int (length (show_int (r_x (nd_bounds nd)))) + int (length (show_int (r_y (nd_bounds nd)))) +
     int (length (show_int (r_width (nd_bounds nd)))) + int (length (show_int (r_height (nd_bounds nd)))) +
     int (length (show_int (nd_child_count nd))) - 5 +
     members_length (unless_empty (nd_role_id nd = 0) ''roleId'' (show_int (uint (nd_role_id nd)))) +
     members_length (unless_empty (\<not> nd_text_truncated nd) ''textTruncated'' (json_bool True)) +
     members_length (unless_empty (\<not> nd_redacted nd) ''redacted'' (json_bool True)))"
proof -
  let ?d = "fold (\<lambda>v n. add_json_size n (decimal_size v - 1))
    [r_x (nd_bounds nd), r_y (nd_bounds nd), r_width (nd_bounds nd), r_height (nd_bounds nd), nd_child_count nd] 0"
  let ?k = "int (length (show_int (r_x (nd_bounds nd)))) + int (length (show_int (r_y (nd_bounds nd)))) +
     int (length (show_int (r_width (nd_bounds nd)))) + int (length (show_int (r_height (nd_bounds nd)))) +
     int (length (show_int (nd_child_count nd))) - 5"
  have d: "covers ?d ?k"
    unfolding fold.simps comp_apply id_apply
    by (rule covers_addI [OF covers_addI [OF covers_addI [OF covers_addI [OF covers_addI [OF covers_const [of 0 0]
        covers_decimal_less order_refl] covers_decimal_less order_refl] covers_decimal_less order_refl]
        covers_decimal_less order_refl] covers_decimal_less]) simp_all
  have t: "covers (member_size key 4) (int (length key + 4 + length (json_bool True)))" for key
    using covers_member [OF covers_const [of 4 4], of key] by (simp add: json_bool_def)
  note 1 = covers_if [OF d covers_member [OF covers_decimal], of "nd_role_id nd \<noteq> 0" "''roleId''" "uint (nd_role_id nd)"]
  note 2 = covers_if [OF 1 t, of "nd_text_truncated nd" "''textTruncated''"]
  note 3 = covers_if [OF 2 t, of "nd_redacted nd" "''redacted''"]
  show ?thesis unfolding node_scalars_size_def Let_def by (rule covers_mono [OF 3]) (simp add: algebra_simps)
qed

lemma covers_when_some:
  assumes "covers n k" "\<And>xs. xs \<noteq> [] \<Longrightarrow> covers (g xs) (int (length (f xs)))"
  shows "covers (when_some key g s n) (k + members_length (slice_member key f s))"
  using assms(1) covers_if [OF assms(1) covers_member [OF assms(2)], of "elems s \<noteq> []" "elems s" key]
  by (auto simp: when_some_def slice_member_def algebra_simps elim!: covers_mono split: if_splits)

lemma covers_collections_part:
  assumes "length bad \<le> 3"
  shows "covers (node_collections_size nd)
    (members_length (slice_member ''interfaces'' (json_strings bad) (nd_interfaces nd)) +
     members_length (slice_member ''states'' (json_strings bad) (nd_states nd)) +
     members_length (slice_member ''warnings'' (json_strings bad) (nd_warnings nd)) +
     members_length (slice_member ''children'' (\<lambda>xs. json_node_ids bad (Some xs)) (nd_children nd)) +
     members_length (slice_member ''attributes'' (json_map bad (json_string bad)) (nd_attributes nd)) +
     members_length (slice_member ''relations'' (json_map bad (json_node_ids bad)) (nd_relations nd)) +
     members_length (slice_member ''actions'' (\<lambda>xs. json_array (map (json_action bad) xs)) (nd_actions nd)))"
  unfolding node_collections_size_def Let_def
  by (rule covers_mono [OF covers_when_some [OF covers_when_some [OF covers_when_some [OF covers_when_some [OF covers_when_some
        [OF covers_when_some [OF covers_when_some [OF covers_const [of 0 0] covers_strings [OF assms]] covers_strings [OF assms]]
        covers_strings [OF assms]] covers_ids [OF assms]] covers_string_map [OF assms]] covers_relations [OF assms]]
        covers_actions [OF assms]]]) simp_all

lemma covers_when_present:
  assumes "covers n k" "\<And>x. covers (g x) (int (length (f x)))"
  shows "covers (case v of None \<Rightarrow> n | Some x \<Rightarrow> add_json_size n (member_size key (g x))) (k + members_length (when_present key f v))"
  using assms(1) covers_addI [OF assms(1) covers_member [OF assms(2)]]
  by (auto simp: when_present_def split: option.split)

lemma covers_info_part:
  assumes "length bad \<le> 3" "\<forall>x. length (ftext x) \<le> 32"
  shows "covers (node_info_size nd)
    (members_length (when_present ''value'' (json_value ftext) (nd_value nd)) +
     members_length (when_present ''selection'' json_selection (nd_selection nd)) +
     members_length (when_present ''table'' json_table (nd_table nd)) +
     members_length (when_present ''document'' (json_document bad) (nd_document nd)))"
  unfolding node_info_size_def Let_def
  by (rule covers_mono [OF covers_when_present [OF covers_when_present [OF covers_when_present [OF covers_when_present
        [where f = "json_value ftext", OF covers_const [of 0 0] covers_value [OF assms(2)]] covers_selection] covers_table] covers_document [OF assms(1)]]]) simp_all

lemma covers_node:
  assumes "length bad \<le> 3" "\<forall>x. length (ftext x) \<le> 32"
  shows "covers (node_size nd) (int (length (json_node bad ftext nd)))"
proof -
  have b: "length (json_bool x) \<le> 5" for x by (simp add: json_bool_def)
  have r: "int (length (json_rect x)) = 30 + int (length (show_int (r_x x))) + int (length (show_int (r_y x))) +
     int (length (show_int (r_width x))) + int (length (show_int (r_height x)))" for x
    by (simp add: json_rect_def length_json_object)
  have f: "node_size nd = add_json_size (add_json_size (add_json_size (add_json_size 158 (node_strings_size nd))
     (node_scalars_size nd)) (node_collections_size nd)) (node_info_size nd)" by (simp add: node_size_def)
  show ?thesis
    unfolding f
    by (rule covers_addI [OF covers_addI [OF covers_addI [OF covers_addI [OF covers_const [of 158 158]
        covers_strings_part [OF assms(1)] order_refl] covers_scalars_part order_refl] covers_collections_part [OF assms(1)] order_refl]
        covers_info_part [OF assms]])
      (use b [of "nd_has_bounds nd"] b [of "nd_focused nd"] b [of "nd_visible nd"] b [of "nd_showing nd"] b [of "nd_enabled nd"]
        in \<open>simp_all add: json_node_def length_json_object r del: members_unless_empty\<close>)
qed

section \<open>Snapshots\<close>

lemma json_token_ge:
  assumes "s \<noteq> []" "decode_rune s = (r, k)"
  shows "k \<le> length (json_token ''???'' r k)"
proof (cases "r = replacement \<and> k = 1")
  case True
  then show ?thesis by (simp add: json_token_def)
next
  case False
  with assms decode_rest have "length r = k" by blast
  then show ?thesis
    by (auto simp: json_token_def Let_def line_separator_def paragraph_separator_def u_escape_def)
qed

lemma json_body_ge: "length s \<le> length (json_body ''???'' s)"
proof (induction "length s" arbitrary: s rule: less_induct)
  case less
  show ?case
  proof (cases "s = []")
    case False
    obtain r k where rk: "decode_rune s = (r, k)" by fastforce
    have k: "1 \<le> k" "k \<le> length s" using decode_bounds [OF False] rk by simp_all
    with False less.hyps [of "drop k s"] have "length s - k \<le> length (json_body ''???'' (drop k s))" by simp
    with k json_token_ge [OF False rk] show ?thesis
      using False rk by (subst json_body.simps) simp
  qed simp
qed

lemma covers_instant: "covers (json_string_size t) (int (length t) + 2)"
  using covers_string [of "''???''" t] json_body_ge [of t] by (auto simp: json_string_def elim!: covers_mono)

lemma covers_nodes:
  assumes "length bad \<le> 3" "\<forall>x. length (ftext x) \<le> 32" "covers n k"
  shows "covers (fold (\<lambda>nd n. add_json_size n (node_size nd)) nds n) (k + (\<Sum>nd\<leftarrow>nds. int (length (json_node bad ftext nd))))"
  using assms(3)
proof (induction nds arbitrary: n k)
  case (Cons nd nds)
  from Cons.IH [OF covers_addI [OF Cons.prems covers_node [OF assms(1,2)] order_refl]]
  show ?case by (simp add: add.assoc)
qed simp

lemma covers_base:
  assumes "length bad \<le> 3"
  shows "covers (snapshot_base_size s)
    (64 + (int (length (sn_captured s)) + 2) + int (length (show_int (uint (sn_generation s)))) +
     members_length (unless_empty (sn_provider_errors s = 0) ''providerErrors'' (show_int (sn_provider_errors s))) +
     members_length (slice_member ''truncationReasons'' (json_strings bad) (sn_reasons s)) +
     members_length (slice_member ''warnings'' (json_strings bad) (sn_warnings s)) +
     members_length (unless_empty (sn_source s = []) ''source'' (json_string bad (sn_source s))))"
proof -
  note 0 = covers_addI [OF covers_addI [OF covers_const [of 65 65] covers_instant [of "sn_captured s"] order_refl]
    covers_decimal_less [of "uint (sn_generation s)"] order_refl]
  note 1 = covers_if [OF 0 covers_member [OF covers_decimal], of "sn_provider_errors s \<noteq> 0" "''providerErrors''" "sn_provider_errors s"]
  show ?thesis unfolding snapshot_base_size_def Let_def
    by (rule covers_mono [OF covers_if [OF covers_when_some [OF covers_when_some [OF 1 covers_strings [OF assms]]
        covers_strings [OF assms]] covers_string_field [OF assms]]]) (simp_all add: algebra_simps)
qed

lemma covers_snapshot:
  assumes "length bad \<le> 3" "\<forall>x. length (ftext x) \<le> 32"
  shows "covers (snapshot_size s) (int (length (json_snapshot bad ftext s)))"
proof -
  let ?nodes = "case sn_nodes s of None \<Rightarrow> ''null'' | Some nds \<Rightarrow> json_array (map (json_node bad ftext) nds)"
  let ?root = "int (length (json_node bad ftext (sn_root s)))"
  have base: "covers (add_json_size (snapshot_base_size s) (node_size (sn_root s)))
     (int (length (json_snapshot bad ftext s)) - int (length ?nodes))"
    by (rule covers_addI [OF covers_base [OF assms(1)] covers_node [OF assms]])
      (simp add: json_snapshot_def length_json_object json_bool_def del: members_unless_empty)
  show ?thesis
  proof (cases "sn_nodes s")
    case None
    from covers_addI [OF base covers_const [of 4 4]] None show ?thesis
      by (simp add: snapshot_size_def size_from_parts_def size_from_base_def)
  next
    case (Some nds)
    have n: "covers (nodes_size nds) (\<Sum>nd\<leftarrow>nds. int (length (json_node bad ftext nd)))"
      using covers_nodes [OF assms covers_const [of 0 0]] by (simp add: nodes_size_def)
    have l: "int (length ?nodes) = 2 + (\<Sum>nd\<leftarrow>nds. int (length (json_node bad ftext nd))) + int (length nds - 1)"
      using Some by (simp add: json_array_def length_commas comp_def)
    show ?thesis
    proof (cases "nds = []")
      case True
      with covers_addI [OF base covers_const [of 2 2]] Some l show ?thesis
        by (simp add: snapshot_size_def size_from_parts_def size_from_base_def)
    next
      case False
      from covers_addI [OF covers_addI [OF covers_addI [OF base covers_const [of 2 2] order_refl]
          covers_const [of "int (length nds) - 1" "int (length nds) - 1"] order_refl] n, of "int (length (json_snapshot bad ftext s))"]
      show ?thesis using Some l False
        by (simp add: snapshot_size_def size_from_parts_def size_from_base_def of_nat_diff Suc_le_eq)
    qed
  qed
qed

end
