(* ===== verification/AccPrune.thy ===== *)
theory AccPrune
  imports AccBudget AccCover
begin

text \<open>
  The size of a pruned node, computed by subtraction from the size of the node, is the size of the
  pruned node. Sums that have not saturated are exact: \<open>eqs n x\<close> says that the estimate \<open>n\<close> and the
  unbounded sum \<open>x\<close> are equal up to saturation.
\<close>

section \<open>Exact sums\<close>

definition eqs :: "int \<Rightarrow> int \<Rightarrow> bool" where
  "eqs n x \<longleftrightarrow> 0 \<le> n \<and> 0 \<le> x \<and> min max_int n = min max_int x"

lemma eqs_refl: "0 \<le> n \<Longrightarrow> eqs n n"
  by (simp add: eqs_def)

lemma eqs_addI: "eqs a x \<Longrightarrow> eqs b y \<Longrightarrow> z = x + y \<Longrightarrow> eqs (add_json_size a b) z"
  by (auto simp: eqs_def add_json_size_def min_def max_int_def split: if_splits)

lemma eqs_less: "eqs n x \<Longrightarrow> n < max_int \<or> x < max_int \<Longrightarrow> n = x"
  by (auto simp: eqs_def min_def split: if_splits)

lemma eqs_nonneg: "eqs n x \<Longrightarrow> 0 \<le> n" "eqs n x \<Longrightarrow> 0 \<le> x"
  by (simp_all add: eqs_def)

lemma eqs_mono: "eqs a x \<Longrightarrow> eqs b y \<Longrightarrow> x \<le> y \<Longrightarrow> b < max_int \<Longrightarrow> a \<le> b \<and> a = x"
  by (auto simp: eqs_def min_def split: if_splits)

definition slice_sum :: "('a \<Rightarrow> int) \<Rightarrow> 'a list \<Rightarrow> int" where
  "slice_sum f xs = 2 + (\<Sum>x\<leftarrow>xs. f x) + int (length xs - 1)"

lemma slice_sum_nonneg: "(\<And>x. 0 \<le> f x) \<Longrightarrow> 0 \<le> slice_sum f xs"
proof -
  assume "\<And>x. 0 \<le> f x"
  then have "0 \<le> sum_list (map f xs)" by (intro sum_list_nonneg) auto
  then show ?thesis by (simp add: slice_sum_def)
qed

lemma eqs_loop:
  assumes "\<And>x m y. x \<in> set xs \<Longrightarrow> eqs m y \<Longrightarrow> eqs (step x m) (y + f x)" "eqs n y"
  shows "eqs (sizes_loop step first xs n) (y + (\<Sum>x\<leftarrow>xs. f x) + int (if first then length xs - 1 else length xs))"
  using assms
proof (induction xs arbitrary: n y first)
  case (Cons x xs)
  have "eqs (if first then n else add_json_size n 1) (y + (if first then 0 else 1))"
    using Cons.prems(2) eqs_addI [OF Cons.prems(2) eqs_refl [of 1], of "y + 1"] by simp
  then have "eqs (step x (if first then n else add_json_size n 1)) (y + (if first then 0 else 1) + f x)"
    by (rule Cons.prems(1) [rotated]) simp
  from Cons.IH [OF Cons.prems(1) this, of False]
  show ?case by (cases first) (simp_all add: algebra_simps)
qed simp

lemma eqs_slice:
  assumes "\<And>x m y. x \<in> set xs \<Longrightarrow> eqs m y \<Longrightarrow> eqs (step x m) (y + f x)"
  shows "eqs (sizes_loop step True xs 2) (slice_sum f xs)"
  using eqs_loop [where y = 2 and n = 2 and first = True, OF assms eqs_refl] by (simp add: slice_sum_def)

section \<open>References\<close>

lemma node_id_size_ge: "45 \<le> node_id_size i"
proof -
  have "covers (node_id_size i) (int (length (json_node_id [] i)))" by (rule covers_id) simp
  moreover have "45 \<le> int (length (json_node_id [] i))"
    using decimal_size_pos [of "uint (id_generation i)"]
    by (simp add: json_node_id_def length_json_object json_string_def decimal_size_def)
  ultimately show ?thesis by (auto simp: covers_def max_int_def)
qed

lemma node_id_size_nonneg [simp]: "0 \<le> node_id_size i"
  using node_id_size_ge [of i] by simp

lemma eqs_ids: "eqs (node_id_slice_size xs) (slice_sum node_id_size xs)"
  unfolding node_id_slice_size_def
  by (rule eqs_slice) (rule eqs_addI [OF _ eqs_refl refl], simp_all)

definition target_sum :: "node_id slice \<Rightarrow> int" where
  "target_sum t = (case t of None \<Rightarrow> 4 | Some ts \<Rightarrow> slice_sum node_id_size ts)"

lemma target_sum_nonneg [simp]: "0 \<le> target_sum t"
  by (simp add: target_sum_def slice_sum_nonneg split: option.split)

definition relation_sum :: "string \<times> node_id slice \<Rightarrow> int" where
  "relation_sum r = json_string_size (fst r) + 1 + target_sum (snd r)"

lemma relation_sum_nonneg [simp]: "0 \<le> relation_sum r"
  using json_string_size_nonneg [of "fst r"] target_sum_nonneg [of "snd r"] by (simp add: relation_sum_def)

lemma eqs_relation_step:
  assumes "eqs m y" "eqs t (target_sum (snd r))"
  shows "eqs (add_json_size (add_json_size (add_json_size m (json_string_size (fst r))) 1) t) (y + relation_sum r)"
  by (rule eqs_addI [OF eqs_addI [OF eqs_addI [OF assms(1) eqs_refl refl] eqs_refl [of 1] refl] assms(2)])
    (simp_all add: relation_sum_def)

lemma eqs_relations: "eqs (relations_size m) (slice_sum relation_sum m)"
  unfolding relations_size_def
proof (rule eqs_slice)
  fix r :: "string \<times> node_id slice" and n y assume n: "eqs n y"
  have "eqs (case snd r of None \<Rightarrow> 4 | Some ts \<Rightarrow> node_id_slice_size ts) (target_sum (snd r))"
    using eqs_ids by (auto simp: target_sum_def eqs_def split: option.split)
  from eqs_relation_step [OF n this]
  show "eqs ((\<lambda>(k, targets) n. add_json_size (add_json_size (add_json_size n (json_string_size k)) 1)
      (case targets of None \<Rightarrow> 4 | Some ts \<Rightarrow> node_id_slice_size ts)) r n) (y + relation_sum r)"
    by (cases r) simp
qed

section \<open>The loops over what is kept\<close>

lemma kept_loop_sum:
  assumes "eqs n y"
  shows "snd (kept_loop ret cs n kept) = kept + length (filter (\<lambda>c. c \<in> set ret) cs)"
    "eqs (fst (kept_loop ret cs n kept))
       (y + (\<Sum>c\<leftarrow>filter (\<lambda>c. c \<in> set ret) cs. node_id_size c) +
        int (if kept = 0 then length (filter (\<lambda>c. c \<in> set ret) cs) - 1 else length (filter (\<lambda>c. c \<in> set ret) cs)))"
proof -
  have "snd (kept_loop ret cs n kept) = kept + length (filter (\<lambda>c. c \<in> set ret) cs) \<and>
    eqs (fst (kept_loop ret cs n kept))
       (y + (\<Sum>c\<leftarrow>filter (\<lambda>c. c \<in> set ret) cs. node_id_size c) +
        int (if kept = 0 then length (filter (\<lambda>c. c \<in> set ret) cs) - 1 else length (filter (\<lambda>c. c \<in> set ret) cs)))"
    using assms
  proof (induction cs arbitrary: n y kept)
    case (Cons c cs)
    show ?case
    proof (cases "c \<in> set ret")
      case False
      with Cons.IH [OF Cons.prems, of kept] show ?thesis by (cases "kept = 0") simp_all
    next
      case True
      have "eqs (if kept > 0 then add_json_size n 1 else n) (y + (if kept > 0 then 1 else 0))"
        using Cons.prems eqs_addI [OF Cons.prems eqs_refl [of 1], of "y + 1"] by simp
      then have "eqs (add_json_size (if kept > 0 then add_json_size n 1 else n) (node_id_size c))
        (y + (if kept > 0 then 1 else 0) + node_id_size c)"
        by (rule eqs_addI [OF _ eqs_refl refl]) simp
      from Cons.IH [OF this, of "Suc kept"] True show ?thesis by (cases "kept = 0") (simp_all add: algebra_simps)
    qed
  qed simp
  then show "snd (kept_loop ret cs n kept) = kept + length (filter (\<lambda>c. c \<in> set ret) cs)"
    "eqs (fst (kept_loop ret cs n kept))
       (y + (\<Sum>c\<leftarrow>filter (\<lambda>c. c \<in> set ret) cs. node_id_size c) +
        int (if kept = 0 then length (filter (\<lambda>c. c \<in> set ret) cs) - 1 else length (filter (\<lambda>c. c \<in> set ret) cs)))"
    by auto
qed

lemma kept_all:
  "snd (kept_loop ret cs 2 0) = length (filter (\<lambda>c. c \<in> set ret) cs)"
  "eqs (fst (kept_loop ret cs 2 0)) (slice_sum node_id_size (filter (\<lambda>c. c \<in> set ret) cs))"
  using kept_loop_sum [OF eqs_refl [of 2], of ret cs 0] by (simp_all add: slice_sum_def)

lemma elems_prune_children [simp]: "elems (prune_children ret t) = filter (\<lambda>c. c \<in> set ret) (elems t)"
  by (cases t) (simp_all add: prune_children_def)

lemma pruned_relations_loop_sum:
  assumes "eqs n y"
  shows "snd (pruned_relations_loop ret m n kept) = kept + length (prune_relations ret m) \<and>
    eqs (fst (pruned_relations_loop ret m n kept))
       (y + (\<Sum>r\<leftarrow>prune_relations ret m. relation_sum r) +
        int (if kept = 0 then length (prune_relations ret m) - 1 else length (prune_relations ret m)))"
  using assms
proof (induction m arbitrary: n y kept)
  case (Cons r m)
  obtain k t where r: "r = (k, t)" by (cases r)
  let ?ts = "filter (\<lambda>c. c \<in> set ret) (elems t)"
  obtain sz kt where loop: "kept_loop ret (elems t) 2 0 = (sz, kt)" by fastforce
  note kept = kept_all [of ret "elems t", unfolded loop, simplified]
  show ?case
  proof (cases "kt = 0")
    case True
    with kept(1) have "prune_relations ret (r # m) = prune_relations ret m"
      by (simp add: prune_relations_def r)
    with Cons.IH [OF Cons.prems, of kept] True loop show ?thesis by (cases "kept = 0") (simp_all add: r)
  next
    case False
    with kept(1) obtain xs where t: "t = Some xs" by (cases t) simp_all
    have keep: "prune_relations ret (r # m) = (k, Some ?ts) # prune_relations ret m"
      using False kept(1) by (simp add: prune_relations_def r t prune_children_def)
    have "eqs (if kept > 0 then add_json_size n 1 else n) (y + (if kept > 0 then 1 else 0))"
      using Cons.prems eqs_addI [OF Cons.prems eqs_refl [of 1], of "y + 1"] by simp
    from eqs_relation_step [OF this, of sz "(k, Some ?ts)"] kept(2)
    have "eqs (add_json_size (add_json_size (add_json_size (if kept > 0 then add_json_size n 1 else n) (json_string_size k)) 1) sz)
      (y + (if kept > 0 then 1 else 0) + relation_sum (k, Some ?ts))" by (simp add: target_sum_def)
    from Cons.IH [OF this, of "Suc kept"] False loop show ?thesis
      by (cases "kept = 0") (simp_all add: r keep [unfolded r] Let_def algebra_simps)
  qed
qed (simp add: prune_relations_def)

lemma pruned_relations:
  "snd (pruned_relations_size m ret) = length (prune_relations ret m)"
  "eqs (fst (pruned_relations_size m ret)) (slice_sum relation_sum (prune_relations ret m))"
  using pruned_relations_loop_sum [OF eqs_refl [of 2], of ret m 0] by (simp_all add: pruned_relations_size_def slice_sum_def)

section \<open>A node and its pruned copy\<close>

definition part :: "string \<Rightarrow> ('a list \<Rightarrow> int) \<Rightarrow> 'a slice \<Rightarrow> int" where
  "part key f s = (if elems s \<noteq> [] then member_size key (f (elems s)) else 0)"

definition node_rest :: "acc_node \<Rightarrow> int" where
  "node_rest nd =
     158 + node_strings_size nd + node_scalars_size nd + node_info_size nd +
     part ''interfaces'' string_slice_size (nd_interfaces nd) + part ''states'' string_slice_size (nd_states nd) +
     part ''warnings'' string_slice_size (nd_warnings nd) + part ''attributes'' string_map_size (nd_attributes nd) +
     part ''actions'' actions_size (nd_actions nd)"

definition child_sum :: "node_id slice \<Rightarrow> int" where
  "child_sum s = (if elems s = [] then 0 else 12 + slice_sum node_id_size (elems s))"

definition rel_sum :: "(string \<times> node_id slice) slice \<Rightarrow> int" where
  "rel_sum s = (if elems s = [] then 0 else 13 + slice_sum relation_sum (elems s))"

lemma child_rel_nonneg: "0 \<le> child_sum c" "0 \<le> rel_sum r"
  using slice_sum_nonneg [of node_id_size "elems c"] slice_sum_nonneg [of relation_sum "elems r"]
  by (simp_all add: child_sum_def rel_sum_def)

lemma part_nonneg:
  "0 \<le> part k1 string_slice_size a" "0 \<le> part k2 string_map_size b" "0 \<le> part k3 actions_size c"
proof -
  have m: "0 \<le> v \<Longrightarrow> 0 \<le> member_size k v" for k v by (simp add: member_size_def)
  have "elems a \<noteq> [] \<Longrightarrow> 0 \<le> string_slice_size (elems a)" "0 \<le> string_map_size (elems b)" "0 \<le> actions_size (elems c)"
    using covers_strings [of "[]" "elems a"] covers_string_map [of "[]" "elems b"] covers_actions [of "[]" "elems c"]
    by (simp_all add: covers_def)
  then show "0 \<le> part k1 string_slice_size a" "0 \<le> part k2 string_map_size b" "0 \<le> part k3 actions_size c"
    by (simp_all add: part_def m)
qed

lemma parts_nonneg: "0 \<le> node_strings_size nd" "0 \<le> node_scalars_size nd" "0 \<le> node_info_size nd"
  using covers_strings_part [of "[]" nd] covers_scalars_part [of nd] covers_info_part [of "[]" "\<lambda>_. []" nd]
  by (simp_all add: covers_def)

lemma node_rest_nonneg: "158 \<le> node_rest nd"
  unfolding node_rest_def
  by (intro add_increasing2 part_nonneg parts_nonneg) simp

lemma eqs_when_some: "eqs n y \<Longrightarrow> eqs (part key f s) p \<Longrightarrow> eqs (when_some key f s n) (y + p)"
  using eqs_addI [of n y "part key f s" p "y + p"] by (auto simp: when_some_def part_def)

lemma eqs_member: "eqs v x \<Longrightarrow> eqs (member_size key v) (int (length key) + 4 + x)"
  unfolding member_size_def by (rule eqs_addI [OF eqs_refl _ refl]) simp

lemma eqs_children: "eqs (part ''children'' node_id_slice_size s) (child_sum s)"
  using eqs_member [OF eqs_ids, of "''children''" "elems s"] by (auto simp: part_def child_sum_def intro: eqs_refl)

lemma eqs_rels: "eqs (part ''relations'' relations_size s) (rel_sum s)"
  using eqs_member [OF eqs_relations, of "''relations''" "elems s"] by (auto simp: part_def rel_sum_def intro: eqs_refl)

lemma eqs_node: "eqs (node_size nd) (node_rest nd + child_sum (nd_children nd) + rel_sum (nd_relations nd))"
proof -
  have f: "node_size nd = add_json_size (add_json_size (add_json_size (add_json_size 158 (node_strings_size nd))
     (node_scalars_size nd)) (node_collections_size nd)) (node_info_size nd)" by (simp add: node_size_def)
  have c: "eqs (node_collections_size nd)
    (0 + part ''interfaces'' string_slice_size (nd_interfaces nd) + part ''states'' string_slice_size (nd_states nd) +
     part ''warnings'' string_slice_size (nd_warnings nd) + child_sum (nd_children nd) +
     part ''attributes'' string_map_size (nd_attributes nd) + rel_sum (nd_relations nd) + part ''actions'' actions_size (nd_actions nd))"
    unfolding node_collections_size_def Let_def
    by (intro eqs_when_some eqs_children eqs_rels eqs_refl part_nonneg) simp
  show ?thesis unfolding f
    by (rule eqs_addI [OF eqs_addI [OF eqs_addI [OF eqs_addI [OF eqs_refl [of 158] eqs_refl refl] eqs_refl refl] c refl] eqs_refl])
      (simp_all add: node_rest_def parts_nonneg)
qed

lemma node_rest_prune [simp]: "node_rest (prune_node ret nd) = node_rest nd"
  by (simp add: node_rest_def prune_node_def node_strings_size_def node_scalars_size_def node_info_size_def Let_def)

lemma sum_filter_le:
  assumes "\<And>x. 0 \<le> (f x :: int)"
  shows "(\<Sum>x\<leftarrow>filter P xs. f x) \<le> (\<Sum>x\<leftarrow>xs. f x)"
  using assms by (induction xs) (auto intro: add_mono add_increasing)

lemma slice_sum_filter:
  assumes "\<And>x. 0 \<le> f x"
  shows "slice_sum f (filter P xs) \<le> slice_sum f xs"
  using sum_filter_le [of f P xs] assms diff_le_mono [OF length_filter_le [of P xs], of 1] by (simp add: slice_sum_def)

lemma child_sum_prune: "child_sum (prune_children ret s) \<le> child_sum s"
  using slice_sum_filter [of node_id_size] slice_sum_nonneg [of node_id_size "elems s"]
  by (auto simp: child_sum_def)

lemma prune_relations_Cons:
  "prune_relations ret ((k, t) # m) =
     (if filter (\<lambda>c. c \<in> set ret) (elems t) = [] then prune_relations ret m
      else (k, prune_children ret t) # prune_relations ret m)"
  by (simp add: prune_relations_def)

lemma target_sum_prune: "filter (\<lambda>c. c \<in> set ret) (elems t) \<noteq> [] \<Longrightarrow> target_sum (prune_children ret t) \<le> target_sum t"
  by (cases t) (simp_all add: target_sum_def prune_children_def slice_sum_filter)

lemma rel_sum_prune: "rel_sum (map_option (prune_relations ret) s) \<le> rel_sum s"
proof -
  have "(\<Sum>r\<leftarrow>prune_relations ret m. relation_sum r) \<le> (\<Sum>r\<leftarrow>m. relation_sum r) \<and> length (prune_relations ret m) \<le> length m" for m
  proof (induction m)
    case (Cons r m)
    then show ?case
      using target_sum_prune [of ret "snd r"]
      by (cases r) (auto simp: prune_relations_Cons relation_sum_def intro: add_increasing)
  qed (simp add: prune_relations_def)
  then have le: "slice_sum relation_sum (prune_relations ret m) \<le> slice_sum relation_sum m" for m
    by (simp add: slice_sum_def) (smt (verit) diff_le_mono of_nat_le_iff)
  show ?thesis
  proof (cases s)
    case (Some m)
    then show ?thesis using le [of m] slice_sum_nonneg [of relation_sum m] by (auto simp: rel_sum_def prune_relations_def)
  qed (simp add: rel_sum_def)
qed

lemma size_after_pruning_exact:
  assumes "node_size nd < max_int"
  shows "size_after_pruning nd (node_size nd) ret = node_size (prune_node ret nd)"
    "node_size (prune_node ret nd) = node_rest nd + child_sum (prune_children ret (nd_children nd)) +
       rel_sum (map_option (prune_relations ret) (nd_relations nd))"
    "node_size (prune_node ret nd) \<le> node_size nd"
proof -
  let ?c = "nd_children nd" and ?r = "nd_relations nd"
  let ?c' = "prune_children ret ?c" and ?r' = "map_option (prune_relations ret) ?r"
  have size: "node_size nd = node_rest nd + child_sum ?c + rel_sum ?r"
    using eqs_less [OF eqs_node] assms by blast
  have le: "child_sum ?c' \<le> child_sum ?c" "rel_sum ?r' \<le> rel_sum ?r" by (rule child_sum_prune rel_sum_prune)+
  note nn = child_rel_nonneg(1) [of ?c] child_rel_nonneg(1) [of ?c'] child_rel_nonneg(2) [of ?r] child_rel_nonneg(2) [of ?r']
    node_rest_nonneg [of nd]
  have "eqs (node_size (prune_node ret nd)) (node_rest nd + child_sum ?c' + rel_sum ?r')"
    using eqs_node [of "prune_node ret nd"] by (simp add: prune_node_def [of ret nd] flip: node_rest_prune [of ret nd])
  then show pruned: "node_size (prune_node ret nd) = node_rest nd + child_sum ?c' + rel_sum ?r'"
    by (rule eqs_less) (use size le assms in linarith)
  show "node_size (prune_node ret nd) \<le> node_size nd" using pruned size le by linarith
  have children: "elems ?c \<noteq> [] \<Longrightarrow> member_size ''children'' (node_id_slice_size (elems ?c)) = child_sum ?c"
    using eqs_less [OF eqs_children [of ?c]] size nn assms by (simp add: part_def)
  have relations: "elems ?r \<noteq> [] \<Longrightarrow> member_size ''relations'' (relations_size (elems ?r)) = rel_sum ?r"
    using eqs_less [OF eqs_rels [of ?r]] size nn assms by (simp add: part_def)
  let ?n = "if elems ?c \<noteq> [] then
       let (children_size, kept) = kept_loop ret (elems ?c) 2 0 in
       if kept < length (elems ?c) then
         let n = node_size nd - member_size ''children'' (node_id_slice_size (elems ?c)) in
         if kept > 0 then add_json_size n (member_size ''children'' children_size) else n
       else node_size nd
     else node_size nd"
  have 1: "?n = node_rest nd + child_sum ?c' + rel_sum ?r"
  proof (cases "elems ?c = []")
    case True
    then show ?thesis using size by (simp add: child_sum_def)
  next
    case False
    obtain sz kept where loop: "kept_loop ret (elems ?c) 2 0 = (sz, kept)" by fastforce
    note kept = kept_all [of ret "elems ?c", unfolded loop, simplified]
    show ?thesis
    proof (cases "kept < length (elems ?c)")
      case less: True
      show ?thesis
      proof (cases "kept > 0")
        case True
        with kept have e: "eqs (member_size ''children'' sz) (child_sum ?c')"
          using eqs_member [OF kept(2), of "''children''"] by (auto simp: child_sum_def)
        have "eqs (add_json_size (node_rest nd + rel_sum ?r) (member_size ''children'' sz)) (node_rest nd + rel_sum ?r + child_sum ?c')"
          by (rule eqs_addI [OF eqs_refl e refl]) (use nn in linarith)
        then have "add_json_size (node_rest nd + rel_sum ?r) (member_size ''children'' sz) = node_rest nd + rel_sum ?r + child_sum ?c'"
          by (rule eqs_less) (use size le assms in linarith)
        with False True less loop children size show ?thesis by (simp add: algebra_simps)
      next
        case True': False
        with kept(1) have "child_sum ?c' = 0" by (simp add: child_sum_def)
        with False True' less loop children size show ?thesis by simp
      qed
    next
      case all: False
      with kept(1) have "filter (\<lambda>c. c \<in> set ret) (elems ?c) = elems ?c"
        by (metis filter_id_conv length_filter_less)
      then have "child_sum ?c' = child_sum ?c" by (simp add: child_sum_def)
      with False all loop size show ?thesis by simp
    qed
  qed
  show "size_after_pruning nd (node_size nd) ret = node_size (prune_node ret nd)"
  proof (cases "elems ?r = []")
    case True
    then have "rel_sum ?r = 0" "rel_sum ?r' = 0" by (cases ?r; simp add: rel_sum_def prune_relations_def)+
    with True 1 pruned show ?thesis by (simp add: size_after_pruning_def Let_def)
  next
    case False
    then obtain m where m: "?r = Some m" by (cases ?r) simp_all
    obtain sz kept where loop: "pruned_relations_size m ret = (sz, kept)" by fastforce
    note kept = pruned_relations [of m ret, unfolded loop, simplified]
    have r: "rel_sum ?r' = (if kept > 0 then 13 + slice_sum relation_sum (prune_relations ret m) else 0)"
      using kept(1) by (simp add: rel_sum_def m)
    have "size_after_pruning nd (node_size nd) ret =
      (if kept > 0 then add_json_size (node_rest nd + child_sum ?c') (member_size ''relations'' sz) else node_rest nd + child_sum ?c')"
      unfolding size_after_pruning_def Let_def
      using False 1 [unfolded Let_def] loop relations by (simp add: m)
    moreover have "kept > 0 \<Longrightarrow> add_json_size (node_rest nd + child_sum ?c') (member_size ''relations'' sz) = node_rest nd + child_sum ?c' + rel_sum ?r'"
    proof -
      assume "kept > 0"
      then have e: "eqs (member_size ''relations'' sz) (rel_sum ?r')"
        using eqs_member [OF kept(2), of "''relations''"] r by simp
      have "eqs (add_json_size (node_rest nd + child_sum ?c') (member_size ''relations'' sz)) (node_rest nd + child_sum ?c' + rel_sum ?r')"
        by (rule eqs_addI [OF eqs_refl e refl]) (use nn in linarith)
      then show ?thesis by (rule eqs_less) (use size le assms in linarith)
    qed
    ultimately show ?thesis using pruned r by auto
  qed
qed

end
