(* ===== verification/AccFit.thy ===== *)
theory AccFit
  imports AccPrune
begin

text \<open>
  The response budget, from the parts: every response fits as JSON, the prefix estimates are the
  sizes of the projected snapshots, and the prefix kept is the longest one that fits.
\<close>

section \<open>What is assumed of a snapshot\<close>

text \<open>
  A traversal records a relation only with its first target, and its root is its first node. The
  sizes of a snapshot in memory do not saturate.
\<close>

definition filled :: "acc_node \<Rightarrow> bool" where
  "filled nd \<longleftrightarrow> (\<forall>(relation, targets) \<in> set (elems (nd_relations nd)). targets \<noteq> Some [])"

definition traversed :: "snapshot \<Rightarrow> bool" where
  "traversed s \<longleftrightarrow> elems (sn_nodes s) \<noteq> [] \<and> list_all filled (elems (sn_nodes s))"

definition projected :: "snapshot \<Rightarrow> node_id \<Rightarrow> nat \<Rightarrow> snapshot" where
  "projected s original k =
     (if k = 0 then s\<lparr>sn_nodes := None, sn_root := bare_node original\<rparr>
      else prune_references (root_to_first (s\<lparr>sn_nodes := Some (take k (elems (sn_nodes s)))\<rparr>)))"

lemma clone_filled: "filled nd \<Longrightarrow> clone_node nd = nd"
proof -
  assume "filled nd"
  then have "map_option (map (\<lambda>(r, t). (r, if elems t = [] then None else t))) (nd_relations nd) = nd_relations nd"
    by (cases "nd_relations nd") (auto simp: filled_def intro!: map_idI split: prod.splits, (metis elems_simps(2) not_None_eq)?)
  then show ?thesis by (simp add: clone_node_def)
qed

lemma clone_nodes_filled: "list_all filled nds \<Longrightarrow> nds \<noteq> [] \<Longrightarrow> clone_nodes nds = Some nds"
  by (auto simp: clone_nodes_def list_all_iff clone_filled intro: map_idI)

section \<open>Sums over nodes\<close>

lemma node_size_nonneg [simp]: "0 \<le> node_size nd"
  using eqs_node eqs_nonneg by blast

lemma eqs_fold: "eqs n y \<Longrightarrow> \<forall>x \<in> set xs. 0 \<le> x \<Longrightarrow> eqs (fold (\<lambda>x n. add_json_size n x) xs n) (y + sum_list xs)"
proof (induction xs arbitrary: n y)
  case (Cons x xs)
  then have "eqs (add_json_size n x) (y + x)" by (auto intro: eqs_addI eqs_refl)
  from Cons.IH [OF this] Cons.prems show ?case by (simp add: add.assoc)
qed simp

lemma nodes_size_fold: "nodes_size nds = fold (\<lambda>x n. add_json_size n x) (map node_size nds) 0"
  by (simp add: nodes_size_def fold_map comp_def)

lemma eqs_nodes: "eqs (nodes_size nds) (\<Sum>nd\<leftarrow>nds. node_size nd)"
  using eqs_fold [OF eqs_refl [of 0], of "map node_size nds"] by (simp add: nodes_size_fold)

lemma prefix_sizes_nth: "k \<le> length xs \<Longrightarrow> prefix_sizes acc xs ! k = fold (\<lambda>x n. add_json_size n x) (take k xs) acc"
  by (induction acc xs arbitrary: k rule: prefix_sizes.induct) (auto simp: nth_Cons take_Cons split: nat.split)

lemma base_nonneg [simp]: "0 \<le> snapshot_base_size s"
  using covers_base [of "[]" s] by (simp add: covers_def)

lemma base_nodes [simp]:
  "snapshot_base_size (s\<lparr>sn_nodes := nds\<rparr>) = snapshot_base_size s"
  "snapshot_base_size (s\<lparr>sn_root := nd\<rparr>) = snapshot_base_size s"
  by (simp_all add: snapshot_base_size_def Let_def)

lemma base_root_to_first [simp]: "snapshot_base_size (root_to_first s) = snapshot_base_size s"
  by (simp add: root_to_first_def split: list.split)

lemma eqs_from_base:
  assumes "eqs n y" "0 \<le> b" "0 \<le> r"
  shows "eqs (size_from_base b r n c nil) (b + r + (if nil then 4 else if c = 0 then 2 else 1 + int c + y))"
proof -
  have br: "eqs (add_json_size b r) (b + r)" by (rule eqs_addI [OF eqs_refl eqs_refl refl]) (rule assms)+
  show ?thesis
    using eqs_addI [OF br eqs_refl [of 4]] eqs_addI [OF br eqs_refl [of 2]]
      eqs_addI [OF eqs_addI [OF eqs_addI [OF br eqs_refl [of 2] refl] eqs_refl [of "int c - 1"] refl] assms(1)]
    by (auto simp: size_from_base_def algebra_simps)
qed

lemma eqs_snapshot:
  assumes "sn_nodes s = Some nds" "nds \<noteq> []"
  shows "eqs (snapshot_size s) (snapshot_base_size s + node_size (sn_root s) + (1 + int (length nds) + (\<Sum>nd\<leftarrow>nds. node_size nd)))"
  using eqs_from_base [OF eqs_nodes [of nds], of "snapshot_base_size s" "node_size (sn_root s)" "length nds" False] assms
  by (simp add: snapshot_size_def size_from_parts_def)

lemma eqs_empty_snapshot:
  "sn_nodes s = None \<Longrightarrow> eqs (snapshot_size s) (snapshot_base_size s + node_size (sn_root s) + 4)"
  using eqs_from_base [OF eqs_refl [of 0], of "snapshot_base_size s" "node_size (sn_root s)" 0 True]
  by (simp add: snapshot_size_def size_from_parts_def nodes_size_def)

section \<open>Pruning by growing prefixes\<close>

lemma prune_children_prune: "set ret \<subseteq> set ret' \<Longrightarrow> prune_children ret (prune_children ret' s) = prune_children ret s"
  by (cases s) (auto simp: prune_children_def intro: filter_cong)

lemma prune_relations_prune:
  assumes "set ret \<subseteq> set ret'"
  shows "prune_relations ret (prune_relations ret' m) = prune_relations ret m"
proof (induction m)
  case (Cons r m)
  obtain k t where r: "r = (k, t)" by (cases r)
  have f: "filter (\<lambda>c. c \<in> set ret' \<and> c \<in> set ret) xs = filter (\<lambda>c. c \<in> set ret) xs" for xs
    using assms by (auto intro: filter_cong)
  have "filter (\<lambda>c. c \<in> set ret') xs = [] \<Longrightarrow> filter (\<lambda>c. c \<in> set ret) xs = []" for xs
    using f [of xs] by (simp flip: filter_filter)
  with Cons.IH show ?case
    by (simp add: r prune_relations_Cons prune_children_prune [OF assms] f)
qed (simp add: prune_relations_def)

lemma prune_prune: "set ret \<subseteq> set ret' \<Longrightarrow> prune_node ret (prune_node ret' nd) = prune_node ret nd"
  by (cases "nd_relations nd") (simp_all add: prune_node_def prune_children_prune prune_relations_prune)

lemma prune_size_mono:
  assumes "set ret \<subseteq> set ret'" "node_size nd < max_int"
  shows "node_size (prune_node ret nd) \<le> node_size (prune_node ret' nd)"
proof -
  have "node_size (prune_node ret' nd) < max_int"
    using size_after_pruning_exact(3) [OF assms(2), of ret'] assms(2) by simp
  from size_after_pruning_exact(3) [OF this, of ret] show ?thesis by (simp add: prune_prune [OF assms(1)])
qed

lemma prune_nothing: "elems (nd_children nd) = [] \<Longrightarrow> elems (nd_relations nd) = [] \<Longrightarrow> prune_node ret nd = nd"
proof -
  assume a: "elems (nd_children nd) = []" "elems (nd_relations nd) = []"
  then have "prune_children ret (nd_children nd) = nd_children nd"
    "map_option (prune_relations ret) (nd_relations nd) = nd_relations nd"
    by (cases "nd_children nd"; simp add: prune_children_def) (use a in \<open>cases "nd_relations nd"; simp add: prune_relations_def\<close>)
  then show ?thesis by (simp add: prune_node_def)
qed

lemma prefix_loop_sum:
  assumes "0 \<le> a" "a + (\<Sum>nd\<leftarrow>nds. node_size nd) < max_int"
  shows "prefix_loop ret (map (\<lambda>nd. (nd, node_size nd)) nds) (a + (\<Sum>nd\<leftarrow>nds. node_size nd)) =
    a + (\<Sum>nd\<leftarrow>nds. node_size (prune_node ret nd))"
  using assms
proof (induction nds arbitrary: a)
  case (Cons nd nds)
  have nn: "0 \<le> (\<Sum>nd\<leftarrow>nds. node_size nd)" by (intro sum_list_nonneg) auto
  have nd: "node_size nd < max_int" using Cons.prems nn by simp
  note size_after_pruning_exact [OF nd, of ret]
  note p = this(1,3)
  show ?case
  proof (cases "elems (nd_children nd) = [] \<and> elems (nd_relations nd) = []")
    case True
    then have "prune_node ret nd = nd" by (simp add: prune_nothing)
    with True Cons.IH [of "a + node_size nd"] Cons.prems show ?thesis by (simp add: add.assoc)
  next
    case False
    have "eqs (add_json_size (a + (\<Sum>nd\<leftarrow>nds. node_size nd)) (node_size (prune_node ret nd)))
       (a + (\<Sum>nd\<leftarrow>nds. node_size nd) + node_size (prune_node ret nd))"
      by (rule eqs_addI [OF eqs_refl eqs_refl refl]) (use Cons.prems nn in simp_all)
    from eqs_less [OF this] p Cons.prems
    have "add_json_size (a + (\<Sum>nd\<leftarrow>nds. node_size nd)) (node_size (prune_node ret nd)) =
       a + node_size (prune_node ret nd) + (\<Sum>nd\<leftarrow>nds. node_size nd)" by simp
    with False p Cons.IH [of "a + node_size (prune_node ret nd)"] Cons.prems
    show ?thesis by (cases "elems (nd_children nd) = []") (simp_all add: algebra_simps)
  qed
qed simp

section \<open>Projected snapshots\<close>

lemma projected_zero:
  "sn_nodes (projected s i 0) = None" "sn_root (projected s i 0) = bare_node i"
  "snapshot_base_size (projected s i 0) = snapshot_base_size s"
  by (simp_all add: projected_def)

lemma projected_nodes:
  assumes "k > 0" "elems (sn_nodes s) \<noteq> []"
  defines "ret \<equiv> map nd_id (take k (elems (sn_nodes s)))"
  shows "sn_nodes (projected s i k) = Some (map (prune_node ret) (take k (elems (sn_nodes s))))"
    "sn_root (projected s i k) = prune_node ret (elems (sn_nodes s) ! 0)"
    "snapshot_base_size (projected s i k) = snapshot_base_size s"
proof -
  obtain nd nds where n: "elems (sn_nodes s) = nd # nds" using assms(2) by (cases "elems (sn_nodes s)") auto
  obtain j where k: "k = Suc j" using assms(1) by (cases k) auto
  have b: "snapshot_base_size (prune_references (root_to_first (s\<lparr>sn_nodes := Some (nd # take j nds)\<rparr>))) = snapshot_base_size s"
    by (simp add: prune_references_def prune_with_retained_def root_to_first_def)
  show "sn_nodes (projected s i k) = Some (map (prune_node ret) (take k (elems (sn_nodes s))))"
    "sn_root (projected s i k) = prune_node ret (elems (sn_nodes s) ! 0)"
    "snapshot_base_size (projected s i k) = snapshot_base_size s"
    using b by (simp_all add: projected_def prune_references_def prune_with_retained_def root_to_first_def n k ret_def)
qed

lemma sum_take_less:
  assumes "traversed s" "sn_root s = elems (sn_nodes s) ! 0" "snapshot_size s < max_int"
  shows "snapshot_base_size s + node_size (elems (sn_nodes s) ! 0) + 1 + int (length (elems (sn_nodes s))) +
      (\<Sum>nd\<leftarrow>elems (sn_nodes s). node_size nd) = snapshot_size s"
    "k \<le> length (elems (sn_nodes s)) \<Longrightarrow> 0 \<le> (\<Sum>nd\<leftarrow>take k (elems (sn_nodes s)). node_size nd) \<and>
      (\<Sum>nd\<leftarrow>take k (elems (sn_nodes s)). node_size nd) \<le> (\<Sum>nd\<leftarrow>elems (sn_nodes s). node_size nd)"
    "nd \<in> set (elems (sn_nodes s)) \<Longrightarrow> node_size nd < max_int"
proof -
  let ?N = "elems (sn_nodes s)"
  obtain nds where N: "sn_nodes s = Some nds" "nds \<noteq> []" using assms(1) by (cases "sn_nodes s") (auto simp: traversed_def)
  show total: "snapshot_base_size s + node_size (?N ! 0) + 1 + int (length ?N) + (\<Sum>nd\<leftarrow>?N. node_size nd) = snapshot_size s"
    using eqs_less [OF eqs_snapshot [OF N]] assms(2,3) N by simp
  have nn: "0 \<le> (\<Sum>nd\<leftarrow>xs. node_size nd)" for xs by (intro sum_list_nonneg) auto
  have split: "(\<Sum>nd\<leftarrow>?N. node_size nd) = (\<Sum>nd\<leftarrow>take k ?N. node_size nd) + (\<Sum>nd\<leftarrow>drop k ?N. node_size nd)" for k
    by (metis append_take_drop_id map_append sum_list_append)
  show "k \<le> length ?N \<Longrightarrow> 0 \<le> (\<Sum>nd\<leftarrow>take k ?N. node_size nd) \<and> (\<Sum>nd\<leftarrow>take k ?N. node_size nd) \<le> (\<Sum>nd\<leftarrow>?N. node_size nd)"
    using split [of k] nn [of "take k ?N"] nn [of "drop k ?N"] by linarith
  assume "nd \<in> set ?N"
  then have "node_size nd \<le> (\<Sum>nd\<leftarrow>?N. node_size nd)"
    by (intro member_le_sum_list) auto
  then show "node_size nd < max_int"
    using total assms(3) base_nonneg [of s] node_size_nonneg [of "?N ! 0"] by linarith
qed

lemma sum_prune_le:
  assumes "\<And>nd. nd \<in> set nds \<Longrightarrow> node_size nd < max_int"
  shows "(\<Sum>nd\<leftarrow>nds. node_size (prune_node ret nd)) \<le> (\<Sum>nd\<leftarrow>nds. node_size nd)"
  using assms by (intro sum_list_mono size_after_pruning_exact(3)) auto

text \<open>The sizes of the projections, as sums.\<close>

lemma projected_size:
  assumes "traversed s" "sn_root s = elems (sn_nodes s) ! 0" "snapshot_size s < max_int"
    "0 < k" "k \<le> length (elems (sn_nodes s))"
  defines "N \<equiv> elems (sn_nodes s)"
  defines "ret \<equiv> map nd_id (take k N)"
  shows "snapshot_size (projected s i k) = snapshot_base_size s + node_size (prune_node ret (N ! 0)) + 1 + int k +
      (\<Sum>nd\<leftarrow>take k N. node_size (prune_node ret nd))"
    "snapshot_size (projected s i k) < max_int"
proof -
  note less = sum_take_less [OF assms(1-3), folded N_def]
  have ne: "N \<noteq> []" using assms(1) by (simp add: traversed_def N_def)
  note p = projected_nodes [OF assms(4) ne [unfolded N_def], folded N_def, folded ret_def]
  have "take k N \<noteq> []" using ne assms(4) by simp
  let ?x = "snapshot_base_size s + node_size (prune_node ret (N ! 0)) +
      (1 + int k + (\<Sum>nd\<leftarrow>take k N. node_size (prune_node ret nd)))"
  have eq: "eqs (snapshot_size (projected s i k)) ?x"
    using eqs_snapshot [OF p(1)] \<open>take k N \<noteq> []\<close> assms(5) by (simp add: p(2,3) comp_def N_def)
  have "(\<Sum>nd\<leftarrow>take k N. node_size (prune_node ret nd)) \<le> (\<Sum>nd\<leftarrow>take k N. node_size nd)"
    by (rule sum_prune_le) (meson in_set_takeD less(3))
  moreover have "node_size (prune_node ret (N ! 0)) \<le> node_size (N ! 0)"
    by (rule size_after_pruning_exact(3) [OF less(3)]) (use ne in simp)
  ultimately have "?x < max_int"
    using less(1) less(2) [of k] assms(3,5) unfolding N_def by linarith
  with eqs_less [OF eq] have "snapshot_size (projected s i k) = ?x" "?x < max_int" by auto
  then show "snapshot_size (projected s i k) = snapshot_base_size s + node_size (prune_node ret (N ! 0)) + 1 + int k +
      (\<Sum>nd\<leftarrow>take k N. node_size (prune_node ret nd))" "snapshot_size (projected s i k) < max_int"
    by linarith+
qed

lemma node_parts_sizes:
  assumes "node_size nd < max_int"
  shows "size_after_pruning nd (node_size nd) ret = node_size (prune_node ret nd)"
  by (rule size_after_pruning_exact(1) [OF assms])

lemma prefix_estimate_fact:
  assumes "traversed s" "sn_root s = elems (sn_nodes s) ! 0" "snapshot_size s < max_int" "k \<le> length (elems (sn_nodes s))"
  shows "size_for_prefix s k (fst (node_size_index (elems (sn_nodes s)))) (snd (node_size_index (elems (sn_nodes s))))
      (snapshot_base_size s) (map nd_id (take k (elems (sn_nodes s)))) i = snapshot_size (projected s i k)"
proof (cases "k = 0")
  case True
  then show ?thesis
    using projected_zero [of s i]
    by (simp add: size_for_prefix_def snapshot_size_def size_from_parts_def size_from_base_def Let_def)
next
  case False
  let ?N = "elems (sn_nodes s)" and ?ret = "map nd_id (take k (elems (sn_nodes s)))"
  note less = sum_take_less [OF assms(1-3)]
  have ne: "?N \<noteq> []" using assms(1) by (simp add: traversed_def)
  have pre: "(\<Sum>nd\<leftarrow>take k ?N. node_size nd) < max_int"
    using less(1) less(2) [OF assms(4)] assms(3) base_nonneg [of s] node_size_nonneg [of "?N ! 0"] by linarith
  have "snd (node_size_index ?N) ! k = nodes_size (take k ?N)"
    using prefix_sizes_nth [of k "map node_size ?N" 0] assms(4)
    by (simp add: node_size_index_def nodes_size_fold take_map)
  also have "\<dots> = 0 + (\<Sum>nd\<leftarrow>take k ?N. node_size nd)"
    using eqs_less [OF eqs_nodes [of "take k ?N"]] pre by simp
  finally have total: "prefix_loop ?ret (take k (zip ?N (map node_size ?N))) (snd (node_size_index ?N) ! k) =
      (\<Sum>nd\<leftarrow>take k ?N. node_size (prune_node ?ret nd))"
    using prefix_loop_sum [of 0 "take k ?N" ?ret] pre
    by (simp add: zip_map2 zip_same_conv_map take_map comp_def)
  have root: "size_after_pruning (?N ! 0) (map node_size ?N ! 0) ?ret = node_size (prune_node ?ret (?N ! 0))"
    using node_parts_sizes [OF less(3)] ne by simp
  let ?X = "\<Sum>nd\<leftarrow>take k ?N. node_size (prune_node ?ret nd)"
  have "0 \<le> ?X" by (intro sum_list_nonneg) auto
  from eqs_from_base [OF eqs_refl [OF this], of "snapshot_base_size s" "node_size (prune_node ?ret (?N ! 0))" k False]
  have "size_from_base (snapshot_base_size s) (node_size (prune_node ?ret (?N ! 0))) ?X k False = snapshot_size (projected s i k)"
    using eqs_less projected_size [OF assms(1-3) _ assms(4), of i] False by (simp add: algebra_simps)
  then show ?thesis using False total root
    by (simp add: size_for_prefix_def Let_def node_size_index_def)
qed

text \<open>
  C18. The size the search computes for a prefix is the size of the snapshot it would return: for
  every count, the estimate by subtraction from the sizes of the whole nodes equals the size of the
  snapshot whose nodes are that prefix, with every reference out of it removed.
\<close>

theorem prefix_estimate_exact:
  assumes "traversed s" "sn_root s = elems (sn_nodes s) ! 0" "snapshot_size s < max_int" "k \<le> length (elems (sn_nodes s))"
  shows "size_for_prefix s k (fst (node_size_index (elems (sn_nodes s)))) (snd (node_size_index (elems (sn_nodes s))))
      (snapshot_base_size s) (map nd_id (take k (elems (sn_nodes s)))) i = snapshot_size (projected s i k)"
  by (rule prefix_estimate_fact [OF assms])

end
