(* ===== verification/AccLongest.thy ===== *)
theory AccLongest
  imports AccFit
begin

text \<open>
  The prefix a response keeps is the longest that fits: the projections grow with the count, the
  bound of the search excludes no prefix that fits, and the binary search finds the last one. Every
  response within the budget is within it as JSON.
\<close>

section \<open>The binary search\<close>

lemma search_prefix_last:
  assumes "\<forall>i j. i \<le> j \<and> j \<le> h \<and> fits j \<longrightarrow> fits i"
    "0 \<le> low" "low \<le> high + 1" "high \<le> int h" "best = low - 1" "0 \<le> best \<Longrightarrow> fits (nat best)"
    "\<forall>k. high < int k \<and> k \<le> h \<longrightarrow> \<not> fits k"
  shows "- 1 \<le> search_prefix fits low high best \<and> search_prefix fits low high best \<le> int h \<and>
    (0 \<le> search_prefix fits low high best \<longrightarrow> fits (nat (search_prefix fits low high best))) \<and>
    (\<forall>k \<le> h. search_prefix fits low high best < int k \<longrightarrow> \<not> fits k)"
  using assms
proof (induction fits low high best rule: search_prefix.induct)
  case (1 fits low high best)
  show ?case
  proof (cases "low \<le> high")
    case False
    then show ?thesis using 1(4-9) by (subst (1 2 3 4 5) search_prefix.simps) auto
  next
    case True
    let ?m = "low + go_div (high - low) 2"
    have m: "low \<le> ?m" "?m \<le> high" using True by (auto simp: go_div_pos)
    show ?thesis
    proof (cases "fits (nat ?m)")
      case fit: True
      have "search_prefix fits low high best = search_prefix fits (?m + 1) high ?m"
        using True fit by (subst search_prefix.simps) (simp add: Let_def)
      moreover have "- 1 \<le> search_prefix fits (?m + 1) high ?m \<and> search_prefix fits (?m + 1) high ?m \<le> int h \<and>
        (0 \<le> search_prefix fits (?m + 1) high ?m \<longrightarrow> fits (nat (search_prefix fits (?m + 1) high ?m))) \<and>
        (\<forall>k \<le> h. search_prefix fits (?m + 1) high ?m < int k \<longrightarrow> \<not> fits k)"
        by (rule 1(1) [OF True refl fit]) (use 1(3-9) m fit in auto)
      ultimately show ?thesis by simp
    next
      case nofit: False
      have "search_prefix fits low high best = search_prefix fits low (?m - 1) best"
        using True nofit by (subst search_prefix.simps) (simp add: Let_def)
      moreover have "- 1 \<le> search_prefix fits low (?m - 1) best \<and> search_prefix fits low (?m - 1) best \<le> int h \<and>
        (0 \<le> search_prefix fits low (?m - 1) best \<longrightarrow> fits (nat (search_prefix fits low (?m - 1) best))) \<and>
        (\<forall>k \<le> h. search_prefix fits low (?m - 1) best < int k \<longrightarrow> \<not> fits k)"
      proof (rule 1(2) [OF True refl nofit 1(3) 1(4)])
        show "\<forall>k. ?m - 1 < int k \<and> k \<le> h \<longrightarrow> \<not> fits k"
        proof (intro allI impI)
          fix k assume k: "?m - 1 < int k \<and> k \<le> h"
          then have "nat ?m \<le> k" using m 1(4) by linarith
          then show "\<not> fits k" using 1(3) k nofit by blast
        qed
      qed (use 1(4-9) m in auto)
      ultimately show ?thesis by simp
    qed
  qed
qed

section \<open>The bound of the search\<close>

lemma potential_loop_stops:
  defines "low \<equiv> \<lambda>(nd, sz). size_after_pruning nd sz []"
  shows "i \<le> potential_loop base m rest i root acc \<and> potential_loop base m rest i root acc \<le> i + length rest \<and>
    (potential_loop base m rest i root acc < i + length rest \<longrightarrow>
      size_from_base base (if i = 0 then low (rest ! 0) else root)
        (fold (\<lambda>x n. add_json_size n x) (map low (take (Suc (potential_loop base m rest i root acc) - i) rest)) acc)
        (Suc (potential_loop base m rest i root acc)) False > m)"
proof (induction base m rest i root acc rule: potential_loop.induct)
  case (2 base m nd sz nds i root n)
  let ?min = "size_after_pruning nd sz []" and ?root = "if i = 0 then size_after_pruning nd sz [] else root"
  let ?n = "add_json_size n ?min"
  let ?r = "potential_loop base m nds (Suc i) ?root ?n"
  show ?case
  proof (cases "size_from_base base ?root ?n (Suc i) False > m")
    case True
    then show ?thesis by (cases "i = 0") (simp_all add: Let_def low_def)
  next
    case False
    then have r: "potential_loop base m ((nd, sz) # nds) i root n = ?r" by (simp add: Let_def)
    have ih: "Suc i \<le> ?r \<and> ?r \<le> Suc i + length nds \<and>
      (?r < Suc i + length nds \<longrightarrow>
        size_from_base base ?root (fold (\<lambda>x n. add_json_size n x) (map low (take (Suc ?r - Suc i) nds)) ?n) (Suc ?r) False > m)"
      using 2 [OF refl refl refl] False by simp
    obtain R where R: "?r = R" by blast
    obtain d where d: "R = Suc i + d" using ih unfolding R by (metis le_iff_add)
    show ?thesis
      unfolding r R using ih unfolding R by (cases "i = 0") (simp_all add: d low_def)
  qed
qed simp

section \<open>The longest prefix\<close>

lemma bare_node_exact:
  assumes "node_id_size i < max_int - 203"
  shows "node_size (bare_node i) = 203 + node_id_size i"
proof -
  have z: "decimal_size 0 = 1" by (simp add: decimal_size_def show_int_def show_nat.simps)
  have j: "json_string_size [] = 2" by (simp add: json_string_size_def json_string_loop.simps)
  have no: "node_id_size no_id = 45"
    by (simp add: node_id_size_def no_id_def z j add_json_size_def max_int_def)
  have "node_strings_size (bare_node i) = node_id_size i + 45"
    using assms by (simp add: node_strings_size_def bare_node_def string_field_size_def no add_json_size_def)
  then have "node_rest (bare_node i) = 203 + node_id_size i"
    by (simp add: node_rest_def bare_node_def node_scalars_size_def node_info_size_def part_def z)
  then show ?thesis
    using eqs_less [OF eqs_node [of "bare_node i"]] assms by (simp add: bare_node_def child_sum_def rel_sum_def)
qed

lemma bare_node_size:
  assumes "node_size nd < max_int"
  shows "node_size (bare_node (nd_id nd)) \<le> node_size (prune_node [] nd)"
proof -
  note p = size_after_pruning_exact [OF assms, of "[]"]
  note bare = bare_node_exact [of "nd_id nd"]
  have strings: "eqs (node_strings_size nd)
    (0 + string_field_size ''name'' (nd_name nd) + string_field_size ''description'' (nd_description nd) +
     string_field_size ''role'' (nd_role nd) + string_field_size ''text'' (nd_text nd) + node_id_size (nd_id nd) +
     node_id_size (nd_parent nd))"
    unfolding node_strings_size_def fold.simps comp_apply id_apply
    by (rule eqs_addI [OF eqs_addI [OF eqs_addI [OF eqs_addI [OF eqs_addI [OF eqs_addI [OF eqs_refl [of 0] eqs_refl refl]
        eqs_refl refl] eqs_refl refl] eqs_refl refl] eqs_refl refl] eqs_refl refl])
      (simp_all add: string_field_size_def member_size_def)
  have nn: "0 \<le> string_field_size k v" for k v by (simp add: string_field_size_def member_size_def)
  have rest: "node_rest nd \<le> node_size (prune_node [] nd)"
    using p(2) child_rel_nonneg(1) [of "prune_children [] (nd_children nd)"]
      child_rel_nonneg(2) [of "map_option (prune_relations []) (nd_relations nd)"] by linarith
  have ge: "158 + node_strings_size nd \<le> node_rest nd"
    unfolding node_rest_def
    using part_nonneg(1) [of "''interfaces''" "nd_interfaces nd"] part_nonneg(1) [of "''states''" "nd_states nd"]
      part_nonneg(1) [of "''warnings''" "nd_warnings nd"] part_nonneg(2) [of "''attributes''" "nd_attributes nd"]
      part_nonneg(3) [of "''actions''" "nd_actions nd"] parts_nonneg [of nd] by linarith
  have small: "node_strings_size nd < max_int" using ge rest p(3) assms by linarith
  have "node_id_size (nd_id nd) + 45 \<le> node_strings_size nd"
    using eqs_less [OF strings disjI1 [OF small]] nn [of "''name''" "nd_name nd"] nn [of "''description''" "nd_description nd"]
      nn [of "''role''" "nd_role nd"] nn [of "''text''" "nd_text nd"] node_id_size_ge [of "nd_parent nd"] by linarith
  then show ?thesis using bare ge rest p(3) assms by linarith
qed

lemma projected_grows:
  assumes "traversed s" "sn_root s = elems (sn_nodes s) ! 0" "snapshot_size s < max_int"
    "j \<le> k" "k \<le> length (elems (sn_nodes s))"
  defines "i \<equiv> nd_id (elems (sn_nodes s) ! 0)"
  shows "snapshot_size (projected s i j) \<le> snapshot_size (projected s i k)"
proof -
  let ?N = "elems (sn_nodes s)"
  let ?ret = "\<lambda>k. map nd_id (take k ?N)"
  let ?S = "\<lambda>k l. \<Sum>nd\<leftarrow>take l ?N. node_size (prune_node (?ret k) nd)"
  note less = sum_take_less(3) [OF assms(1-3)]
  have ne: "?N \<noteq> []" using assms(1) by (simp add: traversed_def)
  then have first: "?N ! 0 \<in> set ?N" by simp
  have nn: "0 \<le> (\<Sum>nd\<leftarrow>xs. node_size (prune_node r nd))" for r xs by (intro sum_list_nonneg) auto
  show ?thesis
  proof (cases "j = 0 \<or> k = 0")
    case True
    show ?thesis
    proof (cases "k = 0")
      case False
      with True have j: "j = 0" by simp
      obtain l where l: "k = Suc l" using False by (cases k) auto
      obtain nd nds where N: "?N = nd # nds" using ne by (cases ?N) auto
      have "node_size (bare_node i) \<le> node_size (prune_node [] (?N ! 0))" unfolding i_def by (rule bare_node_size [OF less [OF first]])
      also have "\<dots> \<le> node_size (prune_node (?ret k) (?N ! 0))" by (rule prune_size_mono [OF _ less [OF first]]) simp
      finally have b: "node_size (bare_node i) \<le> node_size (prune_node (?ret k) (?N ! 0))" .
      have "4 \<le> ?S k k"
      proof -
        have "158 \<le> node_size (prune_node (?ret k) nd)"
          using size_after_pruning_exact(2) [of nd "?ret k"] less [of nd] N node_rest_nonneg [of nd]
            child_rel_nonneg(1) [of "prune_children (?ret k) (nd_children nd)"]
            child_rel_nonneg(2) [of "map_option (prune_relations (?ret k)) (nd_relations nd)"] by simp
        then show ?thesis using nn [of "?ret k" "take l nds"] by (simp add: N l)
      qed
      with b projected_size [OF assms(1-3) _ assms(5), of i] False
      have "snapshot_base_size s + node_size (bare_node i) + 4 \<le> snapshot_size (projected s i k)" "snapshot_size (projected s i k) < max_int"
        by auto
      with eqs_less [OF eqs_empty_snapshot [OF projected_zero(1) [of s i]]] show ?thesis
        by (simp add: j projected_zero)
    qed (use assms(4) in simp)
  next
    case False
    then have jk: "0 < j" "0 < k" by simp_all
    have sub: "set (?ret j) \<subseteq> set (?ret k)" using assms(4) set_take_subset_set_take [OF assms(4), of ?N] by auto
    have "?S j j \<le> ?S k j"
      by (rule sum_list_mono) (auto dest!: in_set_takeD intro!: prune_size_mono [OF sub] less)
    also have "\<dots> \<le> ?S k k"
    proof -
      have "take k ?N = take j ?N @ take (k - j) (drop j ?N)" using assms(4) by (metis le_add_diff_inverse take_add)
      then show ?thesis using nn [of "?ret k" "take (k - j) (drop j ?N)"] by simp
    qed
    finally show ?thesis
      using projected_size(1) [OF assms(1-3) jk(1), of i] projected_size(1) [OF assms(1-3) jk(2) assms(5), of i] assms(4,5)
        prune_size_mono [OF sub less [OF first]] by simp
  qed
qed

lemma potential_excludes:
  fixes m :: int
  assumes "traversed s" "sn_root s = elems (sn_nodes s) ! 0" "snapshot_size s < max_int"
  defines "N \<equiv> elems (sn_nodes s)"
  defines "i \<equiv> nd_id (N ! 0)"
  defines "h \<equiv> maximum_potential_prefix s (map node_size N) (snapshot_base_size s) m i"
  shows "h \<le> length N" "h < j \<Longrightarrow> j \<le> length N \<Longrightarrow> m < snapshot_size (projected s i j)"
proof -
  let ?low = "\<lambda>(nd, sz). size_after_pruning nd sz []"
  note less = sum_take_less(3) [OF assms(1-3), folded N_def]
  note stop = potential_loop_stops [of 0 "snapshot_base_size s" m "zip N (map node_size N)" "node_size (bare_node i)" 0,
    folded maximum_potential_prefix_def [of s "map node_size N" "snapshot_base_size s" m i, folded N_def], folded h_def, simplified]
  show "h \<le> length N" using stop by simp
  assume j: "h < j" "j \<le> length N"
  let ?k = "Suc h" and ?p = "\<lambda>nd. node_size (prune_node [] nd)"
  have k: "?k \<le> length N" using j by simp
  have ne: "N \<noteq> []" using k by auto
  have low: "map ?low (take ?k (zip N (map node_size N))) = map ?p (take ?k N)"
  proof -
    have "take ?k (zip N (map node_size N)) = map (\<lambda>nd. (nd, node_size nd)) (take ?k N)"
      by (simp add: zip_map2 zip_same_conv_map take_map comp_def)
    moreover have "size_after_pruning nd (node_size nd) [] = ?p nd" if "nd \<in> set (take ?k N)" for nd
      using that by (intro size_after_pruning_exact(1) less) (rule in_set_takeD)
    ultimately show ?thesis by simp
  qed
  have low0: "?low (zip N (map node_size N) ! 0) = ?p (N ! 0)"
    using ne by (simp add: size_after_pruning_exact(1) less)
  let ?d = "size_from_base (snapshot_base_size s) (?p (N ! 0)) (fold (\<lambda>x n. add_json_size n x) (map ?p (take ?k N)) 0) ?k False"
  let ?x = "snapshot_base_size s + ?p (N ! 0) + (1 + int ?k + (\<Sum>nd\<leftarrow>take ?k N. ?p nd))"
  have "eqs (fold (\<lambda>x n. add_json_size n x) (map ?p (take ?k N)) 0) (\<Sum>nd\<leftarrow>take ?k N. ?p nd)"
    using eqs_fold [OF eqs_refl [of 0], of "map ?p (take ?k N)"] by simp
  from eqs_from_base [OF this, of "snapshot_base_size s" "?p (N ! 0)" ?k False]
  have eq: "eqs ?d ?x" by simp
  let ?ret = "map nd_id (take ?k N)"
  have "(\<Sum>nd\<leftarrow>take ?k N. ?p nd) \<le> (\<Sum>nd\<leftarrow>take ?k N. node_size (prune_node ?ret nd))"
    by (rule sum_list_mono) (auto dest!: in_set_takeD intro!: prune_size_mono less)
  moreover have "?p (N ! 0) \<le> node_size (prune_node ?ret (N ! 0))"
    using ne by (intro prune_size_mono less) auto
  ultimately have "?x \<le> snapshot_size (projected s i ?k)" "snapshot_size (projected s i ?k) < max_int"
    using projected_size [OF assms(1-3) zero_less_Suc k [unfolded N_def], of i, folded N_def] by linarith+
  with eqs_less [OF eq] have "?d \<le> snapshot_size (projected s i ?k)" by simp
  moreover have "m < ?d" using stop k low low0 by (simp add: Let_def)
  moreover have "snapshot_size (projected s i ?k) \<le> snapshot_size (projected s i j)"
    unfolding i_def N_def by (rule projected_grows [OF assms(1-3)]) (use j in \<open>simp_all add: N_def\<close>)
  ultimately show "m < snapshot_size (projected s i j)" by linarith
qed

lemma project_prefix_eq:
  fixes sizes sums :: "int list" and base m :: int and i :: node_id
  assumes "traversed s"
  defines "N \<equiv> elems (sn_nodes s)"
  defines "best \<equiv> search_prefix (\<lambda>k. size_for_prefix s k sizes sums base (map nd_id (take k N)) i \<le> m) 0
      (int (maximum_potential_prefix s sizes base m i)) (- 1)"
  shows "project_prefix s sizes sums base m i = projected s i (nat best)"
proof -
  have filled: "list_all filled (take k N)" "N \<noteq> []" for k
    using assms(1) by (auto simp: traversed_def N_def list_all_iff dest: in_set_takeD)
  show ?thesis
  proof (cases "best \<le> 0")
    case True
    then show ?thesis
      unfolding project_prefix_def Let_def N_def [symmetric] best_def [symmetric]
      by (auto simp: projected_def clone_nodes_def)
  next
    case False
    then have ne: "take (nat best) N \<noteq> []" using filled(2) by simp
    with False show ?thesis
      unfolding project_prefix_def Let_def N_def [symmetric] best_def [symmetric]
      by (simp add: projected_def clone_nodes_filled [OF filled(1) ne] prune_references_def root_to_first_def N_def [symmetric] split: list.split)
  qed
qed

text \<open>
  C10. The projection keeps the longest prefix of the nodes that fits: whatever the limit, the
  snapshot it builds is a prefix with the references out of it removed, every longer prefix is over
  the limit, and the one kept is within it unless not even the root handle alone fits.
\<close>

theorem longest_prefix_kept:
  assumes "traversed s" "sn_root s = elems (sn_nodes s) ! 0" "snapshot_size s < max_int"
  shows "\<exists>k \<le> length (elems (sn_nodes s)).
    project_prefix s (fst (node_size_index (elems (sn_nodes s)))) (snd (node_size_index (elems (sn_nodes s))))
      (snapshot_base_size s) m (nd_id (sn_root s)) = projected s (nd_id (sn_root s)) k \<and>
    (\<forall>j. k < j \<and> j \<le> length (elems (sn_nodes s)) \<longrightarrow> m < snapshot_size (projected s (nd_id (sn_root s)) j)) \<and>
    (snapshot_size (projected s (nd_id (sn_root s)) 0) \<le> m \<longrightarrow> snapshot_size (projected s (nd_id (sn_root s)) k) \<le> m)"
proof -
  let ?N = "elems (sn_nodes s)" and ?i = "nd_id (sn_root s)"
  let ?sizes = "fst (node_size_index ?N)" and ?sums = "snd (node_size_index ?N)"
  let ?h = "maximum_potential_prefix s ?sizes (snapshot_base_size s) m ?i"
  let ?C = "\<lambda>k. snapshot_size (projected s ?i k)"
  let ?fits = "\<lambda>k. size_for_prefix s k ?sizes ?sums (snapshot_base_size s) (map nd_id (take k ?N)) ?i \<le> m"
  let ?best = "search_prefix ?fits 0 (int ?h) (- 1)"
  have h: "?h \<le> length ?N" "\<And>j. ?h < j \<Longrightarrow> j \<le> length ?N \<Longrightarrow> m < ?C j"
    using potential_excludes [OF assms, of m] assms(2) by (simp_all add: node_size_index_def)
  have fits: "k \<le> length ?N \<Longrightarrow> ?fits k \<longleftrightarrow> ?C k \<le> m" for k
    using prefix_estimate_fact [OF assms, of k ?i] by simp
  have mono: "\<forall>i j. i \<le> j \<and> j \<le> ?h \<and> ?fits j \<longrightarrow> ?fits i"
  proof (intro allI impI)
    fix i j assume a: "i \<le> j \<and> j \<le> ?h \<and> ?fits j"
    then have j: "j \<le> length ?N" using h(1) by linarith
    have "?C i \<le> ?C j" using projected_grows [OF assms, of i j] a j assms(2) by simp
    then show "?fits i" using a fits [of j] fits [of i] j by simp
  qed
  have best: "- 1 \<le> ?best \<and> ?best \<le> int ?h \<and> (0 \<le> ?best \<longrightarrow> ?fits (nat ?best)) \<and> (\<forall>k \<le> ?h. ?best < int k \<longrightarrow> \<not> ?fits k)"
    by (rule search_prefix_last [OF mono]) auto
  have le: "nat ?best \<le> length ?N" using best h(1) by linarith
  have over: "m < ?C j" if "nat ?best < j" "j \<le> length ?N" for j
    using best h(2) [of j] fits [of j] that by (cases "?h < j") auto
  have keep: "?C 0 \<le> m \<Longrightarrow> ?C (nat ?best) \<le> m"
  proof -
    assume "?C 0 \<le> m"
    then have "?fits 0" using fits [of 0] by simp
    then have "0 \<le> ?best" using best by force
    then show ?thesis using best fits [OF le] by simp
  qed
  show ?thesis
    by (rule exI [of _ "nat ?best"]) (use le over keep project_prefix_eq [OF assms(1)] in blast)
qed

section \<open>An example\<close>

lemma json_string_size_plain:
  "list_all (\<lambda>c. json_plain_byte_size ! of_char c = 1) s \<Longrightarrow> json_string_size s = int (length s) + 2"
proof -
  have "list_all (\<lambda>c. json_plain_byte_size ! of_char c = 1) s \<Longrightarrow> json_string_loop n s = n + int (length s)" for n
  proof (induction s arbitrary: n)
    case (Cons c s)
    then show ?case by (subst json_string_loop.simps) (auto simp: Let_def split: prod.split)
  qed (simp add: json_string_loop.simps)
  then show "list_all (\<lambda>c. json_plain_byte_size ! of_char c = 1) s \<Longrightarrow> ?thesis" by (simp add: json_string_size_def)
qed

definition root_id :: node_id where
  "root_id = \<lparr>id_bus = ''b'', id_path = ''/r'', id_generation = 1, id_incarnation = 0\<rparr>"

definition single_node :: snapshot where
  "single_node =
     \<lparr>sn_root = bare_node root_id, sn_nodes = Some [bare_node root_id], sn_truncated = False, sn_reasons = None,
      sn_provider_errors = 0, sn_warnings = None, sn_generation = 1, sn_captured = ''2026-01-01T00:00:00Z'', sn_source = ''at-spi''\<rparr>"

lemma single_node_facts:
  "sn_nodes single_node = Some [bare_node root_id]" "sn_root single_node = bare_node root_id"
  "traversed single_node" "snapshot_size single_node < 1000" "root_to_first single_node = single_node"
proof -
  have i: "node_id_size root_id = 48"
    by (simp add: root_id_def node_id_size_def json_string_size_plain plain_byte decimal_size_def show_int_def show_nat.simps add_json_size_def max_int_def)
  then have n: "node_size (bare_node root_id) = 251" using bare_node_exact [of root_id] by (simp add: max_int_def)
  have b: "snapshot_base_size single_node = 105"
    by (simp add: single_node_def snapshot_base_size_def when_some_def string_field_size_def member_size_def
        json_string_size_plain plain_byte decimal_size_def show_int_def show_nat.simps add_json_size_def max_int_def)
  have bare: "filled (bare_node root_id)" by (simp add: filled_def bare_node_def)
  show nodes: "sn_nodes single_node = Some [bare_node root_id]" "sn_root single_node = bare_node root_id"
    by (simp_all add: single_node_def)
  show "traversed single_node" using nodes bare by (simp add: traversed_def)
  show "root_to_first single_node = single_node" by (simp add: root_to_first_def single_node_def)
  show "snapshot_size single_node < 1000"
    using nodes by (simp add: snapshot_size_def size_from_parts_def size_from_base_def b n nodes_size_def add_json_size_def max_int_def)
qed

theorem longest_prefix_kept_witness:
  "\<exists>k \<le> 1. project_prefix single_node (fst (node_size_index [bare_node root_id])) (snd (node_size_index [bare_node root_id]))
      (snapshot_base_size single_node) 500 root_id = projected single_node root_id k \<and>
    (\<forall>j. k < j \<and> j \<le> 1 \<longrightarrow> 500 < snapshot_size (projected single_node root_id j))"
proof -
  have r: "nd_id (bare_node root_id) = root_id" by (simp add: bare_node_def)
  have "snapshot_size single_node < max_int" using single_node_facts(4) by (simp add: max_int_def)
  then show ?thesis
    using longest_prefix_kept [of single_node 500] single_node_facts by (auto simp: r)
qed

theorem prefix_estimate_exact_witness:
  "size_for_prefix single_node 1 (fst (node_size_index [bare_node root_id])) (snd (node_size_index [bare_node root_id]))
      (snapshot_base_size single_node) (map nd_id [bare_node root_id]) root_id = snapshot_size (projected single_node root_id 1)"
proof -
  have "snapshot_size single_node < max_int" using single_node_facts(4) by (simp add: max_int_def)
  then show ?thesis
    using prefix_estimate_exact [of single_node 1 root_id] single_node_facts by simp
qed

end
