(* ===== verification/AccResponse.thy ===== *)
theory AccResponse
  imports AccLongest
begin

text \<open>
  Every response of \<^verbatim>\<open>boundSnapshotResponse\<close> is within the byte budget of its caller, counted on what
  \<^verbatim>\<open>encoding/json\<close> writes; and when there is no response, not even the envelope fits.
\<close>

section \<open>Reduced nodes\<close>

lemma half_text_fields: "nd_relations (half_text nd) = nd_relations nd" "nd_id (half_text nd) = nd_id nd"
  by (simp_all add: half_text_def Let_def)

lemma reduce_node_fields:
  assumes "reduce_node nd = Some nd'"
  shows "(nd_relations nd' = nd_relations nd \<or> nd_relations nd' = None) \<and> nd_id nd' = nd_id nd"
  using assms unfolding reduce_node_def
  apply -
  apply (erule branch_SomeE, simp add: half_text_fields)
  apply (erule branch_SomeE, simp)+
  apply (erule option.distinct(1) [THEN notE])
  done

lemma bound_node_fields:
  "(nd_relations (bound_node_response nd m) = nd_relations nd \<or> nd_relations (bound_node_response nd m) = None) \<and>
   nd_id (bound_node_response nd m) = nd_id nd"
proof (induction nd m rule: bound_node_response.induct)
  case (1 nd m)
  show ?case
  proof (cases "node_size nd + 60 > m \<and> reduce_node nd \<noteq> None")
    case True
    then obtain nd' where nd': "reduce_node nd = Some nd'" by auto
    from True nd' have "bound_node_response nd m = bound_node_response nd' m"
      by (subst bound_node_response.simps) simp
    with 1 [of nd'] True nd' reduce_node_fields [OF nd'] show ?thesis by auto
  next
    case False
    then have "bound_node_response nd m = nd"
      by (subst bound_node_response.simps) (auto split: option.split)
    then show ?thesis by simp
  qed
qed

lemma bound_node_filled: "filled nd \<Longrightarrow> filled (bound_node_response nd m)"
  using bound_node_fields [of nd m] by (auto simp: filled_def)

text \<open>What a reduced node still is: it fits, or nothing more can be taken from it.\<close>

lemma bound_node_end:
  "node_size (bound_node_response nd m) + 60 \<le> m \<or> reduce_node (bound_node_response nd m) = None"
proof (induction nd m rule: bound_node_response.induct)
  case (1 nd m)
  then show ?case by (subst (1 2) bound_node_response.simps) (auto split: option.split)
qed

section \<open>The response\<close>

lemma traversed_root_to_first:
  "traversed s \<Longrightarrow> traversed (root_to_first s) \<and> sn_root (root_to_first s) = elems (sn_nodes (root_to_first s)) ! 0"
  by (cases "elems (sn_nodes s)") (simp_all add: traversed_def root_to_first_def)

lemma root_to_first_nodes [simp]: "sn_nodes (root_to_first s) = sn_nodes s"
  by (simp add: root_to_first_def split: list.split)

lemma clone_traversed:
  assumes "traversed s" "sn_root s = elems (sn_nodes s) ! 0"
  shows "clone_response s = s"
proof -
  obtain nd nds where n: "sn_nodes s = Some (nd # nds)" "list_all filled (nd # nds)"
    using assms(1) by (cases "sn_nodes s"; cases "elems (sn_nodes s)") (auto simp: traversed_def)
  then have "clone_nodes (elems (sn_nodes s)) = sn_nodes s" by (simp add: clone_nodes_filled)
  then show ?thesis using n(1) assms(2) by (simp add: clone_response_def)
qed

lemma size_of_parts:
  assumes "traversed s" "sn_root s = elems (sn_nodes s) ! 0"
  defines "sizes \<equiv> map node_size (elems (sn_nodes s))"
  shows "size_from_base (snapshot_base_size s) (root_json_size s sizes) (prefix_sizes 0 sizes ! length (elems (sn_nodes s)))
    (length (elems (sn_nodes s))) (sn_nodes s = None) = snapshot_size s"
proof -
  have ne: "elems (sn_nodes s) \<noteq> []" using assms(1) by (simp add: traversed_def)
  have "prefix_sizes 0 sizes ! length (elems (sn_nodes s)) = nodes_size (elems (sn_nodes s))"
    using prefix_sizes_nth [of "length (elems (sn_nodes s))" sizes 0] by (simp add: sizes_def nodes_size_fold)
  then show ?thesis using ne by (simp add: snapshot_size_def size_from_parts_def root_json_size_def sizes_def assms(2))
qed

lemma bound_nodes_result:
  assumes "bound_nodes s (map node_size (elems (sn_nodes s))) m = (s', sizes)" "traversed s"
  shows "sizes = map node_size (elems (sn_nodes s'))" "traversed s'" "snapshot_base_size s' = snapshot_base_size s"
    "length (elems (sn_nodes s')) = length (elems (sn_nodes s))" "(sn_nodes s' = None) = (sn_nodes s = None)"
proof -
  let ?N = "elems (sn_nodes s)"
  let ?b = "\<lambda>nd. if node_size nd + 60 \<le> m then nd else bound_node_response nd m"
  have b: "map (\<lambda>(nd, sz). if sz + 60 \<le> m then (nd, sz) else (bound_node_response nd m, node_size (bound_node_response nd m))) (zip ?N (map node_size ?N)) =
    map (\<lambda>nd. (?b nd, node_size (?b nd))) ?N"
    by (simp add: zip_map2 zip_same_conv_map comp_def Let_def)
  have ne: "?N \<noteq> []" "list_all filled ?N" using assms(2) by (simp_all add: traversed_def)
  have f: "list_all filled (map ?b ?N)" using ne(2) by (auto simp: list_all_iff bound_node_filled)
  have r: "(s', sizes) = (if list_all (\<lambda>sz. sz + 60 \<le> m) (map node_size ?N) then (s, map node_size ?N)
      else (s\<lparr>sn_nodes := Some (map ?b ?N)\<rparr>, map (\<lambda>nd. node_size (?b nd)) ?N))"
    using assms(1) unfolding bound_nodes_def Let_def b map_map comp_def fst_conv snd_conv by (rule sym)
  obtain nds where nds: "sn_nodes s = Some nds" using ne(1) by (cases "sn_nodes s") simp_all
  show "sizes = map node_size (elems (sn_nodes s'))" "traversed s'" "snapshot_base_size s' = snapshot_base_size s"
    "length (elems (sn_nodes s')) = length ?N" "(sn_nodes s' = None) = (sn_nodes s = None)"
  proof -
    consider (same) "s' = s" "sizes = map node_size ?N"
      | (changed) "s' = s\<lparr>sn_nodes := Some (map ?b ?N)\<rparr>" "sizes = map (\<lambda>nd. node_size (?b nd)) ?N"
      using r by (cases "list_all (\<lambda>sz. sz + 60 \<le> m) (map node_size ?N)"; simp only: if_True if_False prod.inject)
    then have "sizes = map node_size (elems (sn_nodes s')) \<and> traversed s' \<and> snapshot_base_size s' = snapshot_base_size s \<and>
      length (elems (sn_nodes s')) = length ?N \<and> (sn_nodes s' = None) = (sn_nodes s = None)"
    proof cases
      case same
      with assms(2) show ?thesis by simp
    next
      case changed
      then have n: "elems (sn_nodes s') = map ?b ?N" "sn_nodes s' \<noteq> None" by simp_all
      have "traversed s'" unfolding traversed_def n(1) using f ne(1) by simp
      with changed n nds show ?thesis by (simp only: base_nodes map_map comp_def length_map) simp
    qed
    then show "sizes = map node_size (elems (sn_nodes s'))" "traversed s'" "snapshot_base_size s' = snapshot_base_size s"
      "length (elems (sn_nodes s')) = length ?N" "(sn_nodes s' = None) = (sn_nodes s = None)" by auto
  qed
qed

lemma mark_total_facts:
  "sn_nodes (mark_total s m) = sn_nodes s" "sn_root (mark_total s m) = sn_root s"
  by (simp_all add: mark_total_def)

text \<open>The response without nodes, warnings and provider errors, its root a handle alone.\<close>

definition envelope :: "snapshot \<Rightarrow> node_id \<Rightarrow> snapshot" where
  "envelope s i = s\<lparr>sn_nodes := None, sn_root := bare_node i, sn_warnings := None, sn_provider_errors := 0\<rparr>"

lemma envelope_simps [simp]:
  "envelope (s\<lparr>sn_nodes := x\<rparr>) i = envelope s i" "envelope (s\<lparr>sn_root := y\<rparr>) i = envelope s i"
  by (simp_all add: envelope_def)

lemma envelope_root_to_first [simp]: "envelope (root_to_first s) i = envelope s i"
  by (simp add: root_to_first_def split: list.split)

lemma envelope_projected [simp]: "envelope (projected s j k) i = envelope s i"
  by (simp add: projected_def prune_references_def prune_with_retained_def)

lemma envelope_mark [simp]: "envelope (mark_total (root_to_first s) m) i = envelope (mark_total s m) i"
  by (simp add: root_to_first_def mark_total_def envelope_def split: list.split)

lemma bound_nodes_envelope:
  assumes "bound_nodes s (map node_size (elems (sn_nodes s))) m = (u, sizes)" "elems (sn_nodes s) \<noteq> []"
  shows "envelope u i = envelope s i" "nd_id (elems (sn_nodes u) ! 0) = nd_id (elems (sn_nodes s) ! 0)"
proof -
  obtain nd nds where n: "elems (sn_nodes s) = nd # nds" using assms(2) by (cases "elems (sn_nodes s)") auto
  show "envelope u i = envelope s i" "nd_id (elems (sn_nodes u) ! 0) = nd_id (elems (sn_nodes s) ! 0)"
    using assms(1) bound_node_fields [of nd m] n by (auto simp: bound_nodes_def Let_def split: if_splits)
qed

lemma project_error:
  assumes "minimum_response s i m = Inl (n, l)"
  shows "l = m" "m < n" "n = snapshot_size (envelope s i)"
  using assms by (auto simp: minimum_response_def prune_references_def envelope_def Let_def split: if_splits)

lemma bound_response_unchanged:
  assumes "traversed s" "0 < m" "snapshot_size (root_to_first s) \<le> m"
  shows "bound_response s m = Inr (root_to_first s)"
proof -
  let ?s = "root_to_first s" and ?N = "elems (sn_nodes s)"
  have s: "traversed ?s" "sn_root ?s = elems (sn_nodes ?s) ! 0" using traversed_root_to_first [OF assms(1)] by auto
  have "size_from_parts ?s (root_json_size ?s (map node_size ?N)) (prefix_sizes 0 (map node_size ?N) ! length ?N) (length ?N)
      (sn_nodes s = None) = snapshot_size ?s"
    using size_of_parts [OF s] by (simp add: size_from_parts_def)
  with assms(2,3) clone_traversed [OF s] show ?thesis by (simp add: bound_response_def node_size_index_def Let_def)
qed

lemma bound_response_cases:
  assumes "traversed s" "0 < m" "\<not> snapshot_size (root_to_first s) \<le> m"
  obtains v sizes where "traversed v" "sn_root v = elems (sn_nodes v) ! 0" "sizes = map node_size (elems (sn_nodes v))"
    "\<And>i. envelope v i = envelope (mark_total s m) i" "nd_id (sn_root v) = nd_id (elems (sn_nodes s) ! 0)"
    "snapshot_base_size v = snapshot_base_size (mark_total (root_to_first s) m)"
    "let w = project_prefix v sizes (prefix_sizes 0 sizes) (snapshot_base_size v) m (nd_id (sn_root v)) in
     bound_response s m = (if snapshot_size v \<le> m then Inr v
       else if snapshot_size w > m then minimum_response w (nd_id (sn_root v)) m else Inr w)"
proof -
  let ?s = "root_to_first s" and ?N = "elems (sn_nodes s)"
  have s: "traversed ?s" "sn_root ?s = elems (sn_nodes ?s) ! 0" using traversed_root_to_first [OF assms(1)] by auto
  have p1: "size_from_parts ?s (root_json_size ?s (map node_size ?N)) (prefix_sizes 0 (map node_size ?N) ! length ?N) (length ?N)
      (sn_nodes s = None) = snapshot_size ?s"
    using size_of_parts [OF s] by (simp add: size_from_parts_def)
  let ?t = "mark_total ?s m"
  obtain u sizes where bn: "bound_nodes ?t (map node_size ?N) m = (u, sizes)" by fastforce
  have t: "traversed ?t" using s(1) by (simp add: traversed_def mark_total_facts)
  note u = bound_nodes_result [of ?t m u sizes, OF _ t, simplified mark_total_facts root_to_first_nodes, OF bn]
  note e = bound_nodes_envelope [of ?t m u sizes, simplified mark_total_facts root_to_first_nodes, OF bn]
  let ?v = "root_to_first u"
  have v: "traversed ?v" "sn_root ?v = elems (sn_nodes ?v) ! 0" using traversed_root_to_first [OF u(2)] by auto
  have p2: "size_from_base (snapshot_base_size ?t) (root_json_size ?v sizes) (prefix_sizes 0 sizes ! length ?N) (length ?N)
      (sn_nodes s = None) = snapshot_size ?v"
    using size_of_parts [OF v] u by (simp add: u(1))
  have ne: "?N \<noteq> []" using assms(1) by (simp add: traversed_def)
  show ?thesis
  proof (rule that [OF v])
    show "sizes = map node_size (elems (sn_nodes ?v))" using u(1) by simp
    show "envelope ?v i = envelope (mark_total s m) i" for i using e(1) ne by simp
    show "nd_id (sn_root ?v) = nd_id (elems (sn_nodes s) ! 0)" using e(2) ne v(2) by simp
    show b: "snapshot_base_size ?v = snapshot_base_size ?t" using u(3) by simp
    show "let w = project_prefix ?v sizes (prefix_sizes 0 sizes) (snapshot_base_size ?v) m (nd_id (sn_root ?v)) in
     bound_response s m = (if snapshot_size ?v \<le> m then Inr ?v
       else if snapshot_size w > m then minimum_response w (nd_id (sn_root ?v)) m else Inr w)"
      unfolding bound_response_def node_size_index_def Let_def prod.case root_to_first_nodes p1 bn p2 b clone_traversed [OF v]
      using assms(2,3) by simp
  qed
qed

lemma bound_response_size:
  assumes "traversed s" "0 < m" "bound_response s m = Inr r"
  shows "snapshot_size r \<le> m"
proof (cases "snapshot_size (root_to_first s) \<le> m")
  case True
  with bound_response_unchanged [OF assms(1,2)] assms(3) show ?thesis by simp
next
  case False
  from bound_response_cases [OF assms(1,2) this] obtain v w where
    "bound_response s m = (if snapshot_size v \<le> m then Inr v
       else if snapshot_size w > m then minimum_response w (nd_id (sn_root v)) m else Inr w)"
    by (metis (no_types))
  then show ?thesis
    using assms(3) by (auto simp: minimum_response_def Let_def split: if_splits)
qed

text \<open>
  C9. Every response is within the byte budget of its caller. Whatever tree was observed, whatever its
  strings, numbers, relations and optional interfaces, if the bounded snapshot is returned then the
  JSON text \<^verbatim>\<open>encoding/json\<close> writes for it has at most \<^verbatim>\<open>MaxTotalBytes\<close> bytes.
\<close>

theorem response_within_budget:
  assumes "traversed s" "0 < m" "m < max_int" "length bad \<le> 3" "\<forall>x. length (ftext x) \<le> 32"
    "bound_response s m = Inr r"
  shows "int (length (json_snapshot bad ftext r)) \<le> m"
proof -
  have "snapshot_size r \<le> m" by (rule bound_response_size [OF assms(1,2,6)])
  with covers_snapshot [OF assms(4,5), of r] assms(3) show ?thesis by (auto simp: covers_def)
qed

theorem response_within_budget_witness:
  "\<exists>r. bound_response single_node 1000 = Inr r \<and> int (length (json_snapshot ''?'' (\<lambda>_. ''0'') r)) \<le> 1000"
proof -
  have r: "bound_response single_node 1000 = Inr single_node"
    using bound_response_unchanged [of single_node 1000] single_node_facts by simp
  then show ?thesis
    using response_within_budget [OF single_node_facts(3) _ _ _ _ r, of "''?''" "\<lambda>_. ''0''"] by (simp add: max_int_def)
qed



end
