(* ===== verification/AccSelect.thy ===== *)
theory AccSelect
  imports AccModel WinMatch "HOL-Library.Multiset" "HOL-Library.Sublist"
begin

text \<open>
  Semantic discovery in one snapshot (\<^verbatim>\<open>accessibility/snapshot.go\<close>): which nodes match a selector,
  by their own fields, their labels and their ancestors, and whether the snapshot is complete enough
  to answer. The Unicode tables are those of \<open>WinMatch\<close> and \<open>sp\<close>, \<^verbatim>\<open>unicode.IsSpace\<close>. A Go map that
  is ranged over is a list in the order of the range.
\<close>

section \<open>Strings\<close>

definition trim_runes :: "(rune \<Rightarrow> bool) \<Rightarrow> rune list \<Rightarrow> rune list" where
  "trim_runes sp rs = rev (dropWhile sp (rev (dropWhile sp rs)))"

text \<open>\<^verbatim>\<open>strings.ToLower(strings.TrimSpace(s))\<close>, and whether a trimmed string is empty.\<close>

definition lower_trim :: "(rune \<Rightarrow> rune) \<Rightarrow> (rune \<Rightarrow> bool) \<Rightarrow> string \<Rightarrow> string" where
  "lower_trim lo sp s = concat (map lo (trim_runes sp (runes s)))"

definition blank :: "(rune \<Rightarrow> bool) \<Rightarrow> string \<Rightarrow> bool" where
  "blank sp s \<longleftrightarrow> trim_runes sp (runes s) = []"

text \<open>A requested substring, ignored when blank.\<close>

definition wanted_in :: "(rune \<Rightarrow> rune) \<Rightarrow> (rune \<Rightarrow> bool) \<Rightarrow> string \<Rightarrow> string \<Rightarrow> bool" where
  "wanted_in lo sp want have' \<longleftrightarrow>
     (let w = lower_trim lo sp want in w = [] \<or> sublist w (go_to_lower lo have'))"

section \<open>One node\<close>

definition matches_states :: "(rune \<Rightarrow> rune) \<Rightarrow> (rune \<Rightarrow> bool) \<Rightarrow> string list \<Rightarrow> string list \<Rightarrow> bool" where
  "matches_states cf sp have' want =
     list_all (\<lambda>requested. list_ex (\<lambda>state. map cf (trim_runes sp (runes requested)) = map cf (runes state)) have') want"

definition matches_attributes :: "(rune \<Rightarrow> rune) \<Rightarrow> (string \<times> string) list \<Rightarrow> (string \<times> string) list \<Rightarrow> bool" where
  "matches_attributes cf have' want =
     list_all (\<lambda>(key, expected).
       case find (\<lambda>(have_key, _). equal_fold cf have_key key) have' of
         None \<Rightarrow> False
       | Some (_, actual) \<Rightarrow> equal_fold cf actual expected) want"

definition matches_selector_node ::
    "(rune \<Rightarrow> rune) \<Rightarrow> (rune \<Rightarrow> rune) \<Rightarrow> (rune \<Rightarrow> bool) \<Rightarrow> acc_node \<Rightarrow> selector \<Rightarrow> bool" where
  "matches_selector_node lo cf sp nd sel =
     (if \<not> wanted_in lo sp (sel_name sel) (nd_name nd) then False
      else if \<not> wanted_in lo sp (sel_role sel) (nd_role nd) then False
      else if \<not> wanted_in lo sp (sel_text sel) (nd_text nd) then False
      else matches_states cf sp (elems (nd_states nd)) (sel_states sel) \<and>
           matches_attributes cf (elems (nd_attributes nd)) (sel_attributes sel))"

section \<open>Labels\<close>

type_synonym by_id = "node_id \<Rightarrow> acc_node option"

definition relation_targets :: "acc_node \<Rightarrow> string \<Rightarrow> node_id list" where
  "relation_targets nd relation =
     (case map_of (elems (nd_relations nd)) relation of None \<Rightarrow> [] | Some targets \<Rightarrow> elems targets)"

text \<open>The index of the nodes, a later node replacing an earlier one, and \<^verbatim>\<open>labelsFor[target]\<close>.\<close>

definition index_nodes :: "acc_node list \<Rightarrow> by_id" where
  "index_nodes nds = map_of (rev (map (\<lambda>nd. (nd_id nd, nd)) nds))"

definition labels_for :: "acc_node list \<Rightarrow> node_id \<Rightarrow> node_id list" where
  "labels_for nds target =
     concat (map (\<lambda>nd. map (\<lambda>_. nd_id nd) (filter (\<lambda>t. t = target) (relation_targets nd ''label-for''))) nds)"

definition label_matches :: "(rune \<Rightarrow> rune) \<Rightarrow> acc_node \<Rightarrow> string \<Rightarrow> bool" where
  "label_matches lo label want \<longleftrightarrow>
     sublist want (go_to_lower lo (nd_name label)) \<or> sublist want (go_to_lower lo (nd_text label))"

definition matches_label ::
    "(rune \<Rightarrow> rune) \<Rightarrow> (rune \<Rightarrow> bool) \<Rightarrow> by_id \<Rightarrow> (node_id \<Rightarrow> node_id list) \<Rightarrow> acc_node \<Rightarrow> string \<Rightarrow> bool" where
  "matches_label lo sp by_id labels nd requested =
     (let want = lower_trim lo sp requested;
          hit = (\<lambda>i. i \<noteq> nd_id nd \<and> (case by_id i of None \<Rightarrow> False | Some label \<Rightarrow> label_matches lo label want)) in
      want = [] \<or> list_ex hit (relation_targets nd ''labelled-by'') \<or> list_ex hit (labels (nd_id nd)))"

section \<open>Ancestors\<close>

text \<open>
  The search for one constraint: at most \<open>n\<close> steps up from \<open>parent\<close>. \<open>None\<close> is the failure of the
  whole match; otherwise the place to go on from and the handles that have been visited.
\<close>

fun climb :: "(acc_node \<Rightarrow> bool) \<Rightarrow> by_id \<Rightarrow> nat \<Rightarrow> node_id \<Rightarrow> node_id list \<Rightarrow> (node_id \<times> node_id list) option" where
  "climb ok by_id 0 parent visited = None"
| "climb ok by_id (Suc n) parent visited =
     (if \<not> id_valid parent then None
      else if parent \<in> set visited then None
      else
        case by_id parent of
          None \<Rightarrow> None
        | Some ancestor \<Rightarrow>
            if ok ancestor then Some (nd_parent ancestor, parent # visited)
            else climb ok by_id n (nd_parent ancestor) (parent # visited))"

fun constraints_loop :: "('c \<Rightarrow> acc_node \<Rightarrow> bool) \<Rightarrow> by_id \<Rightarrow> nat \<Rightarrow> 'c list \<Rightarrow> node_id \<Rightarrow> node_id list \<Rightarrow> bool" where
  "constraints_loop ok by_id n [] parent visited = True"
| "constraints_loop ok by_id n (c # cs) parent visited =
     (case climb (ok c) by_id n parent visited of
        None \<Rightarrow> False
      | Some (parent', visited') \<Rightarrow> constraints_loop ok by_id n cs parent' visited')"

definition ancestor_ok :: "(rune \<Rightarrow> rune) \<Rightarrow> (rune \<Rightarrow> rune) \<Rightarrow> (rune \<Rightarrow> bool) \<Rightarrow> ancestor_selector \<Rightarrow> acc_node \<Rightarrow> bool" where
  "ancestor_ok lo cf sp c nd =
     matches_selector_node lo cf sp nd
       \<lparr>sel_role = an_role c, sel_name = an_name c, sel_label = [], sel_text = [], sel_states = [], sel_attributes = [],
        sel_ancestors = []\<rparr>"

definition matches_ancestors ::
    "(rune \<Rightarrow> rune) \<Rightarrow> (rune \<Rightarrow> rune) \<Rightarrow> (rune \<Rightarrow> bool) \<Rightarrow> acc_node list \<Rightarrow> acc_node \<Rightarrow> ancestor_selector list \<Rightarrow> bool" where
  "matches_ancestors lo cf sp nds nd requested =
     (if requested = [] then True
      else constraints_loop (ancestor_ok lo cf sp) (index_nodes nds) (length (remdups (map nd_id nds))) requested
             (nd_parent nd) [nd_id nd])"

section \<open>Filtering a snapshot\<close>

definition filter_selector ::
    "(rune \<Rightarrow> rune) \<Rightarrow> (rune \<Rightarrow> rune) \<Rightarrow> (rune \<Rightarrow> bool) \<Rightarrow> acc_node list \<Rightarrow> selector \<Rightarrow> acc_node list" where
  "filter_selector lo cf sp nds sel =
     filter (\<lambda>nd. matches_selector_node lo cf sp nd sel \<and>
                  matches_label lo sp (index_nodes nds) (labels_for nds) nd (sel_label sel) \<and>
                  matches_ancestors lo cf sp nds nd (sel_ancestors sel)) nds"

record query =
  q_name :: string
  q_role :: string
  q_text :: string
  q_states :: "string list"
  q_attributes :: "(string \<times> string) list"

definition filter_snapshot ::
    "(rune \<Rightarrow> rune) \<Rightarrow> (rune \<Rightarrow> rune) \<Rightarrow> (rune \<Rightarrow> bool) \<Rightarrow> acc_node list \<Rightarrow> query \<Rightarrow> acc_node list" where
  "filter_snapshot lo cf sp nds q =
     filter_selector lo cf sp nds
       \<lparr>sel_role = q_role q, sel_name = q_name q, sel_label = [], sel_text = q_text q, sel_states = q_states q,
        sel_attributes = q_attributes q, sel_ancestors = []\<rparr>"

end
