(* ===== verification/AccAncestors.thy ===== *)
theory AccAncestors
  imports AccSelect
begin

text \<open>
  The ancestor constraints of a selector (\<^verbatim>\<open>matchesAncestors\<close> of \<^verbatim>\<open>accessibility/snapshot.go\<close>) against
  their specification: some nodes on the way to the root satisfy the constraints in their order. The
  parents are whatever a provider reported, so the way may be a cycle or leave the snapshot; the step
  bound of the code never decides.
\<close>

section \<open>The way to the root\<close>

text \<open>The known ancestors from \<open>parent\<close> on, up to the first handle that is seen again or unknown.\<close>

fun chain :: "by_id \<Rightarrow> nat \<Rightarrow> node_id \<Rightarrow> node_id list \<Rightarrow> acc_node list" where
  "chain by_id 0 parent visited = []"
| "chain by_id (Suc n) parent visited =
     (if \<not> id_valid parent \<or> parent \<in> set visited then []
      else case by_id parent of
             None \<Rightarrow> []
           | Some ancestor \<Rightarrow> ancestor # chain by_id n (nd_parent ancestor) (parent # visited))"

definition ancestor_chain :: "acc_node list \<Rightarrow> acc_node \<Rightarrow> acc_node list" where
  "ancestor_chain nds nd = chain (index_nodes nds) (length nds) (nd_parent nd) [nd_id nd]"

fun linked :: "node_id \<Rightarrow> acc_node list \<Rightarrow> bool" where
  "linked parent [] = True"
| "linked parent (a # as) \<longleftrightarrow> nd_id a = parent \<and> linked (nd_parent a) as"

definition unvisited :: "by_id \<Rightarrow> node_id list \<Rightarrow> nat" where
  "unvisited by_id visited = card (dom by_id - set visited)"

lemma unvisited_step:
  assumes "finite (dom by_id)" "by_id p = Some a" "p \<notin> set v"
  shows "unvisited by_id v = Suc (unvisited by_id (p # v))"
proof -
  have "dom by_id - set (p # v) = (dom by_id - set v) - {p}" by auto
  moreover have "p \<in> dom by_id - set v" using assms(2,3) by auto
  ultimately show ?thesis
    unfolding unvisited_def using assms(1) card_Suc_Diff1[of "dom by_id - set v" p] by simp
qed

lemma chain_enough:
  assumes "finite (dom by_id)"
  shows "unvisited by_id v \<le> n \<Longrightarrow> unvisited by_id v \<le> m \<Longrightarrow> chain by_id n p v = chain by_id m p v"
proof (induction n arbitrary: m p v)
  case 0
  show ?case
  proof (cases m)
    case (Suc m')
    have "\<not> (\<exists>a. by_id p = Some a \<and> p \<notin> set v)"
      using unvisited_step[OF assms] 0 by fastforce
    then show ?thesis
      using Suc by (auto split: option.splits)
  qed simp
next
  case (Suc n)
  show ?case
  proof (cases "id_valid p \<and> p \<notin> set v \<and> by_id p \<noteq> None")
    case False
    then show ?thesis by (cases m) (auto split: option.splits)
  next
    case True
    then obtain a where a: "by_id p = Some a" "id_valid p" "p \<notin> set v"
      by auto
    note step = unvisited_step[OF assms a(1,3)]
    obtain m' where m: "m = Suc m'"
      using step Suc.prems(2) by (cases m) auto
    show ?thesis
      unfolding m using a Suc.IH[of "p # v" m'] Suc.prems step m by simp
  qed
qed

lemma climb_chain:
  assumes "finite (dom by_id)"
  shows "unvisited by_id v \<le> n \<Longrightarrow> unvisited by_id v \<le> m \<Longrightarrow>
    (case dropWhile (\<lambda>a. \<not> ok a) (chain by_id m p v) of
       [] \<Rightarrow> climb ok by_id n p v = None
     | a # rest \<Rightarrow> \<exists>v'. climb ok by_id n p v = Some (nd_parent a, v') \<and> unvisited by_id v' \<le> unvisited by_id v \<and>
                       chain by_id m (nd_parent a) v' = rest)"
proof (induction n arbitrary: m p v)
  case 0
  have "chain by_id m p v = chain by_id 0 p v"
    by (rule chain_enough[OF assms]) (use 0 in auto)
  then show ?case by simp
next
  case (Suc n)
  show ?case
  proof (cases "id_valid p \<and> p \<notin> set v \<and> by_id p \<noteq> None")
    case False
    then show ?thesis by (cases m) (auto split: option.splits)
  next
    case True
    then obtain a where a: "by_id p = Some a" "id_valid p" "p \<notin> set v"
      by auto
    note step = unvisited_step[OF assms a(1,3)]
    obtain m' where m: "m = Suc m'"
      using step Suc.prems(2) by (cases m) auto
    have left: "unvisited by_id (p # v) \<le> n" "unvisited by_id (p # v) \<le> m'"
      using step Suc.prems m by auto
    have more: "chain by_id m q (p # v) = chain by_id m' q (p # v)" for q
      by (rule chain_enough[OF assms]) (use left m in auto)
    show ?thesis
    proof (cases "ok a")
      case True
      then show ?thesis
        using a m more step by simp
    next
      case False
      have eq: "dropWhile (\<lambda>a. \<not> ok a) (chain by_id m p v)
          = dropWhile (\<lambda>a. \<not> ok a) (chain by_id m (nd_parent a) (p # v))"
        "climb ok by_id (Suc n) p v = climb ok by_id n (nd_parent a) (p # v)"
        unfolding more using a m False by simp_all
      have "unvisited by_id (p # v) \<le> m" using left m by simp
      from Suc.IH[OF left(1) this, of "nd_parent a"] show ?thesis
        unfolding eq using step by (cases "dropWhile (\<lambda>a. \<not> ok a) (chain by_id m (nd_parent a) (p # v))") (auto simp del: dropWhile_eq_Nil_conv)
    qed
  qed
qed

section \<open>The first that fits is enough\<close>

fun greedy :: "('c \<Rightarrow> 'a \<Rightarrow> bool) \<Rightarrow> 'c list \<Rightarrow> 'a list \<Rightarrow> bool" where
  "greedy ok [] xs = True"
| "greedy ok (c # cs) xs = (case dropWhile (\<lambda>a. \<not> ok c a) xs of [] \<Rightarrow> False | a # rest \<Rightarrow> greedy ok cs rest)"

lemma greedy_iff: "greedy ok cs xs \<longleftrightarrow> (\<exists>as. subseq as xs \<and> list_all2 ok cs as)"
proof (induction cs arbitrary: xs)
  case Nil
  show ?case by (auto intro: exI[of _ "[]"])
next
  case (Cons c cs)
  show ?case
  proof (induction xs)
    case Nil
    show ?case by (auto simp: list_all2_Cons1)
  next
    case (Cons x xs)
    show ?case
    proof (cases "ok c x")
      case True
      have "(\<exists>as. subseq as (x # xs) \<and> list_all2 ok (c # cs) as) \<longleftrightarrow> (\<exists>as. subseq as xs \<and> list_all2 ok cs as)"
      proof
        assume "\<exists>as. subseq as (x # xs) \<and> list_all2 ok (c # cs) as"
        then obtain a as where "subseq (a # as) (x # xs)" "list_all2 ok cs as"
          by (auto simp: list_all2_Cons1)
        then show "\<exists>as. subseq as xs \<and> list_all2 ok cs as"
          by (auto dest: subseq_Cons' split: if_splits)
      next
        assume "\<exists>as. subseq as xs \<and> list_all2 ok cs as"
        then obtain as where "subseq as xs" "list_all2 ok cs as" by blast
        then show "\<exists>as. subseq as (x # xs) \<and> list_all2 ok (c # cs) as"
          using True by (intro exI[of _ "x # as"]) simp
      qed
      then show ?thesis using True by (simp add: Cons.IH \<open>\<And>xs. greedy ok cs xs = _\<close>)
    next
      case False
      have "(\<exists>as. subseq as (x # xs) \<and> list_all2 ok (c # cs) as) \<longleftrightarrow> (\<exists>as. subseq as xs \<and> list_all2 ok (c # cs) as)"
        using False by (auto simp: list_all2_Cons1 split: if_splits)
      then show ?thesis using Cons.IH False by simp
    qed
  qed
qed

lemma constraints_greedy:
  assumes "finite (dom by_id)" "unvisited by_id v \<le> n"
  shows "constraints_loop ok by_id n cs p v = greedy ok cs (chain by_id n p v)"
  using assms(2)
proof (induction cs arbitrary: p v)
  case (Cons c cs)
  note c = climb_chain[OF assms(1) Cons.prems Cons.prems, of "ok c" p]
  show ?case
  proof (cases "dropWhile (\<lambda>a. \<not> ok c a) (chain by_id n p v)")
    case Nil
    then show ?thesis using c by (simp del: dropWhile_eq_Nil_conv)
  next
    case (Cons a rest)
    then obtain v' where v: "climb (ok c) by_id n p v = Some (nd_parent a, v')" "unvisited by_id v' \<le> n"
      "chain by_id n (nd_parent a) v' = rest"
      using c Cons.prems by auto
    have "constraints_loop ok by_id n cs (nd_parent a) v' = greedy ok cs rest"
      using Cons.IH[OF v(2), of "nd_parent a"] v(3) by simp
    then show ?thesis
      using Cons v(1) by (simp del: dropWhile_eq_Nil_conv)
  qed
qed simp

section \<open>The theorem\<close>

lemma index_nodes_id: "index_nodes nds i = Some a \<Longrightarrow> nd_id a = i \<and> a \<in> set nds"
  by (auto simp: index_nodes_def dest!: map_of_SomeD)

lemma index_nodes_dom: "dom (index_nodes nds) = set (map nd_id nds)"
  by (auto simp: index_nodes_def dom_map_of_conv_image_fst image_image)

lemma chain_linked:
  assumes "\<And>i a. by_id i = Some a \<Longrightarrow> nd_id a = i \<and> P a"
  shows "linked p (chain by_id n p v) \<and> distinct (map nd_id (chain by_id n p v)) \<and>
    set (map nd_id (chain by_id n p v)) \<inter> set v = {} \<and> list_all P (chain by_id n p v)"
proof (induction n arbitrary: p v)
  case (Suc n)
  show ?case
  proof (cases "id_valid p \<and> p \<notin> set v \<and> by_id p \<noteq> None")
    case False
    then show ?thesis by (auto split: option.splits)
  next
    case True
    then obtain a where a: "by_id p = Some a" by auto
    show ?thesis
      using True a assms[OF a] Suc.IH[of "nd_parent a" "p # v"] by auto
  qed
qed simp

lemma known_handles: "unvisited (index_nodes nds) v \<le> length (remdups (map nd_id nds))"
proof -
  have "unvisited (index_nodes nds) v \<le> card (set (map nd_id nds))"
    unfolding unvisited_def index_nodes_dom by (rule card_mono) auto
  then show ?thesis by (simp only: length_remdups_card_conv)
qed

text \<open>
  C19. The ancestor constraints hold for a node exactly when some of its known ancestors, taken in the
  order from the node to the root, satisfy them in their order: the search that takes the first
  ancestor that fits misses nothing, and its step bound never ends it early. The known ancestors are
  nodes of the snapshot, each the reported parent of the one before, all different from each other
  and from the node, also when the provider reports parents in a cycle.
\<close>

theorem ancestors_match_in_order:
  "(matches_ancestors lo cf sp nds nd requested \<longleftrightarrow>
      (\<exists>as. subseq as (ancestor_chain nds nd) \<and> list_all2 (ancestor_ok lo cf sp) requested as)) \<and>
   linked (nd_parent nd) (ancestor_chain nds nd) \<and>
   distinct (map nd_id (nd # ancestor_chain nds nd)) \<and> set (ancestor_chain nds nd) \<subseteq> set nds"
proof -
  let ?n = "length (remdups (map nd_id nds))"
  have fin: "finite (dom (index_nodes nds))" by (simp add: index_nodes_dom)
  have bound: "unvisited (index_nodes nds) [nd_id nd] \<le> ?n" by (rule known_handles)
  have chain: "chain (index_nodes nds) ?n (nd_parent nd) [nd_id nd] = ancestor_chain nds nd"
    unfolding ancestor_chain_def
    by (rule chain_enough[OF fin bound]) (use bound length_remdups_leq[of "map nd_id nds"] in simp)
  have "matches_ancestors lo cf sp nds nd requested = greedy (ancestor_ok lo cf sp) requested (ancestor_chain nds nd)"
    unfolding matches_ancestors_def constraints_greedy[OF fin bound] chain by simp
  then show ?thesis
    using chain_linked[of "index_nodes nds" "\<lambda>a. a \<in> set nds", OF index_nodes_id, where ?n = "length nds" and ?p = "nd_parent nd" and ?v = "[nd_id nd]"]
    unfolding greedy_iff ancestor_chain_def by (auto simp: list_all_iff)
qed

end
