(* ===== verification/AccWalk.thy ===== *)
theory AccWalk
  imports AccSelect GoQuote
begin

text \<open>
  The traversal that builds a snapshot (\<^verbatim>\<open>snapshotWalker\<close> in \<^verbatim>\<open>accessibility/snapshot.go\<close>): depth-first
  from the root, bounded in depth and in nodes, with warnings for what could not be read. What the
  provider answers, and when the caller gives up, depends on a state \<open>'w\<close> of the world that every call
  may change. \<open>pr\<close> says which characters \<^verbatim>\<open>%q\<close> prints as they are.
\<close>

section \<open>The provider\<close>

text \<open>\<^verbatim>\<open>ctx.Err\<close>, \<^verbatim>\<open>recordObjectParent\<close>, \<^verbatim>\<open>readNode\<close>, \<^verbatim>\<open>children\<close> (fresh or not), \<^verbatim>\<open>refID\<close>, and of an error
  whether it is \<^verbatim>\<open>ErrStaleGeneration\<close> and its text.\<close>

record ('w, 'e) provider =
  pv_ctx :: "'w \<Rightarrow> 'e option \<times> 'w"
  pv_record :: "node_id \<Rightarrow> node_id \<Rightarrow> 'w \<Rightarrow> 'w"
  pv_read :: "bool \<Rightarrow> node_id \<Rightarrow> node_id \<Rightarrow> int \<Rightarrow> bool \<Rightarrow> 'w \<Rightarrow> ('e + acc_node) \<times> 'w"
  pv_children :: "bool \<Rightarrow> node_id \<Rightarrow> 'w \<Rightarrow> ('e + identity list) \<times> 'w"
  pv_ref :: "identity \<Rightarrow> 'w \<Rightarrow> node_id \<times> 'w"
  pv_stale :: "'e \<Rightarrow> bool"
  pv_text :: "'e \<Rightarrow> string"

text \<open>An error of the walk: one of its own limits, or an error of the provider or the context.\<close>

datatype 'e walk_error = Limit string | Failed 'e

definition error_text :: "('w, 'e) provider \<Rightarrow> 'e walk_error \<Rightarrow> string" where
  "error_text pv e = (case e of Limit s \<Rightarrow> s | Failed e \<Rightarrow> pv_text pv e)"

definition error_stale :: "('w, 'e) provider \<Rightarrow> 'e walk_error \<Rightarrow> bool" where
  "error_stale pv e = (case e of Limit s \<Rightarrow> False | Failed e \<Rightarrow> pv_stale pv e)"

section \<open>The walker\<close>

record ('w, 'e) walker =
  wk_nodes :: "acc_node list"
  wk_truncated :: bool
  wk_reasons :: "string list"
  wk_warnings :: "string list"
  wk_seen :: "node_id list"
  wk_errors :: int
  wk_err :: "'e walk_error option"
  wk_world :: 'w

definition walker_start :: "'w \<Rightarrow> ('w, 'e) walker" where
  "walker_start w = \<lparr>wk_nodes = [], wk_truncated = False, wk_reasons = [], wk_warnings = [], wk_seen = [], wk_errors = 0,
     wk_err = None, wk_world = w\<rparr>"

definition mark_truncated :: "string \<Rightarrow> ('w, 'e) walker \<Rightarrow> ('w, 'e) walker" where
  "mark_truncated reason st =
     (let st = st\<lparr>wk_truncated := True\<rparr> in
      if reason \<in> set (wk_reasons st) then st else st\<lparr>wk_reasons := wk_reasons st @ [reason]\<rparr>)"

definition skip_role :: "(rune \<Rightarrow> rune) \<Rightarrow> (rune \<Rightarrow> bool) \<Rightarrow> snapshot_options \<Rightarrow> string \<Rightarrow> bool" where
  "skip_role lo sp opts role = list_ex (\<lambda>skipped. lower_trim lo sp role = skipped) (o_skip_roles opts)"

definition ctx_err :: "('w, 'e) provider \<Rightarrow> ('w, 'e) walker \<Rightarrow> 'e option \<times> ('w, 'e) walker" where
  "ctx_err pv st = (let (c, w) = pv_ctx pv (wk_world st) in (c, st\<lparr>wk_world := w\<rparr>))"

definition add_warnings :: "string list \<Rightarrow> ('w, 'e) walker \<Rightarrow> ('w, 'e) walker" where
  "add_warnings ws st = st\<lparr>wk_warnings := wk_warnings st @ ws, wk_errors := wk_errors st + int (length ws)\<rparr>"

text \<open>\<open>Node{}\<close>, which a call returns for a node that is not retained.\<close>

definition zero_node :: acc_node where "zero_node = bare_node no_id"

definition add_child :: "node_id \<Rightarrow> acc_node \<Rightarrow> acc_node" where
  "add_child i nd = nd\<lparr>nd_children := Some (elems (nd_children nd) @ [i])\<rparr>"

text \<open>The loop over the children: the error it returns, the node with its children, the walker.\<close>

fun child_loop :: "('w, 'e) provider \<Rightarrow> snapshot_options \<Rightarrow> (node_id \<Rightarrow> ('w, 'e) walker \<Rightarrow> ('e walk_error + acc_node) \<times> ('w, 'e) walker) \<Rightarrow>
    identity list \<Rightarrow> acc_node \<Rightarrow> ('w, 'e) walker \<Rightarrow> 'e walk_error option \<times> acc_node \<times> ('w, 'e) walker" where
  "child_loop pv opts visit [] nd st = (None, nd, st)"
| "child_loop pv opts visit (ref # refs) nd st =
     (if int (length (wk_nodes st)) \<ge> o_max_nodes opts
      then (None, nd, mark_truncated (''max nodes '' @ show_int (o_max_nodes opts)) st)
      else
        let (child_id, w) = pv_ref pv ref (wk_world st);
            (result, st) = visit child_id (st\<lparr>wk_world := w\<rparr>) in
        case result of
          Inl child_err \<Rightarrow>
            let (c, st) = ctx_err pv st in
            if c \<noteq> None then (None, nd, st)
            else if error_stale pv child_err then (Some child_err, nd, st\<lparr>wk_err := Some child_err\<rparr>)
            else child_loop pv opts visit refs nd (add_warnings [error_text pv child_err] st)
        | Inr child \<Rightarrow>
            child_loop pv opts visit refs (if id_valid (nd_id child) then add_child (nd_id child) nd else nd) st)"

definition count_mismatch :: "node_id \<Rightarrow> acc_node \<Rightarrow> identity list \<Rightarrow> string" where
  "count_mismatch i nd refs = ''child count mismatch for '' @ id_path i @ '': reported '' @ show_int (nd_child_count nd) @
     '', returned '' @ show_int (int (length refs))"

definition walk_children :: "('w, 'e) provider \<Rightarrow> snapshot_options \<Rightarrow> (node_id \<Rightarrow> ('w, 'e) walker \<Rightarrow> ('e walk_error + acc_node) \<times> ('w, 'e) walker) \<Rightarrow>
    node_id \<Rightarrow> acc_node \<Rightarrow> ('w, 'e) walker \<Rightarrow> 'e walk_error option \<times> acc_node \<times> ('w, 'e) walker" where
  "walk_children pv opts visit i nd st =
     (let (children, w) = pv_children pv (o_fresh opts) i (wk_world st);
          st = st\<lparr>wk_world := w\<rparr> in
      case children of
        Inl e \<Rightarrow>
          if pv_stale pv e then (Some (Failed e), nd, st\<lparr>wk_err := Some (Failed e)\<rparr>)
          else (None, nd, add_warnings [id_path i @ '': '' @ pv_text pv e] st)
      | Inr refs \<Rightarrow>
          child_loop pv opts visit refs nd
            (if int (length refs) \<noteq> nd_child_count nd then
               mark_truncated (count_mismatch i nd refs) st
             else st))"

section \<open>One visit\<close>

text \<open>What \<open>walk\<close> does up to the node that it retains: an early return, or the node that was appended.\<close>

definition enter_node :: "('w, 'e) provider \<Rightarrow> snapshot_options \<Rightarrow> bool \<Rightarrow> node_id \<Rightarrow> node_id \<Rightarrow> ('w, 'e) walker \<Rightarrow>
    (('e walk_error + acc_node) + acc_node) \<times> ('w, 'e) walker" where
  "enter_node pv opts below_root i parent st =
     (if int (length (wk_nodes st)) \<ge> o_max_nodes opts then
        (Inl (Inl (Limit (''accessibility: max nodes '' @ show_int (o_max_nodes opts) @ '' reached''))),
         mark_truncated (''max nodes '' @ show_int (o_max_nodes opts)) st)
      else if i \<in> set (wk_seen st) then (Inl (Inr zero_node), st)
      else
        let st = st\<lparr>wk_seen := i # wk_seen st\<rparr>;
            st = (if id_valid parent then st\<lparr>wk_world := pv_record pv i parent (wk_world st)\<rparr> else st);
            (result, w) = pv_read pv (o_fresh opts) i parent (o_max_text opts) (o_allow_sensitive opts) (wk_world st);
            st = st\<lparr>wk_world := w\<rparr> in
        case result of
          Inl e \<Rightarrow> (Inl (Inl (Failed e)), st)
        | Inr nd \<Rightarrow>
            if o_visible_only opts \<and> below_root \<and> \<not> nd_visible nd \<and> \<not> nd_showing nd then (Inl (Inr zero_node), st)
            else
              let st = add_warnings (elems (nd_warnings nd)) st in
              (Inr nd, st\<lparr>wk_nodes := wk_nodes st @ [nd]\<rparr>))"

text \<open>What it does after that: the subtree, and the node with its children in its place.\<close>

definition finish_node :: "('w, 'e) provider \<Rightarrow> nat \<Rightarrow> acc_node \<Rightarrow> ('w, 'e) walker \<Rightarrow> ('e walk_error + acc_node) \<times> ('w, 'e) walker" where
  "finish_node pv node_index nd st =
     (let (c, st) = ctx_err pv st in
      case c of
        Some e \<Rightarrow> (Inl (Failed e), st)
      | None \<Rightarrow> (Inr nd, st\<lparr>wk_nodes := (wk_nodes st)[node_index := nd]\<rparr>))"

definition visit_node :: "(rune \<Rightarrow> rune) \<Rightarrow> (rune \<Rightarrow> bool) \<Rightarrow> (rune \<Rightarrow> bool) \<Rightarrow> ('w, 'e) provider \<Rightarrow> snapshot_options \<Rightarrow>
    (node_id \<Rightarrow> ('w, 'e) walker \<Rightarrow> ('e walk_error + acc_node) \<times> ('w, 'e) walker) \<Rightarrow>
    bool \<Rightarrow> node_id \<Rightarrow> node_id \<Rightarrow> ('w, 'e) walker \<Rightarrow> ('e walk_error + acc_node) \<times> ('w, 'e) walker" where
  "visit_node lo sp pr pv opts visit below_root i parent st =
     (let (entered, st) = enter_node pv opts below_root i parent st in
      case entered of
        Inl result \<Rightarrow> (result, st)
      | Inr nd \<Rightarrow>
          let node_index = length (wk_nodes st) - 1 in
          if nd_child_count nd > 0 then
            if skip_role lo sp opts (nd_role nd) then
              finish_node pv node_index nd (mark_truncated (''subtree below role '' @ go_quote pr (nd_role nd) @ '' was skipped'') st)
            else
              let (failure, nd, st) = walk_children pv opts visit i nd st in
              (case failure of
                 Some e \<Rightarrow> (Inl e, st)
               | None \<Rightarrow> finish_node pv node_index nd st)
          else finish_node pv node_index nd st)"

text \<open>
  The recursion: \<open>n\<close> is the number of levels that are left, \<^verbatim>\<open>MaxDepth\<close> + 1 - \<open>depth\<close>, so that 0 is a depth
  beyond the limit and the root is visited with \<open>n\<close> = \<^verbatim>\<open>MaxDepth\<close> + 1.
\<close>

fun walk :: "(rune \<Rightarrow> rune) \<Rightarrow> (rune \<Rightarrow> bool) \<Rightarrow> (rune \<Rightarrow> bool) \<Rightarrow> ('w, 'e) provider \<Rightarrow> snapshot_options \<Rightarrow> nat \<Rightarrow> node_id \<Rightarrow> node_id \<Rightarrow>
    ('w, 'e) walker \<Rightarrow> ('e walk_error + acc_node) \<times> ('w, 'e) walker" where
  "walk lo sp pr pv opts 0 i parent st =
     (let (c, st) = ctx_err pv st in
      case c of
        Some e \<Rightarrow> (Inl (Failed e), st)
      | None \<Rightarrow> (Inl (Limit (''accessibility: max depth '' @ show_int (o_max_depth opts) @ '' reached'')),
                 mark_truncated (''max depth '' @ show_int (o_max_depth opts)) st))"
| "walk lo sp pr pv opts (Suc n) i parent st =
     (let (c, st) = ctx_err pv st in
      case c of
        Some e \<Rightarrow> (Inl (Failed e), st)
      | None \<Rightarrow> visit_node lo sp pr pv opts (\<lambda>child. walk lo sp pr pv opts n child i) (int n < o_max_depth opts) i parent st)"

definition walk_root :: "(rune \<Rightarrow> rune) \<Rightarrow> (rune \<Rightarrow> bool) \<Rightarrow> (rune \<Rightarrow> bool) \<Rightarrow> ('w, 'e) provider \<Rightarrow> snapshot_options \<Rightarrow> node_id \<Rightarrow> 'w \<Rightarrow>
    ('e walk_error + acc_node) \<times> ('w, 'e) walker" where
  "walk_root lo sp pr pv opts root w = walk lo sp pr pv opts (nat (o_max_depth opts + 1)) root no_id (walker_start w)"

end
