(* ===== verification/AccValidate.thy ===== *)
theory AccValidate
  imports AccSelect WinMatchSpec
begin

text \<open>
  When a snapshot proves that the set of nodes matching a selector is complete
  (\<^verbatim>\<open>ValidateSemanticSnapshot\<close> and its helpers in \<^verbatim>\<open>accessibility/snapshot.go\<close>): the reasons against it,
  in the order in which they are reported, and the condition under which there is none.
\<close>

section \<open>The interfaces\<close>

definition accessible_iface :: string where "accessible_iface = ''org.a11y.atspi.Accessible''"
definition text_iface :: string where "text_iface = ''org.a11y.atspi.Text''"
definition value_iface :: string where "value_iface = ''org.a11y.atspi.Value''"
definition action_iface :: string where "action_iface = ''org.a11y.atspi.Action''"
definition selection_iface :: string where "selection_iface = ''org.a11y.atspi.Selection''"
definition table_iface :: string where "table_iface = ''org.a11y.atspi.Table''"
definition document_iface :: string where "document_iface = ''org.a11y.atspi.Document''"

section \<open>What a selector needs\<close>

definition uses_name :: "(rune \<Rightarrow> bool) \<Rightarrow> selector \<Rightarrow> bool" where
  "uses_name sp sel \<longleftrightarrow>
     \<not> blank sp (sel_name sel) \<or> \<not> blank sp (sel_label sel) \<or> list_ex (\<lambda>a. \<not> blank sp (an_name a)) (sel_ancestors sel)"

definition uses_role :: "(rune \<Rightarrow> bool) \<Rightarrow> selector \<Rightarrow> bool" where
  "uses_role sp sel \<longleftrightarrow> \<not> blank sp (sel_role sel) \<or> list_ex (\<lambda>a. \<not> blank sp (an_role a)) (sel_ancestors sel)"

definition uses_text :: "(rune \<Rightarrow> bool) \<Rightarrow> selector \<Rightarrow> bool" where
  "uses_text sp sel \<longleftrightarrow> \<not> blank sp (sel_text sel) \<or> \<not> blank sp (sel_label sel)"

section \<open>Warnings\<close>

definition trim_space :: "(rune \<Rightarrow> bool) \<Rightarrow> string \<Rightarrow> string" where
  "trim_space sp s = concat (trim_runes sp (runes s))"

text \<open>The part before the first colon, and whether there is a colon.\<close>

definition warning_property :: "(rune \<Rightarrow> bool) \<Rightarrow> string \<Rightarrow> string \<times> bool" where
  "warning_property sp w =
     (let s = trim_space sp w in
      case cut CHR '':'' s of Some (before, _) \<Rightarrow> (before, True) | None \<Rightarrow> (s, False))"

definition is_optional_warning :: "(rune \<Rightarrow> bool) \<Rightarrow> string \<Rightarrow> bool" where
  "is_optional_warning sp w =
     (let (property, found) = warning_property sp w in
      found \<and>
      list_ex (\<lambda>iface. has_prefix property (iface @ ''.'') \<or> property = iface)
        [value_iface, action_iface, selection_iface, table_iface, document_iface])"

definition known_node_warning :: "(rune \<Rightarrow> bool) \<Rightarrow> string \<Rightarrow> bool" where
  "known_node_warning sp w =
     (let (property, found) = warning_property sp w in
      found \<and>
      (property \<in> set [accessible_iface @ ''.Name'', accessible_iface @ ''.ChildCount'', accessible_iface @ ''.GetRole'',
          accessible_iface @ ''.GetInterfaces'', accessible_iface @ ''.GetState'', accessible_iface @ ''.GetAttributes'',
          accessible_iface @ ''.GetRelationSet'', text_iface] \<or>
       is_optional_warning sp w))"

definition warning_affects :: "(rune \<Rightarrow> bool) \<Rightarrow> string \<Rightarrow> selector \<Rightarrow> bool" where
  "warning_affects sp w sel =
     (let property = fst (warning_property sp w) in
      if property = accessible_iface @ ''.Name'' then uses_name sp sel
      else if property = accessible_iface @ ''.GetRole'' then uses_role sp sel
      else if property = accessible_iface @ ''.GetState'' then sel_states sel \<noteq> []
      else if property = accessible_iface @ ''.ChildCount'' then True
      else if property = accessible_iface @ ''.GetInterfaces'' then uses_text sp sel
      else if property = accessible_iface @ ''.GetAttributes'' then sel_attributes sel \<noteq> []
      else if property = accessible_iface @ ''.GetRelationSet'' then \<not> blank sp (sel_label sel)
      else if property = text_iface then uses_text sp sel
      else \<not> is_optional_warning sp w)"

section \<open>The reasons\<close>

text \<open>One node: its warnings are counted, its reasons appended. A missing map entry counts as 0.\<close>

fun node_warnings_loop :: "(rune \<Rightarrow> bool) \<Rightarrow> selector \<Rightarrow> string list \<Rightarrow> string list \<times> (string \<Rightarrow> nat) \<Rightarrow> string list \<times> (string \<Rightarrow> nat)" where
  "node_warnings_loop sp sel [] (reasons, counts) = (reasons, counts)"
| "node_warnings_loop sp sel (w # ws) (reasons, counts) =
     node_warnings_loop sp sel ws
       (if warning_affects sp w sel then reasons @ [''a property required by the selector was not observed''] else reasons,
        counts(w := Suc (counts w)))"

fun nodes_loop :: "(rune \<Rightarrow> bool) \<Rightarrow> selector \<Rightarrow> acc_node list \<Rightarrow> string list \<times> (string \<Rightarrow> nat) \<Rightarrow> string list \<times> (string \<Rightarrow> nat)" where
  "nodes_loop sp sel [] acc = acc"
| "nodes_loop sp sel (nd # nds) acc =
     (let (reasons, counts) = node_warnings_loop sp sel (elems (nd_warnings nd)) acc in
      nodes_loop sp sel nds
        (if uses_text sp sel \<and> nd_text_truncated nd then reasons @ [''selector text was truncated''] else reasons, counts))"

fun warnings_loop :: "(rune \<Rightarrow> bool) \<Rightarrow> selector \<Rightarrow> string list \<Rightarrow> string list \<times> (string \<Rightarrow> nat) \<Rightarrow> string list \<times> (string \<Rightarrow> nat)" where
  "warnings_loop sp sel [] acc = acc"
| "warnings_loop sp sel (w # ws) (reasons, counts) =
     (if counts w > 0 then warnings_loop sp sel ws (reasons, counts(w := counts w - 1))
      else if warning_affects sp w sel \<or> \<not> known_node_warning sp w then
        warnings_loop sp sel ws
          (reasons @ [''tree traversal or a property required by the selector was not observed''], counts)
      else warnings_loop sp sel ws (reasons, counts))"

definition diagnostic_reasons :: "(rune \<Rightarrow> bool) \<Rightarrow> snapshot \<Rightarrow> selector \<Rightarrow> string list" where
  "diagnostic_reasons sp s sel =
     (let (reasons, counts) = nodes_loop sp sel (elems (sn_nodes s)) ([], \<lambda>_. 0);
          reasons = (if sn_provider_errors s \<noteq> int (length (elems (sn_warnings s)))
            then reasons @ [''provider error and warning totals do not agree''] else reasons);
          (reasons, counts) = warnings_loop sp sel (elems (sn_warnings s)) (reasons, counts);
          keys = concat (map (\<lambda>nd. elems (nd_warnings nd)) (elems (sn_nodes s))) in
      if list_ex (\<lambda>w. counts w > 0) keys
      then reasons @ [''node warnings are missing from snapshot diagnostics''] else reasons)"

fun join_with :: "string \<Rightarrow> string list \<Rightarrow> string" where
  "join_with sep [] = []"
| "join_with sep [s] = s"
| "join_with sep (s # t # ss) = s @ sep @ join_with sep (t # ss)"

text \<open>\<open>None\<close> is a nil error; otherwise the text after \<^verbatim>\<open>ErrIncompleteSnapshot\<close>.\<close>

definition validate_semantic_snapshot :: "(rune \<Rightarrow> bool) \<Rightarrow> snapshot \<Rightarrow> selector \<Rightarrow> string option" where
  "validate_semantic_snapshot sp s sel =
     (let reasons =
        (if sn_truncated s then
           if elems (sn_reasons s) = [] then [''bounded traversal was truncated'']
           else [''bounded traversal was truncated: '' @ join_with '', '' (elems (sn_reasons s))]
         else []) @ diagnostic_reasons sp s sel in
      if reasons = [] then None else Some (join_with ''; '' reasons))"

section \<open>The condition\<close>

definition node_warnings :: "snapshot \<Rightarrow> string list" where
  "node_warnings s = concat (map (\<lambda>nd. elems (nd_warnings nd)) (elems (sn_nodes s)))"

lemma count_mset_list: "count (mset xs) x = count_list xs x"
  by (induction xs) auto

lemma node_warnings_loop_eq:
  "node_warnings_loop sp sel ws (reasons, counts) =
     (reasons @ map (\<lambda>_. ''a property required by the selector was not observed'') (filter (\<lambda>w. warning_affects sp w sel) ws),
      \<lambda>w. counts w + count_list ws w)"
  by (induction ws arbitrary: reasons counts) auto

lemma nodes_loop_counts:
  "snd (nodes_loop sp sel nds (reasons, counts)) = (\<lambda>w. counts w + count_list (concat (map (\<lambda>nd. elems (nd_warnings nd)) nds)) w)"
  by (induction nds arbitrary: reasons counts) (auto simp: node_warnings_loop_eq)

lemma nodes_loop_none:
  "fst (nodes_loop sp sel nds (reasons, counts)) = [] \<longleftrightarrow>
     reasons = [] \<and> (\<forall>nd\<in>set nds. (\<forall>w\<in>set (elems (nd_warnings nd)). \<not> warning_affects sp w sel) \<and>
       \<not> (uses_text sp sel \<and> nd_text_truncated nd))"
  by (induction nds arbitrary: reasons counts) (auto simp: node_warnings_loop_eq filter_empty_conv)

lemma warnings_loop_spec:
  assumes "\<And>w. counts w = count M w"
  shows "(\<forall>w. snd (warnings_loop sp sel ws (reasons, counts)) w = count (M - mset ws) w) \<and>
    (fst (warnings_loop sp sel ws (reasons, counts)) = [] \<longleftrightarrow>
       reasons = [] \<and> (\<forall>w\<in>#mset ws - M. known_node_warning sp w \<and> \<not> warning_affects sp w sel))"
  using assms
proof (induction ws arbitrary: reasons counts M)
  case (Cons w ws)
  show ?case
  proof (cases "counts w > 0")
    case True
    then have w: "w \<in># M" using Cons.prems by (simp add: count_greater_zero_iff[symmetric] del: count_greater_zero_iff)
    have counts: "(counts(w := counts w - 1)) v = count (M - {#w#}) v" for v
      using Cons.prems by simp
    have sub: "M - {#w#} - mset ws = M - mset (w # ws)" "mset ws - (M - {#w#}) = mset (w # ws) - M"
      using w by (auto simp: multiset_eq_iff)
    have step: "warnings_loop sp sel (w # ws) (reasons, counts) = warnings_loop sp sel ws (reasons, counts(w := counts w - 1))"
      using True by simp
    show ?thesis
      using Cons.IH[OF counts, of reasons] unfolding step sub .
  next
    case False
    then have w: "w \<notin># M" using Cons.prems by (simp add: not_in_iff)
    then have sub: "M - mset (w # ws) = M - mset ws" "mset (w # ws) - M = add_mset w (mset ws - M)"
      by (auto simp: multiset_eq_iff not_in_iff)
    show ?thesis
      using Cons.IH[OF Cons.prems] False unfolding sub by auto
  qed
qed simp

lemma diagnostic_reasons_none:
  "diagnostic_reasons sp s sel = [] \<longleftrightarrow>
     (\<forall>w\<in>set (node_warnings s). \<not> warning_affects sp w sel) \<and>
     (uses_text sp sel \<longrightarrow> list_all (\<lambda>nd. \<not> nd_text_truncated nd) (elems (sn_nodes s))) \<and>
     sn_provider_errors s = int (length (elems (sn_warnings s))) \<and>
     mset (node_warnings s) \<subseteq># mset (elems (sn_warnings s)) \<and>
     (\<forall>w\<in>#mset (elems (sn_warnings s)) - mset (node_warnings s). known_node_warning sp w \<and> \<not> warning_affects sp w sel)"
proof -
  obtain r c where nodes: "nodes_loop sp sel (elems (sn_nodes s)) ([], \<lambda>_. 0) = (r, c)" by fastforce
  define r1 where "r1 = (if sn_provider_errors s \<noteq> int (length (elems (sn_warnings s)))
    then r @ [''provider error and warning totals do not agree''] else r)"
  obtain r2 c2 where warns: "warnings_loop sp sel (elems (sn_warnings s)) (r1, c) = (r2, c2)" by fastforce
  have c: "c w = count (mset (node_warnings s)) w" for w
    using nodes_loop_counts[of sp sel "elems (sn_nodes s)" "[]" "\<lambda>_. 0"] nodes
    by (simp add: node_warnings_def count_mset_list)
  have r: "r = [] \<longleftrightarrow> (\<forall>w\<in>set (node_warnings s). \<not> warning_affects sp w sel) \<and>
      (uses_text sp sel \<longrightarrow> list_all (\<lambda>nd. \<not> nd_text_truncated nd) (elems (sn_nodes s)))"
    using nodes_loop_none[of sp sel "elems (sn_nodes s)" "[]" "\<lambda>_. 0"] nodes
    by (auto simp: node_warnings_def list_all_iff)
  note w = warnings_loop_spec[of c "mset (node_warnings s)" sp sel "elems (sn_warnings s)" r1, OF c, unfolded warns]
  have missing: "list_ex (\<lambda>w. c2 w > 0) (node_warnings s) \<longleftrightarrow> \<not> mset (node_warnings s) \<subseteq># mset (elems (sn_warnings s))"
  proof -
    have "c2 w > 0 \<longleftrightarrow> w \<in># mset (node_warnings s) - mset (elems (sn_warnings s))" for w
      using w warns by (simp add: count_greater_zero_iff[symmetric] del: count_greater_zero_iff)
    then have "list_ex (\<lambda>w. c2 w > 0) (node_warnings s) \<longleftrightarrow> (\<exists>w. w \<in># mset (node_warnings s) - mset (elems (sn_warnings s)))"
      by (auto simp: list_ex_iff) (metis in_diffD set_mset_mset)
    also have "\<dots> \<longleftrightarrow> \<not> mset (node_warnings s) \<subseteq># mset (elems (sn_warnings s))"
      by (auto simp: Diff_eq_empty_iff_mset[symmetric] simp del: Diff_eq_empty_iff_mset)
    finally show ?thesis .
  qed
  have "diagnostic_reasons sp s sel = [] \<longleftrightarrow> r2 = [] \<and> \<not> list_ex (\<lambda>w. c2 w > 0) (node_warnings s)"
    unfolding diagnostic_reasons_def nodes Let_def r1_def[symmetric] node_warnings_def[symmetric]
    by (simp add: warns r1_def[symmetric])
  then show ?thesis
    unfolding missing using w r by (auto simp: r1_def)
qed

text \<open>
  C20. A snapshot is accepted for a selector exactly when it was not truncated, no node misses a property
  that the selector looks at, no text is cut when the selector looks at texts, the number of provider
  errors is the number of warnings, every warning of a node is among the warnings of the snapshot (as
  often as it occurs), and each further warning is about a known property that the selector does not
  look at. The order of nodes and warnings does not matter.
\<close>

theorem semantic_snapshot_accepted:
  "validate_semantic_snapshot sp s sel = None \<longleftrightarrow>
     \<not> sn_truncated s \<and>
     (\<forall>w\<in>set (node_warnings s). \<not> warning_affects sp w sel) \<and>
     (uses_text sp sel \<longrightarrow> list_all (\<lambda>nd. \<not> nd_text_truncated nd) (elems (sn_nodes s))) \<and>
     sn_provider_errors s = int (length (elems (sn_warnings s))) \<and>
     mset (node_warnings s) \<subseteq># mset (elems (sn_warnings s)) \<and>
     (\<forall>w\<in>#mset (elems (sn_warnings s)) - mset (node_warnings s). known_node_warning sp w \<and> \<not> warning_affects sp w sel)"
  unfolding validate_semantic_snapshot_def diagnostic_reasons_none[symmetric] Let_def by auto

text \<open>A warning about the attributes of a node does not stop a selector that asks for a state.\<close>

definition attribute_warning :: string where
  "attribute_warning = ''org.a11y.atspi.Accessible.GetAttributes: timeout''"

definition warned_snapshot :: snapshot where
  "warned_snapshot =
     \<lparr>sn_root = bare_node no_id, sn_nodes = Some [(bare_node no_id)\<lparr>nd_warnings := Some [attribute_warning]\<rparr>],
      sn_truncated = False, sn_reasons = None, sn_provider_errors = 1, sn_warnings = Some [attribute_warning],
      sn_generation = 1, sn_captured = [], sn_source = ''at-spi''\<rparr>"

definition focused_selector :: selector where
  "focused_selector =
     \<lparr>sel_role = [], sel_name = [], sel_label = [], sel_text = [], sel_states = [''focused''], sel_attributes = [],
      sel_ancestors = []\<rparr>"

theorem semantic_snapshot_accepted_witness:
  "validate_semantic_snapshot (\<lambda>_. False) warned_snapshot focused_selector = None"
proof -
  have "\<not> warning_affects (\<lambda>_. False) attribute_warning focused_selector"
    by code_simp
  moreover have "\<not> uses_text (\<lambda>_. False) focused_selector"
    by code_simp
  moreover have "node_warnings warned_snapshot = [attribute_warning]"
    by (simp add: node_warnings_def warned_snapshot_def)
  ultimately show ?thesis
    unfolding semantic_snapshot_accepted by (simp add: warned_snapshot_def)
qed

end
