(* ===== verification/AccNode.thy ===== *)
theory AccNode
  imports AccBudget AccValidate "HOL-Library.State_Monad" "HOL-Library.Monad_Syntax"
begin

unbundle bit_operations_syntax

text \<open>
  Reading one accessible object (\<^verbatim>\<open>accessibility/node.go\<close>, and the action calls of
  \<^verbatim>\<open>accessibility/automation.go\<close>): which calls are made in which order, how their answers and failures
  become fields and warnings, and what is redacted. Answers of the bus, the state of the backend and
  of the context are those of a world \<open>'w\<close> that every call may change.
\<close>

section \<open>The bus\<close>

datatype variant = VString string | VInt32 int32 | VUint32 u32 | VFloat64 float64 | VFloat32 u32 | VOther string

record cache_item =
  ci_object :: identity
  ci_application :: identity
  ci_parent :: identity
  ci_index :: int32
  ci_child_count :: int32
  ci_interfaces :: "string list"
  ci_name :: string
  ci_role :: u32
  ci_description :: string
  ci_states :: "u32 list"

text \<open>
  \<^verbatim>\<open>ctx.Err\<close>, \<^verbatim>\<open>object\<close>, \<^verbatim>\<open>validateHandle\<close>, \<^verbatim>\<open>generationError\<close>, \<^verbatim>\<open>cachedItem\<close> and \<^verbatim>\<open>refID\<close> of the backend; the calls
  \<^verbatim>\<open>b.call\<close> with the Go type that their answer is stored in; errors from a format and as a text; the
  conversions of numbers to \<^verbatim>\<open>float64\<close>.
\<close>

record ('w, 'e) bus =
  bs_ctx :: "('w, 'e option) state"
  bs_object :: "node_id \<Rightarrow> ('w, 'e option) state"
  bs_handle :: "node_id \<Rightarrow> ('w, 'e option) state"
  bs_generation :: "u64 \<Rightarrow> ('w, 'e option) state"
  bs_cached :: "node_id \<Rightarrow> ('w, cache_item option) state"
  bs_ref :: "identity \<Rightarrow> ('w, node_id) state"
  bs_get :: "node_id \<Rightarrow> string \<Rightarrow> string \<Rightarrow> ('w, 'e + variant) state"
  bs_role :: "node_id \<Rightarrow> ('w, 'e + u32) state"
  bs_interfaces :: "node_id \<Rightarrow> ('w, 'e + string slice) state"
  bs_states :: "node_id \<Rightarrow> ('w, 'e + u32 list) state"
  bs_extents :: "node_id \<Rightarrow> ('w, 'e + int32 \<times> int32 \<times> int32 \<times> int32) state"
  bs_text :: "node_id \<Rightarrow> int32 \<Rightarrow> int32 \<Rightarrow> ('w, 'e + string) state"
  bs_attributes :: "node_id \<Rightarrow> ('w, 'e + (string \<times> string) slice) state"
  bs_actions :: "node_id \<Rightarrow> ('w, 'e + (string \<times> string \<times> string) list) state"
  bs_action_name :: "node_id \<Rightarrow> int32 \<Rightarrow> ('w, 'e + string) state"
  bs_selected :: "node_id \<Rightarrow> ('w, 'e + int32) state"
  bs_relations :: "node_id \<Rightarrow> ('w, 'e + (u32 \<times> identity list) list) state"
  bs_errorf :: "string \<Rightarrow> 'e"
  bs_error :: "'e \<Rightarrow> string"
  bs_unsupported :: "string \<Rightarrow> 'e"
  bs_float :: "variant \<Rightarrow> float64"

definition component_iface :: string where "component_iface = ''org.a11y.atspi.Component''"

text \<open>What \<^verbatim>\<open>%T\<close> prints of a value; other types come with their name.\<close>

definition type_name :: "variant \<Rightarrow> string" where
  "type_name v =
     (case v of VString _ \<Rightarrow> ''string'' | VInt32 _ \<Rightarrow> ''int32'' | VUint32 _ \<Rightarrow> ''uint32'' | VFloat64 _ \<Rightarrow> ''float64''
      | VFloat32 _ \<Rightarrow> ''float32'' | VOther t \<Rightarrow> t)"

definition type_error :: "('w, 'e) bus \<Rightarrow> string \<Rightarrow> string \<Rightarrow> variant \<Rightarrow> 'e" where
  "type_error bs iface name v =
     bs_errorf bs (''accessibility: property '' @ iface @ ''.'' @ name @ '' has type '' @ type_name v)"

definition property_string :: "('w, 'e) bus \<Rightarrow> node_id \<Rightarrow> string \<Rightarrow> string \<Rightarrow> ('w, 'e + string) state" where
  "property_string bs i iface name = do {
     r \<leftarrow> bs_get bs i iface name;
     State_Monad.return (case r of Inl e \<Rightarrow> Inl e | Inr v \<Rightarrow>
       (case v of VString s \<Rightarrow> Inr s | _ \<Rightarrow> Inl (type_error bs iface name v)))
   }"

definition property_int32 :: "('w, 'e) bus \<Rightarrow> node_id \<Rightarrow> string \<Rightarrow> string \<Rightarrow> ('w, 'e + int32) state" where
  "property_int32 bs i iface name = do {
     r \<leftarrow> bs_get bs i iface name;
     State_Monad.return (case r of Inl e \<Rightarrow> Inl e | Inr v \<Rightarrow>
       (case v of VInt32 n \<Rightarrow> Inr n | _ \<Rightarrow> Inl (type_error bs iface name v)))
   }"

definition property_float :: "('w, 'e) bus \<Rightarrow> node_id \<Rightarrow> string \<Rightarrow> string \<Rightarrow> ('w, 'e + float64) state" where
  "property_float bs i iface name = do {
     r \<leftarrow> bs_get bs i iface name;
     State_Monad.return (case r of Inl e \<Rightarrow> Inl e | Inr v \<Rightarrow>
       (case v of
          VFloat64 f \<Rightarrow> Inr f
        | VFloat32 f \<Rightarrow> Inr (bs_float bs v)
        | VInt32 n \<Rightarrow> Inr (bs_float bs v)
        | VUint32 n \<Rightarrow> Inr (bs_float bs v)
        | _ \<Rightarrow> Inl (type_error bs iface name v)))
   }"

section \<open>Names\<close>

definition role_names :: "(nat \<times> string) list" where
  "role_names =
     [(7, ''check-box''), (11, ''combo-box''), (16, ''dialog''), (23, ''frame''), (25, ''html-container''),
      (28, ''internal-frame''), (31, ''list''), (32, ''list-item''), (39, ''panel''), (43, ''button''), (61, ''text''),
      (69, ''window''), (73, ''paragraph''), (75, ''application''), (78, ''embedded''), (79, ''entry''),
      (82, ''document-frame''), (83, ''heading''), (84, ''page''), (85, ''section''), (88, ''link''), (98, ''list-box''),
      (99, ''grouping''), (106, ''audio''), (110, ''landmark''), (129, ''push-button''), (130, ''switch'')]"

definition role_name :: "u32 \<Rightarrow> string" where
  "role_name role =
     (case map_of role_names (unat role) of Some name \<Rightarrow> name | None \<Rightarrow> ''role-'' @ show_nat (unat role))"

definition state_names :: "(nat \<times> string) list" where
  "state_names =
     [(1, ''active''), (3, ''busy''), (4, ''checked''), (5, ''collapsed''), (7, ''editable''), (8, ''enabled''),
      (9, ''expandable''), (10, ''expanded''), (11, ''focusable''), (12, ''focused''), (20, ''pressed''),
      (22, ''selectable''), (23, ''selected''), (24, ''sensitive''), (25, ''showing''), (26, ''indeterminate''),
      (27, ''stale''), (28, ''transient''), (29, ''vertical''), (30, ''visible''), (33, ''required''), (34, ''protected'')]"

definition state_name :: "u32 \<Rightarrow> string" where
  "state_name s = (case map_of state_names (unat s) of Some name \<Rightarrow> name | None \<Rightarrow> [])"

definition relation_names :: "(nat \<times> string) list" where
  "relation_names =
     [(0, ''label-for''), (1, ''labelled-by''), (2, ''controller-for''), (3, ''controlled-by''), (4, ''member-of''),
      (5, ''tooltip-for''), (6, ''described-by''), (7, ''description-for''), (8, ''node-child-of''), (9, ''flows-to''),
      (10, ''flows-from''), (11, ''subwindow-of''), (12, ''embeds''), (13, ''embedded-by''), (14, ''popup-for''),
      (15, ''parent-window-of''), (16, ''details''), (17, ''details-for''), (18, ''error-message''), (19, ''error-for'')]"

definition relation_name :: "u32 \<Rightarrow> string" where
  "relation_name r = (case map_of relation_names (unat r) of Some name \<Rightarrow> name | None \<Rightarrow> [])"

section \<open>States\<close>

definition append_state :: "string \<Rightarrow> acc_node \<Rightarrow> acc_node" where
  "append_state name nd = (if name = [] then nd else nd\<lparr>nd_states := Some (elems (nd_states nd) @ [name])\<rparr>)"

definition apply_state :: "u32 \<Rightarrow> acc_node \<Rightarrow> acc_node" where
  "apply_state s nd =
     (let nd = append_state (state_name s) nd in
      if s = 8 then nd\<lparr>nd_enabled := True\<rparr>
      else if s = 12 then nd\<lparr>nd_focused := True\<rparr>
      else if s = 25 then nd\<lparr>nd_showing := True\<rparr>
      else if s = 30 then nd\<lparr>nd_visible := True\<rparr>
      else nd)"

text \<open>The numbers of the bits that are set, word by word from the lowest bit.\<close>

fun state_bits :: "nat \<Rightarrow> u32 list \<Rightarrow> u32 list" where
  "state_bits word_index [] = []"
| "state_bits word_index (bits # rest) =
     map (\<lambda>b. of_nat (word_index * 32) + of_nat b) (filter (\<lambda>b. bits AND push_bit b 1 \<noteq> 0) [0..<32]) @
     state_bits (Suc word_index) rest"

definition apply_states :: "u32 list \<Rightarrow> acc_node \<Rightarrow> acc_node" where
  "apply_states states nd = fold apply_state (state_bits 0 states) nd"

definition has_sensitive_state :: "(rune \<Rightarrow> rune) \<Rightarrow> string list \<Rightarrow> bool" where
  "has_sensitive_state cf states = list_ex (\<lambda>s. equal_fold cf s ''sensitive'' \<or> equal_fold cf s ''protected'') states"

section \<open>Redaction\<close>

definition sensitive_key :: "(rune \<Rightarrow> rune) \<Rightarrow> string \<Rightarrow> bool" where
  "sensitive_key lo key =
     (let lower = go_to_lower lo key in
      lower = ''value'' \<or> sublist ''text'' lower \<or> sublist ''password'' lower \<or> sublist ''secret'' lower \<or> sublist ''protected'' lower)"

definition redact_sensitive_node :: "(rune \<Rightarrow> rune) \<Rightarrow> acc_node \<Rightarrow> acc_node" where
  "redact_sensitive_node lo nd =
     nd\<lparr>nd_redacted := True, nd_text := [], nd_value := None,
        nd_attributes := map_option (filter (\<lambda>(key, _). \<not> sensitive_key lo key)) (nd_attributes nd)\<rparr>"

definition max_int32 :: "int32 \<Rightarrow> int32" where
  "max_int32 v = (if sint v < 0 then 0 else v)"

section \<open>Properties of one node\<close>

definition answered :: "'a + 'b \<Rightarrow> bool" where
  "answered r = (case r of Inl _ \<Rightarrow> False | Inr _ \<Rightarrow> True)"

definition warn :: "string \<Rightarrow> acc_node \<Rightarrow> acc_node" where
  "warn w nd = nd\<lparr>nd_warnings := Some (elems (nd_warnings nd) @ [w])\<rparr>"

text \<open>A warning: the interface and the member, a colon, the error.\<close>

definition warn_error :: "('w, 'e) bus \<Rightarrow> string \<Rightarrow> 'e \<Rightarrow> acc_node \<Rightarrow> acc_node" where
  "warn_error bs what e = warn (what @ '': '' @ bs_error bs e)"

definition on_answer :: "('e \<Rightarrow> 'a) \<Rightarrow> ('b \<Rightarrow> 'a) \<Rightarrow> 'e + 'b \<Rightarrow> 'a" where
  "on_answer failed ok r = (case r of Inl e \<Rightarrow> failed e | Inr x \<Rightarrow> ok x)"

definition from_item :: "cache_item \<Rightarrow> acc_node \<Rightarrow> acc_node" where
  "from_item item nd =
     apply_states (ci_states item)
       (nd\<lparr>nd_name := ci_name item, nd_description := ci_description item,
          nd_child_count := sint (max_int32 (ci_child_count item)), nd_role_id := ci_role item,
          nd_role := role_name (ci_role item),
          nd_interfaces := (if ci_interfaces item = [] then None else Some (ci_interfaces item))\<rparr>)"

definition set_role :: "u32 \<Rightarrow> acc_node \<Rightarrow> acc_node" where
  "set_role role nd = nd\<lparr>nd_role_id := role, nd_role := role_name role\<rparr>"

text \<open>A read that may be cached: what fails stays empty.\<close>

definition read_lenient :: "('w, 'e) bus \<Rightarrow> node_id \<Rightarrow> acc_node \<Rightarrow> ('w, acc_node) state" where
  "read_lenient bs i nd = do {
     name \<leftarrow> property_string bs i accessible_iface ''Name'';
     description \<leftarrow> property_string bs i accessible_iface ''Description'';
     count \<leftarrow> property_int32 bs i accessible_iface ''ChildCount'';
     role \<leftarrow> bs_role bs i;
     interfaces \<leftarrow> bs_interfaces bs i;
     states \<leftarrow> bs_states bs i;
     State_Monad.return
       (on_answer (\<lambda>_ nd. nd) apply_states states
         (on_answer (\<lambda>_ nd. nd\<lparr>nd_interfaces := None\<rparr>) (\<lambda>xs nd. nd\<lparr>nd_interfaces := xs\<rparr>) interfaces
           (on_answer (\<lambda>_ nd. nd) set_role role
             (on_answer (\<lambda>_ nd. nd) (\<lambda>c nd. if sint c > 0 then nd\<lparr>nd_child_count := sint c\<rparr> else nd) count
               (on_answer (\<lambda>_ nd. nd) (\<lambda>s nd. nd\<lparr>nd_description := s\<rparr>) description
                 (on_answer (\<lambda>_ nd. nd) (\<lambda>s nd. nd\<lparr>nd_name := s\<rparr>) name nd))))))
   }"

text \<open>A fresh read: what fails is a warning, except for the description.\<close>

definition read_fresh :: "('w, 'e) bus \<Rightarrow> node_id \<Rightarrow> acc_node \<Rightarrow> ('w, acc_node) state" where
  "read_fresh bs i nd = do {
     name \<leftarrow> property_string bs i accessible_iface ''Name'';
     description \<leftarrow> property_string bs i accessible_iface ''Description'';
     count \<leftarrow> property_int32 bs i accessible_iface ''ChildCount'';
     role \<leftarrow> bs_role bs i;
     interfaces \<leftarrow> bs_interfaces bs i;
     states \<leftarrow> bs_states bs i;
     State_Monad.return
       (on_answer (warn_error bs (accessible_iface @ ''.GetState'')) apply_states states
         (on_answer (warn_error bs (accessible_iface @ ''.GetInterfaces'')) (\<lambda>xs nd. nd\<lparr>nd_interfaces := xs\<rparr>) interfaces
           (on_answer (warn_error bs (accessible_iface @ ''.GetRole'')) set_role role
             (on_answer (warn_error bs (accessible_iface @ ''.ChildCount''))
                 (\<lambda>c nd. nd\<lparr>nd_child_count := sint (max_int32 c)\<rparr>) count
               (on_answer (\<lambda>_ nd. nd) (\<lambda>s nd. nd\<lparr>nd_description := s\<rparr>) description
                 (on_answer (warn_error bs (accessible_iface @ ''.Name'')) (\<lambda>s nd. nd\<lparr>nd_name := s\<rparr>) name nd))))))
   }"

definition read_component :: "('w, 'e) bus \<Rightarrow> node_id \<Rightarrow> acc_node \<Rightarrow> ('w, acc_node) state" where
  "read_component bs i nd =
     (if component_iface \<notin> set (elems (nd_interfaces nd)) then State_Monad.return nd
      else do {
        r \<leftarrow> bs_extents bs i;
        State_Monad.return
          (on_answer (\<lambda>_. nd)
            (\<lambda>(x, y, w, h). nd\<lparr>nd_bounds := \<lparr>r_x = sint x, r_y = sint y, r_width = sint w, r_height = sint h\<rparr>, nd_has_bounds := True\<rparr>) r)
      })"

definition default_max_text :: int where "default_max_text = 4096"

text \<open>The text and the error of the calls; \<open>word_of_int\<close> is the conversion \<^verbatim>\<open>int32(maxText)\<close>.\<close>

definition read_text :: "('w, 'e) bus \<Rightarrow> node_id \<Rightarrow> int \<Rightarrow> acc_node \<Rightarrow> ('w, acc_node \<times> 'e option) state" where
  "read_text bs i max_text nd =
     (if text_iface \<notin> set (elems (nd_interfaces nd)) then State_Monad.return (nd, None)
      else do {
        r \<leftarrow> property_int32 bs i text_iface ''CharacterCount'';
        (case r of
           Inl e \<Rightarrow> State_Monad.return (nd, Some e)
         | Inr chars \<Rightarrow>
             if sint chars \<le> 0 then State_Monad.return (nd, None)
             else
               let max_text = (if max_text \<le> 0 then default_max_text else max_text);
                   chars = (if sint chars > sint (word_of_int max_text :: int32) then word_of_int max_text else chars) in
               do {
                 t \<leftarrow> bs_text bs i 0 chars;
                 State_Monad.return
                   (on_answer (\<lambda>e. (nd, Some e))
                     (\<lambda>s. let (s, cut_off) = truncate_utf8 s max_text in (nd\<lparr>nd_text := s, nd_text_truncated := cut_off\<rparr>, None)) t)
               })
      })"

definition read_attributes :: "('w, 'e) bus \<Rightarrow> node_id \<Rightarrow> acc_node \<Rightarrow> ('w, acc_node \<times> 'e option) state" where
  "read_attributes bs i nd = do {
     r \<leftarrow> bs_attributes bs i;
     State_Monad.return (on_answer (\<lambda>e. (nd, Some e)) (\<lambda>attrs. (nd\<lparr>nd_attributes := attrs\<rparr>, None)) r)
   }"

section \<open>Optional interfaces\<close>

definition has_iface :: "string slice \<Rightarrow> string \<Rightarrow> bool" where
  "has_iface interfaces iface \<longleftrightarrow> iface \<in> set (elems interfaces)"

definition read_value :: "('w, 'e) bus \<Rightarrow> node_id \<Rightarrow> acc_node \<Rightarrow> ('w, acc_node) state" where
  "read_value bs i nd = do {
     current \<leftarrow> property_float bs i value_iface ''CurrentValue'';
     (case current of
        Inl e \<Rightarrow> State_Monad.return (warn_error bs (value_iface @ ''.CurrentValue'') e nd)
      | Inr c \<Rightarrow> do {
          minimum \<leftarrow> property_float bs i value_iface ''MinimumValue'';
          maximum \<leftarrow> property_float bs i value_iface ''MaximumValue'';
          increment \<leftarrow> property_float bs i value_iface ''MinimumIncrement'';
          State_Monad.return
            (on_answer (warn_error bs (value_iface @ ''.MinimumIncrement'')) (\<lambda>_ nd. nd) increment
              (on_answer (warn_error bs (value_iface @ ''.MaximumValue'')) (\<lambda>_ nd. nd) maximum
                (on_answer (warn_error bs (value_iface @ ''.MinimumValue'')) (\<lambda>_ nd. nd) minimum
                  (nd\<lparr>nd_value := Some \<lparr>v_current = c, v_minimum = on_answer (\<lambda>_. 0) (\<lambda>x. x) minimum,
                     v_maximum = on_answer (\<lambda>_. 0) (\<lambda>x. x) maximum,
                     v_increment = on_answer (\<lambda>_. 0) (\<lambda>x. x) increment\<rparr>\<rparr>))))
        })
   }"

text \<open>The action calls check the context and the handle first and rewrite an error of the call.\<close>

definition normalize_mutation_error :: "('w, 'e) bus \<Rightarrow> string \<Rightarrow> string \<Rightarrow> 'e \<Rightarrow> 'e" where
  "normalize_mutation_error bs iface method e =
     (if sublist ''UnknownMethod'' (bs_error bs e) \<or> sublist ''UnknownInterface'' (bs_error bs e)
      then bs_unsupported bs (iface @ ''.'' @ method)
      else bs_errorf bs (''accessibility: '' @ iface @ ''.'' @ method @ '': '' @ bs_error bs e))"

definition action_call :: "('w, 'e) bus \<Rightarrow> node_id \<Rightarrow> string \<Rightarrow> ('w, 'e + 'a) state \<Rightarrow> ('w, 'e + 'a) state" where
  "action_call bs i method call = do {
     c \<leftarrow> bs_ctx bs;
     (case c of
        Some e \<Rightarrow> State_Monad.return (Inl e)
      | None \<Rightarrow> do {
          obj \<leftarrow> bs_object bs i;
          (case obj of
             Some e \<Rightarrow> State_Monad.return (Inl e)
           | None \<Rightarrow> do {
               r \<leftarrow> call;
               State_Monad.return (map_sum (normalize_mutation_error bs action_iface method) (\<lambda>x. x) r)
             })
        })
   }"

fun wire_actions :: "nat \<Rightarrow> (string \<times> string \<times> string) list \<Rightarrow> acc_action list" where
  "wire_actions n [] = []"
| "wire_actions n ((localized, description, binding) # rest) =
     \<lparr>a_index = of_nat n, a_name = [], a_localized = localized, a_description = description, a_binding = binding\<rparr> #
     wire_actions (Suc n) rest"

definition action_metadata :: "('w, 'e) bus \<Rightarrow> node_id \<Rightarrow> ('w, 'e + acc_action list) state" where
  "action_metadata bs i = do {
     r \<leftarrow> action_call bs i ''GetActions'' (bs_actions bs i);
     State_Monad.return (map_sum (\<lambda>e. e) (wire_actions 0) r)
   }"

definition action_name :: "('w, 'e) bus \<Rightarrow> node_id \<Rightarrow> int32 \<Rightarrow> ('w, 'e + string) state" where
  "action_name bs i index = action_call bs i ''GetName'' (bs_action_name bs i index)"

text \<open>The names of the actions: the actions with the names that could be read, and the warnings.\<close>

fun name_actions :: "('w, 'e) bus \<Rightarrow> node_id \<Rightarrow> acc_action list \<Rightarrow> acc_node \<Rightarrow> ('w, acc_action list \<times> acc_node) state" where
  "name_actions bs i [] nd = State_Monad.return ([], nd)"
| "name_actions bs i (a # as) nd = do {
     name \<leftarrow> action_name bs i (a_index a);
     (as, nd) \<leftarrow> name_actions bs i as
       (on_answer (warn_error bs (action_iface @ ''.GetName('' @ show_int (sint (a_index a)) @ '')'')) (\<lambda>_ nd. nd) name nd);
     State_Monad.return (on_answer (\<lambda>_. a) (\<lambda>s. a\<lparr>a_name := s\<rparr>) name # as, nd)
   }"

definition read_actions :: "('w, 'e) bus \<Rightarrow> node_id \<Rightarrow> acc_node \<Rightarrow> ('w, acc_node) state" where
  "read_actions bs i nd = do {
     r \<leftarrow> action_metadata bs i;
     (case r of
        Inl e \<Rightarrow> State_Monad.return (warn_error bs (action_iface @ ''.GetActions'') e nd)
      | Inr actions \<Rightarrow> do {
          (actions, nd) \<leftarrow> name_actions bs i actions nd;
          State_Monad.return (nd\<lparr>nd_actions := Some actions\<rparr>)
        })
   }"

definition read_selection :: "('w, 'e) bus \<Rightarrow> node_id \<Rightarrow> acc_node \<Rightarrow> ('w, acc_node) state" where
  "read_selection bs i nd = do {
     r \<leftarrow> bs_selected bs i;
     State_Monad.return
       (on_answer (warn_error bs (selection_iface @ ''.GetSelectedChildCount''))
         (\<lambda>count nd. nd\<lparr>nd_selection := Some \<lparr>s_count = max_int32 count\<rparr>\<rparr>) r nd)
   }"

definition read_table :: "('w, 'e) bus \<Rightarrow> node_id \<Rightarrow> acc_node \<Rightarrow> ('w, acc_node) state" where
  "read_table bs i nd = do {
     rows \<leftarrow> property_int32 bs i table_iface ''NRows'';
     columns \<leftarrow> property_int32 bs i table_iface ''NColumns'';
     let nd = (if answered rows \<or> answered columns
               then nd\<lparr>nd_table := Some \<lparr>t_rows = max_int32 (on_answer (\<lambda>_. 0) (\<lambda>n. n) rows),
                                       t_columns = max_int32 (on_answer (\<lambda>_. 0) (\<lambda>n. n) columns)\<rparr>\<rparr>
               else nd) in
     State_Monad.return
       (on_answer (warn_error bs (table_iface @ ''.NColumns'')) (\<lambda>_ nd. nd) columns
         (on_answer (warn_error bs (table_iface @ ''.NRows'')) (\<lambda>_ nd. nd) rows nd))
   }"

definition read_document :: "('w, 'e) bus \<Rightarrow> node_id \<Rightarrow> acc_node \<Rightarrow> ('w, acc_node) state" where
  "read_document bs i nd = do {
     loc \<leftarrow> property_string bs i document_iface ''Locale'';
     page \<leftarrow> property_int32 bs i document_iface ''CurrentPageNumber'';
     pages \<leftarrow> property_int32 bs i document_iface ''PageCount'';
     State_Monad.return
       (if answered loc \<or> answered page \<or> answered pages
        then nd\<lparr>nd_document := Some \<lparr>d_locale = on_answer (\<lambda>_. []) (\<lambda>s. s) loc, d_page = on_answer (\<lambda>_. 0) (\<lambda>n. n) page,
               d_pages = on_answer (\<lambda>_. 0) (\<lambda>n. n) pages\<rparr>\<rparr>
        else warn (document_iface @ '': no readable document properties'') nd)
   }"

definition ref_null :: "identity \<Rightarrow> bool" where
  "ref_null ref \<longleftrightarrow> snd ref = [] \<or> snd ref = null_object_path \<or> fst ref = []"

definition add_target :: "string \<Rightarrow> node_id \<Rightarrow> (string \<times> node_id slice) list \<Rightarrow> (string \<times> node_id slice) list" where
  "add_target name i rels =
     AList.update name (Some (elems (case map_of rels name of None \<Rightarrow> None | Some s \<Rightarrow> s) @ [i])) rels"

fun targets_loop :: "('w, 'e) bus \<Rightarrow> string \<Rightarrow> identity list \<Rightarrow> (string \<times> node_id slice) list \<Rightarrow> ('w, (string \<times> node_id slice) list) state" where
  "targets_loop bs name [] rels = State_Monad.return rels"
| "targets_loop bs name (t # ts) rels =
     (if ref_null t then targets_loop bs name ts rels
      else do {
        i \<leftarrow> bs_ref bs t;
        targets_loop bs name ts (add_target name i rels)
      })"

fun relations_loop :: "('w, 'e) bus \<Rightarrow> (u32 \<times> identity list) list \<Rightarrow> (string \<times> node_id slice) slice \<Rightarrow>
    ('w, (string \<times> node_id slice) slice) state" where
  "relations_loop bs [] rels = State_Monad.return rels"
| "relations_loop bs ((relation, targets) # rest) rels =
     (if relation_name relation = [] \<or> targets = [] then relations_loop bs rest rels
      else do {
        rels \<leftarrow> targets_loop bs (relation_name relation) targets (elems rels);
        relations_loop bs rest (Some rels)
      })"

definition read_relations :: "('w, 'e) bus \<Rightarrow> node_id \<Rightarrow> acc_node \<Rightarrow> ('w, acc_node) state" where
  "read_relations bs i nd = do {
     r \<leftarrow> bs_relations bs i;
     (case r of
        Inl e \<Rightarrow> State_Monad.return (warn_error bs (accessible_iface @ ''.GetRelationSet'') e nd)
      | Inr relations \<Rightarrow> do {
          rels \<leftarrow> relations_loop bs relations (nd_relations nd);
          State_Monad.return (nd\<lparr>nd_relations := rels\<rparr>)
        })
   }"

definition when_iface :: "bool \<Rightarrow> (acc_node \<Rightarrow> ('w, acc_node) state) \<Rightarrow> acc_node \<Rightarrow> ('w, acc_node) state" where
  "when_iface b f nd = (if b then f nd else State_Monad.return nd)"

definition read_optional :: "('w, 'e) bus \<Rightarrow> node_id \<Rightarrow> acc_node \<Rightarrow> ('w, acc_node) state" where
  "read_optional bs i nd = do {
     let interfaces = nd_interfaces nd;
     nd \<leftarrow> when_iface (has_iface interfaces value_iface) (read_value bs i) nd;
     nd \<leftarrow> when_iface (has_iface interfaces action_iface) (read_actions bs i) nd;
     nd \<leftarrow> when_iface (has_iface interfaces selection_iface) (read_selection bs i) nd;
     nd \<leftarrow> when_iface (has_iface interfaces table_iface) (read_table bs i) nd;
     nd \<leftarrow> when_iface (has_iface interfaces document_iface) (read_document bs i) nd;
     when_iface (elems interfaces \<noteq> []) (read_relations bs i) nd
   }"

section \<open>One node\<close>

definition read_basic :: "('w, 'e) bus \<Rightarrow> node_id \<Rightarrow> bool \<Rightarrow> acc_node \<Rightarrow> ('w, acc_node) state" where
  "read_basic bs i allow_cache nd =
     (if allow_cache then do {
        item \<leftarrow> bs_cached bs i;
        (case item of
           Some item \<Rightarrow> State_Monad.return (from_item item nd)
         | None \<Rightarrow> read_lenient bs i nd)
      }
      else read_fresh bs i nd)"

definition unless_error :: "('w, 'e option) state \<Rightarrow> ('w, 'e + 'a) state \<Rightarrow> ('w, 'e + 'a) state" where
  "unless_error check rest = do {
     c \<leftarrow> check;
     (case c of Some e \<Rightarrow> State_Monad.return (Inl e) | None \<Rightarrow> rest)
   }"

definition read_node_with_cache ::
    "(rune \<Rightarrow> rune) \<Rightarrow> (rune \<Rightarrow> rune) \<Rightarrow> ('w, 'e) bus \<Rightarrow> node_id \<Rightarrow> node_id \<Rightarrow> int \<Rightarrow> bool \<Rightarrow> bool \<Rightarrow> ('w, 'e + acc_node) state" where
  "read_node_with_cache lo cf bs i parent max_text allow_sensitive allow_cache =
     unless_error (bs_ctx bs) (unless_error (bs_object bs i) (do {
       nd \<leftarrow> read_basic bs i allow_cache ((bare_node i)\<lparr>nd_parent := parent\<rparr>);
       nd \<leftarrow> read_component bs i nd;
       (nd, text_error) \<leftarrow> read_text bs i max_text nd;
       let nd = (case text_error of Some e \<Rightarrow> if allow_cache then nd else warn_error bs text_iface e nd | None \<Rightarrow> nd);
       (nd, attribute_error) \<leftarrow> read_attributes bs i nd;
       let nd = (case attribute_error of
           Some e \<Rightarrow> if allow_cache then nd else warn_error bs (accessible_iface @ ''.GetAttributes'') e nd
         | None \<Rightarrow> nd);
       nd \<leftarrow> read_optional bs i nd;
       unless_error (bs_ctx bs) (do {
         let nd = (if \<not> allow_sensitive \<and> has_sensitive_state cf (elems (nd_states nd)) then redact_sensitive_node lo nd else nd);
         unless_error (bs_generation bs (id_generation i)) (unless_error (bs_handle bs i) (State_Monad.return (Inr nd)))
       })
     }))"

end
