(* ===== verification/AccNodeSafe.thy ===== *)
theory AccNodeSafe
  imports AccNode AccFit
begin

text \<open>
  What a node that was read is guaranteed to be (\<open>AccNode\<close>), whatever the bus answers: it has the handle
  and the parent that were asked for, no children yet, relations with targets only, a text within its
  limit, warnings about known properties only, and nothing sensitive unless that was allowed.
\<close>

section \<open>Warnings about known properties\<close>

definition plain_name :: "string \<Rightarrow> bool" where
  "plain_name s \<longleftrightarrow> s \<noteq> [] \<and> list_all (\<lambda>c. 32 < (of_char c :: nat) \<and> (of_char c :: nat) < 127 \<and> c \<noteq> CHR '':'') s"

definition space_table :: "(rune \<Rightarrow> bool) \<Rightarrow> bool" where
  "space_table sp \<longleftrightarrow> (\<forall>c. 32 < (of_char c :: nat) \<and> (of_char c :: nat) < 127 \<longrightarrow> \<not> sp [c])"

lemma runes_plain: "list_all (\<lambda>c. (of_char c :: nat) < 128) s \<Longrightarrow> runes (s @ t) = map (\<lambda>c. [c]) s @ runes t"
proof (induction s)
  case (Cons c s)
  then have "runes ((c # s) @ t) = [c] # runes (s @ t)"
    using runes_append[OF ascii_rune, of c "s @ t"] by simp
  then show ?case using Cons by simp
qed simp

lemma trim_keeps:
  assumes "\<not> sp x" "\<not> sp y"
  shows "\<exists>B'. trim_runes sp (x # A @ y # B) = x # A @ y # B'"
proof -
  have "dropWhile sp (rev B @ y # rev A @ [x]) = dropWhile sp (rev B) @ y # rev A @ [x]"
    using assms(2) by (induction "rev B" arbitrary: B) (simp_all add: dropWhile_append3 dropWhile_append)
  then have "trim_runes sp (x # A @ y # B) = x # A @ y # rev (dropWhile sp (rev B))"
    using assms(1) by (simp add: trim_runes_def)
  then show ?thesis by blast
qed

lemma concat_singles: "concat (map (\<lambda>c. [c]) s) = s"
  by (induction s) auto

lemma warning_property_plain:
  assumes "space_table sp" "plain_name what"
  shows "warning_property sp (what @ '': '' @ e) = (what, True)"
proof -
  obtain x xs where what: "what = x # xs"
    using assms(2) by (cases what) (auto simp: plain_name_def)
  have chars: "32 < (of_char c :: nat) \<and> (of_char c :: nat) < 127" if "c \<in> set what \<or> c = CHR '':''" for c
    using that
  proof
    assume "c \<in> set what"
    with assms(2) show ?thesis unfolding plain_name_def list_all_iff by blast
  next
    assume "c = CHR '':''"
    then show ?thesis by simp
  qed
  have colon: "CHR '':'' \<notin> set what"
    using assms(2) unfolding plain_name_def list_all_iff by blast
  have "list_all (\<lambda>c. (of_char c :: nat) < 128) (what @ '':'')"
  proof -
    have "(of_char c :: nat) < 128" if "c \<in> set (what @ '':'')" for c
      using chars[of c] that by simp linarith
    then show ?thesis unfolding list_all_iff by blast
  qed
  from runes_plain[OF this, of "'' '' @ e"]
  have "runes (what @ '': '' @ e) = [x] # map (\<lambda>c. [c]) xs @ '':'' # runes ('' '' @ e)"
    by (simp add: what)
  moreover have "\<not> sp [x]" "\<not> sp '':''"
    using assms(1) chars[of x] chars[of "CHR '':''"] by (auto simp: space_table_def what)
  ultimately obtain B where "trim_runes sp (runes (what @ '': '' @ e)) = [x] # map (\<lambda>c. [c]) xs @ '':'' # B"
    using trim_keeps[of sp "[x]" "'':''" "map (\<lambda>c. [c]) xs" "runes ('' '' @ e)"] by auto
  then have "trim_space sp (what @ '': '' @ e) = what @ CHR '':'' # concat B"
    by (simp add: trim_space_def what concat_singles)
  then show ?thesis
    using index_byte_append[OF colon] by (simp add: warning_property_def cut_def)
qed

text \<open>The names that a node's warnings may begin with.\<close>

definition known_name :: "string \<Rightarrow> bool" where
  "known_name what \<longleftrightarrow> plain_name what \<and>
     (what \<in> set [accessible_iface @ ''.Name'', accessible_iface @ ''.ChildCount'', accessible_iface @ ''.GetRole'',
          accessible_iface @ ''.GetInterfaces'', accessible_iface @ ''.GetState'', accessible_iface @ ''.GetAttributes'',
          accessible_iface @ ''.GetRelationSet'', text_iface] \<or>
      list_ex (\<lambda>iface. has_prefix what (iface @ ''.'') \<or> what = iface)
        [value_iface, action_iface, selection_iface, table_iface, document_iface])"

lemma known_warning: "space_table sp \<Longrightarrow> known_name what \<Longrightarrow> known_node_warning sp (what @ '': '' @ e)"
  unfolding known_node_warning_def is_optional_warning_def known_name_def
  by (simp only: warning_property_plain prod.case Let_def simp_thms)

lemma plain_append: "plain_name a \<Longrightarrow> plain_name b \<Longrightarrow> plain_name (a @ b)"
  by (auto simp: plain_name_def)

lemma plain_show_int: "plain_name (show_int n)"
proof -
  have digits: "plain_name (show_nat k)" for k
  proof -
    have "32 < (of_char c :: nat) \<and> (of_char c :: nat) < 127 \<and> c \<noteq> CHR '':''" if "c \<in> set (show_nat k)" for c
      using show_nat_digits[OF that] by auto
    then show ?thesis
      unfolding plain_name_def list_all_iff using show_nat_nonempty by blast
  qed
  show ?thesis
  proof (cases "n < 0")
    case True
    have "plain_name [CHR ''-'']" by code_simp
    from plain_append[OF this digits] show ?thesis using True by (simp add: show_int_def)
  qed (simp add: show_int_def digits)
qed

section \<open>What a computation returns\<close>

definition returns :: "('a \<Rightarrow> bool) \<Rightarrow> ('w, 'a) state \<Rightarrow> bool" where
  "returns P m \<longleftrightarrow> (\<forall>w. P (fst (run_state m w)))"

named_theorems returns_intros

lemma returns_return [returns_intros]: "P x \<Longrightarrow> returns P (State_Monad.return x)"
  by (simp add: returns_def State_Monad.return_def)

lemma run_bind: "run_state (State_Monad.bind m f) w = (let (x, w') = run_state m w in run_state (f x) w')"
  by (simp add: State_Monad.bind_def)

lemma returns_bind [returns_intros]: "(\<And>x. returns Q (f x)) \<Longrightarrow> returns Q (State_Monad.bind m f)"
  by (auto simp: returns_def run_bind split: prod.splits)

lemma returns_then: "returns P m \<Longrightarrow> (\<And>x. P x \<Longrightarrow> returns Q (f x)) \<Longrightarrow> returns Q (State_Monad.bind m f)"
  unfolding returns_def run_bind Let_def split_beta by blast

lemma returns_weaken: "returns P m \<Longrightarrow> (\<And>x. P x \<Longrightarrow> Q x) \<Longrightarrow> returns Q m"
  by (auto simp: returns_def)

section \<open>The invariant of a node\<close>

record node_spec =
  ns_id :: node_id
  ns_parent :: node_id
  ns_max_text :: int
  ns_space :: "rune \<Rightarrow> bool"

definition node_inv :: "node_spec \<Rightarrow> acc_node \<Rightarrow> bool" where
  "node_inv sp nd \<longleftrightarrow>
     nd_id nd = ns_id sp \<and> nd_parent nd = ns_parent sp \<and> nd_children nd = None \<and> 0 \<le> nd_child_count nd \<and>
     list_all (known_node_warning (ns_space sp)) (elems (nd_warnings nd)) \<and> filled nd \<and>
     int (length (nd_text nd)) \<le> ns_max_text sp"

lemma node_inv_updates:
  assumes "node_inv sp nd"
  shows "node_inv sp (nd\<lparr>nd_name := s\<rparr>)" "node_inv sp (nd\<lparr>nd_description := s\<rparr>)" "node_inv sp (set_role r nd)"
    "node_inv sp (nd\<lparr>nd_interfaces := x\<rparr>)" "node_inv sp (nd\<lparr>nd_bounds := b, nd_has_bounds := c\<rparr>)"
    "node_inv sp (nd\<lparr>nd_attributes := a\<rparr>)" "node_inv sp (nd\<lparr>nd_value := v\<rparr>)" "node_inv sp (nd\<lparr>nd_actions := as\<rparr>)"
    "node_inv sp (nd\<lparr>nd_selection := se\<rparr>)" "node_inv sp (nd\<lparr>nd_table := ta\<rparr>)" "node_inv sp (nd\<lparr>nd_document := d\<rparr>)"
    "node_inv sp (append_state s nd)"
  using assms by (simp_all add: node_inv_def filled_def set_role_def append_state_def)

lemma node_inv_count: "node_inv sp nd \<Longrightarrow> 0 \<le> n \<Longrightarrow> node_inv sp (nd\<lparr>nd_child_count := n\<rparr>)"
  by (simp add: node_inv_def filled_def)

lemma node_inv_flags:
  assumes "node_inv sp nd"
  shows "node_inv sp (nd\<lparr>nd_enabled := b\<rparr>)" "node_inv sp (nd\<lparr>nd_focused := b\<rparr>)" "node_inv sp (nd\<lparr>nd_showing := b\<rparr>)"
    "node_inv sp (nd\<lparr>nd_visible := b\<rparr>)"
  using assms by (simp_all add: node_inv_def filled_def)

lemma node_inv_apply_state: "node_inv sp nd \<Longrightarrow> node_inv sp (apply_state s nd)"
  by (simp add: apply_state_def Let_def node_inv_flags node_inv_updates)

lemma node_inv_apply_states: "node_inv sp nd \<Longrightarrow> node_inv sp (apply_states states nd)"
  unfolding apply_states_def by (induction "state_bits 0 states" arbitrary: nd rule: list.induct)
    (auto intro: fold_invariant[where Q = "\<lambda>_. True"] simp: node_inv_apply_state)

lemma node_inv_warn:
  "known_node_warning (ns_space sp) w \<Longrightarrow> node_inv sp nd \<Longrightarrow> node_inv sp (warn w nd)"
  by (simp add: node_inv_def filled_def warn_def)

lemma max_int32_nonneg: "0 \<le> sint (max_int32 c)"
  by (simp add: max_int32_def)

lemma known_names:
  "known_name (accessible_iface @ ''.Name'')" "known_name (accessible_iface @ ''.ChildCount'')"
  "known_name (accessible_iface @ ''.GetRole'')" "known_name (accessible_iface @ ''.GetInterfaces'')"
  "known_name (accessible_iface @ ''.GetState'')" "known_name (accessible_iface @ ''.GetAttributes'')"
  "known_name (accessible_iface @ ''.GetRelationSet'')" "known_name text_iface"
  "known_name (value_iface @ ''.CurrentValue'')" "known_name (value_iface @ ''.MinimumValue'')"
  "known_name (value_iface @ ''.MaximumValue'')" "known_name (value_iface @ ''.MinimumIncrement'')"
  "known_name (action_iface @ ''.GetActions'')" "known_name (selection_iface @ ''.GetSelectedChildCount'')"
  "known_name (table_iface @ ''.NRows'')" "known_name (table_iface @ ''.NColumns'')" "known_name document_iface"
  by code_simp+

lemma known_action_name: "known_name (action_iface @ ''.GetName('' @ show_int n @ '')'')"
proof -
  have "plain_name (action_iface @ ''.GetName('')" "plain_name '')''" by code_simp+
  then have "plain_name ((action_iface @ ''.GetName('') @ show_int n @ '')'')"
    by (metis plain_append plain_show_int)
  moreover have "has_prefix (action_iface @ ''.GetName('' @ show_int n @ '')'') (action_iface @ ''.'')"
    by (simp add: has_prefix_def action_iface_def)
  ultimately show ?thesis
    unfolding known_name_def by simp
qed

lemma warn_error_inv:
  "space_table (ns_space sp) \<Longrightarrow> known_name what \<Longrightarrow> node_inv sp nd \<Longrightarrow> node_inv sp (warn_error bs what e nd)"
  unfolding warn_error_def by (rule node_inv_warn[OF known_warning])

lemma answer_step:
  "node_inv sp nd \<Longrightarrow> (\<And>e nd. node_inv sp nd \<Longrightarrow> node_inv sp (failed e nd)) \<Longrightarrow>
   (\<And>x nd. node_inv sp nd \<Longrightarrow> node_inv sp (ok x nd)) \<Longrightarrow> node_inv sp (on_answer failed ok r nd)"
  by (cases r) (simp_all add: on_answer_def)

section \<open>Every read keeps the invariant\<close>

lemmas node_keep = node_inv_updates node_inv_flags node_inv_apply_states node_inv_count max_int32_nonneg known_names
  known_action_name warn_error_inv

lemmas returns_rules = returns_bind returns_return answer_step

lemma read_lenient_inv:
  "space_table (ns_space sp) \<Longrightarrow> node_inv sp nd \<Longrightarrow> returns (node_inv sp) (read_lenient bs i nd)"
  unfolding read_lenient_def by (intro returns_rules) (simp_all add: node_keep)

lemma read_fresh_inv:
  "space_table (ns_space sp) \<Longrightarrow> node_inv sp nd \<Longrightarrow> returns (node_inv sp) (read_fresh bs i nd)"
  unfolding read_fresh_def by (intro returns_rules) (simp_all add: node_keep)

lemma from_item_inv: "node_inv sp nd \<Longrightarrow> node_inv sp (from_item item nd)"
  unfolding from_item_def
  by (intro node_inv_apply_states) (simp add: node_inv_def filled_def max_int32_nonneg)

lemma read_basic_inv:
  "space_table (ns_space sp) \<Longrightarrow> node_inv sp nd \<Longrightarrow> returns (node_inv sp) (read_basic bs i allow_cache nd)"
  unfolding read_basic_def
  by (auto intro!: returns_bind returns_return read_lenient_inv read_fresh_inv from_item_inv split: option.splits)

lemma read_component_inv: "node_inv sp nd \<Longrightarrow> returns (node_inv sp) (read_component bs i nd)"
  unfolding read_component_def
  by (auto intro!: returns_bind returns_return simp: on_answer_def node_keep split: sum.splits)

lemma read_value_inv:
  "space_table (ns_space sp) \<Longrightarrow> node_inv sp nd \<Longrightarrow> returns (node_inv sp) (read_value bs i nd)"
  unfolding read_value_def
  by (rule returns_bind) (auto intro!: returns_rules simp: node_keep split: sum.splits)

lemma read_selection_inv:
  "space_table (ns_space sp) \<Longrightarrow> node_inv sp nd \<Longrightarrow> returns (node_inv sp) (read_selection bs i nd)"
  unfolding read_selection_def by (intro returns_rules) (simp_all add: node_keep)

lemma read_table_inv:
  "space_table (ns_space sp) \<Longrightarrow> node_inv sp nd \<Longrightarrow> returns (node_inv sp) (read_table bs i nd)"
  unfolding read_table_def Let_def by (intro returns_rules) (simp_all add: node_keep)

lemma read_attributes_inv: "node_inv sp nd \<Longrightarrow> returns (\<lambda>(nd, _). node_inv sp nd) (read_attributes bs i nd)"
  unfolding read_attributes_def
  by (rule returns_bind) (auto intro!: returns_return simp: on_answer_def node_keep split: sum.splits)

lemma read_document_inv:
  "space_table (ns_space sp) \<Longrightarrow> node_inv sp nd \<Longrightarrow> returns (node_inv sp) (read_document bs i nd)"
proof -
  assume a: "space_table (ns_space sp)" "node_inv sp nd"
  have "node_inv sp (warn (document_iface @ '': no readable document properties'') nd)"
    using known_warning[OF a(1) known_names(17), of "''no readable document properties''"] a(2)
    by (intro node_inv_warn) simp_all
  then show ?thesis
    unfolding read_document_def using a by (intro returns_rules) (simp add: node_keep)
qed

lemma name_actions_inv:
  "space_table (ns_space sp) \<Longrightarrow> node_inv sp nd \<Longrightarrow> returns (\<lambda>(_, nd). node_inv sp nd) (name_actions bs i as nd)"
proof (induction as arbitrary: nd)
  case (Cons a as)
  have step: "node_inv sp (on_answer (warn_error bs (action_iface @ ''.GetName('' @ show_int (sint (a_index a)) @ '')''))
      (\<lambda>_ nd. nd) name nd)" for name
    by (rule answer_step[OF Cons.prems(2)]) (erule warn_error_inv[OF Cons.prems(1) known_action_name], assumption)
  show ?case
    unfolding name_actions.simps
    by (rule returns_bind, rule returns_then[OF Cons.IH[OF Cons.prems(1) step]]) (auto intro!: returns_return)
qed (simp add: returns_return)

lemma read_actions_inv:
  "space_table (ns_space sp) \<Longrightarrow> node_inv sp nd \<Longrightarrow> returns (node_inv sp) (read_actions bs i nd)"
  unfolding read_actions_def
  by (rule returns_bind)
    (auto intro!: returns_return returns_then[OF name_actions_inv] simp: node_keep split: sum.splits)

lemma add_target_filled:
  "(\<forall>(r, ts) \<in> set rels. ts \<noteq> Some []) \<Longrightarrow> (\<forall>(r, ts) \<in> set (add_target name t rels). ts \<noteq> Some [])"
  unfolding add_target_def by (induction rels) auto

lemma targets_loop_filled:
  "(\<forall>(r, ts) \<in> set rels. ts \<noteq> Some []) \<Longrightarrow> returns (\<lambda>rels. \<forall>(r, ts) \<in> set rels. ts \<noteq> Some []) (targets_loop bs name targets rels)"
  by (induction targets arbitrary: rels) (simp_all add: returns_return returns_bind add_target_filled)

lemma relations_loop_filled:
  "(\<forall>(r, ts) \<in> set (elems rels). ts \<noteq> Some []) \<Longrightarrow>
   returns (\<lambda>rels. \<forall>(r, ts) \<in> set (elems rels). ts \<noteq> Some []) (relations_loop bs wire rels)"
proof (induction wire arbitrary: rels)
  case (Cons w wire)
  obtain relation targets where w: "w = (relation, targets)" by fastforce
  have "returns (\<lambda>rels. \<forall>(r, ts) \<in> set (elems rels). ts \<noteq> Some [])
      (State_Monad.bind (targets_loop bs (relation_name relation) targets (elems rels)) (\<lambda>rels. relations_loop bs wire (Some rels)))"
    by (rule returns_then[OF targets_loop_filled[OF Cons.prems] Cons.IH]) simp
  then show ?case
    using Cons w by simp
qed (simp add: returns_return)

lemma node_inv_relations:
  "node_inv sp nd \<Longrightarrow> (\<forall>(r, ts) \<in> set (elems rels). ts \<noteq> Some []) \<Longrightarrow> node_inv sp (nd\<lparr>nd_relations := rels\<rparr>)"
  by (simp add: node_inv_def filled_def)

lemma read_relations_inv:
  assumes "space_table (ns_space sp)" "node_inv sp nd"
  shows "returns (node_inv sp) (read_relations bs i nd)"
proof -
  have filled: "\<forall>(r, ts) \<in> set (elems (nd_relations nd)). ts \<noteq> Some []"
    using assms(2) by (simp add: node_inv_def filled_def)
  have "returns (node_inv sp) (State_Monad.bind (relations_loop bs wire (nd_relations nd)) (\<lambda>rels. State_Monad.return (nd\<lparr>nd_relations := rels\<rparr>)))" for wire
    by (rule returns_then[OF relations_loop_filled[OF filled]]) (rule returns_return, rule node_inv_relations[OF assms(2)])
  then show ?thesis
    unfolding read_relations_def using assms
    by (intro returns_bind) (auto intro!: returns_return simp: node_keep split: sum.splits)
qed

lemma when_then:
  "node_inv sp nd \<Longrightarrow> (\<And>nd. node_inv sp nd \<Longrightarrow> returns (node_inv sp) (f nd)) \<Longrightarrow>
   (\<And>nd. node_inv sp nd \<Longrightarrow> returns (node_inv sp) (k nd)) \<Longrightarrow> returns (node_inv sp) (State_Monad.bind (when_iface b f nd) k)"
  by (rule returns_then[where P = "node_inv sp"]) (auto simp: when_iface_def returns_return)

lemma read_optional_inv:
  assumes "space_table (ns_space sp)" "node_inv sp nd"
  shows "returns (node_inv sp) (read_optional bs i nd)"
  unfolding read_optional_def Let_def
proof (intro when_then assms)
  show "returns (node_inv sp) (when_iface b (read_relations bs i) nd)" if "node_inv sp nd" for b nd
    using that by (simp add: when_iface_def returns_return read_relations_inv assms(1))
qed (assumption | rule read_value_inv[OF assms(1)] read_actions_inv[OF assms(1)] read_selection_inv[OF assms(1)]
    read_table_inv[OF assms(1)] read_document_inv[OF assms(1)])+

lemma truncate_length: "int (length (fst (truncate_utf8 s n))) \<le> max n 0"
  using cut_invalid_length[of "nat (max n 0)" s] by (auto simp: truncate_utf8_def Let_def)

definition text_limit :: "int \<Rightarrow> int" where
  "text_limit max_text = (if max_text \<le> 0 then default_max_text else max_text)"

lemma node_inv_text: "node_inv sp nd \<Longrightarrow> int (length s) \<le> ns_max_text sp \<Longrightarrow> node_inv sp (nd\<lparr>nd_text := s, nd_text_truncated := b\<rparr>)"
  by (simp add: node_inv_def filled_def)

lemma read_text_inv:
  assumes "node_inv sp nd" "ns_max_text sp = text_limit max_text"
  shows "returns (\<lambda>(nd, _). node_inv sp nd) (read_text bs i max_text nd)"
proof -
  have "0 < text_limit max_text" by (simp add: text_limit_def default_max_text_def)
  then have fit: "truncate_utf8 s (text_limit max_text) = (t, b) \<Longrightarrow> int (length t) \<le> ns_max_text sp" for s t b
    using truncate_length[of s "text_limit max_text"] assms(2) by simp
  show ?thesis
    unfolding read_text_def text_limit_def[symmetric]
    using assms(1) fit
    by (auto intro!: returns_bind returns_return node_inv_text simp: on_answer_def Let_def split: sum.splits prod.splits)
qed

lemma returns_unless:
  "(\<And>e. P (Inl e)) \<Longrightarrow> returns P m \<Longrightarrow> returns P (unless_error c m)"
  unfolding unless_error_def by (rule returns_bind) (auto intro: returns_return split: option.splits)

section \<open>The node that is returned\<close>

definition redacted_if_sensitive :: "(rune \<Rightarrow> rune) \<Rightarrow> (rune \<Rightarrow> rune) \<Rightarrow> acc_node \<Rightarrow> bool" where
  "redacted_if_sensitive lo cf nd \<longleftrightarrow>
     (if has_sensitive_state cf (elems (nd_states nd))
      then nd_redacted nd \<and> nd_text nd = [] \<and> nd_value nd = None \<and>
           list_all (\<lambda>(key, _). \<not> sensitive_key lo key) (elems (nd_attributes nd))
      else True)"

lemma redact_inv: "node_inv sp nd \<Longrightarrow> node_inv sp (redact_sensitive_node lo nd) \<or> ns_max_text sp < 0"
  by (auto simp: node_inv_def filled_def redact_sensitive_node_def)

lemma redact_redacts: "redacted_if_sensitive lo cf (redact_sensitive_node lo nd)"
  by (cases "nd_attributes nd") (auto simp: redacted_if_sensitive_def redact_sensitive_node_def list_all_iff)

lemma read_node_returns:
  assumes "space_table sp"
  shows "returns (case_sum (\<lambda>_. True) (\<lambda>nd. node_inv \<lparr>ns_id = i, ns_parent = parent, ns_max_text = text_limit max_text, ns_space = sp\<rparr> nd \<and>
      (allow_sensitive \<or> redacted_if_sensitive lo cf nd)))
    (read_node_with_cache lo cf bs i parent max_text allow_sensitive allow_cache)"
proof -
  define spec where "spec = \<lparr>ns_id = i, ns_parent = parent, ns_max_text = text_limit max_text, ns_space = sp\<rparr>"
  have spec: "space_table (ns_space spec)" "ns_max_text spec = text_limit max_text" "0 < text_limit max_text"
    using assms by (simp_all add: spec_def text_limit_def default_max_text_def)
  have start: "node_inv spec ((bare_node i)\<lparr>nd_parent := parent\<rparr>)"
    using spec(3) by (simp add: node_inv_def spec_def bare_node_def filled_def)
  have warned: "node_inv spec (case e of Some e \<Rightarrow> if allow_cache then nd else warn_error bs what e nd | None \<Rightarrow> nd)"
    if "node_inv spec nd" "known_name what" for e nd what
    using that warn_error_inv[OF spec(1)] by (auto split: option.splits)
  have final: "node_inv spec nd' \<and> (allow_sensitive \<or> redacted_if_sensitive lo cf nd')"
    if "node_inv spec nd" "nd' = (if \<not> allow_sensitive \<and> has_sensitive_state cf (elems (nd_states nd)) then redact_sensitive_node lo nd else nd)"
    for nd nd'
    using that redact_inv[OF that(1), of lo] spec(2,3) redact_redacts[of lo cf nd]
    by (auto simp: redacted_if_sensitive_def)
  show ?thesis
    unfolding read_node_with_cache_def spec_def[symmetric]
    apply (rule returns_unless, simp, rule returns_unless, simp)
    apply (rule returns_then[OF read_basic_inv[OF spec(1) start]])
    apply (rule returns_then[OF read_component_inv], assumption)
    apply (rule returns_then[OF read_text_inv[OF _ spec(2)]], assumption, clarsimp simp only: prod.case Let_def)
    apply (rule returns_then[OF read_attributes_inv[OF warned[OF _ known_names(8)]]], assumption)
    apply (clarsimp simp only: prod.case Let_def)
    apply (rule returns_then[OF read_optional_inv[OF spec(1) warned[OF _ known_names(6)]]], assumption)
    apply (rule returns_unless, simp, rule returns_unless, simp, rule returns_unless, simp, rule returns_return)
    apply (simp only: sum.case)
    apply (erule final, rule refl)
    done
qed

lemma read_node_facts:
  assumes "space_table sp"
    "run_state (read_node_with_cache lo cf bs i parent max_text allow_sensitive allow_cache) w = (Inr nd, w')"
  shows "node_inv \<lparr>ns_id = i, ns_parent = parent, ns_max_text = text_limit max_text, ns_space = sp\<rparr> nd"
    "allow_sensitive \<or> redacted_if_sensitive lo cf nd"
  using read_node_returns[OF assms(1), unfolded returns_def, rule_format, of i parent max_text allow_sensitive lo cf bs allow_cache w]
    assms(2) by auto

end
