(* ===== verification/AccWalkSafe.thy ===== *)
theory AccWalkSafe
  imports AccWalk AccNodeSafe
begin

text \<open>
  What the traversal guarantees whatever the provider answers: the bounds, the tree that the nodes form,
  the agreement of errors and warnings, and that every node is as it was read. The walker relies on
  its provider through the interface \<open>snapshot_provider\<close>, which the reads of \<open>AccNode\<close> satisfy.
\<close>

section \<open>The state of the walker\<close>

definition heads :: "('w, 'e) walker \<Rightarrow> (node_id \<times> node_id) list" where
  "heads st = map (\<lambda>nd. (nd_id nd, nd_parent nd)) (wk_nodes st)"

definition all_warnings :: "acc_node list \<Rightarrow> string list" where
  "all_warnings nds = concat (map (\<lambda>nd. elems (nd_warnings nd)) nds)"

definition walker_inv :: "(acc_node \<Rightarrow> bool) \<Rightarrow> snapshot_options \<Rightarrow> ('w, 'e) walker \<Rightarrow> bool" where
  "walker_inv good opts st \<longleftrightarrow>
     int (length (wk_nodes st)) \<le> max 0 (o_max_nodes opts) \<and>
     wk_errors st = int (length (wk_warnings st)) \<and>
     mset (all_warnings (wk_nodes st)) \<subseteq># mset (wk_warnings st) \<and>
     (wk_truncated st \<longleftrightarrow> wk_reasons st \<noteq> []) \<and> distinct (wk_reasons st) \<and>
     distinct (map nd_id (wk_nodes st)) \<and> set (map nd_id (wk_nodes st)) \<subseteq> set (wk_seen st) \<and>
     (\<forall>nd \<in> set (wk_nodes st). \<forall>c \<in> set (elems (nd_children nd)). (c, nd_id nd) \<in> set (heads st)) \<and>
     list_all good (wk_nodes st)"

text \<open>What no call takes back.\<close>

definition grows :: "('w, 'e) walker \<Rightarrow> ('w, 'e) walker \<Rightarrow> bool" where
  "grows st st' \<longleftrightarrow>
     (\<exists>tl. wk_nodes st' = wk_nodes st @ tl) \<and> set (wk_seen st) \<subseteq> set (wk_seen st') \<and> (wk_truncated st \<longrightarrow> wk_truncated st') \<and>
     wk_errors st - int (length (all_warnings (wk_nodes st))) \<le> wk_errors st' - int (length (all_warnings (wk_nodes st')))"

lemma grows_refl: "grows st st"
  by (simp add: grows_def)

lemma grows_trans: "grows a b \<Longrightarrow> grows b c \<Longrightarrow> grows a c"
  unfolding grows_def by fastforce

lemma grows_heads: "grows a b \<Longrightarrow> set (heads a) \<subseteq> set (heads b)"
  by (auto simp: grows_def heads_def)

definition links_ok :: "acc_node \<Rightarrow> ('w, 'e) walker \<Rightarrow> bool" where
  "links_ok nd st \<longleftrightarrow> (\<forall>c \<in> set (elems (nd_children nd)). (c, nd_id nd) \<in> set (heads st))"

lemma links_grows: "links_ok nd a \<Longrightarrow> grows a b \<Longrightarrow> links_ok nd b"
  using grows_heads unfolding links_ok_def by blast

lemma walker_inv_world [simp]: "walker_inv good opts (st\<lparr>wk_world := w\<rparr>) = walker_inv good opts st"
  by (simp add: walker_inv_def heads_def)

lemma walker_inv_err [simp]: "walker_inv good opts (st\<lparr>wk_err := e\<rparr>) = walker_inv good opts st"
  by (simp add: walker_inv_def heads_def)

lemma walker_inv_truncated: "walker_inv good opts st \<Longrightarrow> walker_inv good opts (mark_truncated reason st)"
  by (auto simp: walker_inv_def heads_def mark_truncated_def Let_def)

lemma walker_inv_warnings: "walker_inv good opts st \<Longrightarrow> walker_inv good opts (add_warnings ws st)"
  by (auto simp: walker_inv_def heads_def add_warnings_def intro: subset_mset.order_trans)

lemma grows_updates:
  "grows st (st\<lparr>wk_world := w\<rparr>)" "grows st (st\<lparr>wk_err := e\<rparr>)" "grows st (mark_truncated reason st)" "grows st (add_warnings ws st)"
  by (simp_all add: grows_def mark_truncated_def Let_def add_warnings_def)

lemma ctx_err_eq: "ctx_err pv st = (fst (pv_ctx pv (wk_world st)), st\<lparr>wk_world := snd (pv_ctx pv (wk_world st))\<rparr>)"
  by (simp add: ctx_err_def split_beta)

text \<open>The contract of a visit below the node \<open>i\<close>, and a node with other children.\<close>

definition visit_ok :: "(acc_node \<Rightarrow> bool) \<Rightarrow> snapshot_options \<Rightarrow> node_id \<Rightarrow>
    (node_id \<Rightarrow> ('w, 'e) walker \<Rightarrow> ('e walk_error + acc_node) \<times> ('w, 'e) walker) \<Rightarrow> bool" where
  "visit_ok good opts i visit \<longleftrightarrow>
     (\<forall>c st r st'. walker_inv good opts st \<longrightarrow> visit c st = (r, st') \<longrightarrow>
        walker_inv good opts st' \<and> grows st st' \<and>
        (\<forall>ch. r = Inr ch \<longrightarrow> id_valid (nd_id ch) \<longrightarrow> (nd_id ch, i) \<in> set (heads st')))"

lemma visit_okD:
  assumes "visit_ok good opts i visit" "walker_inv good opts st" "visit c st = (r, st')"
  shows "walker_inv good opts st'" "grows st st'"
    "r = Inr ch \<Longrightarrow> id_valid (nd_id ch) \<Longrightarrow> (nd_id ch, i) \<in> set (heads st')"
  using assms unfolding visit_ok_def by blast+

definition same_node :: "acc_node \<Rightarrow> acc_node \<Rightarrow> bool" where
  "same_node nd nd' \<longleftrightarrow> (\<exists>x. nd' = nd\<lparr>nd_children := x\<rparr>)"

lemma same_node_refl: "same_node nd nd"
  unfolding same_node_def by (rule exI[of _ "nd_children nd"]) simp

lemma same_node_child: "same_node nd nd' \<Longrightarrow> same_node nd (add_child c nd')"
  by (auto simp: same_node_def add_child_def)

section \<open>The interface\<close>

locale snapshot_provider =
  fixes pv :: "('w, 'e) provider" and good :: "int \<Rightarrow> bool \<Rightarrow> acc_node \<Rightarrow> bool"
  assumes read_node: "pv_read pv fresh i p t s w = (Inr nd, w') \<Longrightarrow> nd_id nd = i \<and> nd_parent nd = p \<and> nd_children nd = None"
    and read_good: "pv_read pv fresh i p t s w = (Inr nd, w') \<Longrightarrow> good t s nd"
    and good_child: "good t s nd \<Longrightarrow> good t s (add_child c nd)"
begin

lemma child_loop_inv:
  assumes "visit_ok (good (o_max_text opts) (o_allow_sensitive opts)) opts i visit"
  shows "walker_inv (good (o_max_text opts) (o_allow_sensitive opts)) opts st \<Longrightarrow> nd_id nd = i \<Longrightarrow> links_ok nd st \<Longrightarrow>
    good (o_max_text opts) (o_allow_sensitive opts) nd \<Longrightarrow> child_loop pv opts visit refs nd st = (f, nd', st') \<Longrightarrow>
    walker_inv (good (o_max_text opts) (o_allow_sensitive opts)) opts st' \<and> grows st st' \<and> same_node nd nd' \<and> links_ok nd' st' \<and>
    good (o_max_text opts) (o_allow_sensitive opts) nd'"
proof (induction refs arbitrary: nd st)
  case Nil
  then show ?case by (simp add: grows_refl same_node_refl)
next
  case (Cons ref refs)
  let ?good = "good (o_max_text opts) (o_allow_sensitive opts)"
  show ?case
  proof (cases "int (length (wk_nodes st)) \<ge> o_max_nodes opts")
    case True
    then show ?thesis
      using Cons.prems by (auto simp: walker_inv_truncated grows_updates same_node_refl intro: links_grows[OF _ grows_updates(3)])
  next
    case False
    obtain c w where ref: "pv_ref pv ref (wk_world st) = (c, w)" by fastforce
    obtain r st1 where visit: "visit c (st\<lparr>wk_world := w\<rparr>) = (r, st1)" by fastforce
    have inv: "walker_inv ?good opts (st\<lparr>wk_world := w\<rparr>)" using Cons.prems(1) by simp
    note step = visit_okD[OF assms inv visit]
    have grow: "grows st st1" by (rule grows_trans[OF grows_updates(1) step(2)])
    have links: "links_ok nd st1" by (rule links_grows[OF Cons.prems(3) grow])
    show ?thesis
    proof (cases r)
      case (Inr ch)
      define nd1 where "nd1 = (if id_valid (nd_id ch) then add_child (nd_id ch) nd else nd)"
      have run: "child_loop pv opts visit refs nd1 st1 = (f, nd', st')"
        using Cons.prems(5) False ref visit Inr by (simp add: nd1_def)
      have "nd_id nd1 = i" "?good nd1"
        using Cons.prems(2,4) good_child by (simp_all add: nd1_def add_child_def)
      moreover have "links_ok nd1 st1"
        using links step(3)[OF Inr] Cons.prems(2) by (auto simp: nd1_def links_ok_def add_child_def)
      ultimately have IH: "walker_inv ?good opts st' \<and> grows st1 st' \<and> same_node nd1 nd' \<and> links_ok nd' st' \<and> ?good nd'"
        using Cons.IH[OF step(1) _ _ _ run] by blast
      moreover have "same_node nd nd'"
        using IH by (auto simp: nd1_def same_node_def add_child_def split: if_splits)
      ultimately show ?thesis
        using grows_trans[OF grow] by blast
    next
      case (Inl e)
      obtain cx st2 where cx: "ctx_err pv st1 = (cx, st2)" by fastforce
      have st2: "walker_inv ?good opts st2" "grows st st2"
        using cx step(1) grows_trans[OF grow grows_updates(1)] by (auto simp: ctx_err_eq)
      have links2: "links_ok nd st2" by (rule links_grows[OF Cons.prems(3) st2(2)])
      consider "cx \<noteq> None" | "cx = None" "error_stale pv e" | "cx = None" "\<not> error_stale pv e" by blast
      then show ?thesis
      proof cases
        case 1
        then show ?thesis
          using Cons.prems False ref visit Inl cx st2 links2 by (auto simp: same_node_refl)
      next
        case 2
        then show ?thesis
          using Cons.prems False ref visit Inl cx st2 links_grows[OF links2 grows_updates(2)]
          by (auto simp: same_node_refl intro: grows_trans grows_updates)
      next
        case 3
        have run: "child_loop pv opts visit refs nd (add_warnings [error_text pv e] st2) = (f, nd', st')"
          using Cons.prems(5) False ref visit Inl cx 3 by simp
        have grow3: "grows st (add_warnings [error_text pv e] st2)"
          by (rule grows_trans[OF st2(2) grows_updates(4)])
        show ?thesis
          using Cons.IH[OF walker_inv_warnings[OF st2(1)] Cons.prems(2) links_grows[OF Cons.prems(3) grow3] Cons.prems(4) run]
            grows_trans[OF grow3] by blast
      qed
    qed
  qed
qed

lemma walk_children_inv:
  assumes "visit_ok (good (o_max_text opts) (o_allow_sensitive opts)) opts i visit"
    and "walker_inv (good (o_max_text opts) (o_allow_sensitive opts)) opts st" "nd_id nd = i" "links_ok nd st"
    and "good (o_max_text opts) (o_allow_sensitive opts) nd" "walk_children pv opts visit i nd st = (f, nd', st')"
  shows "walker_inv (good (o_max_text opts) (o_allow_sensitive opts)) opts st' \<and> grows st st' \<and> same_node nd nd' \<and> links_ok nd' st' \<and>
    good (o_max_text opts) (o_allow_sensitive opts) nd'"
proof -
  let ?good = "good (o_max_text opts) (o_allow_sensitive opts)"
  obtain answer w where answer: "pv_children pv (o_fresh opts) i (wk_world st) = (answer, w)" by fastforce
  define st1 where "st1 = st\<lparr>wk_world := w\<rparr>"
  have st1: "walker_inv ?good opts st1" "grows st st1"
    using assms(2) by (simp_all add: st1_def grows_updates)
  note links1 = links_grows[OF assms(4) st1(2)]
  show ?thesis
  proof (cases answer)
    case (Inl e)
    then show ?thesis
      using assms(5,6) answer st1 links1 grows_trans[OF st1(2) grows_updates(2)] grows_trans[OF st1(2) grows_updates(4)]
        links_grows[OF links1 grows_updates(2)] links_grows[OF links1 grows_updates(4)]
      by (auto simp: walk_children_def st1_def[symmetric] same_node_refl walker_inv_warnings split: if_splits)
  next
    case (Inr refs)
    define st2 where "st2 = (if int (length refs) \<noteq> nd_child_count nd then
        mark_truncated (count_mismatch i nd refs) st1 else st1)"
    have st2: "walker_inv ?good opts st2" "grows st st2"
      using st1 grows_trans[OF st1(2) grows_updates(3)] by (simp_all add: st2_def walker_inv_truncated)
    have run: "child_loop pv opts visit refs nd st2 = (f, nd', st')"
      using assms(6) answer Inr unfolding st2_def st1_def by (simp add: walk_children_def Let_def split del: if_split)
    show ?thesis
      using child_loop_inv[OF assms(1) st2(1) assms(3) links_grows[OF assms(4) st2(2)] assms(5) run] grows_trans[OF st2(2)] by blast
  qed
qed

end

section \<open>Entering and leaving a node\<close>

lemma all_warnings_update:
  "n < length nds \<Longrightarrow> nd_warnings nd = nd_warnings (nds ! n) \<Longrightarrow> all_warnings (nds[n := nd]) = all_warnings nds"
  unfolding all_warnings_def by (metis list_update_id map_update)

lemma heads_update:
  "n < length (wk_nodes st) \<Longrightarrow> nd_id nd = nd_id (wk_nodes st ! n) \<Longrightarrow> nd_parent nd = nd_parent (wk_nodes st ! n) \<Longrightarrow>
   heads (st\<lparr>wk_nodes := (wk_nodes st)[n := nd]\<rparr>) = heads st"
  unfolding heads_def by (simp add: map_update) (metis (no_types, lifting) list_update_id map_update)

lemma finish_node_inv:
  assumes inv: "walker_inv good opts st" and n: "n < length (wk_nodes st)" and same: "same_node (wk_nodes st ! n) nd"
    and links: "links_ok nd st" and g: "good nd" and run: "finish_node pv n nd st = (r, st')"
    and base: "length (wk_nodes st0) \<le> n" "grows st0 st"
  shows "walker_inv good opts st' \<and> grows st0 st' \<and> (\<forall>ch. r = Inr ch \<longrightarrow> (nd_id ch, nd_parent nd) \<in> set (heads st'))"
proof -
  obtain c st1 where c: "ctx_err pv st = (c, st1)" by fastforce
  have st1: "walker_inv good opts st1" "wk_nodes st1 = wk_nodes st" "heads st1 = heads st" "grows st st1"
    using c inv by (auto simp: ctx_err_eq heads_def grows_updates)
  show ?thesis
  proof (cases c)
    case (Some e)
    then show ?thesis
      using run c st1 grows_trans[OF base(2) st1(4)] by (auto simp: finish_node_def)
  next
    case None
    have fields: "nd_id nd = nd_id (wk_nodes st ! n)" "nd_parent nd = nd_parent (wk_nodes st ! n)"
      "nd_warnings nd = nd_warnings (wk_nodes st ! n)"
      using same by (auto simp: same_node_def)
    have st': "st' = st1\<lparr>wk_nodes := (wk_nodes st1)[n := nd]\<rparr>" "r = Inr nd"
      using run c None by (auto simp: finish_node_def)
    have h: "heads st' = heads st1"
      unfolding st'(1) by (rule heads_update) (use n fields st1 in simp_all)
    have w: "all_warnings (wk_nodes st') = all_warnings (wk_nodes st1)"
      unfolding st'(1) using all_warnings_update[of n "wk_nodes st1" nd] n fields st1 by simp
    have ids: "map nd_id (wk_nodes st') = map nd_id (wk_nodes st1)"
      using arg_cong[OF h, of "map fst"] by (simp add: heads_def comp_def)
    have nodes: "nd' \<in> set (wk_nodes st') \<Longrightarrow> nd' = nd \<or> nd' \<in> set (wk_nodes st1)" for nd'
      unfolding st'(1) by (auto dest: set_update_subset_insert[THEN subsetD])
    have "walker_inv good opts st'"
      unfolding walker_inv_def h w ids
    proof (intro conjI ballI)
      show "int (length (wk_nodes st')) \<le> max 0 (o_max_nodes opts)" "wk_errors st' = int (length (wk_warnings st'))"
        "mset (all_warnings (wk_nodes st1)) \<subseteq># mset (wk_warnings st')" "wk_truncated st' \<longleftrightarrow> wk_reasons st' \<noteq> []"
        "distinct (wk_reasons st')" "distinct (map nd_id (wk_nodes st1))" "set (map nd_id (wk_nodes st1)) \<subseteq> set (wk_seen st')"
        using st1(1) unfolding st'(1) walker_inv_def by simp_all
      show "list_all good (wk_nodes st')"
        using st1(1) g nodes unfolding walker_inv_def list_all_iff by blast
      show "(ch, nd_id nd') \<in> set (heads st1)" if "nd' \<in> set (wk_nodes st')" "ch \<in> set (elems (nd_children nd'))" for nd' ch
        using nodes[OF that(1)] that(2) st1(1,3) links by (auto simp: walker_inv_def links_ok_def)
    qed
    moreover have "grows st0 st'"
    proof -
      obtain tl where tl: "wk_nodes st = wk_nodes st0 @ tl" using base(2) unfolding grows_def by blast
      then have "wk_nodes st' = wk_nodes st0 @ tl[n - length (wk_nodes st0) := nd]"
        unfolding st'(1) using base(1) st1(2) by (simp add: list_update_append)
      moreover have "wk_errors st' = wk_errors st" "wk_truncated st' = wk_truncated st" "wk_seen st' = wk_seen st"
        using c unfolding st'(1) by (auto simp: ctx_err_eq)
      ultimately show ?thesis
        using base(2) w st1(2) unfolding grows_def by simp
    qed
    moreover have "(nd_id nd, nd_parent nd) \<in> set (heads st')"
      unfolding h st1(3) using n fields by (force simp: heads_def)
    ultimately show ?thesis using st'(2) by simp
  qed
qed

section \<open>The walk\<close>

lemma enter_append:
  assumes "walker_inv good opts st" "int (length (wk_nodes st)) < o_max_nodes opts" "i \<notin> set (wk_seen st)"
    and "nd_id nd = i" "nd_children nd = None" "good nd"
    and st': "st' = st\<lparr>wk_seen := i # wk_seen st, wk_world := w, wk_warnings := wk_warnings st @ elems (nd_warnings nd),
      wk_errors := wk_errors st + int (length (elems (nd_warnings nd))), wk_nodes := wk_nodes st @ [nd]\<rparr>"
  shows "walker_inv good opts st' \<and> grows st st'"
proof -
  have "mset (all_warnings (wk_nodes st)) + mset (elems (nd_warnings nd)) \<subseteq># mset (wk_warnings st) + mset (elems (nd_warnings nd))"
    using assms(1) by (simp add: walker_inv_def)
  then have "walker_inv good opts st'"
    using assms(1-6) unfolding st' by (auto simp: walker_inv_def heads_def all_warnings_def)
  then show ?thesis
    unfolding st' by (auto simp: grows_def all_warnings_def)
qed

lemma zero_node_invalid [simp]: "\<not> id_valid (nd_id zero_node)"
  by (simp add: zero_node_def bare_node_def id_valid_def no_id_def)

context snapshot_provider
begin

lemma enter_node_inv:
  assumes "walker_inv (good (o_max_text opts) (o_allow_sensitive opts)) opts st" "enter_node pv opts below i parent st = (entered, st')"
  shows "walker_inv (good (o_max_text opts) (o_allow_sensitive opts)) opts st' \<and> grows st st' \<and>
    (case entered of
       Inl r \<Rightarrow> (\<forall>ch. r = Inr ch \<longrightarrow> \<not> id_valid (nd_id ch))
     | Inr nd \<Rightarrow> nd_id nd = i \<and> nd_parent nd = parent \<and> nd_children nd = None \<and> good (o_max_text opts) (o_allow_sensitive opts) nd \<and>
         wk_nodes st' = wk_nodes st @ [nd])"
proof -
  let ?good = "good (o_max_text opts) (o_allow_sensitive opts)"
  consider "int (length (wk_nodes st)) \<ge> o_max_nodes opts" | "int (length (wk_nodes st)) < o_max_nodes opts" "i \<in> set (wk_seen st)"
    | "int (length (wk_nodes st)) < o_max_nodes opts" "i \<notin> set (wk_seen st)" by linarith
  then show ?thesis
  proof cases
    case 1
    then show ?thesis
      using assms by (auto simp: enter_node_def walker_inv_truncated grows_updates)
  next
    case 2
    then show ?thesis
      using assms by (auto simp: enter_node_def grows_refl)
  next
    case 3
    define st1 where "st1 = (let st = st\<lparr>wk_seen := i # wk_seen st\<rparr> in
        if id_valid parent then st\<lparr>wk_world := pv_record pv i parent (wk_world st)\<rparr> else st)"
    obtain r w where read: "pv_read pv (o_fresh opts) i parent (o_max_text opts) (o_allow_sensitive opts) (wk_world st1) = (r, w)"
      by fastforce
    have seen: "st1\<lparr>wk_world := w\<rparr> = st\<lparr>wk_seen := i # wk_seen st, wk_world := w\<rparr>"
      by (simp add: st1_def Let_def)
    have plain: "walker_inv ?good opts (st\<lparr>wk_seen := i # wk_seen st, wk_world := w\<rparr>)"
      "grows st (st\<lparr>wk_seen := i # wk_seen st, wk_world := w\<rparr>)"
      using assms(1) by (auto simp: walker_inv_def heads_def grows_def)
    have run: "(entered, st') = (case r of
          Inl e \<Rightarrow> (Inl (Inl (Failed e)), st1\<lparr>wk_world := w\<rparr>)
        | Inr nd \<Rightarrow>
            if o_visible_only opts \<and> below \<and> \<not> nd_visible nd \<and> \<not> nd_showing nd then (Inl (Inr zero_node), st1\<lparr>wk_world := w\<rparr>)
            else
              let st = add_warnings (elems (nd_warnings nd)) (st1\<lparr>wk_world := w\<rparr>) in
              (Inr nd, st\<lparr>wk_nodes := wk_nodes st @ [nd]\<rparr>))"
      using assms(2) 3 read unfolding st1_def Let_def enter_node_def by simp
    show ?thesis
    proof (cases r)
      case (Inl e)
      then show ?thesis using run plain by (simp add: seen)
    next
      case (Inr nd)
      note facts = read_node[OF read[unfolded Inr]] read_good[OF read[unfolded Inr]]
      show ?thesis
      proof (cases "o_visible_only opts \<and> below \<and> \<not> nd_visible nd \<and> \<not> nd_showing nd")
        case True
        then show ?thesis using run plain Inr by (simp add: seen)
      next
        case False
        have "(entered, st') = (let st = add_warnings (elems (nd_warnings nd)) (st\<lparr>wk_seen := i # wk_seen st, wk_world := w\<rparr>) in
            (Inr nd, st\<lparr>wk_nodes := wk_nodes st @ [nd]\<rparr>))"
          using run unfolding seen Inr sum.case if_not_P[OF False] .
        then have "entered = Inr nd" and st': "st' = st\<lparr>wk_seen := i # wk_seen st, wk_world := w,
            wk_warnings := wk_warnings st @ elems (nd_warnings nd),
            wk_errors := wk_errors st + int (length (elems (nd_warnings nd))), wk_nodes := wk_nodes st @ [nd]\<rparr>"
          by (simp_all add: add_warnings_def Let_def)
        then show ?thesis
          using enter_append[OF assms(1) 3 _ _ _ st'] facts by (simp add: st')
      qed
    qed
  qed
qed

lemma visit_node_inv:
  assumes "visit_ok (good (o_max_text opts) (o_allow_sensitive opts)) opts i visit"
    and inv: "walker_inv (good (o_max_text opts) (o_allow_sensitive opts)) opts st"
    and run: "visit_node lo sp pr pv opts visit below i parent st = (r, st')"
  shows "walker_inv (good (o_max_text opts) (o_allow_sensitive opts)) opts st' \<and> grows st st' \<and>
    (\<forall>ch. r = Inr ch \<longrightarrow> id_valid (nd_id ch) \<longrightarrow> (nd_id ch, parent) \<in> set (heads st'))"
proof -
  let ?good = "good (o_max_text opts) (o_allow_sensitive opts)"
  obtain entered st1 where enter: "enter_node pv opts below i parent st = (entered, st1)" by fastforce
  note entered = enter_node_inv[OF inv enter]
  show ?thesis
  proof (cases entered)
    case (Inl x)
    then show ?thesis
      using entered run enter by (auto simp: visit_node_def)
  next
    case (Inr nd)
    then have nd: "nd_id nd = i" "nd_parent nd = parent" "nd_children nd = None" "?good nd" "wk_nodes st1 = wk_nodes st @ [nd]"
      and st1: "walker_inv ?good opts st1" "grows st st1"
      using entered by auto
    define n where "n = length (wk_nodes st)"
    have n: "length (wk_nodes st1) - 1 = n" "n < length (wk_nodes st1)" "wk_nodes st1 ! n = nd"
      using nd(5) by (simp_all add: n_def)
    have links: "links_ok nd st1" using nd(3) by (simp add: links_ok_def)
    have finish: "walker_inv ?good opts st' \<and> grows st st' \<and> (\<forall>ch. r = Inr ch \<longrightarrow> id_valid (nd_id ch) \<longrightarrow> (nd_id ch, parent) \<in> set (heads st'))"
      if "finish_node pv n nd2 st2 = (r, st')" "walker_inv ?good opts st2" "grows st1 st2" "same_node nd nd2" "links_ok nd2 st2" "?good nd2"
      for nd2 st2
    proof -
      note fin = that
      obtain tl where tl: "wk_nodes st2 = wk_nodes st1 @ tl" using fin(3) unfolding grows_def by blast
      have at: "n < length (wk_nodes st2)" "wk_nodes st2 ! n = nd"
        using n tl by (simp_all add: nth_append)
      have "nd_parent nd2 = parent" using fin(4) nd(2) by (auto simp: same_node_def)
      then show ?thesis
        using finish_node_inv[OF fin(2) at(1) _ fin(5,6,1) _ grows_trans[OF st1(2) fin(3)]] at(2) fin(4) n_def by auto
    qed
    consider "nd_child_count nd \<le> 0" | "0 < nd_child_count nd" "skip_role lo sp opts (nd_role nd)"
      | "0 < nd_child_count nd" "\<not> skip_role lo sp opts (nd_role nd)" by linarith
    then show ?thesis
    proof cases
      case 1
      then have "finish_node pv n nd st1 = (r, st')"
        using run enter Inr n by (simp add: visit_node_def Let_def)
      then show ?thesis
        by (rule finish) (rule st1 grows_refl same_node_refl links nd)+
    next
      case 2
      define reason where "reason = ''subtree below role '' @ go_quote pr (nd_role nd) @ '' was skipped''"
      have "finish_node pv n nd (mark_truncated reason st1) = (r, st')"
        using run enter Inr n 2 by (simp add: visit_node_def Let_def reason_def)
      then show ?thesis
        by (rule finish) (rule walker_inv_truncated st1 grows_updates same_node_refl links_grows[OF links grows_updates(3)] nd)+
    next
      case 3
      obtain f nd2 st2 where children: "walk_children pv opts visit i nd st1 = (f, nd2, st2)"
        by (cases "walk_children pv opts visit i nd st1") auto
      note below = walk_children_inv[OF assms(1) st1(1) nd(1) links nd(4) children]
      show ?thesis
      proof (cases f)
        case None
        then have "finish_node pv n nd2 st2 = (r, st')"
          using run enter Inr n 3 children by (simp add: visit_node_def Let_def)
        then show ?thesis using below finish[of nd2 st2] by simp
      next
        case (Some e)
        then show ?thesis
          using run enter Inr n 3 children below grows_trans[OF st1(2)] by (auto simp: visit_node_def Let_def)
      qed
    qed
  qed
qed

lemma walk_ok: "visit_ok (good (o_max_text opts) (o_allow_sensitive opts)) opts parent (\<lambda>i. walk lo sp pr pv opts n i parent)"
proof (induction n arbitrary: parent)
  case 0
  show ?case
    unfolding visit_ok_def
    by (auto simp: ctx_err_eq walker_inv_truncated split: option.splits intro: grows_updates grows_trans[OF grows_updates(1)])
next
  case (Suc n)
  have visit: "visit_ok (good (o_max_text opts) (o_allow_sensitive opts)) opts i (\<lambda>child. walk lo sp pr pv opts n child i)" for i
    by (rule Suc.IH)
  show ?case
    unfolding visit_ok_def
  proof (intro allI impI)
    fix i st r st'
    assume inv: "walker_inv (good (o_max_text opts) (o_allow_sensitive opts)) opts st"
      and run: "walk lo sp pr pv opts (Suc n) i parent st = (r, st')"
    obtain c st1 where c: "ctx_err pv st = (c, st1)" by fastforce
    have st1: "walker_inv (good (o_max_text opts) (o_allow_sensitive opts)) opts st1" "grows st st1"
      using c inv by (auto simp: ctx_err_eq grows_updates)
    show "walker_inv (good (o_max_text opts) (o_allow_sensitive opts)) opts st' \<and> grows st st' \<and>
        (\<forall>ch. r = Inr ch \<longrightarrow> id_valid (nd_id ch) \<longrightarrow> (nd_id ch, parent) \<in> set (heads st'))"
    proof (cases c)
      case (Some e)
      then show ?thesis using run c st1 by auto
    next
      case None
      then have "visit_node lo sp pr pv opts (\<lambda>child. walk lo sp pr pv opts n child i) (int n < o_max_depth opts) i parent st1 = (r, st')"
        using run c by simp
      from visit_node_inv[OF visit st1(1) this] show ?thesis
        using grows_trans[OF st1(2)] by blast
    qed
  qed
qed

lemma walk_root_inv:
  assumes "walk_root lo sp pr pv opts root w = (r, st)"
  shows "walker_inv (good (o_max_text opts) (o_allow_sensitive opts)) opts st"
proof -
  have "walker_inv (good (o_max_text opts) (o_allow_sensitive opts)) opts (walker_start w)"
    by (simp add: walker_inv_def walker_start_def heads_def all_warnings_def)
  from visit_okD(1)[OF walk_ok this] show ?thesis
    using assms unfolding walk_root_def by blast
qed

end

end
