(* ===== verification/AccWalkComplete.thy ===== *)
theory AccWalkComplete
  imports AccWalkSafe
begin

text \<open>
  When the traversal is complete: from a provider whose answers do not change, a snapshot that is not
  truncated and has no warnings besides those of its nodes contains exactly the objects that are
  reachable from the root through shown objects. The provider may fail at any time, and the caller may
  give up at any time.
\<close>

section \<open>A provider that does not change\<close>

record tree =
  t_node :: "node_id \<Rightarrow> acc_node"
  t_children :: "node_id \<Rightarrow> identity list"
  t_ref :: "identity \<Rightarrow> node_id"

text \<open>Successful answers are those of the tree; \<open>dead\<close> are the worlds in which the context has ended.\<close>

definition shows_tree :: "('w, 'e) provider \<Rightarrow> tree \<Rightarrow> ('w \<Rightarrow> bool) \<Rightarrow> bool" where
  "shows_tree pv t dead \<longleftrightarrow>
     (\<forall>fresh i p m s w nd w'. pv_read pv fresh i p m s w = (Inr nd, w') \<longrightarrow> nd = (t_node t i)\<lparr>nd_parent := p\<rparr>) \<and>
     (\<forall>i. nd_id (t_node t i) = i \<and> nd_children (t_node t i) = None) \<and>
     (\<forall>fresh i w refs w'. pv_children pv fresh i w = (Inr refs, w') \<longrightarrow> refs = t_children t i) \<and>
     (\<forall>r w. fst (pv_ref pv r w) = t_ref t r) \<and>
     (\<forall>w e. fst (pv_ctx pv w) = Some e \<longrightarrow> dead (snd (pv_ctx pv w))) \<and>
     (\<forall>w. dead w \<longrightarrow> fst (pv_ctx pv w) \<noteq> None)"

definition shown :: "snapshot_options \<Rightarrow> tree \<Rightarrow> node_id \<Rightarrow> node_id \<Rightarrow> bool" where
  "shown opts t root i \<longleftrightarrow>
     \<not> (o_visible_only opts \<and> i \<noteq> root \<and> \<not> nd_visible (t_node t i) \<and> \<not> nd_showing (t_node t i))"

inductive reach :: "snapshot_options \<Rightarrow> tree \<Rightarrow> node_id \<Rightarrow> node_id \<Rightarrow> bool" for opts t root where
  reach_root: "reach opts t root root"
| reach_child: "reach opts t root i \<Longrightarrow> shown opts t root i \<Longrightarrow> 0 < nd_child_count (t_node t i) \<Longrightarrow> r \<in> set (t_children t i) \<Longrightarrow>
    reach opts t root (t_ref t r)"

section \<open>Closed states\<close>

definition ids :: "('w, 'e) walker \<Rightarrow> node_id set" where
  "ids st = set (map nd_id (wk_nodes st))"

definition clean :: "('w, 'e) walker \<Rightarrow> bool" where
  "clean st \<longleftrightarrow> \<not> wk_truncated st \<and> wk_errors st = int (length (all_warnings (wk_nodes st)))"

text \<open>Every object seen, except for those whose subtree is being walked, is done with.\<close>

definition closed :: "snapshot_options \<Rightarrow> tree \<Rightarrow> node_id \<Rightarrow> node_id set \<Rightarrow> ('w, 'e) walker \<Rightarrow> bool" where
  "closed opts t root opened st \<longleftrightarrow>
     (\<forall>i \<in> set (wk_seen st) - opened. shown opts t root i \<longrightarrow>
        i \<in> ids st \<and> (0 < nd_child_count (t_node t i) \<longrightarrow> (\<forall>r \<in> set (t_children t i). t_ref t r \<in> set (wk_seen st))))"

definition inside :: "snapshot_options \<Rightarrow> tree \<Rightarrow> node_id \<Rightarrow> ('w, 'e) walker \<Rightarrow> bool" where
  "inside opts t root st \<longleftrightarrow> (\<forall>i \<in> set (wk_seen st). reach opts t root i) \<and> (\<forall>i \<in> ids st. shown opts t root i)"

lemma extra_nonneg: "walker_inv good opts st \<Longrightarrow> int (length (all_warnings (wk_nodes st))) \<le> wk_errors st"
  unfolding walker_inv_def by (metis of_nat_le_iff size_mset size_mset_mono)

lemma clean_before: "walker_inv good opts st \<Longrightarrow> grows st st' \<Longrightarrow> clean st' \<Longrightarrow> clean st"
  using extra_nonneg[of good opts st] by (auto simp: clean_def grows_def)

lemma not_clean_truncated: "grows (mark_truncated reason st) st' \<Longrightarrow> \<not> clean st'"
  by (auto simp: clean_def grows_def mark_truncated_def Let_def split: if_splits)

lemma not_clean_warning: "walker_inv good opts st \<Longrightarrow> grows (add_warnings [s] st) st' \<Longrightarrow> \<not> clean st'"
  using extra_nonneg[of good opts st] by (auto simp: clean_def grows_def add_warnings_def)

text \<open>What a visit does for completeness.\<close>

definition visit_closes :: "snapshot_options \<Rightarrow> tree \<Rightarrow> node_id \<Rightarrow> (node_id \<Rightarrow> ('w, 'e) walker \<Rightarrow> ('e walk_error + acc_node) \<times> ('w, 'e) walker) \<Rightarrow> bool" where
  "visit_closes opts t root visit \<longleftrightarrow>
     (\<forall>c st r st' opened. walker_inv (\<lambda>_. True) opts st \<longrightarrow> reach opts t root c \<longrightarrow> root \<in> set (wk_seen st) \<longrightarrow> inside opts t root st \<longrightarrow>
        visit c st = (r, st') \<longrightarrow>
        inside opts t root st' \<and>
        (closed opts t root opened st \<longrightarrow> clean st' \<longrightarrow> (\<exists>ch. r = Inr ch) \<longrightarrow> closed opts t root opened st' \<and> c \<in> set (wk_seen st')))"

lemma visit_closesD:
  assumes "visit_closes opts t root visit" "walker_inv (\<lambda>_. True) opts st" "reach opts t root c" "root \<in> set (wk_seen st)"
    "inside opts t root st" "visit c st = (r, st')"
  shows "inside opts t root st'"
    "closed opts t root opened st \<Longrightarrow> clean st' \<Longrightarrow> r = Inr ch \<Longrightarrow> closed opts t root opened st' \<and> c \<in> set (wk_seen st')"
  using assms unfolding visit_closes_def by blast+

lemma shows_treeD:
  assumes "shows_tree pv t dead"
  shows "pv_read pv fresh i p m s w = (Inr nd, w') \<Longrightarrow> nd = (t_node t i)\<lparr>nd_parent := p\<rparr>"
    "nd_id (t_node t i) = i" "nd_children (t_node t i) = None"
    "pv_children pv fresh i w = (Inr refs, w') \<Longrightarrow> refs = t_children t i" "fst (pv_ref pv r w) = t_ref t r"
    "fst (pv_ctx pv w) = Some e \<Longrightarrow> dead (snd (pv_ctx pv w))" "dead w \<Longrightarrow> fst (pv_ctx pv w) \<noteq> None"
  using assms unfolding shows_tree_def by blast+

lemma tree_provider: "shows_tree pv t dead \<Longrightarrow> snapshot_provider pv (\<lambda>_ _ _. True)"
  by unfold_locales (frule (1) shows_treeD(1), simp add: shows_treeD(2,3))+

lemma mark_fields [simp]: "wk_nodes (mark_truncated reason st) = wk_nodes st" "wk_seen (mark_truncated reason st) = wk_seen st"
  by (simp_all add: mark_truncated_def Let_def)

lemma world_same [simp]:
  "closed opts t root opened (st\<lparr>wk_world := w\<rparr>) = closed opts t root opened st"
  "inside opts t root (st\<lparr>wk_world := w\<rparr>) = inside opts t root st"
  "inside opts t root (st\<lparr>wk_err := e\<rparr>) = inside opts t root st"
  "inside opts t root (add_warnings ws st) = inside opts t root st"
  "inside opts t root (mark_truncated reason st) = inside opts t root st"
  by (simp_all add: closed_def inside_def ids_def add_warnings_def mark_truncated_def Let_def)

section \<open>The loop over the children\<close>

lemma child_loop_closes:
  assumes tree: "shows_tree pv t dead" and ok: "visit_ok (\<lambda>_. True) opts i visit" and closes: "visit_closes opts t root visit"
  shows "walker_inv (\<lambda>_. True) opts st \<Longrightarrow> nd_id nd = i \<Longrightarrow> links_ok nd st \<Longrightarrow>
    \<forall>r \<in> set refs. reach opts t root (t_ref t r) \<Longrightarrow> root \<in> set (wk_seen st) \<Longrightarrow> inside opts t root st \<Longrightarrow>
    child_loop pv opts visit refs nd st = (f, nd', st') \<Longrightarrow>
    inside opts t root st' \<and>
    (closed opts t root opened st \<longrightarrow> clean st' \<longrightarrow> f = None \<longrightarrow> \<not> dead (wk_world st') \<longrightarrow>
       closed opts t root opened st' \<and> (\<forall>r \<in> set refs. t_ref t r \<in> set (wk_seen st')))"
proof (induction refs arbitrary: nd st)
  case Nil
  then show ?case by simp
next
  case (Cons ref refs)
  note loop = snapshot_provider.child_loop_inv[OF tree_provider[OF tree] ok]
  show ?case
  proof (cases "int (length (wk_nodes st)) \<ge> o_max_nodes opts")
    case True
    then show ?thesis
      using Cons.prems(6,7) not_clean_truncated[OF grows_refl] by auto
  next
    case False
    obtain w where ref: "pv_ref pv ref (wk_world st) = (t_ref t ref, w)"
      using shows_treeD(5)[OF tree, of ref "wk_world st"] by (metis prod.collapse)
    obtain r st1 where visit: "visit (t_ref t ref) (st\<lparr>wk_world := w\<rparr>) = (r, st1)" by fastforce
    have inv: "walker_inv (\<lambda>_. True) opts (st\<lparr>wk_world := w\<rparr>)" using Cons.prems(1) by simp
    note step = visit_okD[OF ok inv visit]
    have grow: "grows st st1" by (rule grows_trans[OF grows_updates(1) step(2)])
    have cl: "inside opts t root st1"
      "closed opts t root opened st \<Longrightarrow> clean st1 \<Longrightarrow> r = Inr ch \<Longrightarrow> closed opts t root opened st1 \<and> t_ref t ref \<in> set (wk_seen st1)" for ch
      using visit_closesD(1)[OF closes inv _ _ _ visit] visit_closesD(2)[OF closes inv _ _ _ visit, of opened] Cons.prems(4,5,6)
      by auto
    have seen: "root \<in> set (wk_seen st1)" using grow Cons.prems(5) by (auto simp: grows_def)
    have links: "links_ok nd st1" by (rule links_grows[OF Cons.prems(3) grow])
    show ?thesis
    proof (cases r)
      case (Inr ch)
      define nd1 where "nd1 = (if id_valid (nd_id ch) then add_child (nd_id ch) nd else nd)"
      have run: "child_loop pv opts visit refs nd1 st1 = (f, nd', st')"
        using Cons.prems(7) False ref visit Inr by (simp add: nd1_def)
      have nd1: "nd_id nd1 = i" "links_ok nd1 st1"
        using links step(3)[OF Inr] Cons.prems(2) by (auto simp: nd1_def links_ok_def add_child_def)
      have below: "grows st1 st'"
        using loop[OF step(1) nd1 TrueI run] by simp
      have IH: "inside opts t root st' \<and> (closed opts t root opened st1 \<longrightarrow> clean st' \<longrightarrow> f = None \<longrightarrow> \<not> dead (wk_world st') \<longrightarrow>
          closed opts t root opened st' \<and> (\<forall>r \<in> set refs. t_ref t r \<in> set (wk_seen st')))"
        using Cons.IH[OF step(1) nd1 _ seen cl(1) run] Cons.prems(4) by simp
      show ?thesis
        using IH cl(2)[OF _ clean_before[OF step(1) below] Inr] below by (auto simp: grows_def)
    next
      case (Inl e)
      obtain cx st2 where cx: "ctx_err pv st1 = (cx, st2)" by fastforce
      have st2: "walker_inv (\<lambda>_. True) opts st2" "inside opts t root st2" "grows st st2"
        using cx step(1) cl(1) grows_trans[OF grow grows_updates(1)] by (auto simp: ctx_err_eq)
      consider "cx \<noteq> None" | "cx = None" "error_stale pv e" | "cx = None" "\<not> error_stale pv e" by blast
      then show ?thesis
      proof cases
        case 1
        then have "dead (wk_world st2)"
          using cx shows_treeD(6)[OF tree] by (auto simp: ctx_err_eq)
        then show ?thesis
          using Cons.prems(7) False ref visit Inl cx st2 1 by auto
      next
        case 2
        then show ?thesis
          using Cons.prems(7) False ref visit Inl cx st2 by auto
      next
        case 3
        have run: "child_loop pv opts visit refs nd (add_warnings [error_text pv e] st2) = (f, nd', st')"
          using Cons.prems(7) False ref visit Inl cx 3 by simp
        have grow3: "grows st (add_warnings [error_text pv e] st2)"
          by (rule grows_trans[OF st2(3) grows_updates(4)])
        note inv3 = walker_inv_warnings[OF st2(1), of "[error_text pv e]"]
        have "grows (add_warnings [error_text pv e] st2) st'"
          using loop[OF inv3 Cons.prems(2) links_grows[OF Cons.prems(3) grow3] TrueI run] by simp
        then have "\<not> clean st'" by (rule not_clean_warning[OF st2(1)])
        moreover have "inside opts t root st'"
          using Cons.IH[OF inv3 Cons.prems(2) links_grows[OF Cons.prems(3) grow3] _ _ _ run] Cons.prems(4,5) st2(2) grow3
          by (auto simp: grows_def)
        ultimately show ?thesis by blast
      qed
    qed
  qed
qed

lemma walk_children_closes:
  assumes tree: "shows_tree pv t dead" and ok: "visit_ok (\<lambda>_. True) opts i visit" and closes: "visit_closes opts t root visit"
    and pre: "walker_inv (\<lambda>_. True) opts st" "nd_id nd = i" "links_ok nd st"
      "\<forall>r \<in> set (t_children t i). reach opts t root (t_ref t r)" "root \<in> set (wk_seen st)" "inside opts t root st"
    and run: "walk_children pv opts visit i nd st = (f, nd', st')"
  shows "inside opts t root st' \<and>
    (closed opts t root opened st \<longrightarrow> clean st' \<longrightarrow> f = None \<longrightarrow> \<not> dead (wk_world st') \<longrightarrow>
       closed opts t root opened st' \<and> (\<forall>r \<in> set (t_children t i). t_ref t r \<in> set (wk_seen st')))"
proof -
  obtain answer w where answer: "pv_children pv (o_fresh opts) i (wk_world st) = (answer, w)" by fastforce
  define st1 where "st1 = st\<lparr>wk_world := w\<rparr>"
  have st1: "walker_inv (\<lambda>_. True) opts st1" "inside opts t root st1" "closed opts t root opened st1 = closed opts t root opened st"
    "grows st st1" "root \<in> set (wk_seen st1)"
    using pre by (simp_all add: st1_def grows_updates)
  show ?thesis
  proof (cases answer)
    case (Inl e)
    then show ?thesis
      using run answer st1 not_clean_warning[OF st1(1) grows_refl]
      by (auto simp: walk_children_def st1_def[symmetric] split: if_splits)
  next
    case (Inr refs)
    have refs: "refs = t_children t i"
      using shows_treeD(4)[OF tree answer[unfolded Inr]] .
    define st2 where "st2 = (if int (length refs) \<noteq> nd_child_count nd then
        mark_truncated (count_mismatch i nd refs) st1 else st1)"
    have st2: "walker_inv (\<lambda>_. True) opts st2" "grows st st2" "inside opts t root st2" "root \<in> set (wk_seen st2)"
      using st1 grows_trans[OF st1(4) grows_updates(3)]
      by (simp_all add: st2_def walker_inv_truncated)
    have cl: "closed opts t root opened st \<Longrightarrow> closed opts t root opened st2"
      using st1(3) by (auto simp: st2_def closed_def ids_def)
    have run2: "child_loop pv opts visit refs nd st2 = (f, nd', st')"
      using run answer Inr unfolding st2_def st1_def by (simp add: walk_children_def Let_def split del: if_split)
    show ?thesis
      using child_loop_closes[OF tree ok closes st2(1) pre(2) links_grows[OF pre(3) st2(2)] _ st2(4,3) run2, of opened] pre(4) cl refs
      by blast
  qed
qed

section \<open>One visit\<close>

lemma finish_node_done:
  assumes "finish_node pv n nd st = (r, st')" "n < length (wk_nodes st)" "nd_id nd = nd_id (wk_nodes st ! n)"
    "nd_warnings nd = nd_warnings (wk_nodes st ! n)"
  shows "wk_seen st' = wk_seen st" "ids st' = ids st" "clean st' = clean st"
    "shows_tree pv t dead \<Longrightarrow> r = Inr ch \<Longrightarrow> \<not> dead (wk_world st)"
proof -
  have ids: "set (map nd_id ((wk_nodes st)[n := nd])) = set (map nd_id (wk_nodes st))"
    using assms(2,3) by (metis list_update_id map_update)
  note warnings = all_warnings_update[OF assms(2,4)]
  show "wk_seen st' = wk_seen st" "ids st' = ids st" "clean st' = clean st"
    using assms(1) ids warnings by (auto simp: finish_node_def ctx_err_eq ids_def clean_def split: option.splits)
  show "\<not> dead (wk_world st)" if "shows_tree pv t dead" "r = Inr ch"
    using assms(1) that(2) shows_treeD(7)[OF that(1), of "wk_world st"] by (auto simp: finish_node_def ctx_err_eq split: option.splits)
qed

text \<open>How a visit begins: refused, seen before or hidden, not readable, or a new node.\<close>

lemma enter_node_cases:
  assumes tree: "shows_tree pv t dead" and enter: "enter_node pv opts below i parent st = (entered, st1)"
  obtains (refused) e where "entered = Inl (Inl e)" "ids st1 = ids st" "set (wk_seen st1) \<subseteq> insert i (set (wk_seen st))"
  | (seen) nd where "entered = Inl (Inr nd)" "i \<in> set (wk_seen st)" "st1 = st"
  | (hidden) nd where "entered = Inl (Inr nd)" "i \<notin> set (wk_seen st)" "ids st1 = ids st" "wk_seen st1 = i # wk_seen st"
      "o_visible_only opts \<and> below \<and> \<not> nd_visible (t_node t i) \<and> \<not> nd_showing (t_node t i)"
  | (new) nd where "entered = Inr nd" "i \<notin> set (wk_seen st)" "wk_nodes st1 = wk_nodes st @ [nd]" "wk_seen st1 = i # wk_seen st"
      "nd = (t_node t i)\<lparr>nd_parent := parent\<rparr>"
      "\<not> (o_visible_only opts \<and> below \<and> \<not> nd_visible (t_node t i) \<and> \<not> nd_showing (t_node t i))"
proof -
  consider "int (length (wk_nodes st)) \<ge> o_max_nodes opts" | "int (length (wk_nodes st)) < o_max_nodes opts" "i \<in> set (wk_seen st)"
    | "int (length (wk_nodes st)) < o_max_nodes opts" "i \<notin> set (wk_seen st)" by linarith
  then show thesis
  proof cases
    case 1
    have "\<exists>e reason. entered = Inl (Inl e) \<and> st1 = mark_truncated reason st"
      using enter unfolding enter_node_def if_P[OF 1] prod.inject by blast
    then obtain e reason where e: "entered = Inl (Inl e)" "st1 = mark_truncated reason st" by blast
    show thesis
      by (rule refused[OF e(1)]) (auto simp: e(2) ids_def)
  next
    case 2
    then have e: "entered = Inl (Inr zero_node)" "st1 = st" using enter by (auto simp: enter_node_def)
    show thesis by (rule seen[OF e(1) 2(2) e(2)])
  next
    case 3
    define st2 where "st2 = (let st = st\<lparr>wk_seen := i # wk_seen st\<rparr> in
        if id_valid parent then st\<lparr>wk_world := pv_record pv i parent (wk_world st)\<rparr> else st)"
    obtain r w where read: "pv_read pv (o_fresh opts) i parent (o_max_text opts) (o_allow_sensitive opts) (wk_world st2) = (r, w)"
      by fastforce
    have st2: "wk_nodes st2 = wk_nodes st" "wk_seen st2 = i # wk_seen st"
      by (simp_all add: st2_def Let_def)
    have run: "(entered, st1) = (case r of
          Inl e \<Rightarrow> (Inl (Inl (Failed e)), st2\<lparr>wk_world := w\<rparr>)
        | Inr nd \<Rightarrow>
            if o_visible_only opts \<and> below \<and> \<not> nd_visible nd \<and> \<not> nd_showing nd then (Inl (Inr zero_node), st2\<lparr>wk_world := w\<rparr>)
            else
              let st = add_warnings (elems (nd_warnings nd)) (st2\<lparr>wk_world := w\<rparr>) in
              (Inr nd, st\<lparr>wk_nodes := wk_nodes st @ [nd]\<rparr>))"
      using enter 3 read unfolding st2_def Let_def enter_node_def by simp
    show thesis
    proof (cases r)
      case (Inl e)
      then have e: "entered = Inl (Inl (Failed e))" "st1 = st2\<lparr>wk_world := w\<rparr>" using run by simp_all
      show thesis by (rule refused[OF e(1)]) (auto simp: e(2) ids_def st2)
    next
      case (Inr nd)
      have nd: "nd = (t_node t i)\<lparr>nd_parent := parent\<rparr>" by (rule shows_treeD(1)[OF tree read[unfolded Inr]])
      then have vis: "nd_visible nd = nd_visible (t_node t i)" "nd_showing nd = nd_showing (t_node t i)" by simp_all
      show thesis
      proof (cases "o_visible_only opts \<and> below \<and> \<not> nd_visible nd \<and> \<not> nd_showing nd")
        case True
        then have e: "entered = Inl (Inr zero_node)" "st1 = st2\<lparr>wk_world := w\<rparr>" using run Inr by simp_all
        show thesis by (rule hidden[OF e(1) 3(2)]) (use True vis in \<open>auto simp: e(2) ids_def st2\<close>)
      next
        case False
        have "(entered, st1) = (let st = add_warnings (elems (nd_warnings nd)) (st2\<lparr>wk_world := w\<rparr>) in
            (Inr nd, st\<lparr>wk_nodes := wk_nodes st @ [nd]\<rparr>))"
          using run unfolding Inr sum.case if_not_P[OF False] .
        then have e: "entered = Inr nd" "wk_nodes st1 = wk_nodes st @ [nd]" "wk_seen st1 = i # wk_seen st"
          by (simp_all add: add_warnings_def Let_def st2)
        show thesis by (rule new[OF e(1) 3(2) e(2,3) nd]) (use False vis in auto)
      qed
    qed
  qed
qed

lemma visit_node_closes:
  assumes tree: "shows_tree pv t dead" and ok: "visit_ok (\<lambda>_. True) opts i visit" and closes: "visit_closes opts t root visit"
    and inv: "walker_inv (\<lambda>_. True) opts st" and r: "reach opts t root i" and ins: "inside opts t root st"
    and pos: "if below then root \<in> set (wk_seen st) else i = root"
    and run: "visit_node lo sp pr pv opts visit below i parent st = (r, st')"
  shows "inside opts t root st' \<and>
    (closed opts t root opened st \<longrightarrow> clean st' \<longrightarrow> (\<exists>ch. r = Inr ch) \<longrightarrow> closed opts t root opened st' \<and> i \<in> set (wk_seen st'))"
proof -
  note safe = snapshot_provider.enter_node_inv[OF tree_provider[OF tree]] snapshot_provider.walk_children_inv[OF tree_provider[OF tree]]
  obtain entered st1 where enter: "enter_node pv opts below i parent st = (entered, st1)" by fastforce
  from tree enter show ?thesis
  proof (cases rule: enter_node_cases)
    case (refused e)
    then show ?thesis
      using run enter ins r by (auto simp: visit_node_def inside_def)
  next
    case (seen nd)
    then show ?thesis
      using run enter ins by (auto simp: visit_node_def)
  next
    case (hidden nd)
    have "i \<noteq> root" using pos hidden by (auto split: if_splits)
    then have "\<not> shown opts t root i" using hidden by (simp add: shown_def)
    then show ?thesis
      using run enter ins r hidden by (auto simp: visit_node_def inside_def closed_def)
  next
    case (new nd)
    have st1: "walker_inv (\<lambda>_. True) opts st1" "grows st st1"
      using safe(1)[OF inv enter] by auto
    define n where "n = length (wk_nodes st)"
    have n: "length (wk_nodes st1) - 1 = n" "n < length (wk_nodes st1)" "wk_nodes st1 ! n = nd"
      using new(3) by (simp_all add: n_def)
    have nd: "nd_id nd = i" "nd_child_count nd = nd_child_count (t_node t i)" "links_ok nd st1"
      using new(5) shows_treeD(2,3)[OF tree] by (auto simp: links_ok_def)
    have sh: "shown opts t root i" using new(6) pos by (auto simp: shown_def split: if_splits)
    have ins1: "inside opts t root st1"
      using ins new r sh nd by (auto simp: inside_def ids_def)
    have seen1: "root \<in> set (wk_seen st1)" "i \<in> set (wk_seen st1)" "i \<in> ids st1"
      using pos new nd by (auto simp: ids_def split: if_splits)
    have cl1: "closed opts t root opened st \<Longrightarrow> closed opts t root (insert i opened) st1"
      using new by (auto simp: closed_def ids_def)
    have kids: "\<forall>r \<in> set (t_children t i). reach opts t root (t_ref t r)" if "0 < nd_child_count nd"
      using reach_child[OF r sh] that nd(2) by simp
    have finish: ?thesis
      if fin: "finish_node pv n nd2 st2 = (r, st')" "grows st1 st2" "same_node nd nd2" "inside opts t root st2"
        "closed opts t root opened st \<Longrightarrow> clean st2 \<Longrightarrow> \<not> dead (wk_world st2) \<Longrightarrow> closed opts t root (insert i opened) st2 \<and>
          (0 < nd_child_count nd \<longrightarrow> (\<forall>r \<in> set (t_children t i). t_ref t r \<in> set (wk_seen st2)))"
      for nd2 st2
    proof -
      obtain tl where tl: "wk_nodes st2 = wk_nodes st1 @ tl" using fin(2) unfolding grows_def by blast
      have at: "n < length (wk_nodes st2)" "wk_nodes st2 ! n = nd" using n tl by (simp_all add: nth_append)
      note fd = finish_node_done[OF fin(1) at(1)]
      have same: "nd_id nd2 = nd_id nd" "nd_warnings nd2 = nd_warnings nd" using fin(3) by (auto simp: same_node_def)
      have eqs: "wk_seen st' = wk_seen st2" "ids st' = ids st2" "clean st' = clean st2"
        "\<And>ch. r = Inr ch \<Longrightarrow> \<not> dead (wk_world st2)"
        using fd(1-3) fd(4)[OF _ _ tree] same at(2) by auto
      have here: "i \<in> ids st2" "i \<in> set (wk_seen st2)"
        using seen1 fin(2) by (auto simp: grows_def ids_def)
      show ?thesis
        using fin(4,5) eqs here nd(2) by (auto simp: inside_def closed_def)
    qed
    consider "nd_child_count nd \<le> 0" | "0 < nd_child_count nd" "skip_role lo sp opts (nd_role nd)"
      | "0 < nd_child_count nd" "\<not> skip_role lo sp opts (nd_role nd)" by linarith
    then show ?thesis
    proof cases
      case 1
      then have "finish_node pv n nd st1 = (r, st')"
        using run enter new(1) n by (simp add: visit_node_def Let_def)
      then show ?thesis
        by (rule finish) (use 1 ins1 cl1 in \<open>auto simp: grows_refl same_node_refl\<close>)
    next
      case 2
      define reason where "reason = ''subtree below role '' @ go_quote pr (nd_role nd) @ '' was skipped''"
      have run2: "finish_node pv n nd (mark_truncated reason st1) = (r, st')"
        using run enter new(1) n 2 by (simp add: visit_node_def Let_def reason_def)
      show ?thesis
        by (rule finish[OF run2])
          (use ins1 not_clean_truncated[OF grows_refl] in \<open>auto simp: grows_updates same_node_refl\<close>)
    next
      case 3
      obtain f nd2 st2 where children: "walk_children pv opts visit i nd st1 = (f, nd2, st2)"
        by (cases "walk_children pv opts visit i nd st1") auto
      have below: "grows st1 st2" "same_node nd nd2"
        using safe(2)[OF ok st1(1) nd(1,3) TrueI children] by auto
      note cl = walk_children_closes[OF tree ok closes st1(1) nd(1,3) kids[OF 3(1)] seen1(1) ins1 children, of "insert i opened"]
      show ?thesis
      proof (cases f)
        case None
        then have run2: "finish_node pv n nd2 st2 = (r, st')"
          using run enter new(1) n 3 children by (simp add: visit_node_def Let_def)
        show ?thesis
          by (rule finish[OF run2 below]) (use cl cl1 None in auto)
      next
        case (Some e)
        then show ?thesis
          using run enter new(1) n 3 children cl by (auto simp: visit_node_def Let_def)
      qed
    qed
  qed
qed

lemma walk_closes:
  assumes tree: "shows_tree pv t dead"
  shows "int n \<le> o_max_depth opts \<Longrightarrow> visit_closes opts t root (\<lambda>i. walk lo sp pr pv opts n i parent)"
proof (induction n arbitrary: parent)
  case 0
  show ?case
    unfolding visit_closes_def by (auto simp: ctx_err_eq split: option.splits)
next
  case (Suc n)
  have closes: "visit_closes opts t root (\<lambda>child. walk lo sp pr pv opts n child i)" for i
    using Suc by simp
  note ok = snapshot_provider.walk_ok[OF tree_provider[OF tree]]
  show ?case
    unfolding visit_closes_def
  proof (intro allI impI)
    fix i st r st' opened
    assume pre: "walker_inv (\<lambda>_. True) opts st" "reach opts t root i" "root \<in> set (wk_seen st)" "inside opts t root st"
      and run: "walk lo sp pr pv opts (Suc n) i parent st = (r, st')"
    obtain c st1 where c: "ctx_err pv st = (c, st1)" by fastforce
    have st1: "walker_inv (\<lambda>_. True) opts st1" "inside opts t root st1" "wk_seen st1 = wk_seen st"
      "closed opts t root opened st1 = closed opts t root opened st"
      using c pre by (auto simp: ctx_err_eq)
    show "inside opts t root st' \<and>
        (closed opts t root opened st \<longrightarrow> clean st' \<longrightarrow> (\<exists>ch. r = Inr ch) \<longrightarrow> closed opts t root opened st' \<and> i \<in> set (wk_seen st'))"
    proof (cases c)
      case (Some e)
      then show ?thesis using run c st1 by auto
    next
      case None
      then have "visit_node lo sp pr pv opts (\<lambda>child. walk lo sp pr pv opts n child i) True i parent st1 = (r, st')"
        using run c Suc.prems by simp
      from visit_node_closes[OF tree ok closes st1(1) pre(2) st1(2) _ this, of opened] show ?thesis
        using pre(3) st1(3,4) by simp
    qed
  qed
qed

lemma walk_root_closes:
  assumes tree: "shows_tree pv t dead" and depth: "0 \<le> o_max_depth opts"
    and run: "walk_root lo sp pr pv opts root w = (r, st)"
  shows "inside opts t root st" "clean st \<Longrightarrow> r = Inr nd \<Longrightarrow> closed opts t root {} st \<and> root \<in> set (wk_seen st)"
proof -
  define n where "n = nat (o_max_depth opts)"
  have n: "nat (o_max_depth opts + 1) = Suc n" "int n = o_max_depth opts" using depth by (simp_all add: n_def)
  have closes: "visit_closes opts t root (\<lambda>child. walk lo sp pr pv opts n child i)" for i
    using walk_closes[OF tree] n by simp
  note ok = snapshot_provider.walk_ok[OF tree_provider[OF tree]]
  obtain c st1 where c: "ctx_err pv (walker_start w :: ('a, 'b) walker) = (c, st1)" by fastforce
  have st1: "walker_inv (\<lambda>_. True) opts st1" "inside opts t root st1" "closed opts t root {} st1"
    using c by (auto simp: ctx_err_eq walker_start_def walker_inv_def heads_def all_warnings_def inside_def ids_def closed_def)
  have "inside opts t root st \<and> (clean st \<longrightarrow> r = Inr nd \<longrightarrow> closed opts t root {} st \<and> root \<in> set (wk_seen st))" for nd
  proof (cases c)
    case (Some e)
    then show ?thesis using run c st1 by (auto simp: walk_root_def n)
  next
    case None
    then have "visit_node lo sp pr pv opts (\<lambda>child. walk lo sp pr pv opts n child root) False root no_id st1 = (r, st)"
      using run c by (simp add: walk_root_def n)
    from visit_node_closes[OF tree ok closes st1(1) reach_root st1(2) _ this, of "{}"] show ?thesis
      using st1(3) by auto
  qed
  then show "inside opts t root st" "clean st \<Longrightarrow> r = Inr nd \<Longrightarrow> closed opts t root {} st \<and> root \<in> set (wk_seen st)"
    by blast+
qed

end
