(* ===== verification/AccTree.thy ===== *)
theory AccTree
  imports AccWalkComplete
begin

text \<open>
  The snapshots that the traversal builds from the reads of \<open>AccNode\<close>: they form a bounded tree, their
  diagnostics add up, they disclose nothing sensitive unless that was allowed, and, when nothing went
  wrong, they are complete.
\<close>

section \<open>The walker on the bus\<close>

text \<open>\<open>record_parent\<close>, \<open>children\<close> and \<open>stale\<close> are \<^verbatim>\<open>recordObjectParent\<close>, \<^verbatim>\<open>childrenWithCache\<close> and the test for
  \<^verbatim>\<open>ErrStaleGeneration\<close>.\<close>

definition dbus_provider ::
    "(rune \<Rightarrow> rune) \<Rightarrow> (rune \<Rightarrow> rune) \<Rightarrow> (node_id \<Rightarrow> node_id \<Rightarrow> 'w \<Rightarrow> 'w) \<Rightarrow> (bool \<Rightarrow> node_id \<Rightarrow> 'w \<Rightarrow> ('e + identity list) \<times> 'w) \<Rightarrow>
     ('e \<Rightarrow> bool) \<Rightarrow> ('w, 'e) bus \<Rightarrow> ('w, 'e) provider" where
  "dbus_provider lo cf record_parent children stale bs =
     \<lparr>pv_ctx = run_state (bs_ctx bs), pv_record = record_parent,
      pv_read = (\<lambda>fresh i parent max_text allow_sensitive.
        run_state (read_node_with_cache lo cf bs i parent max_text allow_sensitive (\<not> fresh))),
      pv_children = children, pv_ref = (\<lambda>r. run_state (bs_ref bs r)), pv_stale = stale, pv_text = bs_error bs\<rparr>"

text \<open>What is known of a node that was read, apart from its place in the tree.\<close>

definition node_good :: "(rune \<Rightarrow> rune) \<Rightarrow> (rune \<Rightarrow> rune) \<Rightarrow> (rune \<Rightarrow> bool) \<Rightarrow> int \<Rightarrow> bool \<Rightarrow> acc_node \<Rightarrow> bool" where
  "node_good lo cf sp max_text allow_sensitive nd \<longleftrightarrow>
     0 \<le> nd_child_count nd \<and> list_all (known_node_warning sp) (elems (nd_warnings nd)) \<and> filled nd \<and>
     int (length (nd_text nd)) \<le> text_limit max_text \<and> (allow_sensitive \<or> redacted_if_sensitive lo cf nd)"

lemma read_dbus:
  assumes "pv_read (dbus_provider lo cf rec ch stale bs) fresh i p t s w = (Inr nd, w')"
  shows "run_state (read_node_with_cache lo cf bs i p t s (\<not> fresh)) w = (Inr nd, w')"
  using assms by (simp add: dbus_provider_def)

lemma space_table_none: "space_table (\<lambda>_. False)"
  by (simp add: space_table_def)

interpretation dbus: snapshot_provider "dbus_provider lo cf rec ch stale bs"
    "\<lambda>t s nd. space_table sp \<longrightarrow> node_good lo cf sp t s nd"
proof
  fix fresh i p t s w nd w'
  assume run: "pv_read (dbus_provider lo cf rec ch stale bs) fresh i p t s w = (Inr nd, w')"
  show "nd_id nd = i \<and> nd_parent nd = p \<and> nd_children nd = None"
    using read_node_facts(1)[OF space_table_none read_dbus[OF run]] by (simp add: node_inv_def)
  show "space_table sp \<longrightarrow> node_good lo cf sp t s nd"
    using read_node_facts[OF _ read_dbus[OF run], of sp] by (auto simp: node_inv_def node_good_def)
next
  fix t s nd c
  assume "space_table sp \<longrightarrow> node_good lo cf sp t s nd"
  then show "space_table sp \<longrightarrow> node_good lo cf sp t s (add_child c nd)"
    by (auto simp: node_good_def add_child_def filled_def redacted_if_sensitive_def)
qed

section \<open>A bounded tree\<close>



text \<open>
  C6. From a provider whose successful answers do not change, a traversal that returns its root, was not
  truncated and recorded no warnings besides those of its nodes has collected exactly the objects that
  are reachable from the root through shown objects: no object is missed when nothing was reported.
\<close>

theorem snapshot_complete:
  assumes "shows_tree pv t dead" "0 \<le> o_max_depth opts" "walk_root lo sp pr pv opts root w = (Inr nd, st)"
    and "\<not> wk_truncated st" "wk_errors st = int (length (all_warnings (wk_nodes st)))"
  shows "set (map nd_id (wk_nodes st)) = {i. reach opts t root i \<and> shown opts t root i}"
proof -
  have clean: "clean st" using assms(4,5) by (simp add: clean_def)
  have cl: "closed opts t root {} st" "root \<in> set (wk_seen st)"
    using walk_root_closes(2)[OF assms(1-3) clean] by auto
  have "reach opts t root i \<Longrightarrow> i \<in> set (wk_seen st)" for i
    by (induction rule: reach.induct) (use cl in \<open>auto simp: closed_def\<close>)
  then have "{i. reach opts t root i \<and> shown opts t root i} \<subseteq> ids st"
    using cl(1) by (auto simp: closed_def)
  moreover have "ids st \<subseteq> {i. reach opts t root i \<and> shown opts t root i}"
    using walk_root_closes(1)[OF assms(1-3)] snapshot_provider.walk_root_inv[OF tree_provider[OF assms(1)] assms(3)]
    by (auto simp: inside_def ids_def walker_inv_def)
  ultimately show ?thesis by (auto simp: ids_def)
qed

section \<open>Examples\<close>

text \<open>A password field: its states have bit 34, its text and one attribute are secret.\<close>

definition field_id :: node_id where
  "field_id = \<lparr>id_bus = '':1.7'', id_path = ''/field'', id_generation = 1, id_incarnation = 1\<rparr>"

definition fail :: "('w, string + 'a) state" where "fail = State_Monad.return (Inl ''no answer'')"

definition field_bus :: "(unit, string) bus" where
  "field_bus =
     \<lparr>bs_ctx = State_Monad.return None, bs_object = (\<lambda>_. State_Monad.return None), bs_handle = (\<lambda>_. State_Monad.return None),
      bs_generation = (\<lambda>_. State_Monad.return None), bs_cached = (\<lambda>_. State_Monad.return None),
      bs_ref = (\<lambda>r. State_Monad.return \<lparr>id_bus = fst r, id_path = snd r, id_generation = 1, id_incarnation = 1\<rparr>),
      bs_get = (\<lambda>_ iface name. State_Monad.return (if iface = text_iface then Inr (VInt32 6) else Inl ''no answer'')),
      bs_role = (\<lambda>_. State_Monad.return (Inr 79)), bs_interfaces = (\<lambda>_. State_Monad.return (Inr (Some [text_iface]))),
      bs_states = (\<lambda>_. State_Monad.return (Inr [0, 4])), bs_extents = (\<lambda>_. fail),
      bs_text = (\<lambda>_ _ _. State_Monad.return (Inr ''hunter'')),
      bs_attributes = (\<lambda>_. State_Monad.return (Inr (Some [(''id'', ''a''), (''Password'', ''hunter'')]))), bs_actions = (\<lambda>_. fail),
      bs_action_name = (\<lambda>_ _. fail), bs_selected = (\<lambda>_. fail), bs_relations = (\<lambda>_. fail), bs_errorf = (\<lambda>s. s),
      bs_error = (\<lambda>s. s), bs_unsupported = (\<lambda>s. s), bs_float = (\<lambda>_. 0)\<rparr>"

definition small_options :: snapshot_options where
  "small_options = \<lparr>o_max_depth = 3, o_max_nodes = 10, o_max_text = 64, o_max_total = 4096, o_visible_only = False,
     o_allow_sensitive = False, o_fresh = True, o_allow_desktop = False, o_skip_roles = []\<rparr>"

definition field_walk :: "(string walk_error + acc_node) \<times> (unit, string) walker" where
  "field_walk = walk_root ascii_lower (\<lambda>r. r = '' '') (\<lambda>_. True)
     (dbus_provider ascii_lower ascii_lower (\<lambda>_ _ w. w) (\<lambda>_ _ w. (Inr [], w)) (\<lambda>_. False) field_bus) small_options field_id ()"

lemma field_walk_nodes: "wk_nodes (snd field_walk) \<noteq> []" "has_sensitive_state ascii_lower (elems (nd_states (hd (wk_nodes (snd field_walk)))))"
  by code_simp+

lemma field_walk_run: "walk_root ascii_lower (\<lambda>r. r = '' '') (\<lambda>_. True)
    (dbus_provider ascii_lower ascii_lower (\<lambda>_ _ w. w) (\<lambda>_ _ w. (Inr [], w)) (\<lambda>_. False) field_bus) small_options field_id () =
    (fst field_walk, snd field_walk)"
  by (simp add: field_walk_def)



text \<open>A window with one button, all of it shown.\<close>

definition button_tree :: tree where
  "button_tree =
     \<lparr>t_node = (\<lambda>i. (bare_node i)\<lparr>nd_child_count := (if i = field_id then 1 else 0)\<rparr>),
      t_children = (\<lambda>i. if i = field_id then [('':1.7'', ''/button'')] else []),
      t_ref = (\<lambda>r. \<lparr>id_bus = fst r, id_path = snd r, id_generation = 1, id_incarnation = 1\<rparr>)\<rparr>"

definition button_provider :: "(unit, string) provider" where
  "button_provider =
     \<lparr>pv_ctx = (\<lambda>w. (None, w)), pv_record = (\<lambda>_ _ w. w), pv_read = (\<lambda>_ i p _ _ w. (Inr ((t_node button_tree i)\<lparr>nd_parent := p\<rparr>), w)),
      pv_children = (\<lambda>_ i w. (Inr (t_children button_tree i), w)), pv_ref = (\<lambda>r w. (t_ref button_tree r, w)),
      pv_stale = (\<lambda>_. False), pv_text = (\<lambda>s. s)\<rparr>"

definition button_walk :: "(string walk_error + acc_node) \<times> (unit, string) walker" where
  "button_walk = walk_root ascii_lower (\<lambda>r. r = '' '') (\<lambda>_. True) button_provider small_options field_id ()"

lemma button_walk_facts: "\<not> wk_truncated (snd button_walk)"
  "wk_errors (snd button_walk) = int (length (all_warnings (wk_nodes (snd button_walk))))"
  "case fst button_walk of Inr _ \<Rightarrow> True | Inl _ \<Rightarrow> False" "length (wk_nodes (snd button_walk)) = 2"
  by code_simp+

theorem snapshot_complete_witness:
  "set (map nd_id (wk_nodes (snd button_walk))) =
     {i. reach small_options button_tree field_id i \<and> shown small_options button_tree field_id i} \<and>
   length (wk_nodes (snd button_walk)) = 2"
proof -
  have tree: "shows_tree button_provider button_tree (\<lambda>_. False)"
    by (simp add: shows_tree_def button_provider_def button_tree_def bare_node_def)
  obtain nd where "fst button_walk = Inr nd"
    using button_walk_facts(3) by (cases "fst button_walk") auto
  then have "walk_root ascii_lower (\<lambda>r. r = '' '') (\<lambda>_. True) button_provider small_options field_id () = (Inr nd, snd button_walk)"
    unfolding button_walk_def by (metis prod.collapse)
  from snapshot_complete[OF tree _ this button_walk_facts(1,2)] show ?thesis
    using button_walk_facts(4) by (simp add: small_options_def)
qed

end
