(* ===== verification/AccBackend.thy ===== *)
theory AccBackend
  imports AccNode "HOL-Library.AList"
begin

text \<open>
  The state of the accessibility backend and its handles (\<^verbatim>\<open>accessibility/backend_dbus.go\<close>,
  \<^verbatim>\<open>accessibility/lifecycle.go\<close>): the epoch, the incarnations of object paths, the known ancestry, the
  provider cache, and the revocation of a removed object with its known descendants. All of it is
  done under one lock, so each operation is one step. Go maps are association lists with distinct
  keys, ranged over in the order of the list, which is arbitrary. \<open>okp\<close> is \<^verbatim>\<open>ObjectPath.IsValid\<close>.
\<close>

section \<open>State\<close>

record obs_change =
  oc_revision :: u64
  oc_kind :: string
  oc_node :: identity
  oc_parent :: identity
  oc_removed_child :: identity
  oc_cache_add :: bool
  oc_item :: cache_item
  oc_cache_remove :: bool
  oc_children_remove :: bool
  oc_unknown :: bool

text \<open>\<open>bk_access\<close>: the private connection is not nil. A cached snapshot is its time and the snapshot.\<close>

record backend =
  bk_access :: bool
  bk_generation :: u64
  bk_observation :: u64
  bk_cache_revision :: u64
  bk_history :: "obs_change list"
  bk_floor :: u64
  bk_disconnected :: bool
  bk_closed :: bool
  bk_snapshots :: "(string \<times> nat \<times> snapshot) list"
  bk_items :: "(node_id \<times> cache_item) slice"
  bk_index :: "(identity \<times> identity list) slice"
  bk_index_gen :: u64
  bk_apps :: "(string \<times> bool) slice"
  bk_incarnations :: "(identity \<times> u64) list"
  bk_parents :: "(identity \<times> identity) list"
  bk_incomplete :: bool
  bk_toolkits :: "(string \<times> string) list"

definition open_backend :: "u64 \<Rightarrow> backend" where
  "open_backend generation =
     \<lparr>bk_access = True, bk_generation = (if generation = 0 then 1 else generation), bk_observation = 0, bk_cache_revision = 0,
      bk_history = [], bk_floor = 0, bk_disconnected = False, bk_closed = False, bk_snapshots = [], bk_items = Some [],
      bk_index = None, bk_index_gen = 0, bk_apps = Some [], bk_incarnations = [], bk_parents = [], bk_incomplete = False,
      bk_toolkits = []\<rparr>"

definition max_tracked :: nat where "max_tracked = 100000"

section \<open>Handles\<close>

definition stored_incarnation :: "backend \<Rightarrow> identity \<Rightarrow> u64" where
  "stored_incarnation b i = (case map_of (bk_incarnations b) i of Some n \<Rightarrow> n | None \<Rightarrow> 0)"

definition incarnation_locked :: "identity \<Rightarrow> backend \<Rightarrow> u64 \<times> backend" where
  "incarnation_locked i b =
     (if stored_incarnation b i = 0 then
        if length (bk_incarnations b) \<ge> max_tracked then (1, b\<lparr>bk_incomplete := True\<rparr>)
        else (1, b\<lparr>bk_incarnations := AList.update i 1 (bk_incarnations b)\<rparr>)
      else (stored_incarnation b i, b))"

definition node_id_locked :: "identity \<Rightarrow> backend \<Rightarrow> node_id \<times> backend" where
  "node_id_locked ref b =
     (let (n, b') = incarnation_locked ref b in
      (\<lparr>id_bus = fst ref, id_path = snd ref, id_generation = bk_generation b, id_incarnation = n\<rparr>, b'))"

definition effective_incarnation :: "node_id \<Rightarrow> u64" where
  "effective_incarnation i = (if id_incarnation i = 0 then 1 else id_incarnation i)"

definition handle_current :: "backend \<Rightarrow> node_id \<Rightarrow> bool" where
  "handle_current b i \<longleftrightarrow>
     (let current = stored_incarnation b (identity_of i);
          current = (if current = 0 then 1 else current) in
      id_generation i = bk_generation b \<and> effective_incarnation i = current \<and> \<not> bk_closed b \<and> \<not> bk_disconnected b)"

datatype handle_error = Disconnected | StaleNode | StaleGeneration u64 u64

definition validate_handle :: "backend \<Rightarrow> node_id \<Rightarrow> handle_error option" where
  "validate_handle b i =
     (if bk_disconnected b \<or> bk_closed b then Some Disconnected
      else if \<not> id_valid i then Some StaleNode
      else if \<not> handle_current b i then Some StaleNode
      else None)"

definition generation_error :: "backend \<Rightarrow> u64 \<Rightarrow> handle_error option" where
  "generation_error b expected = (if bk_generation b = expected then None else Some (StaleGeneration expected (bk_generation b)))"

definition object_error :: "backend \<Rightarrow> node_id \<Rightarrow> handle_error option" where
  "object_error b i =
     (case validate_handle b i of Some e \<Rightarrow> Some e | None \<Rightarrow> if bk_access b then None else Some Disconnected)"

section \<open>Ancestry\<close>

definition record_parent_locked :: "identity \<Rightarrow> identity \<Rightarrow> backend \<Rightarrow> backend" where
  "record_parent_locked child parent b =
     (if \<not> identity_valid child \<or> \<not> identity_valid parent \<or> bk_closed b \<or> bk_disconnected b then b
      else if map_of (bk_parents b) child = None \<and> length (bk_parents b) \<ge> max_tracked then b\<lparr>bk_incomplete := True\<rparr>
      else b\<lparr>bk_parents := AList.update child parent (bk_parents b)\<rparr>)"

text \<open>The conditions are evaluated from the left, and the incarnations are recorded on the way.\<close>

definition record_object_parent :: "node_id \<Rightarrow> node_id \<Rightarrow> backend \<Rightarrow> backend" where
  "record_object_parent child parent b =
     (if \<not> id_valid child \<or> \<not> id_valid parent then b
      else if \<not> (handle_current b child \<and> handle_current b parent) then b
      else
        let (n, b) = incarnation_locked (identity_of child) b in
        if n \<noteq> effective_incarnation child then b
        else
          let (n, b) = incarnation_locked (identity_of parent) b in
          if n \<noteq> effective_incarnation parent then b
          else record_parent_locked (identity_of child) (identity_of parent) b)"

definition no_identity :: identity where "no_identity = ([], [])"

definition cache_parent_identity :: "identity \<Rightarrow> identity" where
  "cache_parent_identity ref = (if fst ref = [] \<and> snd ref = null_object_path then no_identity else ref)"

section \<open>The tree of a removed object\<close>

text \<open>The known edges, child first: the observed ones, and those of the cache where none was observed.\<close>

definition known_edges :: "backend \<Rightarrow> (identity \<times> identity) list" where
  "known_edges b =
     filter (\<lambda>(child, parent). fst child = fst parent) (bk_parents b) @
     filter (\<lambda>(child, parent). map_of (bk_parents b) child = None \<and> fst child = fst parent)
       (map (\<lambda>(_, item). (ci_object item, cache_parent_identity (ci_parent item))) (elems (bk_items b)))"

fun enqueue :: "identity list \<Rightarrow> identity list \<Rightarrow> identity list \<Rightarrow> identity list \<times> identity list" where
  "enqueue [] removed queue = (removed, queue)"
| "enqueue (c # cs) removed queue =
     (if c \<in> set removed then enqueue cs removed queue else enqueue cs (removed @ [c]) (queue @ [c]))"

definition children_of :: "(identity \<times> identity) list \<Rightarrow> identity \<Rightarrow> identity list" where
  "children_of edges parent = map fst (filter (\<lambda>(_, p). p = parent) edges)"

lemma enqueue_spec:
  "enqueue cs removed queue = (r, q) \<Longrightarrow>
     \<exists>new. r = removed @ new \<and> q = queue @ new \<and> set new = set cs - set removed \<and> distinct new"
proof (induction cs arbitrary: removed queue)
  case (Cons c cs)
  show ?case
  proof (cases "c \<in> set removed")
    case True
    then show ?thesis using Cons by auto
  next
    case False
    then obtain new where "r = (removed @ [c]) @ new" "q = (queue @ [c]) @ new" "set new = set cs - set (removed @ [c])" "distinct new"
      using Cons.IH[of "removed @ [c]" "queue @ [c]"] Cons.prems by auto
    then show ?thesis
      using False by (intro exI[of _ "c # new"]) auto
  qed
qed simp

function removed_loop :: "(identity \<times> identity) list \<Rightarrow> identity list \<Rightarrow> identity list \<Rightarrow> identity list" where
  "removed_loop edges [] removed = removed"
| "removed_loop edges (i # queue) removed =
     (let (removed', queue') = enqueue (children_of edges i) removed queue in removed_loop edges queue' removed')"
  by pat_completeness auto
termination
proof (relation "measures [\<lambda>(edges, queue, removed). card (fst ` set edges - set removed), \<lambda>(edges, queue, removed). length queue]")
  fix edges i queue removed x removed' queue'
  assume "x = enqueue (children_of edges i) removed queue" "(removed', queue') = x"
  then obtain new where new: "removed' = removed @ new" "queue' = queue @ new" "set new = set (children_of edges i) - set removed"
    using enqueue_spec by metis
  show "((edges, queue', removed'), edges, i # queue, removed)
      \<in> measures [\<lambda>(edges, queue, removed). card (fst ` set edges - set removed), \<lambda>(edges, queue, removed). length queue]"
  proof (cases "new = []")
    case True
    then show ?thesis using new by simp
  next
    case False
    then obtain c where "c \<in> set new" by (cases new) auto
    then have "c \<in> fst ` set edges - set removed" "c \<in> set removed'"
      using new by (auto simp: children_of_def)
    then have "fst ` set edges - set removed' \<subset> fst ` set edges - set removed"
      using new(1) by auto
    then have "card (fst ` set edges - set removed') < card (fst ` set edges - set removed)"
      by (intro psubset_card_mono) auto
    then show ?thesis by simp
  qed
qed simp

definition removed_object_tree :: "backend \<Rightarrow> identity \<Rightarrow> identity list" where
  "removed_object_tree b root = removed_loop (known_edges b) [root] [root]"

section \<open>The provider cache\<close>

definition app_complete :: "backend \<Rightarrow> string \<Rightarrow> bool" where
  "app_complete b bus = (map_of (elems (bk_apps b)) bus = Some True)"

definition set_app :: "string \<Rightarrow> bool \<Rightarrow> backend \<Rightarrow> backend" where
  "set_app bus complete b = b\<lparr>bk_apps := Some (AList.update bus complete (elems (bk_apps b)))\<rparr>"

definition cached_item_at :: "backend \<Rightarrow> node_id \<Rightarrow> cache_item option" where
  "cached_item_at b i = map_of (elems (bk_items b)) i"

definition set_item :: "node_id \<Rightarrow> cache_item \<Rightarrow> backend \<Rightarrow> backend" where
  "set_item i item b = b\<lparr>bk_items := Some (AList.update i item (elems (bk_items b)))\<rparr>"

text \<open>Deletion from a map that may be nil.\<close>

definition keep_items :: "(node_id \<Rightarrow> bool) \<Rightarrow> backend \<Rightarrow> backend" where
  "keep_items keep b = b\<lparr>bk_items := map_option (filter (\<lambda>(i, _). keep i)) (bk_items b)\<rparr>"

definition invalidate_cache_application :: "string \<Rightarrow> backend \<Rightarrow> backend" where
  "invalidate_cache_application bus b =
     (let b = b\<lparr>bk_index := None, bk_index_gen := 0\<rparr>;
          b = (if bk_apps b \<noteq> None then set_app bus False b else b);
          b = keep_items (\<lambda>i. id_bus i \<noteq> bus) b in
      b\<lparr>bk_snapshots := []\<rparr>)"

text \<open>The new count is an \<^verbatim>\<open>int64\<close> sum of two small numbers, and is stored when it is an \<^verbatim>\<open>int32\<close>.\<close>

definition adjust_cached_child_count :: "(string \<Rightarrow> bool) \<Rightarrow> identity \<Rightarrow> int \<Rightarrow> backend \<Rightarrow> backend" where
  "adjust_cached_child_count okp parent delta b =
     (if \<not> okp (snd parent) \<or> \<not> app_complete b (fst parent) then b
      else
        let (parent_id, b) = node_id_locked parent b;
            drop_entry = (\<lambda>b. keep_items (\<lambda>i. i \<noteq> parent_id) (set_app (fst parent) False b)) in
        case cached_item_at b parent_id of
          None \<Rightarrow> drop_entry b
        | Some item \<Rightarrow>
            if sint (ci_child_count item) < 0 then drop_entry b
            else
              let updated = sint (ci_child_count item) + delta in
              if updated < 0 \<or> updated > 2 ^ 31 - 1 then drop_entry b
              else set_item parent_id (item\<lparr>ci_child_count := word_of_int updated\<rparr>) b)"

section \<open>Revocation\<close>

definition detach_foreign_parent_edges :: "identity list \<Rightarrow> backend \<Rightarrow> backend" where
  "detach_foreign_parent_edges removed b =
     (let foreign = (\<lambda>(child, parent). fst child \<noteq> fst parent \<and> parent \<in> set removed);
          from_parents = map (\<lambda>(child, _). fst child) (filter foreign (bk_parents b));
          b = b\<lparr>bk_parents := filter (\<lambda>e. \<not> foreign e) (bk_parents b)\<rparr>;
          from_items = map (\<lambda>(child, _). fst child) (filter foreign
            (map (\<lambda>(i, item). (identity_of i, cache_parent_identity (ci_parent item))) (elems (bk_items b)))) in
      fold invalidate_cache_application (remdups (from_parents @ from_items)) b)"

definition can_track_revoked_objects :: "backend \<Rightarrow> identity list \<Rightarrow> bool" where
  "can_track_revoked_objects b removed \<longleftrightarrow>
     length (bk_incarnations b) + length (filter (\<lambda>i. stored_incarnation b i = 0) removed) \<le> max_tracked"

text \<open>
  The range over the cache, which deletes entries that are still to come when the cache contradicts an
  observed parent: such an entry is skipped.
\<close>

fun cache_parents_loop :: "(node_id \<times> cache_item) list \<Rightarrow> (identity \<times> identity) list \<Rightarrow> backend \<Rightarrow> (identity \<times> identity) list \<times> backend" where
  "cache_parents_loop [] by_child b = (by_child, b)"
| "cache_parents_loop ((i, item) # rest) by_child b =
     (if cached_item_at b i = None then cache_parents_loop rest by_child b
      else
        case map_of by_child (identity_of i) of
          Some observed \<Rightarrow>
            if observed \<noteq> ci_parent item then cache_parents_loop rest by_child (invalidate_cache_application (id_bus i) b)
            else cache_parents_loop rest by_child b
        | None \<Rightarrow> cache_parents_loop rest (AList.update (identity_of i) (ci_parent item) by_child) b)"

definition removed_per_parent :: "identity list \<Rightarrow> (identity \<times> identity) list \<Rightarrow> (identity \<times> int) list" where
  "removed_per_parent removed by_child =
     (let hits = filter (\<lambda>(child, parent). child \<in> set removed \<and> parent \<notin> set removed) by_child in
      map (\<lambda>parent. (parent, int (length (filter (\<lambda>(_, p). p = parent) hits)))) (remdups (map snd hits)))"

definition adjust_cached_children_for_revocation :: "(string \<Rightarrow> bool) \<Rightarrow> identity list \<Rightarrow> backend \<Rightarrow> backend" where
  "adjust_cached_children_for_revocation okp removed b =
     (let (by_child, b) = cache_parents_loop (elems (bk_items b)) (bk_parents b) b in
      fold (\<lambda>(parent, count). adjust_cached_child_count okp parent (- count)) (removed_per_parent removed by_child) b)"

definition bump_incarnation :: "identity \<Rightarrow> backend \<Rightarrow> backend" where
  "bump_incarnation i b =
     (let (current, b) = incarnation_locked i b in
      b\<lparr>bk_incarnations := AList.update i (current + 1) (bk_incarnations b), bk_parents := AList.delete i (bk_parents b)\<rparr>)"

definition revoke_object :: "(string \<Rightarrow> bool) \<Rightarrow> identity \<Rightarrow> backend \<Rightarrow> bool \<times> backend" where
  "revoke_object okp root b =
     (if \<not> identity_valid root \<or> bk_incomplete b then (False, b)
      else
        let removed = removed_object_tree b root in
        if \<not> can_track_revoked_objects b removed then (False, b)
        else
          let b = detach_foreign_parent_edges removed b;
              b = adjust_cached_children_for_revocation okp removed b;
              b = fold bump_incarnation removed b;
              b = keep_items (\<lambda>i. identity_of i \<notin> set removed) b in
          (True, b\<lparr>bk_index := None, bk_index_gen := 0, bk_snapshots := []\<rparr>))"

definition invalidate_all_handles :: "backend \<Rightarrow> backend" where
  "invalidate_all_handles b =
     b\<lparr>bk_generation := bk_generation b + 1, bk_snapshots := [], bk_items := None, bk_apps := None, bk_toolkits := [],
       bk_index := None, bk_incarnations := [], bk_parents := [], bk_incomplete := False\<rparr>"

definition revoke_or_invalidate :: "(string \<Rightarrow> bool) \<Rightarrow> identity \<Rightarrow> backend \<Rightarrow> backend" where
  "revoke_or_invalidate okp i b =
     (if \<not> identity_valid i then invalidate_all_handles b
      else let (done', b) = revoke_object okp i b in if done' then b else invalidate_all_handles b)"

section \<open>The whole backend\<close>

definition invalidate :: "backend \<Rightarrow> backend" where
  "invalidate b =
     b\<lparr>bk_generation := bk_generation b + 1, bk_observation := bk_observation b + 1, bk_cache_revision := bk_cache_revision b + 1,
       bk_snapshots := [], bk_items := None, bk_apps := None, bk_toolkits := [], bk_index := None, bk_index_gen := 0,
       bk_incarnations := [], bk_parents := [], bk_incomplete := False\<rparr>"

definition mark_disconnected :: "backend \<Rightarrow> backend" where
  "mark_disconnected b =
     (if bk_disconnected b then b
      else b\<lparr>bk_disconnected := True, bk_generation := bk_generation b + 1, bk_observation := bk_observation b + 1,
             bk_cache_revision := bk_cache_revision b + 1, bk_snapshots := [], bk_items := None, bk_apps := None, bk_index := None,
             bk_toolkits := []\<rparr>)"

definition close_backend :: "backend \<Rightarrow> backend" where
  "close_backend b =
     (if bk_closed b then b
      else b\<lparr>bk_closed := True, bk_disconnected := True, bk_generation := bk_generation b + 1, bk_observation := bk_observation b + 1,
             bk_cache_revision := bk_cache_revision b + 1, bk_access := False, bk_snapshots := [], bk_items := None, bk_apps := None,
             bk_index := None, bk_index_gen := 0, bk_toolkits := []\<rparr>)"

definition cached_toolkit :: "node_id \<Rightarrow> backend \<Rightarrow> handle_error + string option" where
  "cached_toolkit i b = (if \<not> handle_current b i then Inl StaleNode else Inr (map_of (bk_toolkits b) (id_bus i)))"

definition cache_toolkit :: "node_id \<Rightarrow> string \<Rightarrow> backend \<Rightarrow> handle_error option \<times> backend" where
  "cache_toolkit i name b =
     (if \<not> handle_current b i then (Some StaleNode, b)
      else (None, b\<lparr>bk_toolkits := AList.update (id_bus i) name (bk_toolkits b)\<rparr>))"

end
