(* ===== verification/AccEvents.thy ===== *)
theory AccEvents
  imports AccBackend
begin

text \<open>
  What a signal of the accessibility bus does to the backend (\<^verbatim>\<open>accessibility/events.go\<close> and the cache
  signals of \<^verbatim>\<open>accessibility/cache.go\<close>): its arguments are decoded, the change is recorded in the bounded
  history, handles are revoked, and the provider cache is updated or dropped. \<open>okp\<close> is
  \<^verbatim>\<open>ObjectPath.IsValid\<close>, \<open>sp\<close> is \<^verbatim>\<open>unicode.IsSpace\<close>.
\<close>

section \<open>Signals\<close>

text \<open>The Go values that a signal carries, by their dynamic type.\<close>

datatype any = AString string | APath string | AInt32 int32 | AUint32 u32 | ABool bool | AVariant any | ADict
  | AStrings "string list" | AWords "u32 list" | AList "any list" | ARef identity | AItem cache_item | AItemPtr "cache_item option" | AOther

record signal =
  sg_name :: string
  sg_sender :: string
  sg_path :: string
  sg_body :: "any list"

record event =
  ev_kind :: string
  ev_node :: node_id
  ev_property :: string
  ev_value :: string

definition has_suffix :: "string \<Rightarrow> string \<Rightarrow> bool" where
  "has_suffix s t \<longleftrightarrow> length t \<le> length s \<and> drop (length s - length t) s = t"

section \<open>Decoding\<close>

definition valid_cache_object_ref :: "(rune \<Rightarrow> bool) \<Rightarrow> (string \<Rightarrow> bool) \<Rightarrow> identity \<Rightarrow> bool" where
  "valid_cache_object_ref sp okp ref \<longleftrightarrow>
     fst ref \<noteq> [] \<and> trim_space sp (fst ref) = fst ref \<and>
     \<not> list_ex (\<lambda>c. c \<in> {CHR '' '', CHR 0x09, CHR 0x0D, CHR 0x0A}) (fst ref) \<and> okp (snd ref)"

definition valid_cache_parent_ref :: "(rune \<Rightarrow> bool) \<Rightarrow> (string \<Rightarrow> bool) \<Rightarrow> identity \<Rightarrow> bool" where
  "valid_cache_parent_ref sp okp ref =
     (if fst ref = [] then snd ref = null_object_path else valid_cache_object_ref sp okp ref)"

text \<open>The type assertions; a path may also come as a string.\<close>

definition as_int32 :: "any \<Rightarrow> int32 option" where "as_int32 v = (case v of AInt32 n \<Rightarrow> Some n | _ \<Rightarrow> None)"
definition as_uint32 :: "any \<Rightarrow> u32 option" where "as_uint32 v = (case v of AUint32 n \<Rightarrow> Some n | _ \<Rightarrow> None)"
definition as_string :: "any \<Rightarrow> string option" where "as_string v = (case v of AString s \<Rightarrow> Some s | _ \<Rightarrow> None)"
definition as_strings :: "any \<Rightarrow> string list option" where "as_strings v = (case v of AStrings s \<Rightarrow> Some s | _ \<Rightarrow> None)"
definition as_path :: "any \<Rightarrow> string option" where "as_path v = (case v of APath s \<Rightarrow> Some s | AString s \<Rightarrow> Some s | _ \<Rightarrow> None)"
definition as_words :: "any \<Rightarrow> u32 list option" where "as_words v = (case v of AWords s \<Rightarrow> Some s | _ \<Rightarrow> None)"

text \<open>A reference of a wire value; \<open>None\<close> where the code answers false.\<close>

function cache_ref_from_value :: "(identity \<Rightarrow> bool) \<Rightarrow> any \<Rightarrow> identity option" where
  "cache_ref_from_value ok v =
     (case v of
        AVariant v \<Rightarrow> cache_ref_from_value ok v
      | ARef r \<Rightarrow> if ok r then Some r else None
      | AList vs \<Rightarrow>
          if length vs \<noteq> 2 then None
          else
            case (as_string (vs ! 0), as_path (vs ! 1)) of
              (Some bus, Some path) \<Rightarrow> if ok (bus, path) then Some (bus, path) else None
            | _ \<Rightarrow> None
      | _ \<Rightarrow> None)"
  by pat_completeness auto
termination
  by (relation "measure (\<lambda>(ok, v). size v)") auto

declare cache_ref_from_value.simps [simp del]

definition cache_object_ref_from_value :: "(rune \<Rightarrow> bool) \<Rightarrow> (string \<Rightarrow> bool) \<Rightarrow> any \<Rightarrow> identity option" where
  "cache_object_ref_from_value sp okp = cache_ref_from_value (valid_cache_object_ref sp okp)"

definition cache_parent_ref_from_value :: "(rune \<Rightarrow> bool) \<Rightarrow> (string \<Rightarrow> bool) \<Rightarrow> any \<Rightarrow> identity option" where
  "cache_parent_ref_from_value sp okp = cache_ref_from_value (valid_cache_parent_ref sp okp)"

definition cache_object_ref_from_signal :: "(rune \<Rightarrow> bool) \<Rightarrow> (string \<Rightarrow> bool) \<Rightarrow> any list \<Rightarrow> identity option" where
  "cache_object_ref_from_signal sp okp body = (case body of [] \<Rightarrow> None | v # _ \<Rightarrow> cache_object_ref_from_value sp okp v)"

definition cache_item_from_fields :: "(rune \<Rightarrow> bool) \<Rightarrow> (string \<Rightarrow> bool) \<Rightarrow> any list \<Rightarrow> cache_item option" where
  "cache_item_from_fields sp okp vs =
     (if length vs \<noteq> 10 then None
      else
        Option.bind (cache_object_ref_from_value sp okp (vs ! 0)) (\<lambda>obj.
        Option.bind (cache_object_ref_from_value sp okp (vs ! 1)) (\<lambda>app.
        Option.bind (cache_parent_ref_from_value sp okp (vs ! 2)) (\<lambda>par.
        Option.bind (as_int32 (vs ! 3)) (\<lambda>index.
        Option.bind (as_int32 (vs ! 4)) (\<lambda>kids.
        Option.bind (as_strings (vs ! 5)) (\<lambda>ifaces.
        Option.bind (as_string (vs ! 6)) (\<lambda>name.
        Option.bind (as_uint32 (vs ! 7)) (\<lambda>role.
        Option.bind (as_string (vs ! 8)) (\<lambda>description.
        Option.bind (as_words (vs ! 9)) (\<lambda>states.
          Some \<lparr>ci_object = obj, ci_application = app, ci_parent = par, ci_index = index, ci_child_count = kids,
                ci_interfaces = ifaces, ci_name = name, ci_role = role, ci_description = description, ci_states = states\<rparr>)))))))))))"

definition cache_item_from_value :: "(rune \<Rightarrow> bool) \<Rightarrow> (string \<Rightarrow> bool) \<Rightarrow> any \<Rightarrow> cache_item option" where
  "cache_item_from_value sp okp v =
     (case v of
        AItem item \<Rightarrow> Some item
      | AItemPtr item \<Rightarrow> item
      | AList vs \<Rightarrow> cache_item_from_fields sp okp vs
      | _ \<Rightarrow> None)"

definition cache_item_from_signal :: "(rune \<Rightarrow> bool) \<Rightarrow> (string \<Rightarrow> bool) \<Rightarrow> any list \<Rightarrow> cache_item option" where
  "cache_item_from_signal sp okp body =
     (case body of
        [] \<Rightarrow> None
      | v # _ \<Rightarrow>
          (case cache_item_from_value sp okp v of
             None \<Rightarrow> None
           | Some item \<Rightarrow>
               if \<not> valid_cache_object_ref sp okp (ci_object item) \<or> \<not> valid_cache_object_ref sp okp (ci_application item) \<or>
                  \<not> valid_cache_parent_ref sp okp (ci_parent item) \<or> fst (ci_object item) \<noteq> fst (ci_application item)
               then None else Some item))"

definition is_int32 :: "any \<Rightarrow> bool" where "is_int32 v \<longleftrightarrow> as_int32 v \<noteq> None"
definition is_variant :: "any \<Rightarrow> bool" where "is_variant v = (case v of AVariant _ \<Rightarrow> True | _ \<Rightarrow> False)"
definition is_dict :: "any \<Rightarrow> bool" where "is_dict v = (case v of ADict \<Rightarrow> True | _ \<Rightarrow> False)"

definition children_changed_object :: "(rune \<Rightarrow> bool) \<Rightarrow> (string \<Rightarrow> bool) \<Rightarrow> any list \<Rightarrow> identity option" where
  "children_changed_object sp okp body =
     (if length body \<noteq> 5 then None
      else if \<not> is_int32 (body ! 1) then None
      else if \<not> is_int32 (body ! 2) then None
      else if \<not> is_dict (body ! 4) then None
      else cache_object_ref_from_value sp okp (body ! 3))"

definition state_enabled :: "any list \<Rightarrow> bool option" where
  "state_enabled body =
     (if length body \<noteq> 5 then None
      else if \<not> is_int32 (body ! 2) then None
      else if \<not> is_variant (body ! 3) then None
      else if \<not> is_dict (body ! 4) then None
      else
        case body ! 1 of
          AInt32 n \<Rightarrow> Some (n \<noteq> 0)
        | AUint32 n \<Rightarrow> Some (n \<noteq> 0)
        | ABool t \<Rightarrow> Some t
        | _ \<Rightarrow> None)"

definition first_arg :: "any list \<Rightarrow> string \<Rightarrow> bool" where
  "first_arg body s = (case body of v # _ \<Rightarrow> v = AString s | [] \<Rightarrow> False)"

section \<open>Events\<close>

definition sensitive_event_property :: "(rune \<Rightarrow> rune) \<Rightarrow> (rune \<Rightarrow> bool) \<Rightarrow> string \<Rightarrow> bool" where
  "sensitive_event_property lo sp property =
     (let lower = lower_trim lo sp property in
      sublist ''value'' lower \<or> sublist ''text'' lower \<or> sublist ''password'' lower \<or> sublist ''secret'' lower \<or> sublist ''protected'' lower)"

text \<open>\<open>print\<close> is \<^verbatim>\<open>fmt.Sprint\<close>; the time stamp is not modelled.\<close>

definition signal_event :: "(rune \<Rightarrow> rune) \<Rightarrow> (rune \<Rightarrow> bool) \<Rightarrow> (any \<Rightarrow> string) \<Rightarrow> signal \<Rightarrow> event" where
  "signal_event lo sp print sig =
     (let property = (case sg_body sig of AString p # _ \<Rightarrow> p | _ \<Rightarrow> []);
          val = (case sg_body sig of _ # v # _ \<Rightarrow> if sensitive_event_property lo sp property then [] else print v | _ \<Rightarrow> []) in
      \<lparr>ev_kind = sg_name sig,
       ev_node = \<lparr>id_bus = sg_sender sig, id_path = sg_path sig, id_generation = 0, id_incarnation = 0\<rparr>,
       ev_property = property, ev_value = val\<rparr>)"

section \<open>The history of changes\<close>

definition observation_history_limit :: nat where "observation_history_limit = 8192"

definition zero_item :: cache_item where
  "zero_item = \<lparr>ci_object = no_identity, ci_application = no_identity, ci_parent = no_identity, ci_index = 0, ci_child_count = 0,
     ci_interfaces = [], ci_name = [], ci_role = 0, ci_description = [], ci_states = []\<rparr>"

definition cache_add_change :: "(rune \<Rightarrow> bool) \<Rightarrow> (string \<Rightarrow> bool) \<Rightarrow> signal \<Rightarrow> obs_change \<Rightarrow> obs_change" where
  "cache_add_change sp okp sig change =
     (let change = change\<lparr>oc_cache_add := True\<rparr> in
      case cache_item_from_signal sp okp (sg_body sig) of
        None \<Rightarrow> change\<lparr>oc_unknown := True\<rparr>
      | Some item \<Rightarrow>
          if fst (ci_object item) \<noteq> sg_sender sig \<or> fst (ci_application item) \<noteq> fst (ci_object item) then change\<lparr>oc_unknown := True\<rparr>
          else
            let change = change\<lparr>oc_item := item, oc_node := ci_object item, oc_parent := cache_parent_identity (ci_parent item)\<rparr> in
            if \<not> identity_valid (oc_node change) then change\<lparr>oc_unknown := True\<rparr> else change)"

text \<open>The removal looks the object up in the cache, under the handle that it issues for that.\<close>

definition cache_removal_change :: "(rune \<Rightarrow> bool) \<Rightarrow> (string \<Rightarrow> bool) \<Rightarrow> signal \<Rightarrow> obs_change \<Rightarrow> backend \<Rightarrow> obs_change \<times> backend" where
  "cache_removal_change sp okp sig change b =
     (let change = change\<lparr>oc_cache_remove := True\<rparr> in
      case cache_object_ref_from_signal sp okp (sg_body sig) of
        None \<Rightarrow> (change\<lparr>oc_unknown := True\<rparr>, b)
      | Some ref \<Rightarrow>
          if fst ref \<noteq> sg_sender sig then (change\<lparr>oc_unknown := True\<rparr>, b)
          else
            let change = change\<lparr>oc_node := ref\<rparr>;
                (i, b) = node_id_locked ref b in
            case cached_item_at b i of
              None \<Rightarrow> (change, b)
            | Some item \<Rightarrow> (change\<lparr>oc_parent := cache_parent_identity (ci_parent item)\<rparr>, b))"

definition children_removal_change :: "(rune \<Rightarrow> bool) \<Rightarrow> (string \<Rightarrow> bool) \<Rightarrow> signal \<Rightarrow> obs_change \<Rightarrow> obs_change" where
  "children_removal_change sp okp sig change =
     (let change = change\<lparr>oc_children_remove := True\<rparr> in
      case children_changed_object sp okp (sg_body sig) of
        None \<Rightarrow> change\<lparr>oc_unknown := True\<rparr>
      | Some ref \<Rightarrow> if fst ref \<noteq> sg_sender sig then change\<lparr>oc_unknown := True\<rparr> else change\<lparr>oc_removed_child := ref\<rparr>)"

definition change_of_signal :: "(rune \<Rightarrow> bool) \<Rightarrow> (string \<Rightarrow> bool) \<Rightarrow> signal option \<Rightarrow> event \<Rightarrow> u64 \<Rightarrow> backend \<Rightarrow> obs_change \<times> backend" where
  "change_of_signal sp okp sig ev revision b =
     (let change = \<lparr>oc_revision = revision, oc_kind = ev_kind ev, oc_node = identity_of (ev_node ev), oc_parent = no_identity,
            oc_removed_child = no_identity, oc_cache_add = False, oc_item = zero_item, oc_cache_remove = False,
            oc_children_remove = False, oc_unknown = False\<rparr> in
      case sig of
        None \<Rightarrow> (change\<lparr>oc_unknown := True\<rparr>, b)
      | Some sig \<Rightarrow>
          if has_suffix (sg_name sig) ''Cache:AddAccessible'' then (cache_add_change sp okp sig change, b)
          else if has_suffix (sg_name sig) ''Cache:RemoveAccessible'' then cache_removal_change sp okp sig change b
          else if has_suffix (sg_name sig) ''Object:ChildrenChanged'' \<and> first_arg (sg_body sig) ''remove''
            then (children_removal_change sp okp sig change, b)
          else (if identity_valid (oc_node change) then change else change\<lparr>oc_unknown := True\<rparr>, b))"

definition append_change :: "obs_change \<Rightarrow> backend \<Rightarrow> backend" where
  "append_change change b =
     (if length (bk_history b) = observation_history_limit
      then b\<lparr>bk_floor := oc_revision (hd (bk_history b)), bk_history := tl (bk_history b) @ [change]\<rparr>
      else b\<lparr>bk_history := bk_history b @ [change]\<rparr>)"

definition record_observation :: "(rune \<Rightarrow> bool) \<Rightarrow> (string \<Rightarrow> bool) \<Rightarrow> signal option \<Rightarrow> event \<Rightarrow> u64 \<Rightarrow> backend \<Rightarrow> backend" where
  "record_observation sp okp sig ev revision b =
     (let (change, b) = change_of_signal sp okp sig ev revision b in append_change change b)"

section \<open>Handles\<close>

definition transition_cache_removal :: "(rune \<Rightarrow> bool) \<Rightarrow> (string \<Rightarrow> bool) \<Rightarrow> signal \<Rightarrow> backend \<Rightarrow> backend" where
  "transition_cache_removal sp okp sig b =
     (case cache_object_ref_from_signal sp okp (sg_body sig) of
        None \<Rightarrow> invalidate_all_handles b
      | Some ref \<Rightarrow> if fst ref \<noteq> sg_sender sig then invalidate_all_handles b else revoke_or_invalidate okp ref b)"

definition transition_children_removal :: "(rune \<Rightarrow> bool) \<Rightarrow> (string \<Rightarrow> bool) \<Rightarrow> signal \<Rightarrow> backend \<Rightarrow> backend" where
  "transition_children_removal sp okp sig b =
     (if \<not> first_arg (sg_body sig) ''remove'' then b
      else
        case children_changed_object sp okp (sg_body sig) of
          None \<Rightarrow> invalidate_all_handles b
        | Some ref \<Rightarrow> if fst ref \<noteq> sg_sender sig then invalidate_all_handles b else revoke_or_invalidate okp ref b)"

definition transition_defunct :: "(string \<Rightarrow> bool) \<Rightarrow> signal \<Rightarrow> backend \<Rightarrow> backend" where
  "transition_defunct okp sig b =
     (if \<not> first_arg (sg_body sig) ''defunct'' then b
      else
        case state_enabled (sg_body sig) of
          None \<Rightarrow> invalidate_all_handles b
        | Some defunct \<Rightarrow> if defunct then revoke_or_invalidate okp (sg_sender sig, sg_path sig) b else b)"

definition transition_object_handles :: "(rune \<Rightarrow> bool) \<Rightarrow> (string \<Rightarrow> bool) \<Rightarrow> signal option \<Rightarrow> backend \<Rightarrow> backend" where
  "transition_object_handles sp okp sig b =
     (case sig of
        None \<Rightarrow> b
      | Some sig \<Rightarrow>
          if has_suffix (sg_name sig) ''Window:Destroy'' then revoke_or_invalidate okp (sg_sender sig, sg_path sig) b
          else if has_suffix (sg_name sig) ''Cache:RemoveAccessible'' then transition_cache_removal sp okp sig b
          else if has_suffix (sg_name sig) ''Object:ChildrenChanged'' then transition_children_removal sp okp sig b
          else if has_suffix (sg_name sig) ''Object:StateChanged'' then transition_defunct okp sig b
          else b)"

section \<open>Cache signals\<close>

definition drop_caches :: "backend \<Rightarrow> backend" where
  "drop_caches b = b\<lparr>bk_items := None, bk_apps := None, bk_snapshots := []\<rparr>"

text \<open>The child counts of the old and the new parent, while the cache of the application is complete.\<close>

definition count_cached_child :: "(string \<Rightarrow> bool) \<Rightarrow> node_id \<Rightarrow> cache_item \<Rightarrow> backend \<Rightarrow> backend" where
  "count_cached_child okp i item b =
     (if app_complete b (fst (ci_object item)) then
        case cached_item_at b i of
          None \<Rightarrow> adjust_cached_child_count okp (ci_parent item) 1 b
        | Some old \<Rightarrow>
            if ci_parent old \<noteq> ci_parent item
            then adjust_cached_child_count okp (ci_parent item) 1 (adjust_cached_child_count okp (ci_parent old) (- 1) b)
            else b
      else b)"

text \<open>The checks that are repeated here have been made by the callers.\<close>

definition apply_cache_add :: "(rune \<Rightarrow> bool) \<Rightarrow> (string \<Rightarrow> bool) \<Rightarrow> any list \<Rightarrow> backend \<Rightarrow> backend" where
  "apply_cache_add sp okp body b =
     (case cache_item_from_signal sp okp body of
        None \<Rightarrow> b\<lparr>bk_items := None, bk_apps := None\<rparr>
      | Some item \<Rightarrow>
          if fst (ci_object item) \<noteq> fst (ci_application item) \<or> \<not> valid_cache_object_ref sp okp (ci_object item) \<or>
             \<not> valid_cache_object_ref sp okp (ci_application item) \<or> \<not> valid_cache_parent_ref sp okp (ci_parent item)
          then b\<lparr>bk_items := None, bk_apps := None\<rparr>
          else
            let (i, b) = node_id_locked (ci_object item) b;
                b = count_cached_child okp i item b;
                b = set_item i item b in
            record_parent_locked (ci_object item) (ci_parent item) b)"

definition apply_cache_remove :: "(rune \<Rightarrow> bool) \<Rightarrow> (string \<Rightarrow> bool) \<Rightarrow> any list \<Rightarrow> backend \<Rightarrow> backend" where
  "apply_cache_remove sp okp body b =
     (case cache_object_ref_from_signal sp okp body of
        None \<Rightarrow> b\<lparr>bk_items := None, bk_apps := None\<rparr>
      | Some ref \<Rightarrow> keep_items (\<lambda>i. identity_of i \<noteq> ref) b)"

definition apply_cache_signal :: "(rune \<Rightarrow> bool) \<Rightarrow> (string \<Rightarrow> bool) \<Rightarrow> signal \<Rightarrow> backend \<Rightarrow> backend" where
  "apply_cache_signal sp okp sig b =
     (let b = b\<lparr>bk_index := None, bk_items := Some (elems (bk_items b))\<rparr> in
      if has_suffix (sg_name sig) ''Cache:AddAccessible'' then
        (case cache_item_from_signal sp okp (sg_body sig) of
           None \<Rightarrow> drop_caches b
         | Some item \<Rightarrow>
             if fst (ci_object item) \<noteq> sg_sender sig then drop_caches b
             else (apply_cache_add sp okp (sg_body sig) b)\<lparr>bk_snapshots := []\<rparr>)
      else if has_suffix (sg_name sig) ''Cache:RemoveAccessible'' then
        (case cache_object_ref_from_signal sp okp (sg_body sig) of
           None \<Rightarrow> drop_caches b
         | Some ref \<Rightarrow>
             if fst ref \<noteq> sg_sender sig then drop_caches b
             else (apply_cache_remove sp okp (sg_body sig) b)\<lparr>bk_snapshots := []\<rparr>)
      else b\<lparr>bk_snapshots := []\<rparr>)"

definition has_cache_prefix :: "string \<Rightarrow> bool" where
  "has_cache_prefix name \<longleftrightarrow> has_prefix name ''org.a11y.atspi.Cache:'' \<or> sublist ''.Cache:'' name"

text \<open>The cache under the handles that are current after the transition.\<close>

fun rekey_items :: "cache_item list \<Rightarrow> (node_id \<times> cache_item) list \<Rightarrow> backend \<Rightarrow> (node_id \<times> cache_item) list \<times> backend" where
  "rekey_items [] acc b = (acc, b)"
| "rekey_items (item # rest) acc b =
     (let (i, b) = node_id_locked (ci_object item) b in rekey_items rest (AList.update i item acc) b)"

section \<open>One signal\<close>

text \<open>
  The cache after the transition of the handles: kept under the new handles for a cache signal, dropped for
  any other. The maps that were there before are the ones that the transition changed, or they are
  dropped with the epoch.
\<close>

definition settle_cache :: "(rune \<Rightarrow> bool) \<Rightarrow> (string \<Rightarrow> bool) \<Rightarrow> signal option \<Rightarrow> u64 \<Rightarrow> backend \<Rightarrow> backend" where
  "settle_cache sp okp sig previous_generation b =
     (let items = (if bk_generation b \<noteq> previous_generation then None else bk_items b);
          apps = (if bk_generation b \<noteq> previous_generation then None else bk_apps b);
          b = b\<lparr>bk_snapshots := [], bk_toolkits := [], bk_index := None\<rparr> in
      case sig of
        None \<Rightarrow> b\<lparr>bk_items := None, bk_apps := None\<rparr>
      | Some s \<Rightarrow>
          if has_cache_prefix (sg_name s) then
            case items of
              None \<Rightarrow> apply_cache_signal sp okp s (b\<lparr>bk_items := None, bk_apps := apps\<rparr>)
            | Some its \<Rightarrow>
                let (its, b) = rekey_items (map snd its) [] b in
                apply_cache_signal sp okp s (b\<lparr>bk_items := Some its, bk_apps := apps\<rparr>)
          else b\<lparr>bk_items := None, bk_apps := None\<rparr>)"

text \<open>The second component says whether the event is delivered.\<close>

definition prepare_event_transition :: "(rune \<Rightarrow> bool) \<Rightarrow> (string \<Rightarrow> bool) \<Rightarrow> signal option \<Rightarrow> event \<Rightarrow> backend \<Rightarrow> (event \<times> bool) \<times> backend" where
  "prepare_event_transition sp okp sig ev b =
     (if bk_closed b \<or> bk_disconnected b
      then ((ev\<lparr>ev_node := (ev_node ev)\<lparr>id_generation := bk_generation b\<rparr>\<rparr>, False), b)
      else
        let previous_generation = bk_generation b;
            b = b\<lparr>bk_cache_revision := bk_cache_revision b + 1, bk_observation := bk_observation b + 1\<rparr>;
            b = record_observation sp okp sig ev (bk_observation b) b;
            b = transition_object_handles sp okp sig b;
            b = settle_cache sp okp sig previous_generation b;
            (i, b) = node_id_locked (identity_of (ev_node ev)) b in
        ((ev\<lparr>ev_node := i\<rparr>, True), b))"

end
