(* ===== verification/AccHandles.thy ===== *)
theory AccHandles
  imports AccEvents
begin

text \<open>
  Handles of accessible objects: a revocation ends exactly the handles of the removed object and of its
  known descendants, no operation of the backend touches a handle in any other way than by revocation or
  by a new epoch, and so a handle that has stopped being current never becomes current again.
\<close>

section \<open>The incarnation of a path\<close>

definition incarnation :: "backend \<Rightarrow> identity \<Rightarrow> u64" where
  "incarnation b i = (if stored_incarnation b i = 0 then 1 else stored_incarnation b i)"

lemma handle_current_iff:
  "handle_current b h \<longleftrightarrow> id_generation h = bk_generation b \<and> effective_incarnation h = incarnation b (identity_of h) \<and>
     \<not> bk_closed b \<and> \<not> bk_disconnected b"
  by (simp add: handle_current_def incarnation_def Let_def)

text \<open>Two states in which the same handles are current.\<close>

definition same_handles :: "backend \<Rightarrow> backend \<Rightarrow> bool" where
  "same_handles b b' \<longleftrightarrow> bk_generation b' = bk_generation b \<and> incarnation b' = incarnation b \<and>
     bk_closed b' = bk_closed b \<and> bk_disconnected b' = bk_disconnected b"

named_theorems same

lemma same_refl [same]: "same_handles b b"
  by (simp add: same_handles_def)

lemma same_trans: "same_handles a b \<Longrightarrow> same_handles b c \<Longrightarrow> same_handles a c"
  by (simp add: same_handles_def)

lemma same_current: "same_handles b b' \<Longrightarrow> handle_current b' h = handle_current b h"
  by (simp add: handle_current_iff same_handles_def)

text \<open>Updates of the fields that handles do not depend on.\<close>

lemma same_fields [simp]:
  "same_handles b (b'\<lparr>bk_incomplete := x1\<rparr>) = same_handles b b'" "same_handles b (b'\<lparr>bk_parents := x2\<rparr>) = same_handles b b'"
  "same_handles b (b'\<lparr>bk_items := x3\<rparr>) = same_handles b b'" "same_handles b (b'\<lparr>bk_apps := x4\<rparr>) = same_handles b b'"
  "same_handles b (b'\<lparr>bk_index := x5\<rparr>) = same_handles b b'" "same_handles b (b'\<lparr>bk_index_gen := x6\<rparr>) = same_handles b b'"
  "same_handles b (b'\<lparr>bk_snapshots := x7\<rparr>) = same_handles b b'" "same_handles b (b'\<lparr>bk_toolkits := x8\<rparr>) = same_handles b b'"
  "same_handles b (b'\<lparr>bk_history := x9\<rparr>) = same_handles b b'" "same_handles b (b'\<lparr>bk_floor := x10\<rparr>) = same_handles b b'"
  "same_handles b (b'\<lparr>bk_observation := x11\<rparr>) = same_handles b b'" "same_handles b (b'\<lparr>bk_cache_revision := x12\<rparr>) = same_handles b b'"
  by (simp_all add: same_handles_def incarnation_def stored_incarnation_def fun_eq_iff)

lemma incarnation_locked_same:
  assumes "incarnation_locked i b = (n, b')"
  shows "same_handles b b'" "n = incarnation b i"
  using assms
  by (auto simp: incarnation_locked_def same_handles_def incarnation_def stored_incarnation_def update_conv' fun_eq_iff split: if_splits option.splits)

lemma node_id_locked_same: "node_id_locked ref b = (i, b') \<Longrightarrow> same_handles b b'"
  using incarnation_locked_same(1) by (auto simp: node_id_locked_def split: prod.splits)

lemma node_id_locked_current:
  assumes "node_id_locked ref b = (i, b')" "\<not> bk_closed b" "\<not> bk_disconnected b"
  shows "handle_current b' i"
proof -
  obtain n where n: "incarnation_locked ref b = (n, b')" "i = \<lparr>id_bus = fst ref, id_path = snd ref, id_generation = bk_generation b, id_incarnation = n\<rparr>"
    using assms(1) by (auto simp: node_id_locked_def split: prod.splits)
  note same = incarnation_locked_same[OF n(1)]
  have "n \<noteq> 0" by (simp add: same(2) incarnation_def)
  then show ?thesis
    using same assms(2,3) n(2) by (auto simp: handle_current_iff same_handles_def effective_incarnation_def identity_of_def)
qed

lemma record_parent_same [same]: "same_handles b (record_parent_locked c p b)"
  by (simp add: record_parent_locked_def same_refl)

lemma record_object_parent_same [same]: "same_handles b (record_object_parent c p b)"
proof -
  obtain n1 b1 where 1: "incarnation_locked (identity_of c) b = (n1, b1)" by fastforce
  obtain n2 b2 where 2: "incarnation_locked (identity_of p) b1 = (n2, b2)" by fastforce
  note s1 = incarnation_locked_same(1)[OF 1]
  note s2 = same_trans[OF s1 incarnation_locked_same(1)[OF 2]]
  show ?thesis
    by (simp add: record_object_parent_def 1 2 Let_def same_refl s1 s2 same_trans[OF s2 record_parent_same])
qed

lemma set_app_same [same]: "same_handles b (set_app bus c b)"
  by (simp add: set_app_def same_refl)

lemma keep_items_same [same]: "same_handles b (keep_items P b)"
  by (simp add: keep_items_def same_refl)

lemma set_item_same [same]: "same_handles b (set_item i item b)"
  by (simp add: set_item_def same_refl)

lemma invalidate_app_same [same]: "same_handles b (invalidate_cache_application bus b)"
  by (simp add: invalidate_cache_application_def Let_def keep_items_def set_app_def same_refl)

lemma fold_same: "(\<And>x b. same_handles b (f x b)) \<Longrightarrow> same_handles b (fold f xs b)"
  by (induction xs arbitrary: b) (auto intro: same_refl same_trans)

lemma adjust_count_same [same]: "same_handles b (adjust_cached_child_count okp p d b)"
proof -
  obtain i b1 where 1: "node_id_locked p b = (i, b1)" by fastforce
  note s = node_id_locked_same[OF 1]
  have d: "same_handles b (keep_items P (set_app bus False b1))" for P bus
    by (rule same_trans[OF same_trans[OF s set_app_same] keep_items_same])
  show ?thesis
    by (simp add: adjust_cached_child_count_def 1 Let_def same_refl d same_trans[OF s set_item_same] split: option.splits)
qed

lemma detach_same [same]: "same_handles b (detach_foreign_parent_edges removed b)"
  unfolding detach_foreign_parent_edges_def Let_def
  by (rule same_trans[OF _ fold_same[OF invalidate_app_same]]) (simp add: same_refl)

lemma cache_parents_loop_same: "cache_parents_loop items by_child b = (x, b') \<Longrightarrow> same_handles b b'"
  by (induction items by_child b arbitrary: x b' rule: cache_parents_loop.induct)
    (auto intro: same_refl same_trans[OF invalidate_app_same] split: if_splits option.splits)

lemma adjust_children_same [same]: "same_handles b (adjust_cached_children_for_revocation okp removed b)"
proof -
  obtain x b1 where 1: "cache_parents_loop (elems (bk_items b)) (bk_parents b) b = (x, b1)" by fastforce
  have "same_handles b1 (fold (\<lambda>(parent, n). adjust_cached_child_count okp parent (- n)) xs b1)" for xs
    by (rule fold_same) (auto intro: adjust_count_same)
  then show ?thesis
    using same_trans[OF cache_parents_loop_same[OF 1]] by (simp add: adjust_cached_children_for_revocation_def 1)
qed

section \<open>The tree of a removed object\<close>

definition edge_rel :: "(identity \<times> identity) list \<Rightarrow> (identity \<times> identity) set" where
  "edge_rel edges = {(parent, child). (child, parent) \<in> set edges}"

lemma children_of_edges: "set (children_of edges i) = edge_rel edges `` {i}"
  by (force simp: children_of_def edge_rel_def)

lemma removed_loop_spec:
  "distinct removed \<Longrightarrow> set queue \<subseteq> set removed \<Longrightarrow> root \<in> set removed \<Longrightarrow> set removed \<subseteq> (edge_rel edges)\<^sup>* `` {root} \<Longrightarrow>
    \<forall>p \<in> set removed - set queue. edge_rel edges `` {p} \<subseteq> set removed \<Longrightarrow>
    distinct (removed_loop edges queue removed) \<and> set (removed_loop edges queue removed) = (edge_rel edges)\<^sup>* `` {root}"
proof (induction edges queue removed rule: removed_loop.induct)
  case (1 edges removed)
  have "i \<in> set removed" if "(root, i) \<in> (edge_rel edges)\<^sup>*" for i
    using that by (induction rule: rtrancl_induct) (use 1 in auto)
  then show ?case using 1 by auto
next
  case (2 edges i queue removed)
  obtain r q where e: "enqueue (children_of edges i) removed queue = (r, q)" by fastforce
  obtain new where new: "r = removed @ new" "q = queue @ new" "set new = edge_rel edges `` {i} - set removed" "distinct new"
    using enqueue_spec[OF e] children_of_edges by metis
  have i: "i \<in> (edge_rel edges)\<^sup>* `` {root}" using 2(3,5) by auto
  have "edge_rel edges `` {i} \<subseteq> (edge_rel edges)\<^sup>* `` {root}"
    using i by (auto intro: rtrancl_into_rtrancl)
  then have sub: "set r \<subseteq> (edge_rel edges)\<^sup>* `` {root}"
    using 2(5) new by auto
  have "distinct (removed_loop edges q r) \<and> set (removed_loop edges q r) = (edge_rel edges)\<^sup>* `` {root}"
  proof (rule "2.IH"[OF e[symmetric] refl _ _ _ sub])
    show "distinct r" "set q \<subseteq> set r" "root \<in> set r" using 2(2-4) new by auto
    show "\<forall>p \<in> set r - set q. edge_rel edges `` {p} \<subseteq> set r"
    proof
      fix p assume p: "p \<in> set r - set q"
      show "edge_rel edges `` {p} \<subseteq> set r"
      proof (cases "p = i")
        case True
        then show ?thesis using new by auto
      next
        case False
        then have "p \<in> set removed - set (i # queue)" using p new by auto
        then show ?thesis using 2(6) new(1) by auto
      qed
    qed
  qed
  then show ?case by (simp add: e)
qed

lemma removed_object_tree_spec:
  "distinct (removed_object_tree b root) \<and> set (removed_object_tree b root) = (edge_rel (known_edges b))\<^sup>* `` {root}"
  unfolding removed_object_tree_def by (rule removed_loop_spec) auto

section \<open>Revocation\<close>

lemma bump_incarnation_spec:
  "incarnation (bump_incarnation i b) j = (if j = i then (if incarnation b i + 1 = 0 then 1 else incarnation b i + 1) else incarnation b j)"
  "bk_generation (bump_incarnation i b) = bk_generation b" "bk_closed (bump_incarnation i b) = bk_closed b"
  "bk_disconnected (bump_incarnation i b) = bk_disconnected b"
proof -
  obtain n b1 where n: "incarnation_locked i b = (n, b1)" by fastforce
  note same = incarnation_locked_same[OF n]
  have "incarnation b1 j = incarnation b j" using same(1) by (simp add: same_handles_def)
  then show "incarnation (bump_incarnation i b) j = (if j = i then (if incarnation b i + 1 = 0 then 1 else incarnation b i + 1) else incarnation b j)"
    using same(2) by (auto simp: bump_incarnation_def n incarnation_def stored_incarnation_def update_conv')
  show "bk_generation (bump_incarnation i b) = bk_generation b" "bk_closed (bump_incarnation i b) = bk_closed b"
    "bk_disconnected (bump_incarnation i b) = bk_disconnected b"
    using same(1) by (simp_all add: bump_incarnation_def n same_handles_def)
qed

definition next_incarnation :: "u64 \<Rightarrow> u64" where
  "next_incarnation n = (if n + 1 = 0 then 1 else n + 1)"

lemma next_incarnation_other: "next_incarnation n \<noteq> n"
  by (auto simp: next_incarnation_def)

lemma fold_bump:
  "distinct is \<Longrightarrow> incarnation (fold bump_incarnation is b) j = (if j \<in> set is then next_incarnation (incarnation b j) else incarnation b j) \<and>
    bk_generation (fold bump_incarnation is b) = bk_generation b \<and> bk_closed (fold bump_incarnation is b) = bk_closed b \<and>
    bk_disconnected (fold bump_incarnation is b) = bk_disconnected b"
  by (induction "is" arbitrary: b) (auto simp: bump_incarnation_spec next_incarnation_def)

lemma revoke_object_spec:
  assumes "revoke_object okp root b = (ok, b')"
  shows "if ok then
      (\<forall>j. incarnation b' j = (if j \<in> (edge_rel (known_edges b))\<^sup>* `` {root} then next_incarnation (incarnation b j) else incarnation b j)) \<and>
      bk_generation b' = bk_generation b \<and> bk_closed b' = bk_closed b \<and> bk_disconnected b' = bk_disconnected b
    else b' = b"
proof (cases ok)
  case True
  define removed where "removed = removed_object_tree b root"
  define b1 where "b1 = adjust_cached_children_for_revocation okp removed (detach_foreign_parent_edges removed b)"
  define b2 where "b2 = fold bump_incarnation removed b1"
  have b': "same_handles b2 b'"
    using assms True by (auto simp: revoke_object_def Let_def b2_def b1_def removed_def keep_items_def same_refl split: if_splits)
  have "same_handles b b1"
    unfolding b1_def by (rule same_trans[OF detach_same adjust_children_same])
  moreover have "distinct removed" "set removed = (edge_rel (known_edges b))\<^sup>* `` {root}"
    using removed_object_tree_spec by (simp_all add: removed_def)
  ultimately show ?thesis
    using True b' fold_bump[of removed b1] by (simp add: same_handles_def b2_def)
next
  case False
  then show ?thesis using assms by (auto simp: revoke_object_def Let_def split: if_splits)
qed


text \<open>Revoking an object ends its handle in every case.\<close>

lemma revoke_or_invalidate_ends:
  assumes "handle_current b h" "identity_of h = i"
  shows "\<not> handle_current (revoke_or_invalidate okp i b) h"
proof -
  have fresh: "\<not> handle_current (invalidate_all_handles c) h" if "bk_generation c = bk_generation b" for c
    using assms(1) that by (auto simp: handle_current_iff invalidate_all_handles_def)
  obtain ok b' where r: "revoke_object okp i b = (ok, b')" by fastforce
  note spec = revoke_object_spec[OF r]
  show ?thesis
  proof (cases ok)
    case True
    have "incarnation b' i = next_incarnation (incarnation b i)"
      using spec True by (simp del: split_paired_All)
    then show ?thesis
      using r True assms fresh[OF refl] next_incarnation_other[of "incarnation b i"]
      by (auto simp: revoke_or_invalidate_def handle_current_iff)
  next
    case False
    then show ?thesis using r spec fresh[OF refl] by (simp add: revoke_or_invalidate_def)
  qed
qed

section \<open>Steps of the backend\<close>

text \<open>Every operation on the state, with whatever arguments it is called.\<close>

inductive backend_step :: "(rune \<Rightarrow> bool) \<Rightarrow> (string \<Rightarrow> bool) \<Rightarrow> backend \<Rightarrow> backend \<Rightarrow> bool" for sp okp where
  issue: "backend_step sp okp b (snd (node_id_locked ref b))"
| parent: "backend_step sp okp b (record_object_parent child parent b)"
| signal: "backend_step sp okp b (snd (prepare_event_transition sp okp sig ev b))"
| epoch: "backend_step sp okp b (invalidate b)"
| disconnect: "backend_step sp okp b (mark_disconnected b)"
| close: "backend_step sp okp b (close_backend b)"
| toolkit: "backend_step sp okp b (snd (cache_toolkit i name b))"

inductive backend_run :: "(rune \<Rightarrow> bool) \<Rightarrow> (string \<Rightarrow> bool) \<Rightarrow> nat \<Rightarrow> backend \<Rightarrow> backend \<Rightarrow> bool" for sp okp where
  run_start: "backend_run sp okp 0 b b"
| run_step: "backend_run sp okp n a b \<Longrightarrow> backend_step sp okp b c \<Longrightarrow> backend_run sp okp (Suc n) a c"

text \<open>What a step does to handles: nothing, a revocation, or a new epoch.\<close>

definition advances :: "backend \<Rightarrow> backend \<Rightarrow> bool" where
  "advances b b' \<longleftrightarrow>
     (bk_closed b \<longrightarrow> bk_closed b') \<and> (bk_disconnected b \<longrightarrow> bk_disconnected b') \<and>
     (\<forall>i. incarnation b' i = incarnation b i \<or> incarnation b' i = next_incarnation (incarnation b i) \<or>
          bk_generation b' = bk_generation b + 1 \<and> incarnation b' i = 1) \<and>
     (bk_generation b' = bk_generation b \<or> bk_generation b' = bk_generation b + 1)"

lemma advances_same: "same_handles b b' \<Longrightarrow> advances b b'"
  by (simp add: same_handles_def advances_def)

lemma same_advances: "same_handles a b \<Longrightarrow> advances b c \<Longrightarrow> advances a c"
  by (simp add: same_handles_def advances_def)

lemma advances_then_same: "advances a b \<Longrightarrow> same_handles b c \<Longrightarrow> advances a c"
  by (simp add: same_handles_def advances_def)

lemma invalidate_all_advances: "advances b (invalidate_all_handles b)"
  by (simp add: advances_def invalidate_all_handles_def incarnation_def stored_incarnation_def)

lemma revoke_or_invalidate_advances: "advances b (revoke_or_invalidate okp i b)"
proof (cases "revoke_object okp i b")
  case (Pair ok b')
  note spec = revoke_object_spec[OF Pair]
  show ?thesis
  proof (cases ok)
    case True
    have "advances b b'"
      using spec True unfolding advances_def by (simp del: split_paired_All)
    then show ?thesis using Pair True invalidate_all_advances by (simp add: revoke_or_invalidate_def)
  next
    case False
    then show ?thesis using Pair spec invalidate_all_advances by (simp add: revoke_or_invalidate_def)
  qed
qed

lemma transition_advances: "advances b (transition_object_handles sp okp sig b)"
  by (auto simp: transition_object_handles_def transition_cache_removal_def transition_children_removal_def transition_defunct_def
      revoke_or_invalidate_advances invalidate_all_advances advances_same[OF same_refl] split: option.splits)

lemma change_same: "change_of_signal sp okp sig ev revision b = (change, b') \<Longrightarrow> same_handles b b'"
  by (auto simp: change_of_signal_def cache_removal_change_def Let_def same_refl
      split: option.splits if_splits prod.splits dest: node_id_locked_same)

lemma append_change_same: "same_handles b (append_change change b)"
  by (simp add: append_change_def same_refl)

lemma record_observation_same: "same_handles b (record_observation sp okp sig ev revision b)"
  unfolding record_observation_def
  by (cases "change_of_signal sp okp sig ev revision b") (simp add: same_trans[OF change_same append_change_same])

lemma rekey_same: "rekey_items items acc b = (acc', b') \<Longrightarrow> same_handles b b'"
proof (induction items arbitrary: acc b)
  case (Cons item items)
  obtain i b1 where i: "node_id_locked (ci_object item) b = (i, b1)" by fastforce
  then have "rekey_items items (AList.update i item acc) b1 = (acc', b')" using Cons.prems by simp
  from Cons.IH[OF this] show ?case by (rule same_trans[OF node_id_locked_same[OF i]])
qed (simp add: same_refl)

lemma count_cached_child_same: "same_handles b (count_cached_child okp i item b)"
  by (simp add: count_cached_child_def same_refl adjust_count_same same_trans[OF adjust_count_same adjust_count_same]
      split: option.splits)

lemma apply_cache_add_same: "same_handles b (apply_cache_add sp okp body b)"
proof (cases "cache_item_from_signal sp okp body")
  case (Some item)
  obtain i b1 where i: "node_id_locked (ci_object item) b = (i, b1)" by fastforce
  have "same_handles b (record_parent_locked (ci_object item) (ci_parent item) (set_item i item (count_cached_child okp i item b1)))"
    by (rule same_trans[OF node_id_locked_same[OF i] same_trans[OF count_cached_child_same same_trans[OF set_item_same record_parent_same]]])
  then show ?thesis
    using Some by (simp add: apply_cache_add_def i Let_def same_refl)
qed (simp add: apply_cache_add_def same_refl)

lemma apply_cache_signal_same: "same_handles b (apply_cache_signal sp okp sig b)"
proof -
  define b1 where "b1 = b\<lparr>bk_index := None, bk_items := Some (elems (bk_items b))\<rparr>"
  have "same_handles b b1" by (simp add: b1_def same_refl)
  moreover have "same_handles b1 (drop_caches b1)" "same_handles b1 (apply_cache_remove sp okp body b1)" for body
    by (simp_all add: drop_caches_def apply_cache_remove_def keep_items_def same_refl split: option.splits)
  ultimately show ?thesis
    unfolding apply_cache_signal_def b1_def[symmetric] Let_def
    by (auto intro: same_trans same_trans[OF _ apply_cache_add_same] split: option.splits)
qed

lemma settle_cache_same: "same_handles b (settle_cache sp okp sig g b)"
proof -
  have plain: "same_handles b (apply_cache_signal sp okp s (b\<lparr>bk_snapshots := [], bk_toolkits := [], bk_index := None, bk_items := x, bk_apps := y\<rparr>))"
    for s x y
    by (rule same_trans[OF _ apply_cache_signal_same]) (simp add: same_refl)
  have plain_apps: "same_handles b (apply_cache_signal sp okp s (b\<lparr>bk_snapshots := [], bk_toolkits := [], bk_index := None, bk_items := x\<rparr>))" for s x
    by (rule same_trans[OF _ apply_cache_signal_same]) (simp add: same_refl)
  have rekeyed: "same_handles b (apply_cache_signal sp okp s (b'\<lparr>bk_items := x, bk_apps := y\<rparr>))"
    if "rekey_items its [] (b\<lparr>bk_snapshots := [], bk_toolkits := [], bk_index := None\<rparr>) = (its', b')" for s its its' b' x y
  proof -
    have "same_handles b b'" by (rule same_trans[OF _ rekey_same[OF that]]) (simp add: same_refl)
    then show ?thesis by (intro same_trans[OF _ apply_cache_signal_same]) simp
  qed
  show ?thesis
    unfolding settle_cache_def Let_def
    using plain_apps
    by (auto simp: same_refl plain split: option.splits prod.splits intro: rekeyed)
qed

text \<open>A signal changes handles only where it revokes them.\<close>

lemma prepare_handles:
  assumes "\<not> bk_closed b" "\<not> bk_disconnected b"
  obtains b2 where "same_handles b b2"
    "same_handles (transition_object_handles sp okp sig b2) (snd (prepare_event_transition sp okp sig ev b))"
proof -
  define b1 where "b1 = b\<lparr>bk_cache_revision := bk_cache_revision b + 1, bk_observation := bk_observation b + 1\<rparr>"
  define b2 where "b2 = record_observation sp okp sig ev (bk_observation b1) b1"
  define b3 where "b3 = settle_cache sp okp sig (bk_generation b) (transition_object_handles sp okp sig b2)"
  obtain i b4 where four: "node_id_locked (identity_of (ev_node ev)) b3 = (i, b4)" by fastforce
  have "same_handles b b1" by (simp add: b1_def same_refl)
  then have "same_handles b b2"
    unfolding b2_def by (rule same_trans[OF _ record_observation_same])
  moreover have "same_handles (transition_object_handles sp okp sig b2) b4"
    by (rule same_trans[OF settle_cache_same[of _ sp okp sig "bk_generation b"]]) (use node_id_locked_same[OF four] in \<open>simp add: b3_def\<close>)
  moreover have "snd (prepare_event_transition sp okp sig ev b) = b4"
    using assms four unfolding b3_def b2_def b1_def by (simp add: prepare_event_transition_def Let_def)
  ultimately show ?thesis
    using that by simp
qed

lemma prepare_advances: "advances b (snd (prepare_event_transition sp okp sig ev b))"
proof (cases "bk_closed b \<or> bk_disconnected b")
  case True
  then show ?thesis by (simp add: prepare_event_transition_def advances_same same_refl)
next
  case False
  then show ?thesis
    using prepare_handles[of b sp okp sig ev] same_advances[OF _ advances_then_same[OF transition_advances]] by metis
qed

lemma step_advances: "backend_step sp okp b b' \<Longrightarrow> advances b b'"
proof (induction rule: backend_step.induct)
  case (issue b ref)
  show ?case
    by (cases "node_id_locked ref b") (simp add: advances_same node_id_locked_same)
next
  case (parent b child parent)
  show ?case by (rule advances_same[OF record_object_parent_same])
next
  case (signal b sig ev)
  show ?case by (rule prepare_advances)
next
  case (toolkit b i name)
  show ?case by (simp add: cache_toolkit_def advances_same same_refl)
qed (simp_all add: advances_def invalidate_def mark_disconnected_def close_backend_def incarnation_def stored_incarnation_def)

section \<open>No handle is revived\<close>

text \<open>How far the counters can have come.\<close>

definition counters_below :: "nat \<Rightarrow> backend \<Rightarrow> bool" where
  "counters_below n b \<longleftrightarrow> unat (bk_generation b) < n \<and> (\<forall>i. unat (incarnation b i) < n)"

lemma unat_inc: "unat (x :: u64) < n \<Longrightarrow> n < 2 ^ 64 \<Longrightarrow> unat (x + 1) = Suc (unat x)"
  by (subst unat_add_lem[THEN iffD1]) auto

lemma advances_incarnation:
  "advances b b' \<Longrightarrow> incarnation b' i = incarnation b i \<or> incarnation b' i = next_incarnation (incarnation b i) \<or>
     bk_generation b' = bk_generation b + 1 \<and> incarnation b' i = 1"
  unfolding advances_def by (simp del: split_paired_All)

lemma advances_generation:
  "advances b b' \<Longrightarrow> bk_generation b' = bk_generation b \<or> bk_generation b' = bk_generation b + 1"
  by (simp add: advances_def)

lemma counters_incarnation: "counters_below n b \<Longrightarrow> unat (incarnation b i) < n"
  by (simp add: counters_below_def del: split_paired_All)

lemma advances_counters:
  assumes "counters_below n b" "n < 2 ^ 64" "advances b b'"
  shows "counters_below (Suc n) b'"
proof -
  have up: "unat (x + 1) < Suc n" if "unat x < n" for x :: u64
    using unat_inc[OF that assms(2)] that by simp
  have "unat (incarnation b' i) < Suc n" for i
    using advances_incarnation[OF assms(3), of i] counters_incarnation[OF assms(1), of i] up[of "incarnation b i"]
    by (auto simp: next_incarnation_def)
  moreover have "unat (bk_generation b') < Suc n"
    using advances_generation[OF assms(3)] assms(1) up[of "bk_generation b"] by (auto simp: counters_below_def)
  ultimately show ?thesis by (simp add: counters_below_def del: split_paired_All)
qed

definition later :: "backend \<Rightarrow> backend \<Rightarrow> bool" where
  "later b b' \<longleftrightarrow>
     (bk_closed b \<longrightarrow> bk_closed b') \<and> (bk_disconnected b \<longrightarrow> bk_disconnected b') \<and> unat (bk_generation b) \<le> unat (bk_generation b') \<and>
     (bk_generation b' = bk_generation b \<longrightarrow> (\<forall>i. unat (incarnation b i) \<le> unat (incarnation b' i)))"

lemma later_generation: "later a b \<Longrightarrow> unat (bk_generation a) \<le> unat (bk_generation b)"
  by (simp add: later_def)

lemma later_incarnation:
  "later a b \<Longrightarrow> bk_generation b = bk_generation a \<Longrightarrow> unat (incarnation a i) \<le> unat (incarnation b i)"
  by (simp add: later_def del: split_paired_All)

lemma later_between:
  assumes "later a b" "later b c" "bk_generation c = bk_generation a"
  shows "bk_generation b = bk_generation a"
  using later_generation[OF assms(1)] later_generation[OF assms(2)] assms(3) by (simp add: word_unat_eq_iff)

lemma later_trans:
  assumes "later a b" "later b c"
  shows "later a c"
proof -
  have "unat (incarnation a i) \<le> unat (incarnation c i)" if "bk_generation c = bk_generation a" for i
    using later_incarnation[OF assms(1), of i] later_incarnation[OF assms(2), of i] later_between[OF assms that] that by simp
  then show ?thesis
    using assms by (simp add: later_def del: split_paired_All)
qed

lemma advances_later:
  assumes "counters_below n b" "n < 2 ^ 64" "advances b b'"
  shows "later b b'"
proof -
  have "unat (bk_generation b + 1) = Suc (unat (bk_generation b))"
    using assms(1,2) unat_inc unfolding counters_below_def by blast
  then have gen: "unat (bk_generation b) \<le> unat (bk_generation b')"
    using advances_generation[OF assms(3)] by auto
  have "unat (incarnation b i) \<le> unat (incarnation b' i)" if "bk_generation b' = bk_generation b" for i
    using advances_incarnation[OF assms(3), of i] that unat_inc[OF counters_incarnation[OF assms(1), of i] assms(2)]
    by (auto simp: next_incarnation_def)
  then show ?thesis
    using gen assms(3) by (simp add: later_def advances_def del: split_paired_All)
qed

lemma run_later:
  "backend_run sp okp n b b' \<Longrightarrow> counters_below k b \<Longrightarrow> k + n < 2 ^ 64 \<Longrightarrow> counters_below (k + n) b' \<and> later b b'"
proof (induction rule: backend_run.induct)
  case (run_start b)
  then show ?case by (simp add: later_def)
next
  case (run_step n a b c)
  then have b: "counters_below (k + n) b" "later a b" by auto
  have "k + n < 2 ^ 64" using run_step.prems by simp
  from advances_counters[OF b(1) this step_advances[OF run_step.hyps(2)]] advances_later[OF b(1) this step_advances[OF run_step.hyps(2)]]
  show ?case using later_trans[OF b(2)] by simp
qed

lemma open_counters: "counters_below (unat g + 2) (open_backend g)"
  by (simp add: counters_below_def open_backend_def incarnation_def stored_incarnation_def)

lemma window_destroyed:
  assumes "handle_current b h" "has_suffix (sg_name sig) ''Window:Destroy''" "identity_of h = (sg_sender sig, sg_path sig)"
  shows "\<not> handle_current (snd (prepare_event_transition sp okp (Some sig) ev b)) h"
proof -
  obtain b2 where b2: "same_handles b b2"
    "same_handles (transition_object_handles sp okp (Some sig) b2) (snd (prepare_event_transition sp okp (Some sig) ev b))"
    using prepare_handles[of b sp okp "Some sig" ev] assms(1) by (auto simp: handle_current_iff)
  have "handle_current b2 h"
    using same_current[OF b2(1)] assms(1) by simp
  from revoke_or_invalidate_ends[OF this assms(3)] show ?thesis
    using same_current[OF b2(2)] assms(2) by (simp add: transition_object_handles_def)
qed

text \<open>
  The names that the code compares with hold a colon between interface and member. A name without a colon,
  like those that the bus library forms from an interface, a dot and a member, revokes nothing and is no
  cache signal.
\<close>

lemma suffix_set: "has_suffix s t \<Longrightarrow> set t \<subseteq> set s"
  by (metis has_suffix_def set_drop_subset)

lemma dotted_names_ignored:
  assumes "CHR '':'' \<notin> set (sg_name sig)"
  shows "transition_object_handles sp okp (Some sig) b = b" "\<not> has_cache_prefix (sg_name sig)"
proof -
  have no: "\<not> has_suffix (sg_name sig) t" if "CHR '':'' \<in> set t" for t
    using suffix_set[of "sg_name sig" t] that assms by blast
  show "transition_object_handles sp okp (Some sig) b = b"
    by (simp add: transition_object_handles_def no)
  have "\<not> has_prefix (sg_name sig) t" if "CHR '':'' \<in> set t" for t
    using that assms by (metis has_prefix_def in_set_takeD)
  moreover have "\<not> sublist t (sg_name sig)" if "CHR '':'' \<in> set t" for t
    using that assms by (auto simp: sublist_def)
  ultimately show "\<not> has_cache_prefix (sg_name sig)"
    by (simp add: has_cache_prefix_def)
qed

text \<open>
  C5. No handle is revived: a handle that was current at one time and not at a later time is not current at
  any time after that, whatever signals, disconnections, invalidations, removals and re-used object paths
  come in between. The counters are 64 bits wide, so the number of operations is bounded by 2^64.
\<close>

theorem no_handle_revived:
  assumes "backend_run sp okp n (open_backend g) b1" "backend_run sp okp m b1 b2" "backend_run sp okp k b2 b3"
    and "unat g + 2 + n + m + k < 2 ^ 64" "handle_current b1 h" "\<not> handle_current b2 h"
  shows "\<not> handle_current b3 h"
proof
  assume current: "handle_current b3 h"
  have 1: "counters_below (unat g + 2 + n) b1"
    using run_later[OF assms(1) open_counters] assms(4) by simp
  have 2: "counters_below (unat g + 2 + n + m) b2" "later b1 b2"
    using run_later[OF assms(2) 1] assms(4) by simp_all
  have 3: "later b2 b3"
    using run_later[OF assms(3) 2(1)] assms(4) by simp
  have same: "bk_generation b3 = bk_generation b1" "incarnation b3 (identity_of h) = incarnation b1 (identity_of h)"
    using assms(5) current by (auto simp: handle_current_iff)
  have gen: "bk_generation b2 = bk_generation b1"
    by (rule later_between[OF 2(2) 3 same(1)])
  have "incarnation b2 (identity_of h) = incarnation b1 (identity_of h)"
    using later_incarnation[OF 2(2) gen, of "identity_of h"] later_incarnation[OF 3, of "identity_of h"] same gen
    by (simp add: word_unat_eq_iff)
  then show False
    using assms(5,6) gen current 3 by (auto simp: later_def handle_current_iff)
qed

text \<open>A window whose handle was issued is destroyed, and its path is used again.\<close>

definition destroyed :: signal where
  "destroyed = \<lparr>sg_name = ''org.a11y.atspi.Event.Window:Destroy'', sg_sender = '':1.7'', sg_path = ''/window'', sg_body = []\<rparr>"

definition window_backend :: "backend" where
  "window_backend = snd (node_id_locked ('':1.7'', ''/window'') (open_backend 1))"

definition window_handle :: node_id where
  "window_handle = fst (node_id_locked ('':1.7'', ''/window'') window_backend)"

definition destroyed_backend :: backend where
  "destroyed_backend = snd (prepare_event_transition (\<lambda>_. False) (\<lambda>_. True) (Some destroyed)
     (signal_event (\<lambda>r. r) (\<lambda>_. False) (\<lambda>_. []) destroyed) window_backend)"

definition reused_backend :: backend where
  "reused_backend = snd (node_id_locked ('':1.7'', ''/window'') destroyed_backend)"

lemma window_now: "window_backend = (open_backend 1)\<lparr>bk_incarnations := [(('':1.7'', ''/window''), 1)]\<rparr>"
  "window_handle = \<lparr>id_bus = '':1.7'', id_path = ''/window'', id_generation = 1, id_incarnation = 1\<rparr>"
  by (simp_all add: window_backend_def window_handle_def node_id_locked_def incarnation_locked_def stored_incarnation_def open_backend_def max_tracked_def)

lemma window_handle_now: "handle_current window_backend window_handle"
  by (simp add: window_now handle_current_def stored_incarnation_def open_backend_def effective_incarnation_def identity_of_def Let_def)

theorem no_handle_revived_witness: "\<not> handle_current reused_backend window_handle \<and> handle_current window_backend window_handle"
proof -
  have runs: "backend_run (\<lambda>_. False) (\<lambda>_. True) 1 (open_backend 1) window_backend"
    "backend_run (\<lambda>_. False) (\<lambda>_. True) 1 window_backend destroyed_backend"
    "backend_run (\<lambda>_. False) (\<lambda>_. True) 1 destroyed_backend reused_backend"
    unfolding One_nat_def window_backend_def destroyed_backend_def reused_backend_def
    by (rule run_step[OF run_start], rule backend_step.intros)+
  have "\<not> handle_current destroyed_backend window_handle"
    unfolding destroyed_backend_def
    by (rule window_destroyed[OF window_handle_now]) (simp_all add: window_now destroyed_def has_suffix_def identity_of_def)
  then show ?thesis
    using no_handle_revived[OF runs] window_handle_now by simp
qed

end
