(* ===== verification/Spec2Isabelle.thy ===== *)
theory Spec2Isabelle
  imports Prelude Poll Tracker Framing Wire WlSession EisSend KeyInput WlKeyboardKeys WlKeyboardText
    WinMatchSpec WinFind Geometry FindSettle ScanFor AccResponse AccAncestors AccTree AccHandles
begin

text \<open>
  Verification of perfuncted, a Go library and command line tool that automates Linux desktops:
  it injects input, captures the screen, finds and controls windows, and reads accessibility
  trees, over Wayland, X11, D-Bus and kernel interfaces. This development models the parts of
  it whose behaviour is the program's own: protocol codecs and state machines, the bookkeeping
  of input devices, parsers, matchers, retry loops and the lifecycle of shared resources.

  \<^bold>\<open>Theories and code.\<close>

  \<^item> \<^verbatim>\<open>Prelude\<close>: words, little-endian codecs, Go slices with their run-time panics, 64-bit
    wrap-around, contexts and early returns, shared by all other theories. A context is a
    function from instants to its error, if any; every look at a context is a later instant.
  \<^item> \<^verbatim>\<open>Poll\<close> (\<^verbatim>\<open>poll/poll.go\<close>): the adaptive delay and the retry loop. The loop may run forever and
    is a partial function; that it returns is proved separately.
  \<^item> \<^verbatim>\<open>Tracker\<close> (\<^verbatim>\<open>internal/operation/tracker.go\<close>): operations in flight and shutdown, as steps of
    any number of goroutines. A critical section of the mutex is one step.
  \<^item> \<^verbatim>\<open>Framing\<close>: the contract of a decoder of length-prefixed messages, as a locale, with reading
    in chunks and the round trip of streams proved once. \<^verbatim>\<open>Wire\<close> and \<^verbatim>\<open>EisCodec\<close> interpret it.
  \<^item> \<^verbatim>\<open>Wire\<close> (\<^verbatim>\<open>internal/wl/wl.go\<close>): the Wayland object registry, requests, events, and the results
    of gated reads and writes. \<^verbatim>\<open>WlSession\<close> (\<^verbatim>\<open>internal/wl/session.go\<close>): the advertised globals and
    the cache of reference-counted connections as an interleaving of its callers.
  \<^item> \<^verbatim>\<open>Utf8\<close>, \<^verbatim>\<open>Runes\<close>: Go's view of strings, valid encodings, self-synchronisation.
  \<^item> \<^verbatim>\<open>EisCodec\<close>, \<^verbatim>\<open>EisClient\<close>, \<^verbatim>\<open>EisDevices\<close>, \<^verbatim>\<open>EisSend\<close> (\<^verbatim>\<open>input/eis.go\<close>): the emulated-input client:
    codec, read loop, device enumeration and selection, the setup handshake, input frames.
  \<^item> \<^verbatim>\<open>KeyInput\<close> (\<^verbatim>\<open>internal/keymap/keymap.go\<close>, \<^verbatim>\<open>input/keysend.go\<close>): key names and the parser of
    key-send expressions.
  \<^item> \<^verbatim>\<open>WlKeyboard\<close> (\<^verbatim>\<open>input/wl_keyboard.go\<close>): the virtual keyboard, one definition per method, the
    long \<^verbatim>\<open>sendkeys\<close> as plan and execution. \<^verbatim>\<open>WlKeyboardPlan\<close>: its keymaps. \<^verbatim>\<open>WlKeyboardSafety\<close>: a
    logic of triples with a postcondition for errors, and agreement of bookkeeping and
    compositor under cancellation. \<^verbatim>\<open>WlKeyboardKeys\<close>: single keys. \<^verbatim>\<open>WlKeyboardText\<close>: what the
    compositor reads.
  \<^item> \<^verbatim>\<open>Strconv\<close>, \<^verbatim>\<open>GoQuote\<close>: decimal numbers, \<^verbatim>\<open>Quote\<close> and \<^verbatim>\<open>Unquote\<close> of the standard library.
    \<^verbatim>\<open>WinMatch\<close>, \<^verbatim>\<open>WinMatchSpec\<close> (\<^verbatim>\<open>window/match.go\<close>): the window predicate, its cache and its text.
    \<^verbatim>\<open>WinFind\<close> (\<^verbatim>\<open>window/find.go\<close>): lookup and waiting over the listings of any manager.
  \<^item> \<^verbatim>\<open>Geometry\<close> (\<^verbatim>\<open>screen/rect.go\<close>, \<^verbatim>\<open>screen/capture_geometry.go\<close>, \<^verbatim>\<open>window/geometry.go\<close>,
    \<^verbatim>\<open>input/uinput_bounds.go\<close>): scaling, sizes and bounds.
  \<^item> \<^verbatim>\<open>Pixels\<close>, \<^verbatim>\<open>PixelHash\<close>, \<^verbatim>\<open>Locate\<close>, \<^verbatim>\<open>FindColor\<close>, \<^verbatim>\<open>FindWait\<close>, \<^verbatim>\<open>FindSettle\<close>, \<^verbatim>\<open>ScanFor\<close>
    (\<^verbatim>\<open>find/find.go\<close>): rectangles and packed pixel buffers with their layout checks; the CRC-32
    pixel hash over each image representation; the search for an image with its anchor restart;
    the search for a colour; the waits, one definition per function, over a screen that is a
    function from instants to captures; their exactness; the scan of several areas at once.
  \<^item> \<^verbatim>\<open>AccModel\<close>, \<^verbatim>\<open>AccSize\<close>, \<^verbatim>\<open>AccBudget\<close> (\<^verbatim>\<open>accessibility/models.go\<close>, \<^verbatim>\<open>accessibility/snapshot.go\<close>): the data of a
    snapshot, the size estimates and the byte budget of a response. \<^verbatim>\<open>AccJson\<close> holds the texts
    that the JSON encoder writes, \<^verbatim>\<open>AccPrune\<close>, \<^verbatim>\<open>AccCover\<close>, \<^verbatim>\<open>AccLongest\<close>, \<^verbatim>\<open>AccFit\<close>, \<^verbatim>\<open>AccResponse\<close> the
    proofs about them.
  \<^item> \<^verbatim>\<open>AccSelect\<close>, \<^verbatim>\<open>AccValidate\<close> (the same file): queries and selectors over the nodes of a snapshot, and
    when a snapshot proves its matches complete. \<^verbatim>\<open>AccAncestors\<close>: the search for ancestors.
  \<^item> \<^verbatim>\<open>AccNode\<close> (\<^verbatim>\<open>accessibility/node.go\<close>): the reads of one object and redaction, in the state monad over
    a world that every call may change. \<^verbatim>\<open>AccNodeSafe\<close>: what holds of a node that was read.
  \<^item> \<^verbatim>\<open>AccWalk\<close> (\<^verbatim>\<open>snapshotWalker\<close>): the traversal over any provider. \<^verbatim>\<open>AccWalkSafe\<close> proves its invariant
    from the contract of a provider, a locale, \<^verbatim>\<open>AccWalkComplete\<close> its completeness, and \<^verbatim>\<open>AccTree\<close>
    interprets the contract on the reads of \<^verbatim>\<open>AccNode\<close>.
  \<^item> \<^verbatim>\<open>AccBackend\<close>, \<^verbatim>\<open>AccEvents\<close> (\<^verbatim>\<open>accessibility/backend_dbus.go\<close>, \<^verbatim>\<open>events.go\<close>, \<^verbatim>\<open>cache.go\<close>, \<^verbatim>\<open>lifecycle.go\<close>):
    the state of the backend under its mutex, handles with their epoch and incarnation, ancestry,
    revocation, and what a signal does. \<^verbatim>\<open>AccHandles\<close>: which handles are current, through any
    sequence of operations.

  \<^bold>\<open>How the code is read.\<close> Records are the structs, with the fields the modelled code reads;
  Go maps are maps or association lists with distinct keys; errors are values of a sum type, one
  constructor per error site or kind, wrapped texts left out; machine words are words and Go's
  \<^verbatim>\<open>int\<close> is an integer with its wrap-around written out where it can happen. The wire is that of
  a little-endian machine. Mutex sections are atomic; everything between them interleaves.
  \<^verbatim>\<open>strings.ToLower\<close> and \<^verbatim>\<open>strings.TrimSpace\<close> of key names are those of ASCII, which key names are;
  the window matcher takes the Unicode tables as parameters, with the facts it needs about
  them (\<^verbatim>\<open>case_mapping\<close>, \<^verbatim>\<open>print_table\<close>) as named hypotheses that the ASCII tables satisfy.
  Sockets, file descriptors and the context are parameters: functions from instants to results.
  So is the screen. Pixel slices have no spare capacity, a subimage of a buffer shares its bytes,
  drawing into a new image copies the colour of each pixel, and a caller's hasher is a function of
  the bytes it has been given. Answers of the accessibility bus are those of a world that every
  call may change; nothing is assumed of them, except where a theorem is about a tree that stands
  still (\<^verbatim>\<open>shows_tree\<close>). The JSON encoder writes at most three bytes for a byte that is not UTF-8 and at
  most 32 for a floating point number, a snapshot was traversed (it has nodes, and their lists
  of relation targets are not empty), and its size is an \<^verbatim>\<open>int\<close>. No printable ASCII character is a
  space (\<^verbatim>\<open>space_table\<close>). A log of fewer than 2^64 operations keeps the 64-bit counters of
  handles from wrapping around.

  \<^bold>\<open>What is shown.\<close> Safety and progress of shutdown and of shared connections under every
  interleaving; round trips of all codecs and parsers; that decoders never index out of range
  and that chunking does not matter; that device identities stay distinct and only granted
  devices are used; that cancellation at any instant strands no key and that texts are typed
  exactly; that optimised searches, pixel hashes and caches equal their reference; that a wait
  for pixels ends at the first capture that satisfies it, and when it must end; and bounds.
  Accessibility: a response is within its budget and keeps the longest prefix that fits; a
  traversal yields a bounded tree with diagnostics that add up, discloses nothing sensitive
  unless asked to, and misses no object when it reports nothing; a snapshot is accepted exactly
  when nothing the selector needs is missing; removal revokes exactly the handles below the
  removed object, and no handle that has ended becomes current again.

  \<^bold>\<open>Fuel and termination.\<close> No definition uses fuel: loops over data terminate by their length,
  and loops that wait are partial functions into options with their own theorems.

  \<^bold>\<open>Not modelled.\<close> Backends that only translate calls into a foreign protocol (portal, XTest, KWin
  scripts, GNOME bridge, screen capture protocols), process and session set-up, the command
  line, tests and generated code are input and output or glue around the parts above. Of the
  modelled files: opening sockets and shared memory, \<^verbatim>\<open>Close\<close> of transports, and the passing of
  file descriptors. Of the accessibility code: the loading and publication of the caches, the
  relevance of observed changes, event subscriptions and connections, application and window
  lookup, and automation. Still open are the Sway tree, the uinput device and the lists of
  capabilities.
\<close>

end
